(* ===== verification/Prelude.thy ===== *)
theory Prelude
  imports Main "HOL-Library.Word"
begin

text \<open>
  Shared vocabulary of the development: machine integers, byte strings, the
  \<^verbatim>\<open>Result\<close> type of the Rust sources with its \<^verbatim>\<open>?\<close> operator, big-endian and
  little-endian integer encodings, bit fields of a byte, and the two interfaces
  most components implement: a prefix codec (an encoder and a decoder that reads
  one value off the front of a buffer) and a transition system with an invariant.

  Lengths and offsets (\<^verbatim>\<open>usize\<close>) are \<open>nat\<close>: no buffer of the program
  approaches \<open>2 ^ 64\<close> bytes. Values of type \<^verbatim>\<open>u8\<close>, \<^verbatim>\<open>u16\<close>, \<^verbatim>\<open>u32\<close> and
  \<^verbatim>\<open>u64\<close> are words of their width, with the wrap-around of a release build
  (the workspace sets no \<^verbatim>\<open>overflow-checks\<close>).
\<close>

unbundle bit_operations_syntax

section \<open>Machine integers and results\<close>

type_synonym u8 = "8 word"
type_synonym u16 = "16 word"
type_synonym u32 = "32 word"
type_synonym u64 = "64 word"
type_synonym bytes = "u8 list"

text \<open>
  An \<^verbatim>\<open>anyhow\<close> error carries a message; a panic (an out-of-range subslice, an
  \<^verbatim>\<open>expect\<close>) aborts the task. Both are values of the model.
\<close>

datatype error = Bail string | Panic string

type_synonym 'a result = "error + 'a"

named_theorems result_simps
named_theorems byte_simps

text \<open>The \<^verbatim>\<open>?\<close> operator: stop at the first error.\<close>

fun and_then :: "'a result \<Rightarrow> ('a \<Rightarrow> 'b result) \<Rightarrow> 'b result" where
  "and_then (Inl e) f = Inl e"
| "and_then (Inr x) f = f x"

lemma and_then_eq_Inr [result_simps]:
  "and_then r f = Inr y \<longleftrightarrow> (\<exists>x. r = Inr x \<and> f x = Inr y)"
  by (cases r) auto

lemma and_then_eq_Inl [result_simps]:
  "and_then r f = Inl e \<longleftrightarrow> r = Inl e \<or> (\<exists>x. r = Inr x \<and> f x = Inl e)"
  by (cases r) auto

lemma and_then_cong [fundef_cong]:
  "r = r' \<Longrightarrow> (\<And>x. r' = Inr x \<Longrightarrow> f x = g x) \<Longrightarrow> and_then r f = and_then r' g"
  by (cases r') auto

fun is_ok :: "'a result \<Rightarrow> bool" where
  "is_ok (Inl e) = False"
| "is_ok (Inr x) = True"

lemma is_ok_and_then [result_simps]: "is_ok (and_then r f) \<longleftrightarrow> (\<exists>x. r = Inr x \<and> is_ok (f x))"
  by (cases r) auto

text \<open>\<^verbatim>\<open>Result::ok\<close> and \<^verbatim>\<open>Option::ok_or\<close>.\<close>

fun ok_opt :: "'a result \<Rightarrow> 'a option" where
  "ok_opt (Inl e) = None"
| "ok_opt (Inr x) = Some x"

section \<open>Slices\<close>

text \<open>\<^verbatim>\<open>data[a..b]\<close> within bounds.\<close>

definition subslice :: "nat \<Rightarrow> nat \<Rightarrow> 'a list \<Rightarrow> 'a list" where
  "subslice a b xs = take (b - a) (drop a xs)"

lemma length_subslice [simp]: "b \<le> length xs \<Longrightarrow> length (subslice a b xs) = b - a"
  by (simp add: subslice_def)

lemma subslice_append_first [simp]: "subslice 0 (length xs) (xs @ ys) = xs"
  by (simp add: subslice_def)

lemma subslice_full [simp]: "subslice 0 (length xs) xs = xs"
  by (simp add: subslice_def)

lemma subslice_append_skip:
  "length xs = a \<Longrightarrow> a \<le> b \<Longrightarrow> subslice a b (xs @ ys) = take (b - a) ys"
  by (simp add: subslice_def)

lemma take_subslice_drop:
  "a \<le> b \<Longrightarrow> b \<le> length xs \<Longrightarrow> take a xs @ subslice a b xs @ drop b xs = xs"
  unfolding subslice_def
  by (metis append.assoc append_take_drop_id drop_drop le_add_diff_inverse2 take_add add.commute le_add_diff_inverse)

section \<open>Big-endian and little-endian integers\<close>

text \<open>\<^verbatim>\<open>uN::from_be_bytes\<close> read as a natural number.\<close>

fun be_val :: "bytes \<Rightarrow> nat" where
  "be_val [] = 0"
| "be_val (b # bs) = unat b * 256 ^ length bs + be_val bs"

text \<open>\<^verbatim>\<open>to_be_bytes\<close> of a value in \<open>n\<close> bytes (the value is truncated to them).\<close>

fun be_bytes :: "nat \<Rightarrow> nat \<Rightarrow> bytes" where
  "be_bytes 0 v = []"
| "be_bytes (Suc n) v = of_nat (v div 256 ^ n) # be_bytes n v"

lemma length_be_bytes [simp]: "length (be_bytes n v) = n"
  by (induction n arbitrary: v) auto

lemma u8_less [simp]: "unat (b :: u8) < 256"
  using unsigned_less [of b] by simp

lemma be_val_less: "be_val bs < 256 ^ length bs"
proof (induction bs)
  case Nil
  then show ?case by simp
next
  case (Cons b bs)
  have "(unat b + 1) * 256 ^ length bs \<le> 256 * 256 ^ length bs"
    using u8_less [of b] by (intro mult_le_mono1) linarith
  then have "unat b * 256 ^ length bs + 256 ^ length bs \<le> 256 * 256 ^ length bs"
    by (simp only: add_mult_distrib mult_1)
  with Cons.IH have "unat b * 256 ^ length bs + be_val bs < 256 * 256 ^ length bs"
    by linarith
  then show ?case by simp
qed

lemma be_val_be_bytes: "be_val (be_bytes n v) = v mod 256 ^ n"
proof (induction n)
  case 0
  then show ?case by simp
next
  case (Suc n)
  have "unat (of_nat (v div 256 ^ n) :: u8) = v div 256 ^ n mod 256"
    by (simp add: unat_of_nat)
  then show ?case using Suc.IH mod_mult2_eq [of v "256 ^ n" 256]
    by (simp add: mult.commute)
qed

lemma be_val_be_bytes_id [simp]: "v < 256 ^ n \<Longrightarrow> be_val (be_bytes n v) = v"
  by (simp add: be_val_be_bytes)

lemma be_bytes_cong: "v mod 256 ^ n = w mod 256 ^ n \<Longrightarrow> be_bytes n v = be_bytes n w"
proof (induction n)
  case 0
  then show ?case by simp
next
  case (Suc n)
  have d: "x div 256 ^ n mod 256 = x mod 256 ^ Suc n div 256 ^ n" for x :: nat
    using mod_mult2_eq [of x "256 ^ n" 256] by (simp add: mult.commute)
  have "(of_nat (v div 256 ^ n) :: u8) = of_nat (w div 256 ^ n)"
    using d [of v] d [of w] Suc.prems
    by (simp add: word_unat_eq_iff unat_of_nat)
  moreover have "v mod 256 ^ n = w mod 256 ^ n"
    using Suc.prems by (metis mod_mod_cancel dvd_triv_right power_Suc)
  ultimately show ?case using Suc.IH by simp
qed

lemma be_bytes_be_val [simp]: "be_bytes (length bs) (be_val bs) = bs"
proof (induction bs)
  case Nil
  then show ?case by simp
next
  case (Cons b bs)
  have "be_bytes (length bs) (unat b * 256 ^ length bs + be_val bs)
      = be_bytes (length bs) (be_val bs)"
    by (rule be_bytes_cong) simp
  then show ?case using Cons.IH be_val_less [of bs] by simp
qed

lemma be_bytes_be_val_len: "length bs = n \<Longrightarrow> be_bytes n (be_val bs) = bs"
  by auto

lemma be_val_inj: "length bs = length cs \<Longrightarrow> be_val bs = be_val cs \<Longrightarrow> bs = cs"
  by (metis be_bytes_be_val)

text \<open>The fixed-width readers and writers of the sources.\<close>

definition u16_be :: "u16 \<Rightarrow> bytes" where "u16_be w = be_bytes 2 (unat w)"
definition u32_be :: "u32 \<Rightarrow> bytes" where "u32_be w = be_bytes 4 (unat w)"
definition u64_be :: "u64 \<Rightarrow> bytes" where "u64_be w = be_bytes 8 (unat w)"
definition u32_le :: "u32 \<Rightarrow> bytes" where "u32_le w = rev (u32_be w)"
definition u64_le :: "u64 \<Rightarrow> bytes" where "u64_le w = rev (u64_be w)"

definition be_u16 :: "bytes \<Rightarrow> u16" where "be_u16 bs = of_nat (be_val bs)"
definition be_u32 :: "bytes \<Rightarrow> u32" where "be_u32 bs = of_nat (be_val bs)"
definition be_u64 :: "bytes \<Rightarrow> u64" where "be_u64 bs = of_nat (be_val bs)"
definition le_u32 :: "bytes \<Rightarrow> u32" where "le_u32 bs = be_u32 (rev bs)"

lemma length_uN_be [simp]:
  "length (u16_be a) = 2" "length (u32_be b) = 4" "length (u64_be c) = 8"
  "length (u32_le b) = 4" "length (u64_le c) = 8"
  by (simp_all add: u16_be_def u32_be_def u64_be_def u32_le_def u64_le_def)

lemma u16_less: "unat (w :: u16) < 65536" using unsigned_less [of w] by simp
lemma u32_less: "unat (w :: u32) < 4294967296" using unsigned_less [of w] by simp
lemma u64_less: "unat (w :: u64) < 18446744073709551616" using unsigned_less [of w] by simp

lemma be_u16_u16_be [simp]: "be_u16 (u16_be w) = w"
  using u16_less [of w] by (simp add: be_u16_def u16_be_def)

lemma be_u32_u32_be [simp]: "be_u32 (u32_be w) = w"
  using u32_less [of w] by (simp add: be_u32_def u32_be_def)

lemma be_u64_u64_be [simp]: "be_u64 (u64_be w) = w"
  using u64_less [of w] by (simp add: be_u64_def u64_be_def)

lemma le_u32_u32_le [simp]: "le_u32 (u32_le w) = w"
  by (simp add: le_u32_def u32_le_def)

lemma u16_be_be_u16: "length bs = 2 \<Longrightarrow> u16_be (be_u16 bs) = bs"
  using be_val_less [of bs] by (simp add: u16_be_def be_u16_def unat_of_nat be_bytes_be_val_len)

lemma u32_be_be_u32: "length bs = 4 \<Longrightarrow> u32_be (be_u32 bs) = bs"
  using be_val_less [of bs] by (simp add: u32_be_def be_u32_def unat_of_nat be_bytes_be_val_len)

section \<open>Bit fields\<close>

text \<open>
  A byte such as \<^verbatim>\<open>(fmt << 6) | cs_id\<close> is a pair of fields; reading it back
  with \<^verbatim>\<open>>>\<close> and \<^verbatim>\<open>&\<close> returns the fields when they are in range.
\<close>

lemma and_mask_numerals [byte_simps]:
  "w AND 1 = take_bit 1 w" "w AND 3 = take_bit 2 w" "w AND 7 = take_bit 3 w"
  "w AND 15 = take_bit 4 w" "w AND 31 = take_bit 5 w" "w AND 63 = take_bit 6 w"
  "w AND 127 = take_bit 7 w" for w :: "'a::len word"
  by (simp_all add: take_bit_eq_mask mask_eq_exp_minus_1)

lemma take_bit_small: "unat w < 2 ^ n \<Longrightarrow> take_bit n w = w" for w :: "'a::len word"
  by (metis take_bit_eq_mod unsigned_take_bit_eq mod_less word_unat_eq_iff)

lemma unat_take_bit [byte_simps]: "unat (take_bit n w) = unat w mod 2 ^ n" for w :: "'a::len word"
  unfolding unsigned_take_bit_eq by (rule take_bit_eq_mod)

lemma unat_drop_bit [byte_simps]: "unat (drop_bit n w) = unat w div 2 ^ n" for w :: "'a::len word"
  unfolding unat_drop_bit_eq by (rule drop_bit_eq_div)

lemma bit_above_small: "unat w < 2 ^ n \<Longrightarrow> n \<le> i \<Longrightarrow> \<not> bit w i" for w :: "'a::len word"
  by (metis bit_take_bit_iff leD take_bit_small)

text \<open>Reading the two fields of \<open>push_bit n a OR b\<close>.\<close>

lemma drop_pack:
  fixes a b :: "'a::len word"
  assumes "unat a < 2 ^ (LENGTH('a) - n)" and "unat b < 2 ^ n"
  shows "drop_bit n (push_bit n a OR b) = a"
proof (rule bit_word_eqI)
  fix i assume "i < LENGTH('a)"
  have "bit b (n + i) = False" using assms(2) bit_above_small [of b n "n + i"] by simp
  moreover have "n + i < LENGTH('a) \<or> \<not> bit a i"
    using bit_above_small [OF assms(1), of i] by (cases "n + i < LENGTH('a)") simp_all
  ultimately show "bit (drop_bit n (push_bit n a OR b)) i = bit a i"
    by (auto simp: bit_drop_bit_eq bit_or_iff bit_push_bit_iff)
qed

lemma take_pack:
  fixes a b :: "'a::len word"
  assumes "unat b < 2 ^ n"
  shows "take_bit n (push_bit n a OR b) = b"
proof (rule bit_word_eqI)
  fix i assume "i < LENGTH('a)"
  show "bit (take_bit n (push_bit n a OR b)) i = bit b i"
    using bit_above_small [OF assms, of i]
    by (auto simp: bit_take_bit_iff bit_or_iff bit_push_bit_iff)
qed

lemma pack_split: "push_bit n (drop_bit n w) OR take_bit n w = w" for w :: "'a::len word"
  by (rule bit_word_eqI) (auto simp: bit_simps)

lemma unat_pack:
  fixes a b :: "'a::len word"
  assumes "unat a < 2 ^ (LENGTH('a) - n)" and "unat b < 2 ^ n"
  shows "unat (push_bit n a OR b) = unat a * 2 ^ n + unat b"
proof -
  let ?w = "push_bit n a OR b"
  have "unat ?w div 2 ^ n = unat a"
    using drop_pack [OF assms] unat_drop_bit [of n ?w] by simp
  moreover have "unat ?w mod 2 ^ n = unat b"
    using take_pack [OF assms(2), of a] unat_take_bit [of n ?w] by simp
  ultimately show ?thesis by (metis div_mult_mod_eq)
qed

lemma of_bool_byte: "unat (of_bool p :: u8) < 2"
  by (cases p) auto

lemma low_mask_small [simp]:
  "unat w < 16 \<Longrightarrow> w AND 15 = w" "unat w < 32 \<Longrightarrow> w AND 31 = w" "unat w < 128 \<Longrightarrow> w AND 127 = w"
  "unat w < 4 \<Longrightarrow> w AND 3 = w"
  for w :: u8
  by (simp_all add: byte_simps take_bit_small)

section \<open>Numbers and text\<close>

text \<open>The position of the highest bit.\<close>

fun ilog2 :: "nat \<Rightarrow> nat" where
  "ilog2 n = (if n < 2 then 0 else Suc (ilog2 (n div 2)))"

declare ilog2.simps [simp del]

lemma ilog2_bounds: "0 < n \<Longrightarrow> 2 ^ ilog2 n \<le> n \<and> n < 2 ^ Suc (ilog2 n)"
proof (induction n rule: ilog2.induct)
  case (1 n)
  show ?case
  proof (cases "n < 2")
    case True
    then show ?thesis using "1.prems" by (simp add: ilog2.simps)
  next
    case False
    then have "2 ^ ilog2 (n div 2) \<le> n div 2 \<and> n div 2 < 2 ^ Suc (ilog2 (n div 2))"
      using "1.IH" by simp
    moreover have "ilog2 n = Suc (ilog2 (n div 2))" using False by (subst ilog2.simps) simp
    ultimately show ?thesis by auto
  qed
qed

lemma ilog2_less: "0 < n \<Longrightarrow> n < 2 ^ m \<Longrightarrow> ilog2 n < m"
  using ilog2_bounds [of n] by (meson le_less_trans linorder_not_le power_increasing_iff power_less_imp_less_exp one_less_numeral_iff semiring_norm(76))

text \<open>The bytes of an ASCII literal.\<close>

definition ascii :: "string \<Rightarrow> bytes" where
  "ascii s = map of_char s"

text \<open>Decimal digits, as \<^verbatim>\<open>format!("{}", n)\<close> writes them.\<close>

fun dec_digits :: "nat \<Rightarrow> bytes" where
  "dec_digits n = (if n < 10 then [48 + of_nat n] else dec_digits (n div 10) @ [48 + of_nat (n mod 10)])"

declare dec_digits.simps [simp del]

text \<open>\<^verbatim>\<open>String::from_utf8\<close> accepts exactly the well-formed UTF-8 byte sequences.\<close>

definition utf8_cont :: "u8 \<Rightarrow> bool" where
  "utf8_cont b \<longleftrightarrow> 0x80 \<le> b \<and> b \<le> 0xBF"

definition utf8_3 :: "u8 \<Rightarrow> u8 \<Rightarrow> bool" where
  "utf8_3 a b \<longleftrightarrow> (a = 0xE0 \<and> 0xA0 \<le> b \<and> b \<le> 0xBF) \<or> (0xE1 \<le> a \<and> a \<le> 0xEC \<and> utf8_cont b)
     \<or> (a = 0xED \<and> 0x80 \<le> b \<and> b \<le> 0x9F) \<or> (0xEE \<le> a \<and> a \<le> 0xEF \<and> utf8_cont b)"

definition utf8_4 :: "u8 \<Rightarrow> u8 \<Rightarrow> bool" where
  "utf8_4 a b \<longleftrightarrow> (a = 0xF0 \<and> 0x90 \<le> b \<and> b \<le> 0xBF) \<or> (0xF1 \<le> a \<and> a \<le> 0xF3 \<and> utf8_cont b)
     \<or> (a = 0xF4 \<and> 0x80 \<le> b \<and> b \<le> 0x8F)"

fun utf8_valid :: "bytes \<Rightarrow> bool" where
  "utf8_valid [] = True"
| "utf8_valid (a # bs) =
     (if a < 0x80 then utf8_valid bs
      else if 0xC2 \<le> a \<and> a \<le> 0xDF
      then (case bs of b # cs \<Rightarrow> utf8_cont b \<and> utf8_valid cs | [] \<Rightarrow> False)
      else if 0xE0 \<le> a \<and> a \<le> 0xEF
      then (case bs of b # c # cs \<Rightarrow> utf8_3 a b \<and> utf8_cont c \<and> utf8_valid cs | _ \<Rightarrow> False)
      else (case bs of b # c # d # cs \<Rightarrow> utf8_4 a b \<and> utf8_cont c \<and> utf8_cont d \<and> utf8_valid cs
            | _ \<Rightarrow> False))"

lemma utf8_ascii: "\<forall>b \<in> set bs. b < 0x80 \<Longrightarrow> utf8_valid bs"
  by (induction bs) simp_all

section \<open>Interfaces\<close>

text \<open>
  A prefix codec: \<open>dec\<close> reads one value off the front of a buffer and returns
  the rest. The one law gives that an encoding determines the value and where
  it ends, alone and in a sequence.
\<close>

locale prefix_codec =
  fixes enc :: "'a \<Rightarrow> 'b list"
    and dec :: "'b list \<Rightarrow> ('a \<times> 'b list) option"
    and valid :: "'a \<Rightarrow> bool"
  assumes dec_enc: "valid x \<Longrightarrow> dec (enc x @ rest) = Some (x, rest)"
begin

lemma enc_prefix_free:
  assumes "valid x" and "valid y" and "enc x @ r = enc y @ s"
  shows "x = y \<and> r = s"
proof -
  have "Some (x, r) = Some (y, s)"
    using dec_enc [OF assms(1), of r, unfolded assms(3)] dec_enc [OF assms(2), of s]
    by (rule trans [OF sym])
  then show ?thesis by simp
qed

lemma enc_inj: "valid x \<Longrightarrow> valid y \<Longrightarrow> enc x = enc y \<Longrightarrow> x = y"
  using enc_prefix_free [of x y "[]" "[]"] by simp

lemma enc_list_inj:
  assumes "\<forall>x \<in> set xs. valid x" and "\<forall>y \<in> set ys. valid y" and "length xs = length ys"
    and "concat (map enc xs) @ r = concat (map enc ys) @ s"
  shows "xs = ys \<and> r = s"
  using assms(3,1,2,4)
proof (induction xs ys arbitrary: r s rule: list_induct2)
  case Nil
  then show ?case by simp
next
  case (Cons x xs y ys)
  have "enc x @ (concat (map enc xs) @ r) = enc y @ (concat (map enc ys) @ s)"
    using Cons.prems(3) by simp
  then have "x = y \<and> concat (map enc xs) @ r = concat (map enc ys) @ s"
    using Cons.prems(1,2) by (intro enc_prefix_free) simp_all
  then show ?case using Cons.IH [of r s] Cons.prems(1,2) by simp
qed

end

text \<open>A whole-buffer codec: decoding an encoded value gives it back.\<close>

locale codec =
  fixes enc :: "'a \<Rightarrow> 'b"
    and dec :: "'b \<Rightarrow> 'a result"
    and valid :: "'a \<Rightarrow> bool"
  assumes decode_encode: "valid x \<Longrightarrow> dec (enc x) = Inr x"
begin

lemma encode_inj: "valid x \<Longrightarrow> valid y \<Longrightarrow> enc x = enc y \<Longrightarrow> x = y"
  by (metis decode_encode sum.inject(2))

lemma encode_decode_encode: "valid x \<Longrightarrow> dec (enc x) = Inr y \<Longrightarrow> enc y = enc x"
  by (metis decode_encode sum.inject(2))

lemma decode_all: "\<forall>x \<in> set xs. valid x \<Longrightarrow> map dec (map enc xs) = map Inr xs"
  by (induction xs) (simp_all add: decode_encode)

end

text \<open>
  A component with state: an initial state, a step for every operation and an
  invariant that the initial state has and every operation keeps.
\<close>

locale inv_system =
  fixes init :: "'s \<Rightarrow> bool"
    and step :: "'op \<Rightarrow> 's \<Rightarrow> 's"
    and inv :: "'s \<Rightarrow> bool"
  assumes inv_init: "init s \<Longrightarrow> inv s"
    and inv_step: "inv s \<Longrightarrow> inv (step op s)"
begin

lemma inv_run: "inv s \<Longrightarrow> inv (fold step ops s)"
  by (induction ops arbitrary: s) (auto simp: inv_step)

lemma inv_reachable: "init s \<Longrightarrow> inv (fold step ops s)"
  by (rule inv_run [OF inv_init])

end

section \<open>Lists of events\<close>

lemma distinct_map_neq:
  assumes "distinct (map f (y # xs))" "x \<in> set xs"
  shows "f x \<noteq> f y"
proof
  assume "f x = f y"
  then have "f y \<in> f ` set xs" using imageI [OF assms(2), of f] by (simp only:)
  then show False using assms(1) by simp
qed

lemma filter_concat_unique:
  assumes "distinct (map f xs)" "x \<in> set xs" "\<And>y e. y \<in> set xs \<Longrightarrow> e \<in> set (g y) \<Longrightarrow> P e \<longleftrightarrow> f y = f x"
  shows "filter P (concat (map g xs)) = g x"
  using assms
proof (induction xs)
  case (Cons y xs)
  show ?case
  proof (cases "x = y")
    case True
    have "\<not> P e" if "e \<in> set (concat (map g xs))" for e
    proof -
      obtain z where z: "z \<in> set xs" "e \<in> set (g z)" using \<open>e \<in> set (concat (map g xs))\<close> by auto
      have "f z \<noteq> f y" by (rule distinct_map_neq [OF Cons.prems(1) z(1)])
      then show ?thesis using Cons.prems(3) [of z e] z True by simp
    qed
    moreover have "P e" if "e \<in> set (g x)" for e using Cons.prems(3) [of x e] Cons.prems(2) that by simp
    ultimately show ?thesis using True by (simp add: filter_empty_conv filter_id_conv)
  next
    case False
    then have x: "x \<in> set xs" using Cons.prems(2) by simp
    have "f y \<noteq> f x" using distinct_map_neq [OF Cons.prems(1) x] by simp
    then have "\<not> P e" if "e \<in> set (g y)" for e using Cons.prems(3) [of y e] that by simp
    moreover have "filter P (concat (map g xs)) = g x" using Cons.prems by (intro Cons.IH x) auto
    ultimately show ?thesis by (simp add: filter_empty_conv)
  qed
qed simp

end
