(* ===== verification/Rtp.thy ===== *)
theory Rtp
  imports Prelude
begin

text \<open>
  RTP packets (RFC 3550) and the H.264 RTP payload formats (RFC 6184) of
  \<^verbatim>\<open>crates/protocols/src/rtp.rs\<close>: the packet parser and serialiser, FU-A
  fragmentation and reassembly, STAP-A aggregation. The lemmas show that parsing
  inverts serialisation, that reassembly inverts fragmentation for every NAL unit
  and every admissible MTU, that fragments respect the MTU and number themselves
  consecutively modulo \<open>2 ^ 16\<close>, and that STAP-A aggregation inverts for units that
  fit the 16-bit size field (and only for those).
\<close>

section \<open>Packets\<close>

definition RTP_HEADER_SIZE :: nat where "RTP_HEADER_SIZE = 12"
definition RTP_VERSION :: u8 where "RTP_VERSION = 2"
definition H264_PAYLOAD_TYPE :: u8 where "H264_PAYLOAD_TYPE = 96"

record rtp_header_flags =
  rf_version :: u8
  rf_padding :: bool
  rf_extension :: bool
  rf_csrc_count :: u8
  rf_marker :: bool
  rf_payload_type :: u8

definition rtp_header_flags_default :: rtp_header_flags where
  "rtp_header_flags_default =
     \<lparr>rf_version = RTP_VERSION, rf_padding = False, rf_extension = False,
      rf_csrc_count = 0, rf_marker = False, rf_payload_type = H264_PAYLOAD_TYPE\<rparr>"

record rtp_packet =
  rp_flags :: rtp_header_flags
  rp_sequence_number :: u16
  rp_timestamp :: u32
  rp_ssrc :: u32
  rp_csrc_list :: "u32 list"
  rp_extension_profile :: "u16 option"
  rp_extension_data :: bytes
  rp_payload :: bytes

text \<open>The loop over the CSRC entries: \<open>n\<close> entries still to read at \<open>offset\<close>.\<close>

fun parse_csrc :: "bytes \<Rightarrow> nat \<Rightarrow> nat \<Rightarrow> u32 list \<Rightarrow> (u32 list \<times> nat) result" where
  "parse_csrc data 0 offset csrc_list = Inr (csrc_list, offset)"
| "parse_csrc data (Suc n) offset csrc_list =
     (if offset + 4 > length data
      then Inl (Bail ''RTP packet truncated: missing CSRC entry'')
      else parse_csrc data n (offset + 4)
             (csrc_list @ [be_u32 (subslice offset (offset + 4) data)]))"

definition parse_extension ::
  "bytes \<Rightarrow> bool \<Rightarrow> nat \<Rightarrow> (u16 option \<times> bytes \<times> nat) result" where
  "parse_extension data extension offset =
     (if extension then
        if offset + 4 > length data
        then Inl (Bail ''RTP packet truncated: missing extension header'')
        else
          let profile = be_u16 (subslice offset (offset + 2) data);
              ext_len_words = unat (be_u16 (subslice (offset + 2) (offset + 4) data));
              offset = offset + 4;
              ext_data_end_byte = offset + ext_len_words * 4
          in if ext_data_end_byte > length data
             then Inl (Bail ''RTP packet truncated: extension data'')
             else Inr (Some profile, subslice offset ext_data_end_byte data, ext_data_end_byte)
      else Inr (None, [], offset))"

definition strip_padding :: "bool \<Rightarrow> bytes \<Rightarrow> bytes result" where
  "strip_padding padding raw_payload =
     (if padding then
        if raw_payload = [] then Inl (Bail ''RTP padding flag is set but no payload present'')
        else
          let pad_len = unat (last raw_payload)
          in if pad_len = 0 \<or> pad_len > length raw_payload
             then Inl (Bail ''Invalid RTP padding length'')
             else Inr (take (length raw_payload - pad_len) raw_payload)
      else Inr raw_payload)"

definition rtp_parse :: "bytes \<Rightarrow> rtp_packet result" where
  "rtp_parse data =
     (if length data < RTP_HEADER_SIZE then Inl (Bail ''RTP packet too short'')
      else
        let first_byte = data ! 0;
            second_byte = data ! 1;
            version = drop_bit 6 first_byte AND 3
        in if version \<noteq> RTP_VERSION then Inl (Bail ''Unsupported RTP version'')
           else
             let padding = (drop_bit 5 first_byte AND 1 \<noteq> 0);
                 extension = (drop_bit 4 first_byte AND 1 \<noteq> 0);
                 csrc_count = first_byte AND 15;
                 marker = (drop_bit 7 second_byte AND 1 \<noteq> 0);
                 payload_type = second_byte AND 127;
                 sequence_number = be_u16 (subslice 2 4 data);
                 timestamp = be_u32 (subslice 4 8 data);
                 ssrc = be_u32 (subslice 8 12 data)
             in and_then (parse_csrc data (unat csrc_count) RTP_HEADER_SIZE [])
                  (\<lambda>(csrc_list, offset).
                and_then (parse_extension data extension offset)
                  (\<lambda>(extension_profile, extension_data, offset).
                and_then (strip_padding padding (drop offset data))
                  (\<lambda>payload.
                Inr \<lparr>rp_flags = \<lparr>rf_version = version, rf_padding = padding,
                                 rf_extension = extension, rf_csrc_count = csrc_count,
                                 rf_marker = marker, rf_payload_type = payload_type\<rparr>,
                     rp_sequence_number = sequence_number, rp_timestamp = timestamp,
                     rp_ssrc = ssrc, rp_csrc_list = csrc_list,
                     rp_extension_profile = extension_profile,
                     rp_extension_data = extension_data, rp_payload = payload\<rparr>))))"

text \<open>\<^verbatim>\<open>(raw_len + 3) & !3\<close>: the next multiple of four.\<close>

definition ext_padded_len :: "nat \<Rightarrow> nat" where
  "ext_padded_len raw_len = (raw_len + 3) div 4 * 4"

definition rtp_to_bytes :: "rtp_packet \<Rightarrow> bytes" where
  "rtp_to_bytes p =
     (let flags = rp_flags p;
          ext_data_len = (if rf_extension flags
                          then ext_padded_len (length (rp_extension_data p)) else 0);
          first_byte = push_bit 6 (rf_version flags) OR push_bit 5 (of_bool (rf_padding flags))
                       OR push_bit 4 (of_bool (rf_extension flags)) OR (rf_csrc_count flags AND 15);
          second_byte = push_bit 7 (of_bool (rf_marker flags)) OR (rf_payload_type flags AND 127)
      in [first_byte, second_byte] @ u16_be (rp_sequence_number p) @ u32_be (rp_timestamp p)
         @ u32_be (rp_ssrc p) @ concat (map u32_be (rp_csrc_list p))
         @ (if rf_extension flags then
              u16_be (case rp_extension_profile p of None \<Rightarrow> 0 | Some pr \<Rightarrow> pr)
              @ u16_be (of_nat (ext_data_len div 4))
              @ rp_extension_data p
              @ replicate (ext_data_len - length (rp_extension_data p)) 0
            else [])
         @ rp_payload p)"

section \<open>H.264 payload formats\<close>

datatype rtp_nal_type = Single u8 | StapA | FuA

definition rtp_nal_type_try_from :: "u8 \<Rightarrow> rtp_nal_type result" where
  "rtp_nal_type_try_from value =
     (if 1 \<le> value \<and> value \<le> 23 then Inr (Single value)
      else if value = 24 then Inr StapA
      else if value = 28 then Inr FuA
      else Inl (Bail ''Unsupported RTP H.264 NAL type''))"

record fua_indicator =
  fi_forbidden_zero_bit :: u8
  fi_nal_ref_idc :: u8

record fua_header =
  fh_start :: bool
  fh_end :: bool
  fh_reserved :: u8
  fh_nal_unit_type :: u8

definition parse_fua_indicator :: "u8 \<Rightarrow> fua_indicator" where
  "parse_fua_indicator byte =
     \<lparr>fi_forbidden_zero_bit = drop_bit 7 byte AND 1, fi_nal_ref_idc = drop_bit 5 byte AND 3\<rparr>"

definition parse_fua_header :: "u8 \<Rightarrow> fua_header" where
  "parse_fua_header byte =
     \<lparr>fh_start = (drop_bit 7 byte AND 1 \<noteq> 0), fh_end = (drop_bit 6 byte AND 1 \<noteq> 0),
      fh_reserved = drop_bit 5 byte AND 1, fh_nal_unit_type = byte AND 31\<rparr>"

definition build_fua_indicator :: "u8 \<Rightarrow> u8" where
  "build_fua_indicator nal_ref_idc = push_bit 5 (nal_ref_idc AND 3) OR 28"

definition build_fua_header :: "bool \<Rightarrow> bool \<Rightarrow> u8 \<Rightarrow> u8" where
  "build_fua_header start end_flag nal_unit_type =
     push_bit 7 (of_bool start) OR push_bit 6 (of_bool end_flag) OR (nal_unit_type AND 31)"

definition get_rtp_nal_type :: "bytes \<Rightarrow> rtp_nal_type result" where
  "get_rtp_nal_type payload =
     (if payload = [] then Inl (Bail ''Empty RTP payload'')
      else rtp_nal_type_try_from (payload ! 0 AND 31))"

definition is_single_nal :: "bytes \<Rightarrow> bool" where
  "is_single_nal payload =
     (case payload of [] \<Rightarrow> False | b # _ \<Rightarrow> 1 \<le> b AND 31 \<and> b AND 31 \<le> 23)"

definition is_stapa :: "bytes \<Rightarrow> bool" where
  "is_stapa payload = (case payload of [] \<Rightarrow> False | b # _ \<Rightarrow> b AND 31 = 24)"

definition is_fua :: "bytes \<Rightarrow> bool" where
  "is_fua payload = (case payload of [] \<Rightarrow> False | b # _ \<Rightarrow> b AND 31 = 28)"

text \<open>
  One fragment of \<^verbatim>\<open>fragment_nal\<close>, and its loop: \<open>k\<close> fragments are left of
  \<open>num_packets\<close>, so the loop index is \<open>num_packets - k\<close>.
\<close>

definition fragment_packet ::
  "u8 \<Rightarrow> u8 \<Rightarrow> bool \<Rightarrow> u8 \<Rightarrow> u16 \<Rightarrow> u32 \<Rightarrow> u32 \<Rightarrow> bytes \<Rightarrow> rtp_packet" where
  "fragment_packet fu_indicator fu_header is_last payload_type seq timestamp ssrc chunk =
     \<lparr>rp_flags = \<lparr>rf_version = RTP_VERSION, rf_padding = False, rf_extension = False,
                 rf_csrc_count = 0, rf_marker = is_last, rf_payload_type = payload_type\<rparr>,
      rp_sequence_number = seq, rp_timestamp = timestamp, rp_ssrc = ssrc, rp_csrc_list = [],
      rp_extension_profile = None, rp_extension_data = [],
      rp_payload = [fu_indicator, fu_header] @ chunk\<rparr>"

fun fragment_loop ::
  "bytes \<Rightarrow> u8 \<Rightarrow> u8 \<Rightarrow> u8 \<Rightarrow> u32 \<Rightarrow> u32 \<Rightarrow> nat \<Rightarrow> nat \<Rightarrow> nat \<Rightarrow> nat \<Rightarrow> u16 \<Rightarrow> rtp_packet list" where
  "fragment_loop nal_data fu_indicator nut pt ts ssrc max_payload num_packets 0 offset seq = []"
| "fragment_loop nal_data fu_indicator nut pt ts ssrc max_payload num_packets (Suc k) offset seq =
     (let i = num_packets - Suc k;
          is_first = (i = 0);
          is_last = (i = num_packets - 1);
          chunk_end = min (offset + max_payload) (length nal_data);
          chunk = subslice offset chunk_end nal_data
      in fragment_packet fu_indicator (build_fua_header is_first is_last nut) is_last pt seq ts ssrc chunk
         # fragment_loop nal_data fu_indicator nut pt ts ssrc max_payload num_packets k
             chunk_end (seq + 1))"

definition div_ceil :: "nat \<Rightarrow> nat \<Rightarrow> nat" where
  "div_ceil a b = (if a mod b = 0 then a div b else a div b + 1)"

definition fragment_nal ::
  "bytes \<Rightarrow> u8 \<Rightarrow> u8 \<Rightarrow> u8 \<Rightarrow> u16 \<Rightarrow> u32 \<Rightarrow> u32 \<Rightarrow> nat \<Rightarrow> rtp_packet list result" where
  "fragment_nal nal_data nal_ref_idc nal_unit_type payload_type sequence_number timestamp ssrc mtu =
     (if nal_data = [] then Inl (Bail ''Cannot fragment empty NAL data'')
      else if mtu \<le> RTP_HEADER_SIZE + 2 then Inl (Bail ''MTU too small for FU-A'')
      else
        let fu_indicator = build_fua_indicator nal_ref_idc;
            max_payload = mtu - RTP_HEADER_SIZE - 2
        in if max_payload = 0 then Inl (Bail ''MTU too small'')
           else
             let num_packets = div_ceil (length nal_data) max_payload
             in Inr (fragment_loop nal_data fu_indicator nal_unit_type payload_type timestamp ssrc
                       max_payload num_packets num_packets 0 sequence_number))"

text \<open>The consistency check of fragment \<open>i\<close> of \<open>n\<close>, and the loop over all fragments.\<close>

definition check_fragment ::
  "fua_indicator \<Rightarrow> fua_header \<Rightarrow> nat \<Rightarrow> nat \<Rightarrow> rtp_packet \<Rightarrow> unit result" where
  "check_fragment indicator header n i packet =
     (let pld = rp_payload packet
      in if length pld < 2 then Inl (Bail ''FU-A fragment payload too short'')
         else
           let fi = parse_fua_indicator (pld ! 0);
               fh = parse_fua_header (pld ! 1)
           in if fi_nal_ref_idc fi \<noteq> fi_nal_ref_idc indicator
              then Inl (Bail ''FU-A fragment nal_ref_idc mismatch'')
              else if fh_nal_unit_type fh \<noteq> fh_nal_unit_type header
              then Inl (Bail ''FU-A fragment nal_unit_type mismatch'')
              else if i = 0 \<and> \<not> fh_start fh
              then Inl (Bail ''FU-A fragment 0 must have start=1'')
              else if i = n - 1 \<and> \<not> fh_end fh
              then Inl (Bail ''FU-A fragment must have end=1'')
              else if 0 < i \<and> i < n - 1 \<and> (fh_start fh \<or> fh_end fh)
              then Inl (Bail ''FU-A middle fragment has start or end'')
              else Inr ())"

fun check_fragments ::
  "fua_indicator \<Rightarrow> fua_header \<Rightarrow> nat \<Rightarrow> nat \<Rightarrow> rtp_packet list \<Rightarrow> unit result" where
  "check_fragments indicator header n i [] = Inr ()"
| "check_fragments indicator header n i (p # ps) =
     and_then (check_fragment indicator header n i p)
       (\<lambda>_. check_fragments indicator header n (Suc i) ps)"

definition reassemble_fua :: "rtp_packet list \<Rightarrow> bytes result" where
  "reassemble_fua packets =
     (if packets = [] then Inl (Bail ''No FU-A packets to reassemble'')
      else
        let first_payload = rp_payload (packets ! 0)
        in if length first_payload < 2 then Inl (Bail ''FU-A packet 0 payload too short'')
           else
             let indicator = parse_fua_indicator (first_payload ! 0);
                 header = parse_fua_header (first_payload ! 1)
             in if fi_forbidden_zero_bit indicator \<noteq> 0
                then Inl (Bail ''FU-A forbidden zero bit is set in fragment 0'')
                else if \<not> fh_start header
                then Inl (Bail ''First FU-A fragment must have the start flag set'')
                else
                  let nal_header_byte = push_bit 7 (fi_forbidden_zero_bit indicator)
                                        OR push_bit 5 (fi_nal_ref_idc indicator)
                                        OR fh_nal_unit_type header
                  in and_then (check_fragments indicator header (length packets) 0 packets)
                       (\<lambda>_. Inr (nal_header_byte
                                # concat (map (\<lambda>p. drop 2 (rp_payload p)) packets))))"

text \<open>The loop of \<^verbatim>\<open>parse_stapa\<close>.\<close>

function parse_stapa_loop :: "bytes \<Rightarrow> nat \<Rightarrow> bytes list \<Rightarrow> bytes list result" where
  "parse_stapa_loop payload offset nals =
     (if offset < length payload then
        if offset + 2 > length payload
        then Inl (Bail ''STAP-A truncated: missing 16-bit NAL size'')
        else
          let nal_size = unat (be_u16 (subslice offset (offset + 2) payload));
              offset' = offset + 2
          in if nal_size = 0 then Inl (Bail ''STAP-A: zero-length NAL unit'')
             else if offset' + nal_size > length payload
             then Inl (Bail ''STAP-A truncated: NAL size exceeds remaining data'')
             else parse_stapa_loop payload (offset' + nal_size)
                    (nals @ [subslice offset' (offset' + nal_size) payload])
      else Inr nals)"
  by pat_completeness auto
termination
  by (relation "measure (\<lambda>(payload, offset, nals). length payload - offset)") auto

declare parse_stapa_loop.simps [simp del]

definition parse_stapa :: "bytes \<Rightarrow> bytes list result" where
  "parse_stapa payload =
     (if payload = [] then Inl (Bail ''Empty STAP-A payload'')
      else if payload ! 0 AND 31 \<noteq> 24 then Inl (Bail ''Not a STAP-A payload'')
      else parse_stapa_loop payload 1 [])"

definition nal_nri :: "u8 \<Rightarrow> u8" where
  "nal_nri first = drop_bit 5 first AND 3"

fun check_stapa_nals :: "u8 \<Rightarrow> bytes list \<Rightarrow> unit result" where
  "check_stapa_nals nal_ref_idc [] = Inr ()"
| "check_stapa_nals nal_ref_idc (nal # nals) =
     (case nal of
        [] \<Rightarrow> Inl (Bail ''STAP-A: NAL unit is empty'')
      | first # _ \<Rightarrow>
          if nal_nri first \<noteq> nal_ref_idc
          then Inl (Bail ''STAP-A: all NALs must share the same NRI'')
          else check_stapa_nals nal_ref_idc nals)"

definition stapa_unit :: "bytes \<Rightarrow> bytes" where
  "stapa_unit nal = u16_be (of_nat (length nal)) @ nal"

definition build_stapa :: "bytes list \<Rightarrow> bytes result" where
  "build_stapa nalus =
     (case nalus of
        [] \<Rightarrow> Inl (Bail ''Cannot build STAP-A from empty NAL list'')
      | nal0 # _ \<Rightarrow>
          (case nal0 of
             [] \<Rightarrow> Inl (Bail ''Empty NAL unit 0 in STAP-A'')
           | first # _ \<Rightarrow>
               let nal_ref_idc = nal_nri first
               in and_then (check_stapa_nals nal_ref_idc nalus)
                    (\<lambda>_. Inr ((push_bit 5 nal_ref_idc OR 24)
                             # concat (map stapa_unit nalus)))))"

section \<open>Serialising and parsing packets\<close>

lemma first_byte_pack:
  "push_bit 6 2 OR push_bit 5 (of_bool p) OR push_bit 4 (of_bool x) OR (cc :: u8)
   = push_bit 4 (8 + 2 * of_bool p + of_bool x) OR cc"
  by (cases p; cases x) (simp_all add: or.assoc [symmetric])

lemma first_byte_fields:
  fixes cc :: u8 and p x :: bool
  assumes "unat cc < 16"
  defines "b \<equiv> push_bit 6 2 OR push_bit 5 (of_bool p) OR push_bit 4 (of_bool x) OR cc"
  shows "drop_bit 6 b AND 3 = 2" and "(drop_bit 5 b AND 1 \<noteq> 0) = p"
    and "(drop_bit 4 b AND 1 \<noteq> 0) = x" and "b AND 15 = cc"
proof -
  have b4: "drop_bit 4 b = 8 + 2 * of_bool p + of_bool x"
    unfolding b_def first_byte_pack by (rule drop_pack) (use assms in \<open>cases p; cases x; simp\<close>)+
  have b5: "drop_bit 5 b = drop_bit 1 (drop_bit 4 b)" and b6: "drop_bit 6 b = drop_bit 2 (drop_bit 4 b)"
    by simp_all
  show "drop_bit 6 b AND 3 = 2" unfolding b6 b4 by (cases p; cases x) (simp_all add: or.assoc [symmetric])
  show "(drop_bit 5 b AND 1 \<noteq> 0) = p" unfolding b5 b4 by (cases p; cases x) (simp_all add: or.assoc [symmetric])
  show "(drop_bit 4 b AND 1 \<noteq> 0) = x" unfolding b4 by (cases p; cases x) (simp_all add: or.assoc [symmetric])
  show "b AND 15 = cc" unfolding b_def first_byte_pack
    using assms by (simp add: byte_simps take_pack take_bit_small)
qed

lemma second_byte_fields:
  fixes pt :: u8
  assumes "unat pt < 128"
  shows "(drop_bit 7 (push_bit 7 (of_bool m) OR pt) AND 1 \<noteq> 0) = m"
    and "(push_bit 7 (of_bool m) OR pt) AND 127 = pt"
proof -
  have "drop_bit 7 (push_bit 7 (of_bool m) OR pt) = (of_bool m :: u8)"
    by (rule drop_pack) (use assms of_bool_byte [of m] in simp_all)
  then show "(drop_bit 7 (push_bit 7 (of_bool m) OR pt) AND 1 \<noteq> 0) = m"
    by (cases m) simp_all
  show "(push_bit 7 (of_bool m) OR pt) AND 127 = pt"
    using assms by (simp add: byte_simps take_pack take_bit_small)
qed


lemma parse_csrc_concat:
  "parse_csrc (pre @ concat (map u32_be cs) @ rest) (length cs) (length pre) acc
   = Inr (acc @ cs, length pre + 4 * length cs)"
proof (induction cs arbitrary: pre acc)
  case Nil
  then show ?case by simp
next
  case (Cons c cs)
  have "subslice (length pre) (length pre + 4) (pre @ u32_be c @ concat (map u32_be cs) @ rest) = u32_be c"
    by (simp add: subslice_append_skip)
  then show ?case
    using Cons.IH [of "pre @ u32_be c" "acc @ [c]"] by simp
qed

lemma ext_padded_len_ge: "n \<le> ext_padded_len n" and ext_padded_len_mult: "4 * (ext_padded_len n div 4) = ext_padded_len n"
  unfolding ext_padded_len_def by simp_all

definition rtp_wf :: "rtp_packet \<Rightarrow> bool" where
  "rtp_wf p \<longleftrightarrow> rf_version (rp_flags p) = RTP_VERSION \<and> \<not> rf_padding (rp_flags p)
     \<and> length (rp_csrc_list p) < 16 \<and> rf_csrc_count (rp_flags p) = of_nat (length (rp_csrc_list p))
     \<and> unat (rf_payload_type (rp_flags p)) < 128
     \<and> (if rf_extension (rp_flags p)
        then rp_extension_profile p \<noteq> None \<and> length (rp_extension_data p) \<le> 4 * 65535
        else rp_extension_profile p = None \<and> rp_extension_data p = [])"

definition rtp_canonical :: "rtp_packet \<Rightarrow> rtp_packet" where
  "rtp_canonical p = p\<lparr>rp_extension_data := rp_extension_data p @
     replicate (ext_padded_len (length (rp_extension_data p)) - length (rp_extension_data p)) 0\<rparr>"

definition ext_bytes :: "rtp_packet \<Rightarrow> bytes" where
  "ext_bytes p = (if rf_extension (rp_flags p) then
              u16_be (case rp_extension_profile p of None \<Rightarrow> 0 | Some pr \<Rightarrow> pr)
              @ u16_be (of_nat (ext_padded_len (length (rp_extension_data p)) div 4))
              @ rp_extension_data (rtp_canonical p) else [])"

lemma ext_words_unat:
  "n \<le> 4 * 65535 \<Longrightarrow> unat (of_nat (ext_padded_len n div 4) :: u16) = ext_padded_len n div 4"
  by (simp add: unat_of_nat ext_padded_len_def)

lemma length_canonical_ext:
  "length (rp_extension_data (rtp_canonical p)) = ext_padded_len (length (rp_extension_data p))"
  using ext_padded_len_ge by (simp add: rtp_canonical_def)

lemma slice_skip2: "length xs = 2 \<Longrightarrow> length ys = 2 \<Longrightarrow>
  subslice (length pre + 2) (length pre + 4) (pre @ xs @ ys @ zs) = ys"
  by (simp add: subslice_def)

lemma parse_extension_ext_bytes:
  assumes "rtp_wf p"
  shows "parse_extension (pre @ ext_bytes p @ rest) (rf_extension (rp_flags p)) (length pre)
    = Inr (rp_extension_profile p, rp_extension_data (rtp_canonical p), length pre + length (ext_bytes p))"
proof (cases "rf_extension (rp_flags p)")
  case False
  with assms show ?thesis
    by (simp add: parse_extension_def ext_bytes_def rtp_wf_def rtp_canonical_def ext_padded_len_def)
next
  case True
  with assms obtain pr where pr: "rp_extension_profile p = Some pr"
    and len: "length (rp_extension_data p) \<le> 4 * 65535"
    by (auto simp: rtp_wf_def)
  let ?n = "ext_padded_len (length (rp_extension_data p))"
  let ?d = "rp_extension_data (rtp_canonical p)"
  have eb: "ext_bytes p = u16_be pr @ u16_be (of_nat (?n div 4)) @ ?d"
    using True pr by (simp add: ext_bytes_def)
  have "subslice (length pre) (length pre + 2) (pre @ ext_bytes p @ rest) = u16_be pr"
    unfolding eb by (simp add: subslice_append_skip)
  moreover have "subslice (length pre + 2) (length pre + 4) (pre @ ext_bytes p @ rest) = u16_be (of_nat (?n div 4))"
    unfolding eb append.assoc by (rule slice_skip2) simp_all
  moreover have "subslice (length pre + 4) (length pre + 4 + ?n) (pre @ ext_bytes p @ rest) = ?d"
    unfolding eb by (simp add: subslice_def length_canonical_ext)
  moreover have "length (ext_bytes p) = 4 + ?n"
    unfolding eb by (simp add: length_canonical_ext)
  ultimately show ?thesis
    using True pr len by (simp add: parse_extension_def Let_def ext_words_unat ext_padded_len_mult mult.commute)
qed


lemma rtp_to_bytes_split:
  assumes "rtp_wf p"
  shows "rtp_to_bytes p =
    [push_bit 6 2 OR push_bit 5 (of_bool False) OR push_bit 4 (of_bool (rf_extension (rp_flags p)))
       OR rf_csrc_count (rp_flags p),
     push_bit 7 (of_bool (rf_marker (rp_flags p))) OR rf_payload_type (rp_flags p)]
    @ u16_be (rp_sequence_number p) @ u32_be (rp_timestamp p) @ u32_be (rp_ssrc p)
    @ concat (map u32_be (rp_csrc_list p)) @ ext_bytes p @ rp_payload p"
proof -
  have "unat (rf_csrc_count (rp_flags p)) < 16"
    using assms by (simp add: rtp_wf_def unat_of_nat)
  with assms show ?thesis
    by (simp add: rtp_to_bytes_def ext_bytes_def rtp_canonical_def rtp_wf_def RTP_VERSION_def Let_def)
qed

lemma length_concat_u32: "length (concat (map u32_be cs)) = 4 * length cs"
  by (induction cs) simp_all

lemma header_subslices:
  assumes "length a = 2" "length b = 2" "length c = 4" "length d = 4"
  shows "subslice 2 4 (a @ b @ c @ d @ r) = b" "subslice 4 8 (a @ b @ c @ d @ r) = c"
    "subslice 8 12 (a @ b @ c @ d @ r) = d"
  using assms by (simp_all add: subslice_def)

lemma rtp_roundtrip_lemma:
  assumes wf: "rtp_wf p"
  shows "rtp_parse (rtp_to_bytes p) = Inr (rtp_canonical p)"
proof -
  let ?f = "rp_flags p"
  define b0 where "b0 = push_bit 6 2 OR push_bit 5 (of_bool False)
    OR push_bit 4 (of_bool (rf_extension ?f)) OR rf_csrc_count ?f"
  define b1 where "b1 = push_bit 7 (of_bool (rf_marker ?f)) OR rf_payload_type ?f"
  define hdr where "hdr = [b0, b1] @ u16_be (rp_sequence_number p) @ u32_be (rp_timestamp p) @ u32_be (rp_ssrc p)"
  let ?cs = "concat (map u32_be (rp_csrc_list p))"
  define D where "D = hdr @ ?cs @ ext_bytes p @ rp_payload p"
  have data: "rtp_to_bytes p = D"
    using rtp_to_bytes_split [OF wf] by (simp add: D_def hdr_def b0_def b1_def)
  have cc: "unat (rf_csrc_count ?f) = length (rp_csrc_list p)" and cc16: "unat (rf_csrc_count ?f) < 16"
    and pt: "unat (rf_payload_type ?f) < 128"
    using wf by (simp_all add: rtp_wf_def unat_of_nat)
  have hl: "length hdr = 12" by (simp add: hdr_def)
  have byte0: "D ! 0 = b0" and byte1: "D ! 1 = b1" and len: "\<not> length D < 12"
    by (simp_all add: D_def hdr_def)
  have sl: "subslice 2 4 D = u16_be (rp_sequence_number p)"
    "subslice 4 8 D = u32_be (rp_timestamp p)" "subslice 8 12 D = u32_be (rp_ssrc p)"
    unfolding D_def hdr_def append.assoc by (rule header_subslices; simp)+
  have csrc: "parse_csrc D (length (rp_csrc_list p)) 12 [] =
      Inr (rp_csrc_list p, 12 + 4 * length (rp_csrc_list p))"
    using parse_csrc_concat [of hdr "rp_csrc_list p" "ext_bytes p @ rp_payload p" "[]"] hl
    by (simp add: D_def)
  have ext: "parse_extension D (rf_extension ?f) (12 + 4 * length (rp_csrc_list p)) =
      Inr (rp_extension_profile p, rp_extension_data (rtp_canonical p),
           12 + 4 * length (rp_csrc_list p) + length (ext_bytes p))"
    using parse_extension_ext_bytes [OF wf, of "hdr @ ?cs" "rp_payload p"] hl
    by (simp add: D_def length_concat_u32)
  have pay: "drop (12 + 4 * length (rp_csrc_list p) + length (ext_bytes p)) D = rp_payload p"
    using hl by (simp add: D_def length_concat_u32)
  have flags: "?f = \<lparr>rf_version = 2, rf_padding = False, rf_extension = rf_extension ?f,
      rf_csrc_count = rf_csrc_count ?f, rf_marker = rf_marker ?f,
      rf_payload_type = rf_payload_type ?f\<rparr>"
    using wf by (simp add: rtp_wf_def RTP_VERSION_def)
  show ?thesis
    unfolding data rtp_parse_def Let_def byte0 byte1 sl
    using first_byte_fields [OF cc16, of False "rf_extension ?f", folded b0_def]
      second_byte_fields [OF pt, of "rf_marker ?f", folded b1_def] len flags
    by (simp add: RTP_HEADER_SIZE_def RTP_VERSION_def cc csrc ext pay strip_padding_def
        rtp_canonical_def)
qed

section \<open>Fragmentation and reassembly\<close>

lemma fua_indicator_fields:
  assumes "unat r < 4"
  shows "parse_fua_indicator (build_fua_indicator r) = \<lparr>fi_forbidden_zero_bit = 0, fi_nal_ref_idc = r\<rparr>"
proof -
  let ?b = "push_bit 5 r OR 28 :: u8"
  have b: "build_fua_indicator r = ?b" using assms by (simp add: build_fua_indicator_def)
  have d5: "drop_bit 5 ?b = r" by (rule drop_pack) (use assms in simp_all)
  have "drop_bit 7 ?b = drop_bit 2 (drop_bit 5 ?b)" by simp
  also have "\<dots> = drop_bit 2 r" by (simp only: d5)
  also have "\<dots> = 0" using assms by (simp add: word_unat_eq_iff byte_simps)
  finally have "drop_bit 7 ?b = 0" .
  with d5 assms show ?thesis unfolding b parse_fua_indicator_def by (simp del: drop_bit_or)
qed

lemma fua_header_fields:
  assumes "unat t < 32"
  shows "parse_fua_header (build_fua_header s e t)
    = \<lparr>fh_start = s, fh_end = e, fh_reserved = 0, fh_nal_unit_type = t\<rparr>"
proof -
  let ?b = "push_bit 5 (4 * of_bool s + 2 * of_bool e) OR t :: u8"
  have b: "build_fua_header s e t = ?b"
    using assms by (cases s; cases e) (simp_all add: build_fua_header_def or.assoc [symmetric])
  have d5: "drop_bit 5 ?b = 4 * of_bool s + 2 * of_bool e"
    by (rule drop_pack) (use assms in \<open>cases s; cases e; simp\<close>)+
  have d6: "drop_bit 6 ?b = drop_bit 1 (drop_bit 5 ?b)" and d7: "drop_bit 7 ?b = drop_bit 2 (drop_bit 5 ?b)"
    by simp_all
  have "?b AND 31 = t" using assms by (simp add: byte_simps take_pack take_bit_small)
  then show ?thesis unfolding b parse_fua_header_def d6 d7 d5
    by (cases s; cases e) simp_all
qed

lemma div_ceil_bounds:
  assumes "0 < m" and "0 < (n::nat)"
  shows "0 < div_ceil n m" and "(div_ceil n m - 1) * m < n" and "n \<le> div_ceil n m * m"
proof -
  have nm: "n = n div m * m + n mod m" by simp
  have "n mod m < m" using assms by simp
  show "0 < div_ceil n m" using assms nm by (auto simp: div_ceil_def)
  show "(div_ceil n m - 1) * m < n"
  proof (cases "n mod m = 0")
    case True
    then have "n div m * m = n" using nm by simp
    then show ?thesis using True assms by (simp add: div_ceil_def diff_mult_distrib)
  next
    case False
    then have "n div m * m < n" using nm by linarith
    then show ?thesis using False by (simp add: div_ceil_def)
  qed
  show "n \<le> div_ceil n m * m"
  proof (cases "n mod m = 0")
    case True
    then show ?thesis using nm by (simp add: div_ceil_def)
  next
    case False
    have "n \<le> n div m * m + m" using nm \<open>n mod m < m\<close> by linarith
    then show ?thesis using False by (simp add: div_ceil_def)
  qed
qed

lemma length_fragment_loop [simp]:
  "length (fragment_loop d ind nut pt ts ssrc m n k off seq) = k"
  by (induction k arbitrary: off seq) (simp_all add: Let_def)

lemma rp_payload_fragment_packet [simp]:
  "rp_payload (fragment_packet ind h l pt seq ts ssrc chunk) = ind # h # chunk"
  by (simp add: fragment_packet_def)

lemma chunk_end_step:
  assumes "Suc k \<le> n" and "off = min ((n - Suc k) * m) len"
  shows "min (off + m) len = min ((n - k) * m) len"
proof -
  have "(n - k) * m = (n - Suc k) * m + m"
    using assms(1) by (metis Suc_diff_le add.commute diff_Suc_Suc mult_Suc)
  then show ?thesis using assms(2) by simp
qed

lemma fragment_loop_data:
  assumes "k \<le> n" and "off = min ((n - k) * m) (length d)" and "length d \<le> n * m"
  shows "concat (map (\<lambda>p. drop 2 (rp_payload p)) (fragment_loop d ind nut pt ts ssrc m n k off seq))
    = drop off d"
  using assms
proof (induction k arbitrary: off seq)
  case 0
  then show ?case by simp
next
  case (Suc k)
  let ?ce = "min (off + m) (length d)"
  have "?ce = min ((n - k) * m) (length d)" using Suc.prems(1,2) by (rule chunk_end_step)
  then have "concat (map (\<lambda>p. drop 2 (rp_payload p))
      (fragment_loop d ind nut pt ts ssrc m n k ?ce (seq + 1))) = drop ?ce d"
    using Suc.prems by (intro Suc.IH) simp_all
  moreover have "off \<le> ?ce" using Suc.prems(2) by simp
  then have "subslice off ?ce d @ drop ?ce d = drop off d"
    by (metis append_take_drop_id drop_drop le_add_diff_inverse2 subslice_def)
  ultimately show ?case by (simp add: Let_def)
qed

lemma fragment_loop_check:
  assumes "unat r < 4" and "unat t < 32" and "k \<le> n"
    and "fi_nal_ref_idc indicator = r" and "fh_nal_unit_type header = t"
  shows "check_fragments indicator header n (n - k)
    (fragment_loop d (build_fua_indicator r) t pt ts ssrc m n k off seq) = Inr ()"
  using assms(3)
proof (induction k arbitrary: off seq)
  case 0
  then show ?case by simp
next
  case (Suc k)
  have n: "Suc (n - Suc k) = n - k" using Suc.prems by simp
  show ?case
    using Suc.IH [of "min (off + m) (length d)" "seq + 1"] Suc.prems assms n
    by (auto simp: Let_def check_fragment_def fua_indicator_fields fua_header_fields)
qed

lemma fragment_loop_nth:
  assumes "j < k" and "k \<le> n"
  shows "\<exists>chunk. length chunk \<le> m \<and>
    fragment_loop d ind nut pt ts ssrc m n k off seq ! j =
    fragment_packet ind (build_fua_header (n - k + j = 0) (n - k + j = n - 1) nut)
      (n - k + j = n - 1) pt (seq + of_nat j) ts ssrc chunk"
  using assms
proof (induction k arbitrary: j off seq)
  case 0
  then show ?case by simp
next
  case (Suc k)
  let ?ce = "min (off + m) (length d)"
  show ?case
  proof (cases j)
    case 0
    have "length (subslice off ?ce d) \<le> m" by (simp add: subslice_def)
    then show ?thesis using 0 by (intro exI [of _ "subslice off ?ce d"]) (simp add: Let_def)
  next
    case (Suc i)
    have e: "n - Suc k + Suc i = n - k + i" using Suc.prems by simp
    have "i < k" "k \<le> n" using Suc Suc.prems by simp_all
    from Suc.IH [OF this, of ?ce "seq + 1"] show ?thesis
      unfolding Suc e by (simp add: Let_def add.assoc)
  qed
qed

lemma length_rtp_to_bytes_fragment:
  "length (rtp_to_bytes (fragment_packet ind h l pt seq ts ssrc chunk)) = 14 + length chunk"
  by (simp add: rtp_to_bytes_def fragment_packet_def Let_def)

lemma fragment_nal_eq:
  assumes "nal_data \<noteq> []" and "mtu > 14"
  shows "fragment_nal nal_data r t pt seq ts ssrc mtu =
    Inr (fragment_loop nal_data (build_fua_indicator r) t pt ts ssrc (mtu - 14)
      (div_ceil (length nal_data) (mtu - 14)) (div_ceil (length nal_data) (mtu - 14)) 0 seq)"
  using assms by (simp add: fragment_nal_def RTP_HEADER_SIZE_def Let_def)

lemma nal_header_rebuild:
  assumes "drop_bit 7 (hdr :: u8) = 0"
  shows "push_bit 5 (drop_bit 5 hdr AND 3) OR (hdr AND 31) = hdr"
    and "unat (drop_bit 5 hdr AND 3) < 4" and "unat (hdr AND 31) < 32"
proof -
  have "unat hdr div 128 = 0" using arg_cong [OF assms, of unat] by (simp add: byte_simps)
  then have "unat (drop_bit 5 hdr) < 4" by (simp add: byte_simps)
  then have "drop_bit 5 hdr AND 3 = drop_bit 5 hdr" by simp
  then show "push_bit 5 (drop_bit 5 hdr AND 3) OR (hdr AND 31) = hdr"
    using pack_split [of 5 hdr] by (simp only: byte_simps)
  show "unat (drop_bit 5 hdr AND 3) < 4" "unat (hdr AND 31) < 32"
    by (simp_all add: byte_simps)
qed

lemma fua_roundtrip_lemma:
  assumes "unat r < 4" and "unat t < 32" and "nal_data \<noteq> []" and "mtu > 14"
  shows "and_then (fragment_nal nal_data r t pt seq ts ssrc mtu) reassemble_fua
    = Inr ((push_bit 5 r OR t) # nal_data)"
proof -
  define m where "m = mtu - 14"
  define n where "n = div_ceil (length nal_data) m"
  define ps where "ps = fragment_loop nal_data (build_fua_indicator r) t pt ts ssrc m n n 0 seq"
  have n: "0 < n" "length nal_data \<le> n * m"
    using div_ceil_bounds [of m "length nal_data"] assms by (simp_all add: n_def m_def)
  then obtain n' where n': "n = Suc n'" by (cases n) auto
  have hd: "rp_payload (ps ! 0) = build_fua_indicator r # build_fua_header True (n = 1) t
      # subslice 0 (min m (length nal_data)) nal_data"
    unfolding ps_def n' by (simp add: Let_def)
  have "check_fragments \<lparr>fi_forbidden_zero_bit = 0, fi_nal_ref_idc = r\<rparr>
      \<lparr>fh_start = True, fh_end = (n = 1), fh_reserved = 0, fh_nal_unit_type = t\<rparr> n 0 ps = Inr ()"
    using fragment_loop_check [of r t n n, OF assms(1,2)] by (simp add: ps_def)
  moreover have "concat (map (\<lambda>p. drop 2 (rp_payload p)) ps) = nal_data"
    unfolding ps_def by (subst fragment_loop_data) (use n in simp_all)
  moreover have len: "length ps = n" by (simp add: ps_def)
  moreover have "ps \<noteq> []" using len n(1) by auto
  ultimately have "reassemble_fua ps = Inr ((push_bit 5 r OR t) # nal_data)"
    using hd assms(1,2)
    by (simp add: reassemble_fua_def Let_def fua_indicator_fields fua_header_fields)
  moreover have "fragment_nal nal_data r t pt seq ts ssrc mtu = Inr ps"
    using fragment_nal_eq [OF assms(3,4)] by (simp add: ps_def n_def m_def)
  ultimately show ?thesis by simp
qed

section \<open>Aggregation\<close>

lemma length_stapa_unit [simp]: "length (stapa_unit nal) = 2 + length nal"
  by (simp add: stapa_unit_def)

lemma parse_stapa_loop_units:
  assumes "\<forall>nal \<in> set nals. nal \<noteq> [] \<and> length nal < 65536"
  shows "parse_stapa_loop (pre @ concat (map stapa_unit nals)) (length pre) acc = Inr (acc @ nals)"
  using assms
proof (induction nals arbitrary: pre acc)
  case Nil
  then show ?case by (simp add: parse_stapa_loop.simps)
next
  case (Cons nal nals)
  let ?rest = "concat (map stapa_unit nals)"
  let ?D = "pre @ stapa_unit nal @ ?rest"
  have sz: "unat (of_nat (length nal) :: u16) = length nal" and pos: "0 < length nal"
    using Cons.prems by (simp_all add: unat_of_nat)
  have a: "subslice (length pre) (length pre + 2) ?D = u16_be (of_nat (length nal))"
    by (simp add: subslice_append_skip stapa_unit_def)
  have b: "subslice (length pre + 2) (length pre + 2 + length nal) ?D = nal"
    by (simp add: subslice_def stapa_unit_def)
  have "parse_stapa_loop ?D (length pre + 2 + length nal) (acc @ [nal]) = Inr (acc @ nal # nals)"
    using Cons.IH [of "pre @ stapa_unit nal" "acc @ [nal]"] Cons.prems
    by (simp add: add.assoc)
  then show ?case
    using pos by (subst parse_stapa_loop.simps) (simp add: Let_def a b sz del: add_2_eq_Suc')
qed

lemma check_stapa_nals_ok:
  "check_stapa_nals r nals = Inr () \<longleftrightarrow> (\<forall>nal \<in> set nals. nal \<noteq> [] \<and> nal_nri (hd nal) = r)"
  by (induction nals) (auto split: list.splits)

lemma check_stapa_nals_Inr: "check_stapa_nals r nals = Inr u \<longleftrightarrow> check_stapa_nals r nals = Inr ()"
  by simp

lemma stapa_header_type: "(push_bit 5 (nal_nri b) OR 24) AND 31 = (24::u8)"
proof -
  have "take_bit 5 (push_bit 5 (nal_nri b) OR 24) = (24::u8)" by (rule take_pack) simp
  then show ?thesis by (simp only: byte_simps)
qed

lemma stapa_roundtrip_lemma:
  assumes "build_stapa nals = Inr payload" and "\<forall>nal \<in> set nals. length nal < 65536"
  shows "parse_stapa payload = Inr nals"
proof -
  from assms(1) obtain first rest more where n: "nals = (first # rest) # more"
    and c: "check_stapa_nals (nal_nri first) nals = Inr ()"
    and p: "payload = (push_bit 5 (nal_nri first) OR 24) # concat (map stapa_unit nals)"
    by (auto simp: build_stapa_def Let_def result_simps split: list.splits)
  have "parse_stapa_loop ([push_bit 5 (nal_nri first) OR 24] @ concat (map stapa_unit nals)) 1 [] = Inr nals"
    using parse_stapa_loop_units [of nals "[push_bit 5 (nal_nri first) OR 24]" "[]"] c assms(2)
    by (auto simp: check_stapa_nals_ok)
  then show ?thesis by (simp add: parse_stapa_def p stapa_header_type)
qed

lemma build_stapa_complete:
  "is_ok (build_stapa nals) \<longleftrightarrow> nals \<noteq> [] \<and> (\<forall>nal \<in> set nals. nal \<noteq> [] \<and> nal_nri (hd nal) = nal_nri (hd (hd nals)))"
proof (cases nals)
  case Nil
  then show ?thesis by (simp add: build_stapa_def)
next
  case (Cons n ns)
  then show ?thesis
    by (cases n) (auto simp: build_stapa_def Let_def is_ok_and_then check_stapa_nals_ok)
qed

section \<open>Properties\<close>

lemma rtp_canonical_aligned:
  "4 dvd length (rp_extension_data p) \<Longrightarrow> rtp_canonical p = p"
  by (auto simp: rtp_canonical_def ext_padded_len_def dvd_def)

interpretation rtp: codec rtp_to_bytes rtp_parse
  "\<lambda>p. rtp_wf p \<and> 4 dvd length (rp_extension_data p)"
  by unfold_locales (simp add: rtp_roundtrip_lemma rtp_canonical_aligned)

lemma fragment_packet_valid:
  assumes "unat pt < 128"
  shows "rtp_wf (fragment_packet ind h l pt seq ts ssrc chunk)
    \<and> 4 dvd length (rp_extension_data (fragment_packet ind h l pt seq ts ssrc chunk))"
  using assms
  by (simp add: fragment_packet_def rtp_wf_def rtp_header_flags_default_def)

lemma fragment_loop_valid:
  assumes "unat pt < 128"
  shows "\<forall>p \<in> set (fragment_loop d ind nut pt ts ssrc m n k off seq).
    rtp_wf p \<and> 4 dvd length (rp_extension_data p)"
  by (induction k arbitrary: off seq) (use fragment_packet_valid [OF assms] in \<open>auto simp: Let_def\<close>)

text \<open>
  Parsing every packet of a sequence, as the receiving side does.
\<close>

fun parse_all :: "bytes list \<Rightarrow> rtp_packet list result" where
  "parse_all [] = Inr []"
| "parse_all (d # ds) =
     and_then (rtp_parse d) (\<lambda>p. and_then (parse_all ds) (\<lambda>ps. Inr (p # ps)))"

lemma parse_all_encoded:
  "\<forall>p \<in> set ps. rtp_wf p \<and> 4 dvd length (rp_extension_data p) \<Longrightarrow>
   parse_all (map rtp_to_bytes ps) = Inr ps"
  by (induction ps) (simp_all add: rtp.decode_encode)

lemma fragment_nal_valid:
  "fragment_nal d r t pt seq ts ssrc mtu = Inr ps \<Longrightarrow> unat pt < 128 \<Longrightarrow>
   \<forall>p \<in> set ps. rtp_wf p \<and> 4 dvd length (rp_extension_data p)"
  using fragment_loop_valid
  by (auto simp: fragment_nal_def Let_def split: if_splits)

text \<open>For every well-formed packet (version 2, no padding, at most 15 CSRC entries, a 7-bit
  payload type, extension data exactly when the extension flag is set), parsing
  the serialised bytes succeeds and returns the packet, with the extension data
  padded with zeros to a multiple of four bytes.\<close>

theorem rtp_parse_to_bytes:
  assumes "rtp_wf p"
  shows "rtp_parse (rtp_to_bytes p) = Inr (rtp_canonical p)"
  using assms by (rule rtp_roundtrip_lemma)

definition sample_packet :: rtp_packet where
  "sample_packet =
     \<lparr>rp_flags = rtp_header_flags_default\<lparr>rf_extension := True, rf_csrc_count := 1, rf_marker := True\<rparr>,
      rp_sequence_number = 65535, rp_timestamp = 90000, rp_ssrc = 0x12345678,
      rp_csrc_list = [7], rp_extension_profile = Some 0xBEDE, rp_extension_data = [1, 2, 3],
      rp_payload = [0x65, 0x88]\<rparr>"

theorem rtp_parse_to_bytes_witness:
  "rtp_wf sample_packet \<and> rtp_parse (rtp_to_bytes sample_packet)
     = Inr (sample_packet\<lparr>rp_extension_data := [1, 2, 3, 0]\<rparr>)"
proof -
  have "rtp_wf sample_packet"
    by (simp add: rtp_wf_def sample_packet_def rtp_header_flags_default_def H264_PAYLOAD_TYPE_def)
  moreover have "rtp_canonical sample_packet = sample_packet\<lparr>rp_extension_data := [1, 2, 3, 0]\<rparr>"
    by (simp add: rtp_canonical_def sample_packet_def ext_padded_len_def)
  ultimately show ?thesis using rtp_parse_to_bytes [of sample_packet] by simp
qed

text \<open>C5. Sending a NAL unit through FU-A loses nothing: for every header byte
  with the forbidden bit clear, every non-empty body, every MTU above 14 bytes, the
  fragments that \<^verbatim>\<open>fragment_nal\<close> makes, serialised, parsed back and
  reassembled, give exactly the NAL unit.\<close>

theorem fua_wire_roundtrip:
  assumes "drop_bit 7 hdr = 0" and "body \<noteq> []" and "mtu > 14" and "unat pt < 128"
  shows "and_then (fragment_nal body (drop_bit 5 hdr AND 3) (hdr AND 31) pt seq ts ssrc mtu)
      (\<lambda>ps. and_then (parse_all (map rtp_to_bytes ps)) reassemble_fua) = Inr (hdr # body)"
proof -
  note rb = nal_header_rebuild [OF assms(1)]
  obtain ps where ps: "fragment_nal body (drop_bit 5 hdr AND 3) (hdr AND 31) pt seq ts ssrc mtu = Inr ps"
    using fragment_nal_eq [OF assms(2,3)] by blast
  then have "parse_all (map rtp_to_bytes ps) = Inr ps"
    using fragment_nal_valid assms(4) by (blast intro: parse_all_encoded)
  then show ?thesis
    using fua_roundtrip_lemma [OF rb(2,3) assms(2,3), of pt seq ts ssrc] ps rb(1) by simp
qed

theorem fua_wire_roundtrip_witness:
  "and_then (fragment_nal [1, 2, 3, 4, 5] (drop_bit 5 0x65 AND 3) (0x65 AND 31) 96 65535 0 1 16)
      (\<lambda>ps. and_then (parse_all (map rtp_to_bytes ps)) reassemble_fua) = Inr [0x65, 1, 2, 3, 4, 5]"
  using fua_wire_roundtrip [where hdr = "0x65" and body = "[1, 2, 3, 4, 5]" and mtu = 16 and pt = 96] by simp

lemma fragment_nal_transport_lemma:
  assumes "fragment_nal nal_data r t pt seq ts ssrc mtu = Inr ps"
  shows "ps \<noteq> [] \<and> (\<forall>j < length ps. length (rtp_to_bytes (ps ! j)) \<le> mtu
    \<and> rp_sequence_number (ps ! j) = seq + of_nat j \<and> rp_timestamp (ps ! j) = ts
    \<and> (rf_marker (rp_flags (ps ! j)) \<longleftrightarrow> j = length ps - 1))"
proof -
  let ?n = "div_ceil (length nal_data) (mtu - 14)"
  have pre: "nal_data \<noteq> []" "mtu > 14"
    using assms by (auto simp: fragment_nal_def RTP_HEADER_SIZE_def Let_def split: if_splits)
  then have ps: "ps = fragment_loop nal_data (build_fua_indicator r) t pt ts ssrc (mtu - 14) ?n ?n 0 seq"
    using assms fragment_nal_eq by (metis sum.inject(2))
  have n: "length ps = ?n" "0 < ?n"
    using div_ceil_bounds(1) [of "mtu - 14" "length nal_data"] pre by (simp_all add: ps)
  have "length (rtp_to_bytes (ps ! j)) \<le> mtu
    \<and> rp_sequence_number (ps ! j) = seq + of_nat j \<and> rp_timestamp (ps ! j) = ts
    \<and> (rf_marker (rp_flags (ps ! j)) \<longleftrightarrow> j = length ps - 1)" if "j < length ps" for j
    using fragment_loop_nth [of j ?n ?n "mtu - 14" nal_data "build_fua_indicator r" t pt ts ssrc 0 seq]
      that n pre(2) by (auto simp: ps length_rtp_to_bytes_fragment) (auto simp: fragment_packet_def)
  then show ?thesis using n by auto
qed

lemma fragment_nal_sequence:
  "fragment_nal nal_data r t pt seq ts ssrc mtu = Inr ps \<Longrightarrow>
   \<forall>j < length ps. rp_sequence_number (ps ! j) = seq + of_nat j"
  using fragment_nal_transport_lemma by blast

text \<open>The fragments of a NAL unit obey the transport: there is at least one,
  none is larger on the wire than the MTU, fragment \<open>j\<close> carries the sequence number
  \<open>seq + j\<close> modulo \<open>2 ^ 16\<close>, all carry the timestamp of the access unit, and
  exactly the last one has the marker bit.\<close>

theorem fragment_nal_transport:
  assumes "fragment_nal nal_data r t pt seq ts ssrc mtu = Inr ps"
  shows "ps \<noteq> [] \<and> (\<forall>j < length ps. length (rtp_to_bytes (ps ! j)) \<le> mtu
    \<and> rp_sequence_number (ps ! j) = seq + of_nat j \<and> rp_timestamp (ps ! j) = ts
    \<and> (rf_marker (rp_flags (ps ! j)) \<longleftrightarrow> j = length ps - 1))"
  using assms by (rule fragment_nal_transport_lemma)

theorem fragment_nal_transport_witness:
  "\<exists>ps. fragment_nal (replicate 5 7) 3 5 96 65535 0 1 16 = Inr ps \<and> length ps = 3
    \<and> rp_sequence_number (ps ! 2) = 1 \<and> length (rtp_to_bytes (ps ! 2)) \<le> 16"
proof -
  define ps where "ps = fragment_loop (replicate 5 7) (build_fua_indicator 3) 5 96 0 1 2 3 3 0 65535"
  have "fragment_nal (replicate 5 7) 3 5 96 65535 0 1 16 = Inr ps"
    by (simp add: fragment_nal_def RTP_HEADER_SIZE_def div_ceil_def ps_def)
  moreover from fragment_nal_transport [OF this] have "length ps = 3 \<Longrightarrow>
      rp_sequence_number (ps ! 2) = 1 \<and> length (rtp_to_bytes (ps ! 2)) \<le> 16" by simp
  moreover have "length ps = 3" by (simp add: ps_def)
  ultimately show ?thesis by blast
qed

text \<open>STAP-A aggregation: \<^verbatim>\<open>build_stapa\<close> accepts exactly the non-empty
  lists of non-empty NAL units that share one NRI, and when every unit fits the
  16-bit size field, \<^verbatim>\<open>parse_stapa\<close> returns the list that was aggregated.\<close>

theorem stapa_build_parse:
  "(is_ok (build_stapa nals) \<longleftrightarrow>
      nals \<noteq> [] \<and> (\<forall>nal \<in> set nals. nal \<noteq> [] \<and> nal_nri (hd nal) = nal_nri (hd (hd nals))))
   \<and> (\<forall>payload. build_stapa nals = Inr payload \<and> (\<forall>nal \<in> set nals. length nal < 65536)
        \<longrightarrow> parse_stapa payload = Inr nals)"
  using build_stapa_complete stapa_roundtrip_lemma by blast

theorem stapa_build_parse_witness:
  "build_stapa [[0x67, 1, 2], [0x68, 3]] = Inr [0x78, 0, 3, 0x67, 1, 2, 0, 2, 0x68, 3]
   \<and> parse_stapa [0x78, 0, 3, 0x67, 1, 2, 0, 2, 0x68, 3] = Inr [[0x67, 1, 2], [0x68, 3]]"
proof -
  have b: "build_stapa [[0x67, 1, 2], [0x68, 3]] = Inr [0x78, 0, 3, 0x67, 1, 2, 0, 2, 0x68, 3]"
    by code_simp
  with stapa_build_parse [of "[[0x67, 1, 2], [0x68, 3]]"] show ?thesis by simp
qed

lemma u16_be_65536: "u16_be 65536 = [0, 0]"
  by code_simp

text \<open>The size check \<^verbatim>\<open>build_stapa\<close> does not make: a NAL unit of \<open>2 ^ 16\<close>
  bytes is aggregated with the size field 0, and the receiver rejects the packet.\<close>

lemma stapa_oversize_rejected:
  assumes "length nal = 65536" and "build_stapa [nal] = Inr payload"
  shows "parse_stapa payload = Inl (Bail ''STAP-A: zero-length NAL unit'')"
proof -
  from assms obtain first rest where n: "nal = first # rest"
    and p: "payload = (push_bit 5 (nal_nri first) OR 24) # stapa_unit nal"
    by (auto simp: build_stapa_def Let_def result_simps split: list.splits)
  have "stapa_unit nal = [0, 0] @ nal"
    using assms(1) u16_be_65536 by (simp add: stapa_unit_def)
  then have s: "subslice 1 (1 + 2) payload = [0, 0]" and l: "\<not> 1 + 2 > length payload"
    and l1: "1 < length payload"
    by (simp_all add: p subslice_def)
  have z: "unat (be_u16 [0, 0]) = 0" by (simp add: be_u16_def)
  have "parse_stapa_loop payload 1 [] = Inl (Bail ''STAP-A: zero-length NAL unit'')"
    by (subst parse_stapa_loop.simps) (simp only: s l l1 z Let_def simp_thms if_True if_False)
  then show ?thesis by (simp add: parse_stapa_def stapa_header_type p)
qed

end
