(* ===== verification/H264.thy ===== *)
theory H264
  imports Prelude
begin

text \<open>
  The H.264 bitstream parser of \<^verbatim>\<open>crates/protocols/src/h264.rs\<close>: NAL unit
  headers, the bit reader with its exponential Golomb codes, Annex B and AVCC
  splitting, the sequence and picture parameter sets, key frame search.

  A reader is a function from the iterator state to an error or a value with the
  new state; \<open>read_then\<close> sequences two readers the way \<^verbatim>\<open>?\<close> does. The
  relation \<open>reads rd bs v\<close> says that \<open>rd\<close> consumes exactly the bits \<open>bs\<close> and returns
  \<open>v\<close>; it composes along \<open>read_then\<close>, so the proof that \<open>parse_sps\<close> inverts the
  syntax table of the standard is one composition step per syntax element.
\<close>

section \<open>NAL unit headers\<close>

datatype nal_unit_type =
    Unspecified | Slice | SliceA | SliceB | SliceC | Idr | Sei | Sps | Pps | Aud
  | EndOfSequence | EndOfStream | Filler | SpsExt | Prefix | SubsetSps | SliceAux | Reserved

record nal_header =
  nh_forbidden_zero_bit :: u8
  nh_nal_ref_idc :: u8
  nh_nal_unit_type :: nal_unit_type

definition nal_unit_type_try_from :: "u8 \<Rightarrow> nal_unit_type result" where
  "nal_unit_type_try_from value =
     (if value = 0 then Inr Unspecified
      else if value = 1 then Inr Slice
      else if value = 2 then Inr SliceA
      else if value = 3 then Inr SliceB
      else if value = 4 then Inr SliceC
      else if value = 5 then Inr Idr
      else if value = 6 then Inr Sei
      else if value = 7 then Inr Sps
      else if value = 8 then Inr Pps
      else if value = 9 then Inr Aud
      else if value = 10 then Inr EndOfSequence
      else if value = 11 then Inr EndOfStream
      else if value = 12 then Inr Filler
      else if value = 13 then Inr SpsExt
      else if value = 14 then Inr Prefix
      else if value = 15 then Inr SubsetSps
      else if value = 19 then Inr SliceAux
      else if 24 \<le> value \<and> value \<le> 30 then Inr Reserved
      else Inl (Bail ''Invalid NAL unit type''))"

definition parse_nal_header :: "bytes \<Rightarrow> (nal_header \<times> bytes) result" where
  "parse_nal_header nal_data =
     (if nal_data = [] then Inl (Bail ''Empty NAL unit data'')
      else
        let first_byte = nal_data ! 0;
            forbidden_zero_bit = drop_bit 7 first_byte AND 1;
            nal_ref_idc = drop_bit 5 first_byte AND 3;
            nal_unit_type_val = first_byte AND 31
        in if forbidden_zero_bit \<noteq> 0
           then Inl (Bail ''Forbidden zero bit is set (invalid NAL unit)'')
           else and_then (nal_unit_type_try_from nal_unit_type_val)
                  (\<lambda>nal_unit_type.
                    Inr (\<lparr>nh_forbidden_zero_bit = forbidden_zero_bit,
                          nh_nal_ref_idc = nal_ref_idc,
                          nh_nal_unit_type = nal_unit_type\<rparr>, drop 1 nal_data)))"

section \<open>The bit reader\<close>

record bit_iter =
  bi_data :: bytes
  bi_byte_pos :: nat
  bi_bit_pos :: nat

type_synonym 'a reader = "bit_iter \<Rightarrow> ('a \<times> bit_iter) result"

definition bit_iter_new :: "bytes \<Rightarrow> bit_iter" where
  "bit_iter_new data = \<lparr>bi_data = data, bi_byte_pos = 0, bi_bit_pos = 0\<rparr>"

definition read_then :: "'a reader \<Rightarrow> ('a \<Rightarrow> 'b reader) \<Rightarrow> 'b reader" where
  "read_then rd f it = and_then (rd it) (\<lambda>(x, it'). f x it')"

definition read_ret :: "'a \<Rightarrow> 'a reader" where
  "read_ret x it = Inr (x, it)"

definition read_fail :: "error \<Rightarrow> 'a reader" where
  "read_fail e it = Inl e"

definition read_bit :: "bool reader" where
  "read_bit it =
     (if bi_byte_pos it \<ge> length (bi_data it) then Inl (Bail ''Bit read out of bounds'')
      else
        let b = drop_bit (7 - bi_bit_pos it) (bi_data it ! bi_byte_pos it) AND 1;
            bit_pos = bi_bit_pos it + 1
        in Inr (b \<noteq> 0,
                if bit_pos \<ge> 8
                then it\<lparr>bi_bit_pos := 0, bi_byte_pos := bi_byte_pos it + 1\<rparr>
                else it\<lparr>bi_bit_pos := bit_pos\<rparr>))"

fun read_bits_loop :: "nat \<Rightarrow> u32 \<Rightarrow> u32 reader" where
  "read_bits_loop 0 result it = Inr (result, it)"
| "read_bits_loop (Suc n) result it =
     and_then (read_bit it)
       (\<lambda>(b, it'). read_bits_loop n (push_bit 1 result OR of_bool b) it')"

definition read_bits :: "u8 \<Rightarrow> u32 reader" where
  "read_bits n it =
     (if n > 32 then Inl (Bail ''Cannot read more than 32 bits at once'')
      else read_bits_loop (unat n) 0 it)"

text \<open>Bits not yet read; every reader consumes a prefix of them.\<close>

definition bits_left :: "bit_iter \<Rightarrow> nat" where
  "bits_left it = 8 * length (bi_data it) - (8 * bi_byte_pos it + bi_bit_pos it)"

lemma read_bit_decreases:
  "read_bit it = Inr (b, it') \<Longrightarrow> bi_bit_pos it < 8 \<Longrightarrow> bits_left it' < bits_left it"
  by (auto simp: read_bit_def bits_left_def Let_def split: if_splits)

lemma read_bit_advances:
  "read_bit it = Inr (b, it') \<Longrightarrow>
     length (bi_data it') - bi_byte_pos it' < length (bi_data it) - bi_byte_pos it \<or>
     (bi_byte_pos it' = bi_byte_pos it \<and> bi_data it' = bi_data it \<and> 8 - bi_bit_pos it' < 8 - bi_bit_pos it)"
  by (auto simp: read_bit_def Let_def split: if_splits)

text \<open>The loop \<^verbatim>\<open>while !bits.read_bit()? { leading_zeroes += 1 }\<close>.\<close>

function count_leading_zeroes :: "u32 \<Rightarrow> u32 reader" where
  "count_leading_zeroes leading_zeroes it =
     (case read_bit it of
        Inl e \<Rightarrow> Inl e
      | Inr (b, it') \<Rightarrow>
          if b then Inr (leading_zeroes, it')
          else count_leading_zeroes (leading_zeroes + 1) it')"
  by pat_completeness auto
termination
  by (relation "measures [\<lambda>(z, it). length (bi_data it) - bi_byte_pos it, \<lambda>(z, it). 8 - bi_bit_pos it]")
    (use read_bit_advances in fastforce)+

declare count_leading_zeroes.simps [simp del]

text \<open>
  \<^verbatim>\<open>read_exp_golomb\<close>: the count is narrowed to \<^verbatim>\<open>u8\<close> for \<^verbatim>\<open>read_bits\<close>, and
  \<^verbatim>\<open>1 << leading_zeroes\<close> shifts by the count modulo 32 in a release build.
\<close>

definition read_exp_golomb :: "u32 reader" where
  "read_exp_golomb =
     read_then (count_leading_zeroes 0) (\<lambda>leading_zeroes.
       if leading_zeroes = 0 then read_ret 0
       else read_then (read_bits (ucast leading_zeroes)) (\<lambda>value.
              read_ret (push_bit (unat leading_zeroes mod 32) 1 - 1 + value)))"

definition read_signed_exp_golomb :: "int reader" where
  "read_signed_exp_golomb =
     read_then read_exp_golomb (\<lambda>ue.
       let positive = (ue mod 2 = 0);
           value = int (unat (drop_bit 1 (ue + 1)))
       in read_ret (if positive then value else - value))"

section \<open>Annex B and AVCC\<close>

function find_start_codes_loop :: "bytes \<Rightarrow> nat \<Rightarrow> (nat \<times> nat) list \<Rightarrow> (nat \<times> nat) list" where
  "find_start_codes_loop data i results =
     (if i + 3 < length data then
        if data ! i = 0 \<and> data ! (i + 1) = 0 \<and> data ! (i + 2) = 0 \<and> data ! (i + 3) = 1
        then find_start_codes_loop data (i + 4) (results @ [(i, i + 4)])
        else if data ! i = 0 \<and> data ! (i + 1) = 0 \<and> data ! (i + 2) = 1
        then find_start_codes_loop data (i + 3) (results @ [(i, i + 3)])
        else find_start_codes_loop data (i + 1) results
      else results)"
  by pat_completeness auto
termination
  by (relation "measure (\<lambda>(data, i, results). length data - i)") auto

declare find_start_codes_loop.simps [simp del]

definition find_start_codes :: "bytes \<Rightarrow> (nat \<times> nat) list" where
  "find_start_codes data = find_start_codes_loop data 0 []"

text \<open>The loop over the start codes: a unit ends where the next start code begins.\<close>

fun collect_nal_units :: "bytes \<Rightarrow> (nat \<times> nat) list \<Rightarrow> bytes list" where
  "collect_nal_units data [] = []"
| "collect_nal_units data ((start, data_start) # codes) =
     (let end_pos = (case codes of [] \<Rightarrow> length data | (next_start, _) # _ \<Rightarrow> next_start)
      in (if data_start < end_pos then [subslice data_start end_pos data] else [])
         @ collect_nal_units data codes)"

definition split_nal_units :: "bytes \<Rightarrow> bytes list" where
  "split_nal_units data =
     (let start_codes = find_start_codes data
      in if start_codes = [] then (if data \<noteq> [] then [data] else [])
         else collect_nal_units data start_codes)"

function split_avcc_loop :: "bytes \<Rightarrow> nat \<Rightarrow> bytes list \<Rightarrow> bytes list" where
  "split_avcc_loop data pos nal_units =
     (if pos + 4 \<le> length data then
        let len = unat (be_u32 (subslice pos (pos + 4) data))
        in if len = 0 then nal_units
           else
             let nal_start = pos + 4;
                 nal_end = nal_start + len
             in if nal_end > length data then nal_units
                else split_avcc_loop data nal_end (nal_units @ [subslice nal_start nal_end data])
      else nal_units)"
  by pat_completeness auto
termination
  by (relation "measure (\<lambda>(data, pos, nal_units). length data - pos)") auto

declare split_avcc_loop.simps [simp del]

definition split_nal_units_avcc :: "bytes \<Rightarrow> bytes list" where
  "split_nal_units_avcc data = split_avcc_loop data 0 []"

section \<open>Parameter sets\<close>

record frame_cropping =
  fc_left_offset :: u32
  fc_right_offset :: u32
  fc_top_offset :: u32
  fc_bottom_offset :: u32

record sps_params =
  sp_profile_idc :: u8
  sp_constraint_flags :: "u8 list"
  sp_level_idc :: u8
  sp_seq_parameter_set_id :: u32
  sp_chroma_format_idc :: u32
  sp_pic_width_in_mbs_minus1 :: u32
  sp_pic_height_in_map_units_minus1 :: u32
  sp_frame_cropping_flag :: bool
  sp_frame_cropping :: "frame_cropping option"

definition sps_width :: "sps_params \<Rightarrow> u32" where
  "sps_width s =
     (let base_width = (sp_pic_width_in_mbs_minus1 s + 1) * 16;
          crop = (case sp_frame_cropping s of None \<Rightarrow> 0
                  | Some c \<Rightarrow> fc_left_offset c + fc_right_offset c)
      in if sp_chroma_format_idc s = 0 then base_width - crop
         else if sp_chroma_format_idc s = 1 \<or> sp_chroma_format_idc s = 2
         then base_width - crop * 2
         else base_width - crop)"

definition sps_height :: "sps_params \<Rightarrow> u32" where
  "sps_height s =
     (let base_height = (sp_pic_height_in_map_units_minus1 s + 1) * 16;
          crop = (case sp_frame_cropping s of None \<Rightarrow> 0
                  | Some c \<Rightarrow> fc_top_offset c + fc_bottom_offset c)
      in if sp_chroma_format_idc s = 0 then base_height - crop
         else if sp_chroma_format_idc s = 1 then base_height - crop * 2
         else base_height - crop)"

record pps_params =
  pp_pic_parameter_set_id :: u32
  pp_seq_parameter_set_id :: u32

text \<open>\<^verbatim>\<open>i32\<close> addition wraps; \<^verbatim>\<open>%\<close> takes the sign of the dividend.\<close>

definition wrap_i32 :: "int \<Rightarrow> int" where
  "wrap_i32 x = sint (word_of_int x :: 32 word)"

definition rem_i32 :: "int \<Rightarrow> int \<Rightarrow> int" where
  "rem_i32 x m = (if x < 0 then - ((- x) mod m) else x mod m)"

fun read_scaling_list_loop :: "nat \<Rightarrow> int \<Rightarrow> int \<Rightarrow> unit reader" where
  "read_scaling_list_loop 0 last_scale next_scale = read_ret ()"
| "read_scaling_list_loop (Suc n) last_scale next_scale =
     read_then
       (if next_scale \<noteq> 0
        then read_then read_signed_exp_golomb
               (\<lambda>delta_scale. read_ret (rem_i32 (wrap_i32 (last_scale + delta_scale)) 256))
        else read_ret next_scale)
       (\<lambda>next_scale'.
          read_scaling_list_loop n (if next_scale' = 0 then 8 else next_scale') next_scale')"

definition read_scaling_list :: "nat \<Rightarrow> unit reader" where
  "read_scaling_list list_size = read_scaling_list_loop list_size 8 8"

text \<open>The loop \<^verbatim>\<open>for i in 0..8\<close> over the scaling lists, from list \<open>8 - n\<close> on.\<close>

fun read_scaling_matrix :: "nat \<Rightarrow> unit reader" where
  "read_scaling_matrix 0 = read_ret ()"
| "read_scaling_matrix (Suc n) =
     read_then read_bit (\<lambda>seq_scaling_list_present_flag.
     read_then (if seq_scaling_list_present_flag
                then read_scaling_list (if 8 - Suc n < 6 then 16 else 64)
                else read_ret ()) (\<lambda>_.
     read_scaling_matrix n))"

fun skip_ref_frame_offsets :: "nat \<Rightarrow> unit reader" where
  "skip_ref_frame_offsets 0 = read_ret ()"
| "skip_ref_frame_offsets (Suc n) =
     read_then read_signed_exp_golomb (\<lambda>_. skip_ref_frame_offsets n)"

definition high_profile :: "u8 \<Rightarrow> bool" where
  "high_profile profile_idc \<longleftrightarrow>
     profile_idc = 100 \<or> profile_idc = 110 \<or> profile_idc = 122 \<or> profile_idc = 244
     \<or> profile_idc = 44 \<or> profile_idc = 83 \<or> profile_idc = 86 \<or> profile_idc = 118
     \<or> profile_idc = 128"

definition read_chroma_info :: "u8 \<Rightarrow> u32 reader" where
  "read_chroma_info profile_idc =
     (if high_profile profile_idc then
        read_then read_exp_golomb (\<lambda>chroma_format_idc.
        read_then (if chroma_format_idc = 3
                   then read_then read_bit (\<lambda>_. read_ret ()) else read_ret ()) (\<lambda>_.
        read_then read_exp_golomb (\<lambda>_.
        read_then read_exp_golomb (\<lambda>_.
        read_then read_bit (\<lambda>_.
        read_then read_bit (\<lambda>seq_scaling_matrix_present_flag.
        read_then (if seq_scaling_matrix_present_flag
                   then read_scaling_matrix 8 else read_ret ()) (\<lambda>_.
        read_ret chroma_format_idc)))))))
      else read_ret 1)"

definition read_poc_info :: "unit reader" where
  "read_poc_info =
     read_then read_exp_golomb (\<lambda>pic_order_cnt_type.
     if pic_order_cnt_type = 0 then read_then read_exp_golomb (\<lambda>_. read_ret ())
     else if pic_order_cnt_type = 1 then
       read_then read_bit (\<lambda>_.
       read_then read_signed_exp_golomb (\<lambda>_.
       read_then read_signed_exp_golomb (\<lambda>_.
       read_then read_exp_golomb (\<lambda>num_ref_frames.
       skip_ref_frame_offsets (unat num_ref_frames)))))
     else read_ret ())"

definition read_frame_cropping :: "bool \<Rightarrow> frame_cropping option reader" where
  "read_frame_cropping frame_cropping_flag =
     (if frame_cropping_flag then
        read_then read_exp_golomb (\<lambda>left_offset.
        read_then read_exp_golomb (\<lambda>right_offset.
        read_then read_exp_golomb (\<lambda>top_offset.
        read_then read_exp_golomb (\<lambda>bottom_offset.
        read_ret (Some \<lparr>fc_left_offset = left_offset, fc_right_offset = right_offset,
                       fc_top_offset = top_offset, fc_bottom_offset = bottom_offset\<rparr>)))))
      else read_ret None)"

definition read_sps :: "sps_params reader" where
  "read_sps =
     read_then (read_bits 8) (\<lambda>profile.
     read_then (read_bits 8) (\<lambda>constraint_byte.
     read_then (read_bits 8) (\<lambda>level.
     read_then read_exp_golomb (\<lambda>seq_parameter_set_id.
     read_then (read_chroma_info (ucast profile)) (\<lambda>chroma_format_idc.
     read_then read_exp_golomb (\<lambda>_.
     read_then read_poc_info (\<lambda>_.
     read_then read_exp_golomb (\<lambda>_.
     read_then read_bit (\<lambda>_.
     read_then read_exp_golomb (\<lambda>pic_width_in_mbs_minus1.
     read_then read_exp_golomb (\<lambda>pic_height_in_map_units_minus1.
     read_then read_bit (\<lambda>frame_mbs_only_flag.
     read_then (if \<not> frame_mbs_only_flag
                then read_then read_bit (\<lambda>_. read_ret ()) else read_ret ()) (\<lambda>_.
     read_then read_bit (\<lambda>_.
     read_then read_bit (\<lambda>frame_cropping_flag.
     read_then (read_frame_cropping frame_cropping_flag) (\<lambda>frame_cropping.
     read_ret
       \<lparr>sp_profile_idc = ucast profile,
        sp_constraint_flags = [ucast constraint_byte, 0, 0],
        sp_level_idc = ucast level,
        sp_seq_parameter_set_id = seq_parameter_set_id,
        sp_chroma_format_idc = chroma_format_idc,
        sp_pic_width_in_mbs_minus1 = pic_width_in_mbs_minus1,
        sp_pic_height_in_map_units_minus1 = pic_height_in_map_units_minus1,
        sp_frame_cropping_flag = frame_cropping_flag,
        sp_frame_cropping = frame_cropping\<rparr>))))))))))))))))"

definition parse_sps :: "bytes \<Rightarrow> sps_params result" where
  "parse_sps nal_data =
     and_then (parse_nal_header nal_data) (\<lambda>(header, payload).
       if nh_nal_unit_type header \<noteq> Sps then Inl (Bail ''Expected SPS (type 7)'')
       else and_then (read_sps (bit_iter_new payload)) (\<lambda>(s, _). Inr s))"

definition read_pps :: "pps_params reader" where
  "read_pps =
     read_then read_exp_golomb (\<lambda>pic_parameter_set_id.
     read_then read_exp_golomb (\<lambda>seq_parameter_set_id.
     read_then read_bit (\<lambda>_.
     read_then read_bit (\<lambda>_.
     read_then read_exp_golomb (\<lambda>num_slice_groups.
     read_then (if num_slice_groups > 0
                then read_then read_exp_golomb (\<lambda>_. read_ret ()) else read_ret ()) (\<lambda>_.
     read_ret \<lparr>pp_pic_parameter_set_id = pic_parameter_set_id,
               pp_seq_parameter_set_id = seq_parameter_set_id\<rparr>))))))"

definition parse_pps :: "bytes \<Rightarrow> pps_params result" where
  "parse_pps nal_data =
     and_then (parse_nal_header nal_data) (\<lambda>(header, payload).
       if nh_nal_unit_type header \<noteq> Pps then Inl (Bail ''Expected PPS (type 8)'')
       else and_then (read_pps (bit_iter_new payload)) (\<lambda>(s, _). Inr s))"

section \<open>Key frames\<close>

definition is_keyframe :: "nal_unit_type \<Rightarrow> u8 \<Rightarrow> bool" where
  "is_keyframe nal_unit_type nal_ref_idc =
     (if nal_unit_type = Idr then True
      else if nal_unit_type = Slice \<and> nal_ref_idc > 0 then False
      else False)"

fun first_code_from :: "nat \<Rightarrow> (nat \<times> nat) list \<Rightarrow> nat list" where
  "first_code_from offset [] = []"
| "first_code_from offset ((start, _) # codes) =
     (if start \<ge> offset then [start] else first_code_from offset codes)"

fun find_keyframes_loop :: "bytes \<Rightarrow> bytes list \<Rightarrow> nat \<Rightarrow> nat list" where
  "find_keyframes_loop data [] offset = []"
| "find_keyframes_loop data (nal_unit # nal_units) offset =
     (case parse_nal_header nal_unit of
        Inr (header, _) \<Rightarrow>
          if is_keyframe (nh_nal_unit_type header) (nh_nal_ref_idc header)
          then first_code_from offset (find_start_codes data) else []
      | Inl _ \<Rightarrow> [])
     @ find_keyframes_loop data nal_units (offset + length nal_unit)"

definition find_keyframes :: "bytes \<Rightarrow> nat list" where
  "find_keyframes data = find_keyframes_loop data (split_nal_units data) 0"

section \<open>Bit streams\<close>

definition byte_bits :: "u8 \<Rightarrow> bool list" where
  "byte_bits b = map (\<lambda>i. bit b (7 - i)) [0..<8]"

definition bits_of :: "bytes \<Rightarrow> bool list" where
  "bits_of data = concat (map byte_bits data)"

definition rem_bits :: "bit_iter \<Rightarrow> bool list" where
  "rem_bits it = drop (8 * bi_byte_pos it + bi_bit_pos it) (bits_of (bi_data it))"

definition reads :: "'a reader \<Rightarrow> bool list \<Rightarrow> 'a \<Rightarrow> bool" where
  "reads rd bs v \<longleftrightarrow> (\<forall>it rest. bi_bit_pos it < 8 \<and> rem_bits it = bs @ rest \<longrightarrow>
     (\<exists>it'. rd it = Inr (v, it') \<and> bi_bit_pos it' < 8 \<and> rem_bits it' = rest))"

lemma length_byte_bits [simp]: "length (byte_bits b) = 8"
  by (simp add: byte_bits_def)

lemma length_bits_of [simp]: "length (bits_of data) = 8 * length data"
  by (induction data) (simp_all add: bits_of_def)

lemma nth_bits_of:
  "q < length data \<Longrightarrow> r < 8 \<Longrightarrow> bits_of data ! (8 * q + r) = bit (data ! q) (7 - r)"
proof (induction data arbitrary: q)
  case Nil
  then show ?case by simp
next
  case (Cons b data)
  show ?case
  proof (cases q)
    case 0
    then show ?thesis using Cons.prems by (simp add: bits_of_def nth_append byte_bits_def)
  next
    case (Suc p)
    then have "bits_of (b # data) ! (8 * q + r) = bits_of data ! (8 * p + r)"
      by (simp add: bits_of_def nth_append)
    then show ?thesis using Suc Cons by simp
  qed
qed

lemma reads_bit: "reads read_bit [b] b"
  unfolding reads_def
proof (intro allI impI)
  fix it :: bit_iter and rest
  let ?q = "bi_byte_pos it" and ?r = "bi_bit_pos it"
  assume a: "?r < 8 \<and> rem_bits it = [b] @ rest"
  have ne: "rem_bits it \<noteq> []" using a by simp
  have q: "?q < length (bi_data it)"
  proof (rule ccontr)
    assume "\<not> ?thesis"
    then have "8 * length (bi_data it) \<le> 8 * ?q + ?r" by simp
    then show False using ne by (simp add: rem_bits_def)
  qed
  then have "8 * ?q + ?r < length (bits_of (bi_data it))" using a by simp
  then have split: "rem_bits it = bits_of (bi_data it) ! (8 * ?q + ?r) # drop (Suc (8 * ?q + ?r)) (bits_of (bi_data it))"
    unfolding rem_bits_def by (rule Cons_nth_drop_Suc [symmetric])
  then have b: "b = bit (bi_data it ! ?q) (7 - ?r)" and rest: "rest = drop (Suc (8 * ?q + ?r)) (bits_of (bi_data it))"
    using a nth_bits_of [OF q, of ?r] by simp_all
  have bit: "(drop_bit (7 - ?r) (bi_data it ! ?q) AND 1 \<noteq> 0) = b"
    unfolding b by (simp add: and_one_eq odd_iff_mod_2_eq_one [symmetric] bit_iff_odd_drop_bit)
  show "\<exists>it'. read_bit it = Inr (b, it') \<and> bi_bit_pos it' < 8 \<and> rem_bits it' = rest"
  proof (cases "?r = 7")
    case True
    then show ?thesis using q bit rest by (simp add: read_bit_def Let_def rem_bits_def)
  next
    case False
    then show ?thesis using a q bit rest by (simp add: read_bit_def Let_def rem_bits_def)
  qed
qed

lemma reads_then:
  assumes "reads rd bs v" and "reads (f v) cs w"
  shows "reads (read_then rd f) (bs @ cs) w"
  unfolding reads_def
proof (intro allI impI)
  fix it rest
  assume "bi_bit_pos it < 8 \<and> rem_bits it = (bs @ cs) @ rest"
  then obtain it' where 1: "rd it = Inr (v, it')" and "bi_bit_pos it' < 8" "rem_bits it' = cs @ rest"
    using assms(1) unfolding reads_def by (metis append.assoc)
  then obtain it'' where "f v it' = Inr (w, it'')" "bi_bit_pos it'' < 8" "rem_bits it'' = rest"
    using assms(2) unfolding reads_def by blast
  with 1 show "\<exists>it'. read_then rd f it = Inr (w, it') \<and> bi_bit_pos it' < 8 \<and> rem_bits it' = rest"
    by (simp add: read_then_def)
qed

lemma reads_ret: "reads (read_ret v) [] v"
  by (simp add: reads_def read_ret_def)

lemma reads_last: "reads rd bs v \<Longrightarrow> reads (f v) [] w \<Longrightarrow> reads (read_then rd f) bs w"
  using reads_then by fastforce

section \<open>Binary and exponential Golomb codes\<close>

fun nbits :: "nat \<Rightarrow> nat \<Rightarrow> bool list" where
  "nbits 0 v = []"
| "nbits (Suc k) v = odd (v div 2 ^ k) # nbits k v"

definition ue_code :: "nat \<Rightarrow> bool list" where
  "ue_code v = (let k = ilog2 (v + 1) in replicate k False @ True # nbits k (v + 1 - 2 ^ k))"

lemma push_or_bool: "push_bit 1 (a :: u32) OR of_bool b = 2 * a + of_bool b"
proof -
  have "push_bit 1 a + of_bool b = push_bit 1 a OR of_bool b"
    by (rule disjunctive_add_eq_or) (auto intro!: bit_word_eqI simp: bit_simps bit_0)
  then show ?thesis by (simp add: push_bit_eq_mult mult.commute)
qed

lemma mod_pow_step: "(v::nat) mod 2 ^ Suc k = of_bool (odd (v div 2 ^ k)) * 2 ^ k + v mod 2 ^ k"
  using mod_mult2_eq [of v "2 ^ k" 2] by (simp add: mult.commute mod_2_eq_odd)

lemma reads_bits_loop:
  "reads (read_bits_loop k acc) (nbits k v) (acc * 2 ^ k + of_nat (v mod 2 ^ k))"
proof (induction k arbitrary: acc)
  case 0
  then show ?case by (simp add: reads_def)
next
  case (Suc k)
  let ?b = "odd (v div 2 ^ k)"
  have fold: "read_bits_loop (Suc k) acc = read_then read_bit (\<lambda>b. read_bits_loop k (push_bit 1 acc OR of_bool b))"
    by (rule ext) (simp add: read_then_def)
  have "reads (read_bits_loop (Suc k) acc) ([?b] @ nbits k v)
      ((push_bit 1 acc OR of_bool ?b) * 2 ^ k + of_nat (v mod 2 ^ k))"
    unfolding fold by (rule reads_then [OF reads_bit]) (rule Suc.IH)
  moreover have "(push_bit 1 acc OR of_bool ?b) * 2 ^ k + of_nat (v mod 2 ^ k)
      = acc * 2 ^ Suc k + of_nat (v mod 2 ^ Suc k)"
    unfolding push_or_bool mod_pow_step [of v k] by (simp add: algebra_simps)
  ultimately show ?case by (simp only: nbits.simps append_Cons append_Nil)
qed

lemma reads_bits: "unat n \<le> 32 \<Longrightarrow> reads (read_bits n) (nbits (unat n) v) (of_nat (v mod 2 ^ unat n))"
  using reads_bits_loop [of "unat n" 0 v]
  by (auto simp: reads_def read_bits_def word_less_nat_alt)

lemma reads_zeroes: "reads (count_leading_zeroes z) (replicate k False @ [True]) (z + of_nat k)"
proof (induction k arbitrary: z)
  case 0
  have "count_leading_zeroes z it = (case read_bit it of Inl e \<Rightarrow> Inl e | Inr (b, it') \<Rightarrow> if b then Inr (z, it') else count_leading_zeroes (z + 1) it')" for it
    by (subst count_leading_zeroes.simps) simp
  then show ?case using reads_bit [of True] by (fastforce simp: reads_def)
next
  case (Suc k)
  have "read_then read_bit (\<lambda>b. if b then read_ret z else count_leading_zeroes (z + 1)) = count_leading_zeroes z"
    by (rule ext, subst count_leading_zeroes.simps)
      (auto simp: read_then_def read_ret_def split: sum.splits)
  then show ?case
    using reads_then [OF reads_bit [of False], of "\<lambda>b. if b then read_ret z else count_leading_zeroes (z + 1)"]
      Suc.IH [of "z + 1"] by (simp add: algebra_simps)
qed

lemma reads_ue:
  assumes "v < 2 ^ 32 - 1"
  shows "reads read_exp_golomb (ue_code v) (of_nat v)"
proof -
  define k where "k = ilog2 (v + 1)"
  have k: "2 ^ k \<le> v + 1" "v + 1 < 2 ^ Suc k" using ilog2_bounds [of "v + 1"] by (simp_all add: k_def)
  have k32: "k < 32" using ilog2_less [of "v + 1" 32] assms by (simp add: k_def)
  have code: "ue_code v = (replicate k False @ [True]) @ nbits k (v + 1 - 2 ^ k)"
    by (simp add: ue_code_def k_def Let_def)
  have z: "unat (of_nat k :: u32) = k" using k32 by (simp add: unat_of_nat)
  have uk: "unat (ucast (of_nat k :: u32) :: u8) = k"
    using k32 by (simp add: unsigned_ucast_eq unat_of_nat take_bit_eq_mod)
  have "reads (if (of_nat k :: u32) = 0 then read_ret 0
       else read_then (read_bits (ucast (of_nat k :: u32))) (\<lambda>value.
              read_ret (push_bit (unat (of_nat k :: u32) mod 32) 1 - 1 + value)))
       (nbits k (v + 1 - 2 ^ k)) (of_nat v :: u32)"
  proof (cases "k = 0")
    case True
    then show ?thesis using k by (simp add: reads_ret)
  next
    case False
    then have nz: "(of_nat k :: u32) \<noteq> 0" using z by auto
    have r: "reads (read_bits (ucast (of_nat k :: u32))) (nbits k (v + 1 - 2 ^ k)) (of_nat (v + 1 - 2 ^ k))"
      using reads_bits [of "ucast (of_nat k :: u32)" "v + 1 - 2 ^ k"] uk k k32 by simp
    have "(push_bit k 1 :: u32) - 1 + of_nat (v + 1 - 2 ^ k) = of_nat v"
      using k(1) by (simp add: push_bit_eq_mult of_nat_diff)
    then have "reads (read_then (read_bits (ucast (of_nat k :: u32))) (\<lambda>value.
        read_ret (push_bit k 1 - 1 + value))) (nbits k (v + 1 - 2 ^ k)) (of_nat v :: u32)"
      by (intro reads_last [OF r]) (simp only: reads_ret)
    then show ?thesis using nz k32 z by (simp only: if_False mod_less)
  qed
  then show ?thesis unfolding code read_exp_golomb_def
    by (intro reads_then [OF reads_zeroes [of 0 k]]) (simp only: add_0_left)
qed

text \<open>Signed codes, as the source decodes them.\<close>

definition se_value :: "nat \<Rightarrow> int" where
  "se_value v = (if even v then int ((v + 1) div 2) else - int ((v + 1) div 2))"

lemma reads_se:
  assumes "v < 2 ^ 32 - 1"
  shows "reads read_signed_exp_golomb (ue_code v) (se_value v)"
proof -
  have u: "unat (of_nat v :: u32) = v" using assms by (simp add: unat_of_nat)
  have "unat (of_nat (v + 1) :: u32) = v + 1" using assms by (simp only: unat_of_nat) simp
  then have u1: "unat (of_nat v + 1 :: u32) = v + 1" by (simp add: add.commute)
  have "(of_nat v :: u32) mod 2 = 0 \<longleftrightarrow> even v"
    by (simp add: word_unat_eq_iff unat_mod_distrib u even_iff_mod_2_eq_zero [symmetric])
  then have "(let positive = ((of_nat v :: u32) mod 2 = 0); value = int (unat (drop_bit 1 (of_nat v + 1 :: u32)))
      in read_ret (if positive then value else - value)) = read_ret (se_value v)"
    by (simp add: Let_def byte_simps u1 se_value_def)
  then show ?thesis unfolding read_signed_exp_golomb_def
    by (intro reads_last [OF reads_ue [OF assms]]) (simp only: reads_ret)
qed

section \<open>The syntax of the sequence parameter set\<close>

text \<open>
  The fields of the standard's \<^verbatim>\<open>seq_parameter_set_data\<close> in coding order, with
  no scaling matrix.
\<close>

datatype poc_syntax = Poc0 nat | Poc1 bool nat nat "nat list" | Poc2

record sps_syntax =
  sy_profile :: nat
  sy_constraints :: nat
  sy_level :: nat
  sy_id :: nat
  sy_chroma :: nat
  sy_separate_planes :: bool
  sy_luma_depth :: nat
  sy_chroma_depth :: nat
  sy_bypass :: bool
  sy_log2_frame_num :: nat
  sy_poc :: poc_syntax
  sy_ref_frames :: nat
  sy_gaps :: bool
  sy_width_mbs :: nat
  sy_height_units :: nat
  sy_frame_mbs_only :: bool
  sy_mb_adaptive :: bool
  sy_direct_8x8 :: bool
  sy_crop :: "(nat \<times> nat \<times> nat \<times> nat) option"

definition chroma_bits :: "sps_syntax \<Rightarrow> bool list" where
  "chroma_bits s =
     (if high_profile (of_nat (sy_profile s)) then
        ue_code (sy_chroma s) @ (if sy_chroma s = 3 then [sy_separate_planes s] else [])
        @ ue_code (sy_luma_depth s) @ ue_code (sy_chroma_depth s) @ [sy_bypass s] @ [False]
      else [])"

fun poc_bits :: "poc_syntax \<Rightarrow> bool list" where
  "poc_bits (Poc0 l) = ue_code 0 @ ue_code l"
| "poc_bits (Poc1 z a b offs) =
     ue_code 1 @ [z] @ ue_code a @ ue_code b @ ue_code (length offs) @ concat (map ue_code offs)"
| "poc_bits Poc2 = ue_code 2"

fun crop_bits :: "(nat \<times> nat \<times> nat \<times> nat) option \<Rightarrow> bool list" where
  "crop_bits None = [False]"
| "crop_bits (Some (l, r, t, b)) = [True] @ ue_code l @ ue_code r @ ue_code t @ ue_code b"

definition sps_bits :: "sps_syntax \<Rightarrow> bool list" where
  "sps_bits s =
     nbits 8 (sy_profile s) @ nbits 8 (sy_constraints s) @ nbits 8 (sy_level s)
     @ ue_code (sy_id s) @ chroma_bits s @ ue_code (sy_log2_frame_num s) @ poc_bits (sy_poc s)
     @ ue_code (sy_ref_frames s) @ [sy_gaps s] @ ue_code (sy_width_mbs s)
     @ ue_code (sy_height_units s) @ [sy_frame_mbs_only s]
     @ (if sy_frame_mbs_only s then [] else [sy_mb_adaptive s]) @ [sy_direct_8x8 s]
     @ crop_bits (sy_crop s)"

fun poc_ok :: "poc_syntax \<Rightarrow> bool" where
  "poc_ok (Poc0 l) \<longleftrightarrow> l < 2 ^ 32 - 1"
| "poc_ok (Poc1 z a b offs) \<longleftrightarrow> a < 2 ^ 32 - 1 \<and> b < 2 ^ 32 - 1 \<and> length offs < 2 ^ 32 - 1
     \<and> (\<forall>v \<in> set offs. v < 2 ^ 32 - 1)"
| "poc_ok Poc2 \<longleftrightarrow> True"

fun crop_ok :: "(nat \<times> nat \<times> nat \<times> nat) option \<Rightarrow> bool" where
  "crop_ok None \<longleftrightarrow> True"
| "crop_ok (Some (l, r, t, b)) \<longleftrightarrow>
     l < 2 ^ 32 - 1 \<and> r < 2 ^ 32 - 1 \<and> t < 2 ^ 32 - 1 \<and> b < 2 ^ 32 - 1"

definition sps_ok :: "sps_syntax \<Rightarrow> bool" where
  "sps_ok s \<longleftrightarrow> sy_profile s < 256 \<and> sy_constraints s < 256 \<and> sy_level s < 256
     \<and> sy_id s < 2 ^ 32 - 1 \<and> sy_chroma s < 2 ^ 32 - 1 \<and> sy_luma_depth s < 2 ^ 32 - 1
     \<and> sy_chroma_depth s < 2 ^ 32 - 1 \<and> sy_log2_frame_num s < 2 ^ 32 - 1
     \<and> poc_ok (sy_poc s) \<and> sy_ref_frames s < 2 ^ 32 - 1 \<and> sy_width_mbs s < 2 ^ 32 - 1
     \<and> sy_height_units s < 2 ^ 32 - 1 \<and> crop_ok (sy_crop s)"

definition sps_chroma :: "sps_syntax \<Rightarrow> nat" where
  "sps_chroma s = (if high_profile (of_nat (sy_profile s)) then sy_chroma s else 1)"

definition crop_of :: "nat \<times> nat \<times> nat \<times> nat \<Rightarrow> frame_cropping" where
  "crop_of = (\<lambda>(l, r, t, b). \<lparr>fc_left_offset = of_nat l, fc_right_offset = of_nat r,
     fc_top_offset = of_nat t, fc_bottom_offset = of_nat b\<rparr>)"

definition sps_decoded :: "sps_syntax \<Rightarrow> sps_params" where
  "sps_decoded s =
     \<lparr>sp_profile_idc = of_nat (sy_profile s),
      sp_constraint_flags = [of_nat (sy_constraints s), 0, 0],
      sp_level_idc = of_nat (sy_level s),
      sp_seq_parameter_set_id = of_nat (sy_id s),
      sp_chroma_format_idc = of_nat (sps_chroma s),
      sp_pic_width_in_mbs_minus1 = of_nat (sy_width_mbs s),
      sp_pic_height_in_map_units_minus1 = of_nat (sy_height_units s),
      sp_frame_cropping_flag = (sy_crop s \<noteq> None),
      sp_frame_cropping = map_option crop_of (sy_crop s)\<rparr>"

lemma reads_skip_bit: "reads (read_then read_bit (\<lambda>_. read_ret ())) [b] ()"
  by (rule reads_last [OF reads_bit]) (rule reads_ret)

lemma reads_skip_offsets:
  "\<forall>v \<in> set offs. v < 2 ^ 32 - 1 \<Longrightarrow>
   reads (skip_ref_frame_offsets (length offs)) (concat (map ue_code offs)) ()"
proof (induction offs)
  case Nil
  then show ?case by (simp add: reads_ret)
next
  case (Cons v offs)
  have v: "v < 2 ^ 32 - 1" and IH: "reads (skip_ref_frame_offsets (length offs)) (concat (map ue_code offs)) ()"
    using Cons by simp_all
  show ?case
    using reads_then [OF reads_se [OF v], of "\<lambda>_. skip_ref_frame_offsets (length offs)", OF IH] by simp
qed

lemma reads_nbits8: "v < 256 \<Longrightarrow> reads (read_bits 8) (nbits 8 v) (of_nat v)"
  using reads_bits [of 8 v] by simp

lemma reads_nbits8_byte:
  "v < 256 \<Longrightarrow> (ucast (of_nat v :: u32) :: u8) = of_nat v"
  by (simp add: word_unat_eq_iff unsigned_ucast_eq unat_of_nat take_bit_eq_mod)

lemma of_nat_u32_eq: "v < 2 ^ 32 - 1 \<Longrightarrow> (of_nat v :: u32) = 3 \<longleftrightarrow> v = 3"
  by (simp add: word_unat_eq_iff unat_of_nat)

lemma reads_poc: "poc_ok p \<Longrightarrow> reads read_poc_info (poc_bits p) ()"
proof (induction p)
  case (Poc0 l)
  have "reads (read_then read_exp_golomb (\<lambda>_. read_ret ())) (ue_code l) ()"
    using Poc0 by (intro reads_last [OF reads_ue]) (simp_all add: reads_ret)
  then show ?case
    unfolding read_poc_info_def poc_bits.simps by (intro reads_then [OF reads_ue]) simp_all
next
  case (Poc1 z a b offs)
  have n: "unat (of_nat (length offs) :: u32) = length offs"
    using Poc1 by (simp add: unat_of_nat)
  show ?case
    unfolding read_poc_info_def poc_bits.simps
    by (rule reads_then [OF reads_ue], simp)
      (simp only: of_nat_1 one_neq_zero if_True if_False simp_thms,
        intro reads_then [OF reads_bit] reads_then [OF reads_se] reads_then [OF reads_ue],
        use Poc1 n reads_skip_offsets [of offs] in simp_all)
next
  case Poc2
  show ?case unfolding read_poc_info_def poc_bits.simps
    by (rule reads_last [OF reads_ue]) (simp_all add: reads_ret)
qed

lemma reads_chroma:
  assumes "sps_ok s"
  shows "reads (read_chroma_info (of_nat (sy_profile s))) (chroma_bits s) (of_nat (sps_chroma s))"
proof (cases "high_profile (of_nat (sy_profile s))")
  case False
  then show ?thesis by (simp add: read_chroma_info_def chroma_bits_def sps_chroma_def reads_ret)
next
  case True
  have c: "(of_nat (sy_chroma s) :: u32) = 3 \<longleftrightarrow> sy_chroma s = 3"
    using assms by (simp add: of_nat_u32_eq sps_ok_def)
  have sep: "reads (if (of_nat (sy_chroma s) :: u32) = 3 then read_then read_bit (\<lambda>_. read_ret ()) else read_ret ())
      (if sy_chroma s = 3 then [sy_separate_planes s] else []) ()"
    by (simp add: c reads_skip_bit reads_ret)
  have none: "reads (read_then (if False then read_scaling_matrix 8 else read_ret ()) (\<lambda>_. read_ret x)) [] x" for x :: u32
    by (rule reads_last [where v = "()"]) (simp_all add: reads_ret)
  show ?thesis using assms True
    unfolding read_chroma_info_def chroma_bits_def sps_chroma_def sps_ok_def
    by (simp only: if_True)
      (intro reads_then [OF reads_ue] reads_then [OF sep] reads_then [OF reads_bit] reads_last [OF reads_bit] none; simp)
qed

lemma reads_crop:
  assumes "crop_ok c"
  shows "reads (read_then read_bit (\<lambda>fl. read_then (read_frame_cropping fl) (\<lambda>fc. read_ret (f fl fc))))
    (crop_bits c) (f (c \<noteq> None) (map_option crop_of c))"
proof (cases c)
  case None
  have "reads (read_then (read_frame_cropping False) (\<lambda>fc. read_ret (f False fc))) [] (f False None)"
    by (rule reads_last [where v = None]) (simp_all add: reads_ret read_frame_cropping_def)
  then show ?thesis unfolding None by (simp add: reads_last [OF reads_bit])
next
  case (Some q)
  obtain l r t b where q: "q = (l, r, t, b)" by (cases q) auto
  have "reads (read_frame_cropping True) (ue_code l @ ue_code r @ ue_code t @ ue_code b)
      (Some (crop_of q))"
    using assms unfolding read_frame_cropping_def if_True Some q
    by (intro reads_then [OF reads_ue] reads_last [OF reads_ue]) (simp_all add: crop_of_def reads_ret)
  then have "reads (read_then (read_frame_cropping True) (\<lambda>fc. read_ret (f True fc)))
      (ue_code l @ ue_code r @ ue_code t @ ue_code b) (f True (Some (crop_of q)))"
    by (rule reads_last) (rule reads_ret)
  then show ?thesis
    unfolding Some using reads_then [OF reads_bit [of True]] q by simp
qed

lemma reads_sps:
  assumes "sps_ok s"
  shows "reads read_sps (sps_bits s) (sps_decoded s)"
proof -
  have p: "(ucast (of_nat (sy_profile s) :: u32) :: u8) = of_nat (sy_profile s)"
    and c: "(ucast (of_nat (sy_constraints s) :: u32) :: u8) = of_nat (sy_constraints s)"
    and l: "(ucast (of_nat (sy_level s) :: u32) :: u8) = of_nat (sy_level s)"
    using assms by (simp_all add: sps_ok_def reads_nbits8_byte)
  have mb: "reads (if \<not> sy_frame_mbs_only s then read_then read_bit (\<lambda>_. read_ret ()) else read_ret ())
      (if sy_frame_mbs_only s then [] else [sy_mb_adaptive s]) ()"
    by (simp add: reads_skip_bit reads_ret)
  have ok: "poc_ok (sy_poc s)" "crop_ok (sy_crop s)" using assms by (simp_all add: sps_ok_def)
  have ch: "reads (read_chroma_info (ucast (of_nat (sy_profile s) :: u32))) (chroma_bits s) (of_nat (sps_chroma s))"
    unfolding p by (rule reads_chroma [OF assms])
  define tail where "tail pr cb lv id ch w h = (\<lambda>fl fc. \<lparr>sp_profile_idc = ucast (pr :: u32),
      sp_constraint_flags = [ucast (cb :: u32), 0, 0], sp_level_idc = ucast (lv :: u32),
      sp_seq_parameter_set_id = id, sp_chroma_format_idc = ch, sp_pic_width_in_mbs_minus1 = w,
      sp_pic_height_in_map_units_minus1 = h, sp_frame_cropping_flag = fl,
      sp_frame_cropping = fc\<rparr>)" for pr cb lv id ch w h
  have dec: "sps_decoded s = tail (of_nat (sy_profile s)) (of_nat (sy_constraints s))
      (of_nat (sy_level s)) (of_nat (sy_id s)) (of_nat (sps_chroma s)) (of_nat (sy_width_mbs s))
      (of_nat (sy_height_units s)) (sy_crop s \<noteq> None) (map_option crop_of (sy_crop s))"
    by (simp add: tail_def sps_decoded_def p c l)
  have rd: "read_sps = read_then (read_bits 8) (\<lambda>pr. read_then (read_bits 8) (\<lambda>cb.
     read_then (read_bits 8) (\<lambda>lv. read_then read_exp_golomb (\<lambda>id.
     read_then (read_chroma_info (ucast pr)) (\<lambda>ch. read_then read_exp_golomb (\<lambda>_.
     read_then read_poc_info (\<lambda>_. read_then read_exp_golomb (\<lambda>_. read_then read_bit (\<lambda>_.
     read_then read_exp_golomb (\<lambda>w. read_then read_exp_golomb (\<lambda>h. read_then read_bit (\<lambda>mo.
     read_then (if \<not> mo then read_then read_bit (\<lambda>_. read_ret ()) else read_ret ()) (\<lambda>_.
     read_then read_bit (\<lambda>_. read_then read_bit (\<lambda>fl. read_then (read_frame_cropping fl) (\<lambda>fc.
     read_ret (tail pr cb lv id ch w h fl fc)))))))))))))))))"
    by (simp only: read_sps_def tail_def)
  show ?thesis
    unfolding rd sps_bits_def dec
    by (intro reads_then [OF reads_nbits8] reads_then [OF reads_ue] reads_then [OF ch]
        reads_then [OF reads_poc [OF ok(1)]] reads_then [OF reads_bit] reads_then [OF mb]
        reads_crop [OF ok(2)])
      (use assms in \<open>simp_all only: sps_ok_def\<close>)
qed

section \<open>Annex B streams\<close>

definition start_code_at :: "bytes \<Rightarrow> nat \<Rightarrow> bool" where
  "start_code_at data j \<longleftrightarrow> data ! j = 0 \<and> data ! (j + 1) = 0
     \<and> (data ! (j + 2) = 1 \<or> data ! (j + 2) = 0 \<and> data ! (j + 3) = 1)"

text \<open>A NAL unit with emulation prevention: no \<open>00 00 00\<close> or \<open>00 00 01\<close> inside, no zero at the end.\<close>

definition nal_ok :: "bytes \<Rightarrow> bool" where
  "nal_ok n \<longleftrightarrow> n \<noteq> [] \<and> last n \<noteq> 0 \<and>
     list_all (\<lambda>j. \<not> (n ! j = 0 \<and> n ! (j + 1) = 0 \<and> (n ! (j + 2) = 0 \<or> n ! (j + 2) = 1)))
       [0..<length n - 2]"

definition annexb_unit :: "bytes \<times> bytes \<Rightarrow> bytes" where
  "annexb_unit = (\<lambda>(code, nal). code @ nal)"

definition annexb :: "(bytes \<times> bytes) list \<Rightarrow> bytes" where
  "annexb units = concat (map annexb_unit units)"

definition annexb_ok :: "bytes \<times> bytes \<Rightarrow> bool" where
  "annexb_ok = (\<lambda>(code, nal). (code = [0, 0, 0, 1] \<or> code = [0, 0, 1]) \<and> nal_ok nal)"

fun code_positions :: "nat \<Rightarrow> (bytes \<times> bytes) list \<Rightarrow> (nat \<times> nat) list" where
  "code_positions p [] = []"
| "code_positions p ((code, nal) # units) =
     (p, p + length code) # code_positions (p + length code + length nal) units"

lemma find_start_codes_end:
  "length data \<le> i + 3 \<Longrightarrow> find_start_codes_loop data i results = results"
  by (subst find_start_codes_loop.simps) simp

lemma find_start_codes_4:
  "i + 3 < length data \<Longrightarrow> data ! i = 0 \<and> data ! (i + 1) = 0 \<and> data ! (i + 2) = 0 \<and> data ! (i + 3) = 1 \<Longrightarrow>
   find_start_codes_loop data i results = find_start_codes_loop data (i + 4) (results @ [(i, i + 4)])"
  by (subst find_start_codes_loop.simps) simp

lemma find_start_codes_3:
  "i + 3 < length data \<Longrightarrow> data ! i = 0 \<and> data ! (i + 1) = 0 \<and> data ! (i + 2) = 1 \<Longrightarrow>
   find_start_codes_loop data i results = find_start_codes_loop data (i + 3) (results @ [(i, i + 3)])"
  by (subst find_start_codes_loop.simps) simp

lemma find_start_codes_none:
  "\<not> start_code_at data i \<Longrightarrow>
   find_start_codes_loop data i results = find_start_codes_loop data (i + 1) results"
proof (cases "i + 3 < length data")
  case False
  then show ?thesis by (simp add: find_start_codes_end)
next
  case True
  assume "\<not> start_code_at data i"
  then show ?thesis using True
    by (subst find_start_codes_loop.simps) (auto simp: start_code_at_def)
qed

lemma find_start_codes_acc:
  "find_start_codes_loop data i results = results @ find_start_codes_loop data i []"
proof (induction "length data - i" arbitrary: i results rule: less_induct)
  case less
  consider "length data \<le> i + 3"
    | "i + 3 < length data" "data ! i = 0 \<and> data ! (i + 1) = 0 \<and> data ! (i + 2) = 0 \<and> data ! (i + 3) = 1"
    | "i + 3 < length data" "data ! i = 0 \<and> data ! (i + 1) = 0 \<and> data ! (i + 2) = 1"
    | "i + 3 < length data" "\<not> start_code_at data i"
    unfolding start_code_at_def by (meson not_le)
  then show ?case
  proof cases
    case 1
    then show ?thesis by (simp add: find_start_codes_end)
  next
    case 2
    have d: "length data - (i + 4) < length data - i" using 2 by simp
    show ?thesis
      using less [OF d, of "results @ [(i, i + 4)]"] less [OF d, of "[(i, i + 4)]"]
      by (simp add: find_start_codes_4 [OF 2])
  next
    case 3
    have d: "length data - (i + 3) < length data - i" using 3 by simp
    show ?thesis
      using less [OF d, of "results @ [(i, i + 3)]"] less [OF d, of "[(i, i + 3)]"]
      by (simp add: find_start_codes_3 [OF 3])
  next
    case 4
    have d: "length data - (i + 1) < length data - i" using 4 by simp
    show ?thesis using less [OF d, of results] find_start_codes_none [OF 4(2)] by simp
  qed
qed

lemma find_start_codes_skip:
  assumes "\<forall>j. i \<le> j \<and> j < i + n \<longrightarrow> \<not> start_code_at data j"
  shows "find_start_codes_loop data i [] = find_start_codes_loop data (i + n) []"
  using assms
proof (induction n arbitrary: i)
  case 0
  then show ?case by simp
next
  case (Suc n)
  have "\<not> start_code_at data i" using Suc.prems by simp
  then have "find_start_codes_loop data i [] = find_start_codes_loop data (i + 1) []"
    by (rule find_start_codes_none)
  also have "\<dots> = find_start_codes_loop data (i + 1 + n) []"
    using Suc.prems by (intro Suc.IH) auto
  finally show ?case by simp
qed

lemma nal_no_start_code:
  assumes ok: "nal_ok nal" and k: "k < length nal"
  shows "\<not> start_code_at (pre @ nal @ rest) (length pre + k)"
proof -
  let ?d = "pre @ nal @ rest"
  have nth: "?d ! (length pre + j) = nal ! j" if "j < length nal" for j
    using that by (simp add: nth_append)
  have last: "nal ! (length nal - 1) \<noteq> 0"
    using ok last_conv_nth [of nal] by (auto simp: nal_ok_def)
  consider "k + 2 < length nal" | "k + 2 = length nal" | "k + 1 = length nal" using k by linarith
  then show ?thesis
  proof cases
    case 1
    then have "\<not> (nal ! k = 0 \<and> nal ! (k + 1) = 0 \<and> (nal ! (k + 2) = 0 \<or> nal ! (k + 2) = 1))"
      using ok by (auto simp: nal_ok_def list_all_iff)
    then show ?thesis using 1 nth [of k] nth [of "k + 1"] nth [of "k + 2"]
      by (auto simp: start_code_at_def add.assoc)
  next
    case 2
    then have "?d ! (length pre + k + 1) \<noteq> 0"
      using nth [of "k + 1"] last by (metis add.assoc add_diff_cancel_right' k less_add_one nat_add_left_cancel_less one_add_one)
    then show ?thesis by (simp add: start_code_at_def)
  next
    case 3
    then have "?d ! (length pre + k) \<noteq> 0" using nth [of k] last by (metis add_diff_cancel_right' k)
    then show ?thesis by (simp add: start_code_at_def)
  qed
qed

lemma find_start_codes_unit:
  assumes "annexb_ok (code, nal)"
  shows "find_start_codes_loop (pre @ code @ nal @ rest) (length pre) [] =
    (length pre, length pre + length code)
    # find_start_codes_loop (pre @ code @ nal @ rest) (length pre + length code + length nal) []"
proof -
  let ?d = "pre @ code @ nal @ rest"
  have ne: "nal \<noteq> []" and ok: "nal_ok nal" using assms by (auto simp: annexb_ok_def nal_ok_def)
  have code: "code = [0, 0, 0, 1] \<or> code = [0, 0, 1]" using assms by (auto simp: annexb_ok_def)
  have len: "length pre + 3 < length ?d" using code ne by (cases nal) auto
  have "find_start_codes_loop ?d (length pre) [] =
      find_start_codes_loop ?d (length pre + length code) [(length pre, length pre + length code)]"
  proof (cases "code = [0, 0, 0, 1]")
    case True
    then show ?thesis using find_start_codes_4 [OF len, of "[]"] by (simp add: nth_append eval_nat_numeral)
  next
    case False
    then have "code = [0, 0, 1]" using code by simp
    then show ?thesis using find_start_codes_3 [OF len, of "[]"] by (simp add: nth_append eval_nat_numeral)
  qed
  also have "\<dots> = (length pre, length pre + length code) # find_start_codes_loop ?d (length pre + length code) []"
    by (subst find_start_codes_acc) simp
  also have "find_start_codes_loop ?d (length pre + length code) [] =
      find_start_codes_loop ?d (length pre + length code + length nal) []"
  proof (rule find_start_codes_skip, intro allI impI)
    fix j assume j: "length pre + length code \<le> j \<and> j < length pre + length code + length nal"
    then obtain k where "j = length (pre @ code) + k" "k < length nal"
      by (metis add_less_cancel_left le_Suc_ex length_append)
    then show "\<not> start_code_at ?d j"
      using nal_no_start_code [OF ok, of k "pre @ code" rest] by simp
  qed
  finally show ?thesis .
qed

lemma find_start_codes_annexb:
  assumes "\<forall>u \<in> set units. annexb_ok u"
  shows "find_start_codes_loop (pre @ annexb units) (length pre) [] = code_positions (length pre) units"
  using assms
proof (induction units arbitrary: pre)
  case Nil
  then show ?case by (simp add: annexb_def find_start_codes_loop.simps)
next
  case (Cons u units)
  obtain code nal where u: "u = (code, nal)" by (cases u)
  have "annexb (u # units) = code @ nal @ annexb units" by (simp add: annexb_def annexb_unit_def u)
  then show ?case
    using find_start_codes_unit [of code nal pre "annexb units"] Cons.IH [of "pre @ code @ nal"] Cons.prems
    by (simp add: u add.assoc)
qed

lemma collect_annexb:
  assumes "\<forall>u \<in> set units. annexb_ok u"
  shows "collect_nal_units (pre @ annexb units) (code_positions (length pre) units) = map snd units"
  using assms
proof (induction units arbitrary: pre)
  case Nil
  then show ?case by simp
next
  case (Cons u units)
  obtain code nal where u: "u = (code, nal)" by (cases u)
  let ?d = "pre @ code @ nal @ annexb units"
  let ?s = "length pre + length code"
  have d: "pre @ annexb (u # units) = ?d" by (simp add: annexb_def annexb_unit_def u)
  have "nal \<noteq> []" using Cons.prems by (auto simp: u annexb_ok_def nal_ok_def)
  moreover have "(case code_positions (?s + length nal) units of [] \<Rightarrow> length ?d | (next_start, _) # _ \<Rightarrow> next_start)
      = ?s + length nal"
    by (cases units) (auto simp: annexb_def)
  moreover have "subslice ?s (?s + length nal) ?d = nal"
    by (simp add: subslice_def)
  moreover have "collect_nal_units ?d (code_positions (?s + length nal) units) = map snd units"
    using Cons.IH [of "pre @ code @ nal"] Cons.prems by (simp add: add.assoc)
  ultimately have "collect_nal_units ?d (code_positions (length pre) (u # units)) = map snd (u # units)"
    unfolding u code_positions.simps collect_nal_units.simps Let_def by simp
  then show ?case by (simp only: d)
qed

lemma split_annexb_lemma:
  assumes "\<forall>u \<in> set units. annexb_ok u"
  shows "split_nal_units (annexb units) = map snd units"
proof (cases units)
  case Nil
  then show ?thesis
    by (simp add: split_nal_units_def find_start_codes_def annexb_def find_start_codes_loop.simps)
next
  case (Cons u us)
  have "find_start_codes (annexb units) = code_positions 0 units"
    using find_start_codes_annexb [OF assms, of "[]"] by (simp add: find_start_codes_def)
  moreover have "code_positions 0 units \<noteq> []" using Cons by (cases u) simp
  ultimately show ?thesis
    using collect_annexb [OF assms, of "[]"] by (simp add: split_nal_units_def)
qed

section \<open>AVCC streams\<close>

definition avcc_unit :: "bytes \<Rightarrow> bytes" where
  "avcc_unit nal = u32_be (of_nat (length nal)) @ nal"

lemma length_avcc_unit [simp]: "length (avcc_unit nal) = 4 + length nal"
  by (simp add: avcc_unit_def)

lemma split_avcc_units:
  assumes "\<forall>nal \<in> set nals. nal \<noteq> [] \<and> length nal < 2 ^ 32"
  shows "split_avcc_loop (pre @ concat (map avcc_unit nals)) (length pre) acc = acc @ nals"
  using assms
proof (induction nals arbitrary: pre acc)
  case Nil
  then show ?case by (simp add: split_avcc_loop.simps)
next
  case (Cons nal nals)
  let ?D = "pre @ avcc_unit nal @ concat (map avcc_unit nals)"
  have sz: "unat (of_nat (length nal) :: u32) = length nal" and pos: "0 < length nal"
    using Cons.prems by (simp_all add: unat_of_nat)
  have a: "subslice (length pre) (length pre + 4) ?D = u32_be (of_nat (length nal))"
    by (simp add: subslice_append_skip avcc_unit_def)
  have b: "subslice (length pre + 4) (length pre + 4 + length nal) ?D = nal"
    by (simp add: subslice_def avcc_unit_def)
  have "split_avcc_loop ?D (length pre + 4 + length nal) (acc @ [nal]) = acc @ nal # nals"
    using Cons.IH [of "pre @ avcc_unit nal" "acc @ [nal]"] Cons.prems by (simp add: add.assoc)
  then show ?case
    using pos by (subst split_avcc_loop.simps) (simp add: Let_def a b sz)
qed

section \<open>Properties\<close>

interpretation nal_stream: codec annexb
  "\<lambda>data. Inr (map (\<lambda>n. ([0, 0, 0, 1], n)) (split_nal_units data))"
  "\<lambda>units. \<forall>u \<in> set units. annexb_ok u \<and> fst u = [0, 0, 0, 1]"
proof
  fix units :: "(bytes \<times> bytes) list"
  assume a: "\<forall>u \<in> set units. annexb_ok u \<and> fst u = [0, 0, 0, 1]"
  have "map (\<lambda>n. ([0, 0, 0, 1], n)) (map snd units) = units"
    using a by (induction units) auto
  then show "Inr (map (\<lambda>n. ([0, 0, 0, 1], n)) (split_nal_units (annexb units))) = Inr units"
    using a by (simp add: split_annexb_lemma)
qed

lemma parse_header_byte:
  assumes "drop_bit 7 hdr = 0" and "nal_unit_type_try_from (hdr AND 31) = Inr t"
  shows "parse_nal_header (hdr # payload) =
    Inr (\<lparr>nh_forbidden_zero_bit = 0, nh_nal_ref_idc = drop_bit 5 hdr AND 3, nh_nal_unit_type = t\<rparr>, payload)"
  using assms by (simp add: parse_nal_header_def Let_def)

lemma rem_bits_new: "rem_bits (bit_iter_new data) = bits_of data"
  by (simp add: rem_bits_def bit_iter_new_def)

lemma reads_from_start:
  assumes "reads rd bs v" and "bits_of data = bs @ rest"
  shows "\<exists>it. rd (bit_iter_new data) = Inr (v, it)"
proof -
  have "bi_bit_pos (bit_iter_new data) < 8 \<and> rem_bits (bit_iter_new data) = bs @ rest"
    using assms(2) by (simp add: rem_bits_new) (simp add: bit_iter_new_def)
  then show ?thesis using assms(1) unfolding reads_def by blast
qed

lemma parse_sps_lemma:
  assumes "drop_bit 7 hdr = 0" and "hdr AND 31 = 7" and "sps_ok s"
    and "bits_of payload = sps_bits s @ rest"
  shows "parse_sps (hdr # payload) = Inr (sps_decoded s)"
proof -
  have "nal_unit_type_try_from (hdr AND 31) = Inr Sps"
    using assms(2) by (simp add: nal_unit_type_try_from_def)
  from parse_header_byte [OF assms(1) this] reads_from_start [OF reads_sps [OF assms(3)] assms(4)]
  show ?thesis by (auto simp: parse_sps_def)
qed

text \<open>The picture size of a decoded SPS, over the naturals.\<close>

definition crop_width :: "sps_syntax \<Rightarrow> nat" where
  "crop_width s = (case sy_crop s of None \<Rightarrow> 0 | Some (l, r, t, b) \<Rightarrow> l + r)"

definition crop_height :: "sps_syntax \<Rightarrow> nat" where
  "crop_height s = (case sy_crop s of None \<Rightarrow> 0 | Some (l, r, t, b) \<Rightarrow> t + b)"

lemma crop_sum_width:
  "(case sp_frame_cropping (sps_decoded s) of None \<Rightarrow> 0
      | Some c \<Rightarrow> fc_left_offset c + fc_right_offset c) = of_nat (crop_width s)"
  by (auto simp: sps_decoded_def crop_width_def crop_of_def split: option.splits prod.splits)

lemma crop_sum_height:
  "(case sp_frame_cropping (sps_decoded s) of None \<Rightarrow> 0
      | Some c \<Rightarrow> fc_top_offset c + fc_bottom_offset c) = of_nat (crop_height s)"
  by (auto simp: sps_decoded_def crop_height_def crop_of_def split: option.splits prod.splits)

lemma unat_base_minus_crop:
  assumes "16 * (n + 1) < (2::nat) ^ 32" and "k * c \<le> 16 * (n + 1)"
  shows "unat ((of_nat n + 1) * 16 - of_nat c * of_nat k :: u32) = 16 * (n + 1) - k * c"
proof -
  have "(of_nat n + 1) * 16 - of_nat c * of_nat k = (of_nat (16 * (n + 1) - k * c) :: u32)"
    using assms(2) by (simp add: of_nat_diff algebra_simps)
  then show ?thesis using assms(1) by (simp add: unat_of_nat)
qed

lemma sps_size_lemma:
  assumes "sps_chroma s = 1"
    and "16 * (sy_width_mbs s + 1) < 2 ^ 32" and "2 * crop_width s \<le> 16 * (sy_width_mbs s + 1)"
    and "16 * (sy_height_units s + 1) < 2 ^ 32" and "2 * crop_height s \<le> 16 * (sy_height_units s + 1)"
  shows "unat (sps_width (sps_decoded s)) = 16 * (sy_width_mbs s + 1) - 2 * crop_width s"
    and "unat (sps_height (sps_decoded s)) = 16 * (sy_height_units s + 1) - 2 * crop_height s"
proof -
  have c: "sp_chroma_format_idc (sps_decoded s) = 1"
    "sp_pic_width_in_mbs_minus1 (sps_decoded s) = of_nat (sy_width_mbs s)"
    "sp_pic_height_in_map_units_minus1 (sps_decoded s) = of_nat (sy_height_units s)"
    using assms(1) by (simp_all add: sps_decoded_def)
  show "unat (sps_width (sps_decoded s)) = 16 * (sy_width_mbs s + 1) - 2 * crop_width s"
    using unat_base_minus_crop [OF assms(2,3)]
    unfolding sps_width_def Let_def crop_sum_width c by simp
  show "unat (sps_height (sps_decoded s)) = 16 * (sy_height_units s + 1) - 2 * crop_height s"
    using unat_base_minus_crop [OF assms(4,5)]
    unfolding sps_height_def Let_def crop_sum_height c by simp
qed


definition sample_sps :: sps_syntax where
  "sample_sps =
     \<lparr>sy_profile = 100, sy_constraints = 0, sy_level = 40, sy_id = 0, sy_chroma = 1,
      sy_separate_planes = False, sy_luma_depth = 0, sy_chroma_depth = 0, sy_bypass = False,
      sy_log2_frame_num = 0, sy_poc = Poc2, sy_ref_frames = 1, sy_gaps = False,
      sy_width_mbs = 119, sy_height_units = 67, sy_frame_mbs_only = True, sy_mb_adaptive = False,
      sy_direct_8x8 = True, sy_crop = Some (0, 0, 0, 4)\<rparr>"


text \<open>Splitting an Annex B stream returns exactly the NAL units it was made
  of, in order, whatever mix of three-byte and four-byte start codes separates them, for
  every sequence of units with emulation prevention.\<close>

theorem split_annexb:
  assumes "\<forall>u \<in> set units. annexb_ok u"
  shows "split_nal_units (annexb units) = map snd units"
  using assms by (rule split_annexb_lemma)

theorem split_annexb_witness:
  "annexb [([0, 0, 0, 1], [0x67, 0, 0, 3, 1]), ([0, 0, 1], [0x65, 0, 7])]
     = [0, 0, 0, 1, 0x67, 0, 0, 3, 1, 0, 0, 1, 0x65, 0, 7]
   \<and> split_nal_units [0, 0, 0, 1, 0x67, 0, 0, 3, 1, 0, 0, 1, 0x65, 0, 7]
     = [[0x67, 0, 0, 3, 1], [0x65, 0, 7]]"
proof -
  have a: "annexb [([0, 0, 0, 1], [0x67, 0, 0, 3, 1]), ([0, 0, 1], [0x65, 0, 7])]
     = [0, 0, 0, 1, 0x67, 0, 0, 3, 1, 0, 0, 1, 0x65, 0, 7]"
    by code_simp
  have ok: "\<forall>u \<in> set [([0, 0, 0, 1], [0x67, 0, 0, 3, 1]), ([0, 0, 1], [0x65, 0, 7])]. annexb_ok u"
    by code_simp
  show ?thesis using split_annexb [OF ok] a by simp
qed

text \<open>Splitting an AVCC stream (each unit behind its 32-bit length) returns
  exactly the units, for every sequence of non-empty units of less than \<open>2 ^ 32\<close> bytes.\<close>

theorem split_avcc:
  assumes "\<forall>nal \<in> set nals. nal \<noteq> [] \<and> length nal < 2 ^ 32"
  shows "split_nal_units_avcc (concat (map avcc_unit nals)) = nals"
  using split_avcc_units [OF assms, of "[]" "[]"] by (simp add: split_nal_units_avcc_def)

theorem split_avcc_witness:
  "split_nal_units_avcc (concat (map avcc_unit [[0x67, 1, 2], [0x65]])) = [[0x67, 1, 2], [0x65]]"
  by (rule split_avcc) simp

text \<open>The signed code of the source is the negation of the mapping of the standard,
  where code number \<open>k\<close> stands for \<open>(-1) ^ (k + 1) * ceil (k / 2)\<close>.\<close>

definition se_standard :: "nat \<Rightarrow> int" where
  "se_standard k = (if odd k then int ((k + 1) div 2) else - int (k div 2))"

lemma se_value_negated: "se_value v = - se_standard v"
  by (simp add: se_value_def se_standard_def)

text \<open>\<^verbatim>\<open>find_keyframes\<close> advances its search offset by the NAL unit lengths
  alone, without the start codes: in a stream of SPS, PPS and IDR slice with four-byte
  start codes, the key frame is reported at the start code of the PPS, not of the IDR
  slice, whenever the PPS has at most four bytes.\<close>

theorem find_keyframes_misplaced:
  assumes "annexb_ok ([0, 0, 0, 1], 0x67 # sps)" and "annexb_ok ([0, 0, 0, 1], 0x68 # pps)"
    and "annexb_ok ([0, 0, 0, 1], 0x65 # idr)" and "length pps \<le> 3"
  defines "stream \<equiv> annexb [([0, 0, 0, 1], 0x67 # sps), ([0, 0, 0, 1], 0x68 # pps), ([0, 0, 0, 1], 0x65 # idr)]"
  shows "find_keyframes stream = [5 + length sps]
    \<and> stream ! (5 + length sps + 4) = 0x68"
proof -
  have pos: "find_start_codes stream = [(0, 4), (5 + length sps, 9 + length sps),
      (10 + length sps + length pps, 14 + length sps + length pps)]"
    using find_start_codes_annexb [of "[([0, 0, 0, 1], 0x67 # sps), ([0, 0, 0, 1], 0x68 # pps), ([0, 0, 0, 1], 0x65 # idr)]" "[]"] assms(1-3)
    by (simp add: stream_def find_start_codes_def)
  have units: "split_nal_units stream = [0x67 # sps, 0x68 # pps, 0x65 # idr]"
    using assms(1-3) by (simp add: stream_def split_annexb_lemma)
  have h: "parse_nal_header (0x67 # d) = Inr (\<lparr>nh_forbidden_zero_bit = 0, nh_nal_ref_idc = 3, nh_nal_unit_type = Sps\<rparr>, d)"
    "parse_nal_header (0x68 # d) = Inr (\<lparr>nh_forbidden_zero_bit = 0, nh_nal_ref_idc = 3, nh_nal_unit_type = Pps\<rparr>, d)"
    "parse_nal_header (0x65 # d) = Inr (\<lparr>nh_forbidden_zero_bit = 0, nh_nal_ref_idc = 3, nh_nal_unit_type = Idr\<rparr>, d)" for d
    by (simp_all add: parse_nal_header_def nal_unit_type_try_from_def Let_def)
  have "find_keyframes stream = [5 + length sps]"
    using assms(4) by (simp add: find_keyframes_def units h pos is_keyframe_def)
  moreover have "stream ! (5 + length sps + 4) = 0x68"
    by (simp add: stream_def annexb_def annexb_unit_def nth_append)
  ultimately show ?thesis ..
qed

theorem find_keyframes_misplaced_witness:
  "find_keyframes (annexb [([0, 0, 0, 1], [0x67, 0x42, 0, 0x1E]), ([0, 0, 0, 1], [0x68, 0xCE, 0x3C, 0x80]),
     ([0, 0, 0, 1], [0x65, 0x88])]) = [8]"
proof -
  have "annexb_ok ([0, 0, 0, 1], [0x67, 0x42, 0, 0x1E])" "annexb_ok ([0, 0, 0, 1], [0x68, 0xCE, 0x3C, 0x80])"
    "annexb_ok ([0, 0, 0, 1], [0x65, 0x88])"
    by code_simp+
  from find_keyframes_misplaced [OF this] show ?thesis by simp
qed

end
