(* ===== verification/Amf0.thy ===== *)
theory Amf0
  imports Prelude
begin

text \<open>
  AMF0 values, \<^verbatim>\<open>crates/protocols/src/rtmp/amf0.rs\<close>: the recursive parser
  and serialiser. An \<^verbatim>\<open>f64\<close> is its 64-bit pattern (the code only moves the
  eight bytes), a \<^verbatim>\<open>String\<close> is a well-formed UTF-8 byte sequence. The lemmas
  show that parsing inverts serialisation for every value whose strings fit
  their length fields, in front of any further input, and that the parser never
  claims to have consumed more than it was given.
\<close>

section \<open>Values\<close>

definition AMF0_NUMBER :: u8 where "AMF0_NUMBER = 0x00"
definition AMF0_BOOLEAN :: u8 where "AMF0_BOOLEAN = 0x01"
definition AMF0_STRING :: u8 where "AMF0_STRING = 0x02"
definition AMF0_OBJECT :: u8 where "AMF0_OBJECT = 0x03"
definition AMF0_NULL :: u8 where "AMF0_NULL = 0x05"
definition AMF0_UNDEFINED :: u8 where "AMF0_UNDEFINED = 0x06"
definition AMF0_ECMA_ARRAY :: u8 where "AMF0_ECMA_ARRAY = 0x08"
definition AMF0_OBJECT_END :: u8 where "AMF0_OBJECT_END = 0x09"
definition AMF0_STRICT_ARRAY :: u8 where "AMF0_STRICT_ARRAY = 0x0A"
definition AMF0_DATE :: u8 where "AMF0_DATE = 0x0B"
definition AMF0_LONG_STRING :: u8 where "AMF0_LONG_STRING = 0x0C"
definition AMF0_XML :: u8 where "AMF0_XML = 0x0F"
definition AMF0_TYPED_OBJECT :: u8 where "AMF0_TYPED_OBJECT = 0x10"
definition AMF0_AMF3 :: u8 where "AMF0_AMF3 = 0x11"

lemmas amf0_markers =
  AMF0_NUMBER_def AMF0_BOOLEAN_def AMF0_STRING_def AMF0_OBJECT_def AMF0_NULL_def
  AMF0_UNDEFINED_def AMF0_ECMA_ARRAY_def AMF0_OBJECT_END_def AMF0_STRICT_ARRAY_def
  AMF0_DATE_def AMF0_LONG_STRING_def AMF0_XML_def AMF0_TYPED_OBJECT_def AMF0_AMF3_def

datatype amf0_value =
    Number u64
  | Boolean bool
  | String bytes
  | Object "(bytes \<times> amf0_value) list"
  | Null
  | Undefined
  | EcmaArray u32 "(bytes \<times> amf0_value) list"

type_synonym amf0_entries = "(bytes \<times> amf0_value) list"

text \<open>\<^verbatim>\<open>String::from_utf8(..).context(msg)\<close>.\<close>

definition from_utf8 :: "bytes \<Rightarrow> string \<Rightarrow> bytes result" where
  "from_utf8 bs msg = (if utf8_valid bs then Inr bs else Inl (Bail msg))"

text \<open>\<^verbatim>\<open>tz as f64\<close> of a 16-bit value: its exact double-precision pattern.\<close>

definition f64_of_u16 :: "u16 \<Rightarrow> u64" where
  "f64_of_u16 w =
     (let n = unat w; e = ilog2 n
      in if n = 0 then 0 else of_nat ((1023 + e) * 2 ^ 52 + (n - 2 ^ e) * 2 ^ (52 - e)))"

section \<open>The parser\<close>

definition parse_number :: "bytes \<Rightarrow> nat \<Rightarrow> (amf0_value \<times> nat) result" where
  "parse_number data offset =
     (if length data < offset + 8 then Inl (Bail ''Insufficient data for AMF0 number'')
      else Inr (Number (be_u64 (subslice offset (offset + 8) data)), offset + 8))"

definition parse_boolean :: "bytes \<Rightarrow> nat \<Rightarrow> (amf0_value \<times> nat) result" where
  "parse_boolean data offset =
     (if length data < offset + 1 then Inl (Bail ''Insufficient data for AMF0 boolean'')
      else Inr (Boolean (data ! offset \<noteq> 0), offset + 1))"

definition parse_string :: "bytes \<Rightarrow> nat \<Rightarrow> (amf0_value \<times> nat) result" where
  "parse_string data offset =
     (if length data < offset + 2 then Inl (Bail ''Insufficient data for AMF0 string length'')
      else
        let len = unat (be_u16 (subslice offset (offset + 2) data))
        in if length data < offset + 2 + len
           then Inl (Bail ''Insufficient data for AMF0 string value'')
           else and_then (from_utf8 (subslice (offset + 2) (offset + 2 + len) data)
                            ''Invalid UTF-8 in AMF0 string'')
                  (\<lambda>value. Inr (String value, offset + 2 + len)))"

definition parse_date :: "bytes \<Rightarrow> nat \<Rightarrow> (amf0_value \<times> nat) result" where
  "parse_date data offset =
     (if length data < offset + 10 then Inl (Bail ''Insufficient data for AMF0 date'')
      else
        let ms = be_u64 (subslice offset (offset + 8) data);
            tz = be_u16 (subslice (offset + 8) (offset + 10) data)
        in Inr (EcmaArray 2 [(ascii ''ms'', Number ms),
                             (ascii ''tz'', Number (f64_of_u16 tz))],
                offset + 10))"

definition parse_long_string :: "bytes \<Rightarrow> nat \<Rightarrow> (amf0_value \<times> nat) result" where
  "parse_long_string data offset =
     (if length data < offset + 4 then Inl (Bail ''Insufficient data for AMF0 long string length'')
      else
        let len = unat (be_u32 (subslice offset (offset + 4) data))
        in if length data < offset + 4 + len
           then Inl (Bail ''Insufficient data for AMF0 long string value'')
           else and_then (from_utf8 (subslice (offset + 4) (offset + 4 + len) data)
                            ''Invalid UTF-8 in AMF0 long string'')
                  (\<lambda>value. Inr (String value, offset + 4 + len)))"

definition parse_xml :: "bytes \<Rightarrow> nat \<Rightarrow> (amf0_value \<times> nat) result" where
  "parse_xml data offset = parse_long_string data offset"

text \<open>The class name of a typed object: the position after it.\<close>

definition parse_class_name :: "bytes \<Rightarrow> nat \<Rightarrow> nat result" where
  "parse_class_name data offset =
     (if length data < offset + 2
      then Inl (Bail ''Insufficient data for AMF0 typed object class name length'')
      else
        let class_name_len = unat (be_u16 (subslice offset (offset + 2) data));
            pos = offset + 2
        in if length data < pos + class_name_len
           then Inl (Bail ''Insufficient data for AMF0 typed object class name'')
           else and_then (from_utf8 (subslice pos (pos + class_name_len) data)
                            ''Invalid UTF-8 in AMF0 typed object class name'')
                  (\<lambda>_. Inr (pos + class_name_len)))"

lemma parse_class_name_bounds:
  "parse_class_name data offset = Inr pos \<Longrightarrow> offset + 2 \<le> pos \<and> pos \<le> length data"
  by (auto simp: parse_class_name_def Let_def result_simps split: if_splits)

text \<open>
  \<open>amf0_parse data\<close> is \<^verbatim>\<open>Amf0Value::parse\<close>; \<open>entries_loop data pos entries\<close> is the loop
  of \<^verbatim>\<open>parse_object_entries\<close>, returning the final position; \<open>strict_loop\<close> is the
  loop of \<^verbatim>\<open>parse_strict_array\<close> with the number of values still to read.
\<close>

function amf0_parse :: "bytes \<Rightarrow> (amf0_value \<times> nat) result"
  and entries_loop :: "bytes \<Rightarrow> nat \<Rightarrow> amf0_entries \<Rightarrow> (amf0_entries \<times> nat) result"
  and strict_loop :: "bytes \<Rightarrow> nat \<Rightarrow> nat \<Rightarrow> amf0_entries \<Rightarrow> (amf0_entries \<times> nat) result"
  where
  "amf0_parse data =
     (if data = [] then Inl (Bail ''Cannot parse AMF0 value from empty data'')
      else
        let marker = data ! 0; offset = 1
        in if marker = AMF0_NUMBER then parse_number data offset
           else if marker = AMF0_BOOLEAN then parse_boolean data offset
           else if marker = AMF0_STRING then parse_string data offset
           else if marker = AMF0_OBJECT then
             and_then (entries_loop data offset [])
               (\<lambda>(entries, pos). Inr (Object entries, offset + (pos - offset)))
           else if marker = AMF0_NULL then Inr (Null, offset)
           else if marker = AMF0_UNDEFINED then Inr (Undefined, offset)
           else if marker = AMF0_ECMA_ARRAY then
             if length data < offset + 4
             then Inl (Bail ''Insufficient data for AMF0 ECMA array count'')
             else
               let count = be_u32 (subslice offset (offset + 4) data)
               in and_then (entries_loop data (offset + 4) [])
                    (\<lambda>(entries, pos). Inr (EcmaArray count entries,
                                           offset + 4 + (pos - (offset + 4))))
           else if marker = AMF0_STRICT_ARRAY then
             if length data < offset + 4
             then Inl (Bail ''Insufficient data for AMF0 strict array count'')
             else
               let count = unat (be_u32 (subslice offset (offset + 4) data))
               in and_then (strict_loop data (offset + 4) count [])
                    (\<lambda>(entries, pos). Inr (EcmaArray (of_nat count) entries, pos))
           else if marker = AMF0_DATE then parse_date data offset
           else if marker = AMF0_LONG_STRING then parse_long_string data offset
           else if marker = AMF0_XML then parse_xml data offset
           else if marker = AMF0_TYPED_OBJECT then
             and_then (parse_class_name data offset) (\<lambda>pos.
               and_then (entries_loop data pos [])
                 (\<lambda>(entries, pos').
                    let end_pos = pos + (pos' - pos)
                    in if length data < end_pos + 3
                       then Inl (Bail ''Insufficient data for AMF0 typed object end marker'')
                       else if subslice end_pos (end_pos + 3) data \<noteq> [0, 0, AMF0_OBJECT_END]
                       then Inl (Bail ''Invalid AMF0 typed object end marker'')
                       else Inr (Object entries, end_pos + 3)))
           else if marker = AMF0_AMF3 then Inl (Bail ''AMF3 encoding not supported'')
           else Inl (Bail ''Unknown AMF0 type marker''))"
| "entries_loop data pos entries =
     (if length data < pos + 2 then Inl (Bail ''Insufficient data for AMF0 object key length'')
      else
        let key_len = unat (be_u16 (subslice pos (pos + 2) data));
            pos1 = pos + 2
        in if key_len = 0 \<and> length data < pos1 + 1
           then Inl (Bail ''Insufficient data for AMF0 object end marker'')
           else if key_len = 0 \<and> data ! pos1 = AMF0_OBJECT_END then Inr (entries, pos1 + 1)
           else if length data < pos1 + key_len
           then Inl (Bail ''Insufficient data for AMF0 object key value'')
           else and_then (from_utf8 (subslice pos1 (pos1 + key_len) data)
                            ''Invalid UTF-8 in AMF0 object key'') (\<lambda>key.
                let pos2 = pos1 + key_len
                in and_then (amf0_parse (drop pos2 data)) (\<lambda>(value, consumed).
                     entries_loop data (pos2 + consumed) (entries @ [(key, value)]))))"
| "strict_loop data pos 0 entries = Inr (entries, pos)"
| "strict_loop data pos (Suc count) entries =
     and_then (amf0_parse (drop pos data)) (\<lambda>(value, consumed).
       strict_loop data (pos + consumed) count
         (entries @ [(dec_digits (length entries), value)]))"
  by pat_completeness auto
termination
  by (relation "measures
       [\<lambda>x. case x of Inl data \<Rightarrow> length data
             | Inr (Inl (data, pos, _)) \<Rightarrow> length data - pos
             | Inr (Inr (data, pos, _, _)) \<Rightarrow> length data - pos,
        \<lambda>x. case x of Inl _ \<Rightarrow> 0 | Inr (Inl _) \<Rightarrow> 1 | Inr (Inr (_, _, count, _)) \<Rightarrow> Suc count]")
    (auto dest!: parse_class_name_bounds)

declare amf0_parse.simps [simp del] entries_loop.simps [simp del] strict_loop.simps [simp del]

section \<open>The serialiser\<close>

fun amf0_serialize :: "amf0_value \<Rightarrow> bytes"
  and serialize_object_entries :: "amf0_entries \<Rightarrow> bytes" where
  "amf0_serialize (Number n) = AMF0_NUMBER # u64_be n"
| "amf0_serialize (Boolean b) = [AMF0_BOOLEAN, if b then 1 else 0]"
| "amf0_serialize (String s) = AMF0_STRING # u16_be (of_nat (length s)) @ s"
| "amf0_serialize (Object entries) =
     AMF0_OBJECT # serialize_object_entries entries @ [0, 0, AMF0_OBJECT_END]"
| "amf0_serialize Null = [AMF0_NULL]"
| "amf0_serialize Undefined = [AMF0_UNDEFINED]"
| "amf0_serialize (EcmaArray count entries) =
     AMF0_ECMA_ARRAY # u32_be count @ serialize_object_entries entries @ [0, 0, AMF0_OBJECT_END]"
| "serialize_object_entries [] = []"
| "serialize_object_entries ((key, value) # entries) =
     u16_be (of_nat (length key)) @ key @ amf0_serialize value @ serialize_object_entries entries"

section \<open>Parsing inverts serialisation\<close>

fun amf0_ok :: "amf0_value \<Rightarrow> bool" and entries_ok :: "amf0_entries \<Rightarrow> bool" where
  "amf0_ok (Number n) = True"
| "amf0_ok (Boolean b) = True"
| "amf0_ok (String s) = (utf8_valid s \<and> length s < 65536)"
| "amf0_ok (Object entries) = entries_ok entries"
| "amf0_ok Null = True"
| "amf0_ok Undefined = True"
| "amf0_ok (EcmaArray count entries) = entries_ok entries"
| "entries_ok [] = True"
| "entries_ok ((key, value) # entries) =
     (utf8_valid key \<and> length key < 65536 \<and> amf0_ok value \<and> entries_ok entries)"

lemma serialize_first: "\<exists>m bs. amf0_serialize v = m # bs \<and> m \<noteq> AMF0_OBJECT_END"
  by (cases v) (simp_all add: amf0_markers)

lemma unat_len16: "length s < 65536 \<Longrightarrow> unat (of_nat (length s) :: u16) = length s"
  by (simp add: unat_of_nat)

lemma from_utf8_ok: "utf8_valid s \<Longrightarrow> from_utf8 s msg = Inr s"
  by (simp add: from_utf8_def)

lemma subslice_at: "length pre = a \<Longrightarrow> length xs = n \<Longrightarrow> subslice a (a + n) (pre @ xs @ ys) = xs"
  by (simp add: subslice_def)

lemma entries_loop_end:
  "entries_loop (pre @ [0, 0, AMF0_OBJECT_END] @ rest) (length pre) acc = Inr (acc, length pre + 3)"
proof -
  have "subslice (length pre) (length pre + 2) (pre @ [0, 0] @ (AMF0_OBJECT_END # rest)) = [0, 0]"
    by (rule subslice_at) simp_all
  then have k: "unat (be_u16 (subslice (length pre) (length pre + 2) (pre @ [0, 0, AMF0_OBJECT_END] @ rest))) = 0"
    by (simp add: be_u16_def)
  have "(pre @ [0, 0, AMF0_OBJECT_END] @ rest) ! (length pre + 2) = AMF0_OBJECT_END"
    by (simp add: nth_append)
  with k show ?thesis by (subst entries_loop.simps) (simp add: Let_def)
qed

lemma entries_loop_entry:
  fixes pre rest :: bytes
  assumes "utf8_valid key" and "length key < 65536"
    and "amf0_parse (amf0_serialize value @ rest) = Inr (value, length (amf0_serialize value))"
  defines "data \<equiv> pre @ u16_be (of_nat (length key)) @ key @ amf0_serialize value @ rest"
  shows "entries_loop data (length pre) acc =
    entries_loop data (length pre + 2 + length key + length (amf0_serialize value)) (acc @ [(key, value)])"
proof -
  obtain m bs where m: "amf0_serialize value = m # bs" "m \<noteq> AMF0_OBJECT_END"
    using serialize_first by blast
  have "subslice (length pre) (length pre + 2) data = u16_be (of_nat (length key))"
    unfolding data_def by (rule subslice_at) simp_all
  then have k: "unat (be_u16 (subslice (length pre) (length pre + 2) data)) = length key"
    using assms(2) by (simp add: unat_len16)
  have s: "subslice (length pre + 2) (length pre + 2 + length key) data = key"
    by (simp add: data_def subslice_def)
  have d: "drop (length pre + 2 + length key) data = amf0_serialize value @ rest"
    by (simp add: data_def)
  have e: "length key = 0 \<Longrightarrow> data ! (length pre + 2) = m"
    using m by (simp add: data_def nth_append)
  have l: "length pre + 2 + length key < length data" using m by (simp add: data_def)
  show ?thesis
    using m(2) l e
    by (subst entries_loop.simps)
      (auto simp: Let_def k s d assms(1,3) from_utf8_ok simp del: add_2_eq_Suc')
qed

lemma amf0_roundtrip:
  "amf0_ok v \<Longrightarrow> amf0_parse (amf0_serialize v @ rest) = Inr (v, length (amf0_serialize v))"
  "entries_ok es \<Longrightarrow> entries_loop (pre @ serialize_object_entries es @ [0, 0, AMF0_OBJECT_END] @ rest) (length pre) acc
     = Inr (acc @ es, length pre + length (serialize_object_entries es) + 3)"
proof (induction v and es arbitrary: rest and pre acc rest
    rule: amf0_serialize_serialize_object_entries.induct)
  case (1 n)
  have "subslice 1 (1 + 8) ([AMF0_NUMBER] @ u64_be n @ rest) = u64_be n" by (rule subslice_at) simp_all
  then show ?case
    by (subst amf0_parse.simps) (simp add: parse_number_def)
next
  case (2 b)
  then show ?case by (subst amf0_parse.simps) (simp add: parse_boolean_def amf0_markers)
next
  case (3 s)
  have "subslice 1 (1 + 2) ([AMF0_STRING] @ u16_be (of_nat (length s)) @ s @ rest) = u16_be (of_nat (length s))"
    by (rule subslice_at) simp_all
  moreover have "subslice (1 + 2) (1 + 2 + length s) (([AMF0_STRING] @ u16_be (of_nat (length s))) @ s @ rest) = s"
    by (rule subslice_at) simp_all
  ultimately show ?case using 3
    by (subst amf0_parse.simps) (simp add: parse_string_def unat_len16 from_utf8_ok Let_def amf0_markers)
next
  case (4 es)
  have "entries_loop ([AMF0_OBJECT] @ serialize_object_entries es @ [0, 0, AMF0_OBJECT_END] @ rest) (length [AMF0_OBJECT]) []
      = Inr ([] @ es, length [AMF0_OBJECT] + length (serialize_object_entries es) + 3)"
    using 4 by (intro "4.IH") simp
  then show ?case by (subst amf0_parse.simps) (simp add: amf0_markers)
next
  case 5
  then show ?case by (subst amf0_parse.simps) (simp add: amf0_markers)
next
  case 6
  then show ?case by (subst amf0_parse.simps) (simp add: amf0_markers)
next
  case (7 count es)
  let ?pre = "AMF0_ECMA_ARRAY # u32_be count"
  have "entries_loop (?pre @ serialize_object_entries es @ [0, 0, AMF0_OBJECT_END] @ rest) (length ?pre) []
      = Inr ([] @ es, length ?pre + length (serialize_object_entries es) + 3)"
    using 7 by (intro "7.IH") simp
  moreover have "subslice 1 (1 + 4) ([AMF0_ECMA_ARRAY] @ u32_be count @ serialize_object_entries es @ [0, 0, AMF0_OBJECT_END] @ rest) = u32_be count"
    by (rule subslice_at) simp_all
  ultimately show ?case by (subst amf0_parse.simps) (simp add: amf0_markers Let_def)
next
  case 8
  then show ?case using entries_loop_end [of pre rest acc] by simp
next
  case (9 key v es)
  let ?rest = "serialize_object_entries es @ [0, 0, AMF0_OBJECT_END] @ rest"
  let ?pre = "pre @ u16_be (of_nat (length key)) @ key @ amf0_serialize v"
  have "entries_loop (?pre @ ?rest) (length ?pre) (acc @ [(key, v)])
      = Inr ((acc @ [(key, v)]) @ es, length ?pre + length (serialize_object_entries es) + 3)"
    using 9 by (intro "9.IH"(2)) simp
  moreover have "amf0_parse (amf0_serialize v @ ?rest) = Inr (v, length (amf0_serialize v))"
    using 9 by (intro "9.IH"(1)) simp
  ultimately show ?case
    using entries_loop_entry [of key v ?rest pre acc] "9.prems" by (simp add: add.assoc)
qed

text \<open>Consumed lengths stay within the input.\<close>

lemma parse_scalar_bounds:
  "parse_number data (Suc 0) = Inr (v, n) \<Longrightarrow> 1 \<le> n \<and> n \<le> length data"
  "parse_boolean data (Suc 0) = Inr (v, n) \<Longrightarrow> 1 \<le> n \<and> n \<le> length data"
  "parse_string data (Suc 0) = Inr (v, n) \<Longrightarrow> 1 \<le> n \<and> n \<le> length data"
  "parse_date data (Suc 0) = Inr (v, n) \<Longrightarrow> 1 \<le> n \<and> n \<le> length data"
  "parse_long_string data (Suc 0) = Inr (v, n) \<Longrightarrow> 1 \<le> n \<and> n \<le> length data"
  "parse_xml data (Suc 0) = Inr (v, n) \<Longrightarrow> 1 \<le> n \<and> n \<le> length data"
  by (auto simp: parse_number_def parse_boolean_def parse_string_def parse_date_def parse_xml_def
      parse_long_string_def Let_def result_simps split: if_splits)

lemma entries_loop_bounds:
  assumes sub: "\<And>d v n. length d < length data \<Longrightarrow> amf0_parse d = Inr (v, n) \<Longrightarrow> n \<le> length d"
  shows "entries_loop data pos acc = Inr (es, q) \<Longrightarrow> pos \<le> q \<and> q \<le> length data"
proof (induction "length data - pos" arbitrary: pos acc rule: less_induct)
  case less
  define k where "k = unat (be_u16 (subslice pos (pos + 2) data))"
  have len: "pos + 2 \<le> length data"
    using less.prems by (subst (asm) entries_loop.simps) (auto split: if_splits)
  consider (fin) "q = pos + 3" "pos + 3 \<le> length data"
    | (more) v n where "pos + 2 + k \<le> length data" "amf0_parse (drop (pos + 2 + k) data) = Inr (v, n)"
        "\<exists>acc'. entries_loop data (pos + 2 + k + n) acc' = Inr (es, q)"
    using less.prems unfolding k_def
    by (subst (asm) entries_loop.simps) (auto simp: Let_def result_simps split: if_splits)
  then show ?case
  proof cases
    case fin
    then show ?thesis by simp
  next
    case more
    have "n \<le> length (drop (pos + 2 + k) data)"
      by (rule sub [OF _ more(2)]) (use len in simp)
    then have n: "pos + 2 + k + n \<le> length data" using more(1) by simp
    obtain acc' where "entries_loop data (pos + 2 + k + n) acc' = Inr (es, q)" using more(3) ..
    moreover have "length data - (pos + 2 + k + n) < length data - pos" using len by linarith
    ultimately have "pos + 2 + k + n \<le> q \<and> q \<le> length data" by (intro less.hyps)
    then show ?thesis by linarith
  qed
qed

lemma strict_loop_bounds:
  assumes sub: "\<And>d v n. length d < length data \<Longrightarrow> amf0_parse d = Inr (v, n) \<Longrightarrow> n \<le> length d"
    and "0 < pos" and "pos \<le> length data"
  shows "strict_loop data pos count acc = Inr (es, q) \<Longrightarrow> pos \<le> q \<and> q \<le> length data"
  using assms(2,3)
proof (induction count arbitrary: pos acc)
  case 0
  then show ?case by (simp add: strict_loop.simps)
next
  case (Suc count)
  then obtain v n where p: "amf0_parse (drop pos data) = Inr (v, n)"
    and r: "strict_loop data (pos + n) count (acc @ [(dec_digits (length acc), v)]) = Inr (es, q)"
    by (auto simp: strict_loop.simps(2) result_simps)
  have "n \<le> length (drop pos data)"
    by (rule sub [OF _ p]) (use Suc.prems in simp)
  then have "pos + n \<le> length data" using Suc.prems by simp
  with Suc.IH [OF r] Suc.prems show ?case by simp
qed

lemma amf0_parse_bounds: "amf0_parse data = Inr (v, n) \<Longrightarrow> 0 < n \<and> n \<le> length data"
proof (induction "length data" arbitrary: data v n rule: less_induct)
  case less
  have sub: "length d < length data \<Longrightarrow> amf0_parse d = Inr (v, n) \<Longrightarrow> n \<le> length d" for d v n
    using less.hyps by blast
  have ne: "data \<noteq> []" using less.prems by (subst (asm) amf0_parse.simps) auto
  note eq = amf0_parse.simps [of data] and prem = less.prems
  consider (obj) "data ! 0 = 0x03" | (ecma) "data ! 0 = 0x08" | (strict) "data ! 0 = 0x0A" | (typed) "data ! 0 = 0x10"
    | "data ! 0 = 0x00" | "data ! 0 = 0x01" | "data ! 0 = 0x02" | "data ! 0 = 0x05" | "data ! 0 = 0x06"
    | "data ! 0 = 0x0B" | "data ! 0 = 0x0C" | "data ! 0 = 0x0F"
    using prem ne unfolding eq by (auto simp: Let_def amf0_markers split: if_splits)
  then show ?case
  proof cases
    case obj
    then obtain es q where e: "entries_loop data 1 [] = Inr (es, q)" and "n = 1 + (q - 1)"
      using prem ne unfolding eq by (auto simp: amf0_markers result_simps)
    moreover have "1 \<le> q \<and> q \<le> length data" by (rule entries_loop_bounds [OF _ e]) (rule sub)
    ultimately show ?thesis by simp
  next
    case ecma
    then obtain es q where e: "entries_loop data 5 [] = Inr (es, q)" and "n = 5 + (q - 5)"
      using prem ne unfolding eq by (auto simp: Let_def amf0_markers result_simps split: if_splits)
    moreover have "5 \<le> q \<and> q \<le> length data" by (rule entries_loop_bounds [OF _ e]) (rule sub)
    ultimately show ?thesis by simp
  next
    case strict
    then obtain es c where e: "strict_loop data 5 c [] = Inr (es, n)" and "5 \<le> length data"
      using prem ne unfolding eq by (auto simp: Let_def amf0_markers result_simps split: if_splits)
    moreover have "5 \<le> n \<and> n \<le> length data"
      by (rule strict_loop_bounds [OF _ _ _ e]) (use calculation sub in simp_all)
    ultimately show ?thesis by simp
  next
    case typed
    then show ?thesis
      using prem ne unfolding eq by (auto simp: Let_def amf0_markers result_simps split: if_splits)
  qed (use prem ne in \<open>auto simp: eq amf0_markers Suc_le_eq dest: parse_scalar_bounds\<close>)
qed

section \<open>Properties\<close>

text \<open>\<^verbatim>\<open>Amf0Value::parse\<close> as a prefix decoder: the value and the bytes after it.\<close>

definition amf0_decode :: "bytes \<Rightarrow> (amf0_value \<times> bytes) option" where
  "amf0_decode data = (case amf0_parse data of Inl _ \<Rightarrow> None | Inr (v, n) \<Rightarrow> Some (v, drop n data))"

interpretation amf0: prefix_codec amf0_serialize amf0_decode amf0_ok
  by unfold_locales (simp add: amf0_decode_def amf0_roundtrip(1))

text \<open>C39. For every AMF0 value whose strings and keys are UTF-8 of fewer than \<open>2 ^ 16\<close> bytes,
  however deeply nested, parsing its serialisation in front of any further bytes
  succeeds, returns the value, and consumes exactly the serialised length.\<close>

theorem amf0_parse_serialize:
  assumes "amf0_ok v"
  shows "amf0_parse (amf0_serialize v @ rest) = Inr (v, length (amf0_serialize v))"
  using assms by (rule amf0_roundtrip(1))

definition sample_amf0 :: amf0_value where
  "sample_amf0 = Object [([97, 112, 112], String [108, 105, 118, 101]),
     ([], EcmaArray 1 [([120], Number 0x3FF0000000000000)]), ([98], Boolean True), ([99], Null)]"

theorem amf0_parse_serialize_witness:
  "amf0_ok sample_amf0 \<and> length (amf0_serialize sample_amf0) = 47
   \<and> amf0_parse (amf0_serialize sample_amf0 @ [1, 2]) = Inr (sample_amf0, 47)"
proof -
  have ok: "amf0_ok sample_amf0" and len: "length (amf0_serialize sample_amf0) = 47"
    by (simp_all add: sample_amf0_def)
  show ?thesis using amf0_parse_serialize [OF ok, of "[1, 2]"] ok len by simp
qed

text \<open>A sequence of serialised values is uniquely decodable: two sequences of the same length
  with the same bytes are equal value by value, so a command message determines its arguments.\<close>

lemma amf0_sequence_injective:
  assumes "\<forall>v \<in> set vs. amf0_ok v" and "\<forall>w \<in> set ws. amf0_ok w" and "length vs = length ws"
    and "concat (map amf0_serialize vs) = concat (map amf0_serialize ws)"
  shows "vs = ws"
  using amf0.enc_list_inj [OF assms(1-3), of "[]" "[]"] assms(4) by simp

text \<open>On arbitrary input the parser never claims more than it was given: a successful parse
  consumes at least one byte and at most the whole input, so the caller's slicing cannot go
  out of bounds.\<close>

theorem amf0_parse_consumed:
  assumes "amf0_parse data = Inr (v, n)"
  shows "0 < n \<and> n \<le> length data"
  using assms by (rule amf0_parse_bounds)

theorem amf0_parse_consumed_witness:
  "amf0_parse [5, 7] = Inr (Null, 1) \<and> 0 < (1::nat) \<and> (1::nat) \<le> length [5, 7 :: u8]"
proof -
  have p: "amf0_parse [5, 7] = Inr (Null, 1)" by (simp add: amf0_parse.simps amf0_markers)
  show ?thesis using amf0_parse_consumed [OF p] p by simp
qed

text \<open>A typed object encoded as the AMF0 specification says (class name, entries, one object
  end marker) is rejected: \<^verbatim>\<open>parse_typed_object\<close> demands a second end marker after the one
  that the entry loop has consumed.\<close>

theorem typed_object_needs_two_end_markers:
  assumes "utf8_valid name" and "length name < 65536" and "entries_ok es"
  shows "amf0_parse (AMF0_TYPED_OBJECT # u16_be (of_nat (length name)) @ name
      @ serialize_object_entries es @ [0, 0, AMF0_OBJECT_END])
    = Inl (Bail ''Insufficient data for AMF0 typed object end marker'')"
proof -
  let ?pre = "AMF0_TYPED_OBJECT # u16_be (of_nat (length name)) @ name"
  let ?d = "?pre @ serialize_object_entries es @ [0, 0, AMF0_OBJECT_END]"
  have "subslice 1 (1 + 2) ([AMF0_TYPED_OBJECT] @ u16_be (of_nat (length name))
      @ (name @ serialize_object_entries es @ [0, 0, AMF0_OBJECT_END])) = u16_be (of_nat (length name))"
    by (rule subslice_at) simp_all
  moreover have "subslice (1 + 2) (1 + 2 + length name) (([AMF0_TYPED_OBJECT] @ u16_be (of_nat (length name)))
      @ name @ (serialize_object_entries es @ [0, 0, AMF0_OBJECT_END])) = name"
    by (rule subslice_at) simp_all
  ultimately have "parse_class_name ?d 1 = Inr (3 + length name)"
    using assms by (simp add: parse_class_name_def Let_def unat_len16 from_utf8_ok)
  moreover have "length ?pre = 3 + length name" by simp
  then have "entries_loop ?d (3 + length name) [] = Inr (es, 3 + length name + length (serialize_object_entries es) + 3)"
    using amf0_roundtrip(2) [OF assms(3), of ?pre "[]" "[]"] by (simp only: append_Nil append_Nil2)
  ultimately show ?thesis
    by (subst amf0_parse.simps) (simp add: amf0_markers Let_def)
qed

theorem typed_object_needs_two_end_markers_witness:
  "amf0_parse (AMF0_TYPED_OBJECT # u16_be (of_nat (length [80 :: u8])) @ [80]
      @ serialize_object_entries [] @ [0, 0, AMF0_OBJECT_END])
    = Inl (Bail ''Insufficient data for AMF0 typed object end marker'')"
  by (rule typed_object_needs_two_end_markers) simp_all

end
