(* ===== verification/RtmpChunk.thy ===== *)
theory RtmpChunk
  imports Prelude
begin

text \<open>
  The RTMP chunk layer, \<^verbatim>\<open>crates/protocols/src/rtmp/chunk.rs\<close>: basic headers
  in their one, two and three byte forms, message headers of the four chunk types
  with extended timestamps, and the stateful chunk stream parser with its
  acknowledgement window. A reader is the list of bytes still to be read;
  the parser state is returned on errors too, because the source mutates it
  before it fails.
\<close>

section \<open>Chunk and message types\<close>

datatype chunk_type = Type0 | Type1 | Type2 | Type3

definition chunk_type_from_u8 :: "u8 \<Rightarrow> chunk_type result" where
  "chunk_type_from_u8 val =
     (if val = 0 then Inr Type0 else if val = 1 then Inr Type1
      else if val = 2 then Inr Type2 else if val = 3 then Inr Type3
      else Inl (Bail ''Invalid chunk type''))"

fun chunk_type_to_u8 :: "chunk_type \<Rightarrow> u8" where
  "chunk_type_to_u8 Type0 = 0"
| "chunk_type_to_u8 Type1 = 1"
| "chunk_type_to_u8 Type2 = 2"
| "chunk_type_to_u8 Type3 = 3"

fun header_size :: "chunk_type \<Rightarrow> nat" where
  "header_size Type0 = 11"
| "header_size Type1 = 7"
| "header_size Type2 = 3"
| "header_size Type3 = 0"

datatype message_type =
    SetChunkSize | AbortMessage | Acknowledgement | UserControlMessage | WindowAckSize
  | SetPeerBandwidth | Audio | Video | Data | SharedObject | Command | Aggregate

definition message_type_from_u8 :: "u8 \<Rightarrow> message_type result" where
  "message_type_from_u8 val =
     (if val = 1 then Inr SetChunkSize
      else if val = 2 then Inr AbortMessage
      else if val = 3 then Inr Acknowledgement
      else if val = 4 then Inr UserControlMessage
      else if val = 5 then Inr WindowAckSize
      else if val = 6 then Inr SetPeerBandwidth
      else if val = 8 then Inr Audio
      else if val = 9 then Inr Video
      else if val = 18 then Inr Data
      else if val = 19 then Inr SharedObject
      else if val = 20 then Inr Command
      else if val = 22 then Inr Aggregate
      else Inl (Bail ''Unknown message type''))"

fun message_type_to_u8 :: "message_type \<Rightarrow> u8" where
  "message_type_to_u8 SetChunkSize = 1"
| "message_type_to_u8 AbortMessage = 2"
| "message_type_to_u8 Acknowledgement = 3"
| "message_type_to_u8 UserControlMessage = 4"
| "message_type_to_u8 WindowAckSize = 5"
| "message_type_to_u8 SetPeerBandwidth = 6"
| "message_type_to_u8 Audio = 8"
| "message_type_to_u8 Video = 9"
| "message_type_to_u8 Data = 18"
| "message_type_to_u8 SharedObject = 19"
| "message_type_to_u8 Command = 20"
| "message_type_to_u8 Aggregate = 22"

section \<open>Basic headers\<close>

record chunk_basic_header =
  bh_chunk_type :: chunk_type
  bh_chunk_stream_id :: u32

definition MAX_1BYTE_CSID :: u32 where "MAX_1BYTE_CSID = 63"
definition MAX_2BYTE_CSID :: u32 where "MAX_2BYTE_CSID = 319"

text \<open>\<^verbatim>\<open>reader.read_exact(&mut buf).context(msg)\<close>.\<close>

definition read_exact :: "nat \<Rightarrow> string \<Rightarrow> bytes \<Rightarrow> (bytes \<times> bytes) result" where
  "read_exact n msg rd = (if length rd < n then Inl (Bail msg) else Inr (take n rd, drop n rd))"

definition parse_csid :: "u32 \<Rightarrow> bytes \<Rightarrow> (u32 \<times> bytes) result" where
  "parse_csid cs_id rd =
     (if cs_id = 0 then
        and_then (read_exact 1 ''Failed to read 2-byte CSID'' rd)
          (\<lambda>(buf, rd'). Inr (ucast (buf ! 0) + 64, rd'))
      else if cs_id = 1 then
        and_then (read_exact 2 ''Failed to read 3-byte CSID'' rd)
          (\<lambda>(buf, rd'). Inr (ucast (buf ! 0) + ucast (buf ! 1) * 256 + 64, rd'))
      else if cs_id = 2 then Inr (2, rd)
      else if 3 \<le> cs_id \<and> cs_id \<le> MAX_1BYTE_CSID then Inr (cs_id, rd)
      else Inl (Bail ''Invalid chunk stream ID''))"

definition basic_header_parse :: "bytes \<Rightarrow> (chunk_basic_header \<times> bytes) result" where
  "basic_header_parse rd =
     and_then (read_exact 1 ''Failed to read first byte of basic header'' rd)
       (\<lambda>(first_byte, rd1).
     and_then (chunk_type_from_u8 (drop_bit 6 (first_byte ! 0) AND 3)) (\<lambda>chunk_type.
     and_then (parse_csid (ucast (first_byte ! 0 AND 63)) rd1) (\<lambda>(chunk_stream_id, rd2).
     Inr (\<lparr>bh_chunk_type = chunk_type, bh_chunk_stream_id = chunk_stream_id\<rparr>, rd2))))"

definition basic_header_serialize :: "chunk_basic_header \<Rightarrow> bytes" where
  "basic_header_serialize h =
     (let fmt = chunk_type_to_u8 (bh_chunk_type h);
          cs_id = bh_chunk_stream_id h
      in if 2 \<le> cs_id \<and> cs_id \<le> MAX_1BYTE_CSID then [push_bit 6 fmt OR ucast cs_id]
         else if 64 \<le> cs_id \<and> cs_id \<le> MAX_2BYTE_CSID
         then [push_bit 6 fmt, ucast (cs_id - 64)]
         else if 320 \<le> cs_id \<and> cs_id \<le> 65599
         then [push_bit 6 fmt OR 1, ucast ((cs_id - 64) mod 256), ucast ((cs_id - 64) div 256)]
         else [push_bit 6 fmt, 64])"

section \<open>Message headers\<close>

record chunk_message_header =
  mh_timestamp :: u32
  mh_message_length :: u32
  mh_message_type :: message_type
  mh_message_stream_id :: "u32 option"
  mh_extended :: bool

definition EXTENDED_TIMESTAMP_THRESHOLD :: u32 where
  "EXTENDED_TIMESTAMP_THRESHOLD = 0xFFFFFF"

definition message_header_default :: chunk_message_header where
  "message_header_default =
     \<lparr>mh_timestamp = 0, mh_message_length = 0, mh_message_type = Command,
      mh_message_stream_id = None, mh_extended = False\<rparr>"

text \<open>\<^verbatim>\<open>u32::from_be_bytes([0, a, b, c])\<close> and \<^verbatim>\<open>to_be_bytes()[1..4]\<close>.\<close>

definition be_u24 :: "bytes \<Rightarrow> u32" where "be_u24 bs = be_u32 (0 # bs)"
definition u24_be :: "u32 \<Rightarrow> bytes" where "u24_be w = drop 1 (u32_be w)"

text \<open>The common tail of the three header parsers: a saturated timestamp is followed by the full one.\<close>

definition read_extended :: "u32 \<Rightarrow> bytes \<Rightarrow> (u32 \<times> bool \<times> bytes) result" where
  "read_extended timestamp rd =
     (if timestamp = EXTENDED_TIMESTAMP_THRESHOLD then
        and_then (read_exact 4 ''Failed to read extended timestamp'' rd)
          (\<lambda>(ext_buf, rd'). Inr (be_u32 ext_buf, True, rd'))
      else Inr (timestamp, False, rd))"

definition parse_type0 :: "bytes \<Rightarrow> (chunk_message_header \<times> bytes) result" where
  "parse_type0 rd =
     and_then (read_exact 11 ''Failed to read Type 0 header'' rd) (\<lambda>(buf, rd1).
     let timestamp = be_u24 (subslice 0 3 buf);
         message_length = be_u24 (subslice 3 6 buf)
     in and_then (message_type_from_u8 (buf ! 6)) (\<lambda>message_type.
        let message_stream_id = le_u32 (subslice 7 11 buf)
        in and_then (read_extended timestamp rd1) (\<lambda>(timestamp, extended, rd2).
           Inr (\<lparr>mh_timestamp = timestamp, mh_message_length = message_length,
                 mh_message_type = message_type,
                 mh_message_stream_id = Some message_stream_id, mh_extended = extended\<rparr>, rd2))))"

definition parse_type1 :: "bytes \<Rightarrow> (chunk_message_header \<times> bytes) result" where
  "parse_type1 rd =
     and_then (read_exact 7 ''Failed to read Type 1 header'' rd) (\<lambda>(buf, rd1).
     let timestamp = be_u24 (subslice 0 3 buf);
         message_length = be_u24 (subslice 3 6 buf)
     in and_then (message_type_from_u8 (buf ! 6)) (\<lambda>message_type.
        and_then (read_extended timestamp rd1) (\<lambda>(timestamp, extended, rd2).
        Inr (\<lparr>mh_timestamp = timestamp, mh_message_length = message_length,
              mh_message_type = message_type,
              mh_message_stream_id = None, mh_extended = extended\<rparr>, rd2))))"

definition parse_type2 :: "bytes \<Rightarrow> (chunk_message_header \<times> bytes) result" where
  "parse_type2 rd =
     and_then (read_exact 3 ''Failed to read Type 2 header'' rd) (\<lambda>(buf, rd1).
     and_then (read_extended (be_u24 (subslice 0 3 buf)) rd1) (\<lambda>(timestamp, extended, rd2).
     Inr (\<lparr>mh_timestamp = timestamp, mh_message_length = 0, mh_message_type = Command,
           mh_message_stream_id = None, mh_extended = extended\<rparr>, rd2)))"

fun message_header_parse :: "chunk_type \<Rightarrow> bytes \<Rightarrow> (chunk_message_header \<times> bytes) result" where
  "message_header_parse Type0 rd = parse_type0 rd"
| "message_header_parse Type1 rd = parse_type1 rd"
| "message_header_parse Type2 rd = parse_type2 rd"
| "message_header_parse Type3 rd = Inr (message_header_default, rd)"

definition header_ts :: "chunk_message_header \<Rightarrow> bytes" where
  "header_ts h = u24_be (if mh_extended h then EXTENDED_TIMESTAMP_THRESHOLD
                         else min (mh_timestamp h) EXTENDED_TIMESTAMP_THRESHOLD)"

definition header_len :: "chunk_message_header \<Rightarrow> bytes" where
  "header_len h = u24_be (min (mh_message_length h) EXTENDED_TIMESTAMP_THRESHOLD)"

definition header_ext :: "chunk_message_header \<Rightarrow> bytes" where
  "header_ext h = (if mh_extended h then u32_be (mh_timestamp h) else [])"

fun message_header_serialize :: "chunk_type \<Rightarrow> chunk_message_header \<Rightarrow> bytes" where
  "message_header_serialize Type0 h =
     header_ts h @ header_len h @ [message_type_to_u8 (mh_message_type h)]
     @ (case mh_message_stream_id h of Some msid \<Rightarrow> u32_le msid | None \<Rightarrow> []) @ header_ext h"
| "message_header_serialize Type1 h =
     header_ts h @ header_len h @ [message_type_to_u8 (mh_message_type h)] @ header_ext h"
| "message_header_serialize Type2 h = header_ts h @ header_ext h"
| "message_header_serialize Type3 h = []"

section \<open>The chunk stream parser\<close>

record chunk_stream_state =
  cs_last_header :: "chunk_message_header option"
  cs_received_bytes :: nat

definition chunk_stream_state_default :: chunk_stream_state where
  "chunk_stream_state_default = \<lparr>cs_last_header = None, cs_received_bytes = 0\<rparr>"

record chunk_parser =
  cp_streams :: "u32 \<Rightarrow> chunk_stream_state option"
  cp_chunk_size :: u32
  cp_current_message :: bytes
  cp_ack_window_size :: u32
  cp_total_bytes_received :: u64
  cp_bytes_since_last_ack :: u64

definition DEFAULT_CHUNK_SIZE :: u32 where "DEFAULT_CHUNK_SIZE = 128"

definition chunk_parser_new :: chunk_parser where
  "chunk_parser_new =
     \<lparr>cp_streams = Map.empty, cp_chunk_size = DEFAULT_CHUNK_SIZE, cp_current_message = [],
      cp_ack_window_size = 0, cp_total_bytes_received = 0, cp_bytes_since_last_ack = 0\<rparr>"

definition handle_set_chunk_size :: "chunk_parser \<Rightarrow> bytes \<Rightarrow> unit result \<times> chunk_parser" where
  "handle_set_chunk_size p data =
     (if length data < 4 then (Inl (Bail ''SetChunkSize data too short''), p)
      else
        let chunk_size = be_u32 (take 4 data) AND 0x7FFFFFFF
        in if \<not> (1 \<le> chunk_size \<and> chunk_size \<le> 0xFFFFFF)
           then (Inl (Bail ''Invalid chunk size''), p)
           else (Inr (), p\<lparr>cp_chunk_size := chunk_size\<rparr>))"

definition handle_window_ack_size :: "chunk_parser \<Rightarrow> bytes \<Rightarrow> unit result \<times> chunk_parser" where
  "handle_window_ack_size p data =
     (if length data < 4 then (Inl (Bail ''WindowAckSize data too short''), p)
      else (Inr (), p\<lparr>cp_ack_window_size := be_u32 (take 4 data)\<rparr>))"

definition take_ack_if_needed :: "chunk_parser \<Rightarrow> u32 option \<times> chunk_parser" where
  "take_ack_if_needed p =
     (if cp_ack_window_size p > 0
         \<and> cp_bytes_since_last_ack p \<ge> ucast (cp_ack_window_size p div 2)
      then (Some (ucast (cp_total_bytes_received p)), p\<lparr>cp_bytes_since_last_ack := 0\<rparr>)
      else (None, p))"

text \<open>The header of a chunk: type 3 repeats the last one of its chunk stream.\<close>

definition chunk_header ::
  "chunk_basic_header \<Rightarrow> chunk_stream_state \<Rightarrow> bytes \<Rightarrow>
     (chunk_message_header \<times> chunk_stream_state \<times> bytes) result" where
  "chunk_header bh st rd =
     (if bh_chunk_type bh = Type3 then
        (case cs_last_header st of
           Some last_header \<Rightarrow> Inr (last_header, st, rd)
         | None \<Rightarrow> Inl (Bail ''Type 3 chunk without previous header''))
      else
        and_then (message_header_parse (bh_chunk_type bh) rd)
          (\<lambda>(header, rd'). Inr (header, st\<lparr>cs_last_header := Some header\<rparr>, rd')))"

text \<open>The end of \<^verbatim>\<open>parse_chunk_inner\<close>: deliver the message when all its bytes have arrived.\<close>

definition complete_chunk ::
  "chunk_parser \<Rightarrow> u32 \<Rightarrow> chunk_stream_state \<Rightarrow> chunk_message_header \<Rightarrow> bytes \<Rightarrow>
     (bytes option \<times> bytes) result \<times> chunk_parser" where
  "complete_chunk p cs st header rd =
     (if cs_received_bytes st \<ge> unat (mh_message_length header) then
        let message = cp_current_message p;
            p1 = p\<lparr>cp_current_message := [],
                   cp_streams := (cp_streams p)(cs \<mapsto> st\<lparr>cs_received_bytes := 0\<rparr>)\<rparr>
        in if mh_message_type header = WindowAckSize then
             (case handle_window_ack_size p1 message of
                (Inl e, p2) \<Rightarrow> (Inl e, p2)
              | (Inr _, p2) \<Rightarrow> (Inr (Some message, rd), p2))
           else (Inr (Some message, rd), p1)
      else (Inr (None, rd), p))"

definition parse_chunk :: "chunk_parser \<Rightarrow> bytes \<Rightarrow> (bytes option \<times> bytes) result \<times> chunk_parser" where
  "parse_chunk p rd =
     (case basic_header_parse rd of
        Inl e \<Rightarrow> (Inl e, p)
      | Inr (bh, rd1) \<Rightarrow>
          let cs = bh_chunk_stream_id bh;
              st = (case cp_streams p cs of Some s \<Rightarrow> s | None \<Rightarrow> chunk_stream_state_default);
              p1 = p\<lparr>cp_streams := (cp_streams p)(cs \<mapsto> st)\<rparr>
          in (case chunk_header bh st rd1 of
                Inl e \<Rightarrow> (Inl e, p1)
              | Inr (header, st1, rd2) \<Rightarrow>
                  let p2 = p1\<lparr>cp_streams := (cp_streams p1)(cs \<mapsto> st1)\<rparr>;
                      remaining = unat (mh_message_length header) - cs_received_bytes st1;
                      chunk_data_size = min remaining (unat (cp_chunk_size p2))
                  in (case read_exact chunk_data_size ''Failed to read chunk data'' rd2 of
                        Inl e \<Rightarrow> (Inl e, p2)
                      | Inr (chunk_data, rd3) \<Rightarrow>
                          let st2 = st1\<lparr>cs_received_bytes := cs_received_bytes st1 + chunk_data_size\<rparr>;
                              p3 = p2\<lparr>cp_streams := (cp_streams p2)(cs \<mapsto> st2),
                                      cp_current_message := cp_current_message p2 @ chunk_data,
                                      cp_total_bytes_received :=
                                        cp_total_bytes_received p2 + of_nat chunk_data_size,
                                      cp_bytes_since_last_ack :=
                                        cp_bytes_since_last_ack p2 + of_nat chunk_data_size\<rparr>
                          in if mh_extended header then
                               (case read_exact 4 ''Failed to read extended timestamp'' rd3 of
                                  Inl e \<Rightarrow> (Inl e, p3)
                                | Inr (_, rd4) \<Rightarrow> complete_chunk p3 cs st2 header rd4)
                             else complete_chunk p3 cs st2 header rd3)))"

section \<open>The chunk writer of the push client\<close>

text \<open>
  \<^verbatim>\<open>RtmpPushClient::write_chunked\<close> (in \<^verbatim>\<open>rtmp/mod.rs\<close>): the bytes it
  writes. A chunk size of zero would make the source loop forever; the client only
  uses 128 and 65536.
\<close>

function write_body :: "u32 \<Rightarrow> nat \<Rightarrow> bytes \<Rightarrow> nat \<Rightarrow> bytes" where
  "write_body cs chunk_size data offset =
     (if offset < length data \<and> 0 < chunk_size then
        let end_pos = min (offset + chunk_size) (length data)
        in subslice offset end_pos data
           @ (if end_pos < length data
              then basic_header_serialize \<lparr>bh_chunk_type = Type3, bh_chunk_stream_id = cs\<rparr>
              else [])
           @ write_body cs chunk_size data end_pos
      else [])"
  by pat_completeness auto
termination
  by (relation "measure (\<lambda>(cs, n, data, offset). length data - offset)") auto

declare write_body.simps [simp del]

definition write_chunked ::
  "u32 \<Rightarrow> message_type \<Rightarrow> u32 \<Rightarrow> u32 \<Rightarrow> u32 \<Rightarrow> bytes \<Rightarrow> bytes" where
  "write_chunked chunk_stream_id msg_type message_stream_id timestamp chunk_size data =
     (let extended = (timestamp \<ge> 0xFFFFFF);
          msg_header = \<lparr>mh_timestamp = timestamp, mh_message_length = of_nat (length data),
                        mh_message_type = msg_type,
                        mh_message_stream_id = Some message_stream_id, mh_extended = extended\<rparr>
      in basic_header_serialize \<lparr>bh_chunk_type = Type0, bh_chunk_stream_id = chunk_stream_id\<rparr>
         @ message_header_serialize Type0 msg_header
         @ write_body chunk_stream_id (unat chunk_size) data 0)"

section \<open>Header round trips\<close>

lemma read_exact_append [simp]: "length xs = n \<Longrightarrow> read_exact n msg (xs @ ys) = Inr (xs, ys)"
  by (simp add: read_exact_def)

lemma read_exact_one [simp]: "read_exact (Suc 0) msg (x # ys) = Inr ([x], ys)"
  by (simp add: read_exact_def)

lemma chunk_type_roundtrip [simp]: "chunk_type_from_u8 (chunk_type_to_u8 t) = Inr t"
  by (cases t) (simp_all add: chunk_type_from_u8_def)

lemma chunk_type_small: "unat (chunk_type_to_u8 t) < 4"
  by (cases t) simp_all

lemma message_type_roundtrip [simp]: "message_type_from_u8 (message_type_to_u8 t) = Inr t"
  by (cases t) (simp_all add: message_type_from_u8_def)

lemma fmt_byte:
  assumes "unat (b :: u8) < 64"
  shows "drop_bit 6 (push_bit 6 (chunk_type_to_u8 t) OR b) AND 3 = chunk_type_to_u8 t"
    and "(push_bit 6 (chunk_type_to_u8 t) OR b) AND 63 = b"
proof -
  have "drop_bit 6 (push_bit 6 (chunk_type_to_u8 t) OR b) = chunk_type_to_u8 t"
    by (rule drop_pack) (use assms chunk_type_small [of t] in simp_all)
  then show "drop_bit 6 (push_bit 6 (chunk_type_to_u8 t) OR b) AND 3 = chunk_type_to_u8 t"
    using chunk_type_small [of t] by (simp del: drop_bit_or)
  have "take_bit 6 (push_bit 6 (chunk_type_to_u8 t) OR b) = b"
    by (rule take_pack) (use assms in simp)
  then show "(push_bit 6 (chunk_type_to_u8 t) OR b) AND 63 = b"
    by (simp only: byte_simps)
qed

definition csid_ok :: "chunk_basic_header \<Rightarrow> bool" where
  "csid_ok h \<longleftrightarrow> 2 \<le> bh_chunk_stream_id h \<and> bh_chunk_stream_id h \<le> 65599"

lemma unat_ucast_u32_u8: "unat (ucast (w :: u32) :: u8) = unat w mod 256"
  by (simp add: unsigned_ucast_eq take_bit_eq_mod)

lemma unat_ucast_u8_u32: "unat (ucast (b :: u8) :: u32) = unat b"
  unfolding unsigned_ucast_eq by (rule take_bit_nat_eq_self, rule less_trans [OF u8_less]) simp

lemma basic_header_parse_first:
  "unat b < 64 \<Longrightarrow> basic_header_parse ((push_bit 6 (chunk_type_to_u8 t) OR b) # rd) =
   and_then (parse_csid (ucast b) rd) (\<lambda>(i, rd2). Inr (\<lparr>bh_chunk_type = t, bh_chunk_stream_id = i\<rparr>, rd2))"
  by (simp add: basic_header_parse_def fmt_byte del: drop_bit_or)

lemma basic_header_roundtrip:
  assumes "csid_ok h"
  shows "basic_header_parse (basic_header_serialize h @ rest) = Inr (h, rest)"
proof -
  let ?t = "bh_chunk_type h" and ?c = "bh_chunk_stream_id h"
  have c: "2 \<le> unat ?c" "unat ?c \<le> 65599"
    using assms by (simp_all add: csid_ok_def word_le_nat_alt)
  have h: "\<lparr>bh_chunk_type = ?t, bh_chunk_stream_id = ?c\<rparr> = h" by simp
  consider (one) "unat ?c \<le> 63" | (two) "64 \<le> unat ?c" "unat ?c \<le> 319" | (three) "320 \<le> unat ?c"
    by linarith
  then show ?thesis
  proof cases
    case one
    have u: "unat (ucast ?c :: u8) = unat ?c" using one by (simp add: unat_ucast_u32_u8)
    have uc: "(ucast (ucast ?c :: u8) :: u32) = ?c"
      using u by (simp add: word_unat_eq_iff unat_ucast_u8_u32)
    have "parse_csid ?c rest = Inr (?c, rest)"
      using c(1) one by (auto simp: parse_csid_def MAX_1BYTE_CSID_def word_le_nat_alt word_unat_eq_iff)
    then show ?thesis
      using basic_header_parse_first [of "ucast ?c" ?t rest] u uc one c h
      by (simp add: basic_header_serialize_def Let_def MAX_1BYTE_CSID_def word_le_nat_alt)
  next
    case two
    have m: "unat (?c - 64) = unat ?c - 64" using two by (simp add: unat_sub word_le_nat_alt)
    have "unat (ucast (?c - 64) :: u8) = unat ?c - 64"
      using two by (simp add: unat_ucast_u32_u8 m)
    then have "(ucast (ucast (?c - 64) :: u8) :: u32) = ?c - 64"
      by (simp add: word_unat_eq_iff unat_ucast_u8_u32 m)
    then show ?thesis
      using basic_header_parse_first [of 0 ?t "ucast (?c - 64) # rest"] two h
      by (simp add: basic_header_serialize_def Let_def MAX_1BYTE_CSID_def MAX_2BYTE_CSID_def
          word_le_nat_alt parse_csid_def)
  next
    case three
    let ?d = "?c - 64"
    have m: "unat ?d = unat ?c - 64" using three by (simp add: unat_sub word_le_nat_alt)
    have a: "unat (ucast (ucast (?d mod 256) :: u8) :: u32) = unat ?d mod 256"
      by (simp add: unat_ucast_u8_u32 unat_ucast_u32_u8 unat_mod_distrib)
    have b: "unat (ucast (ucast (?d div 256) :: u8) :: u32) = unat ?d div 256"
      using c m by (simp add: unat_ucast_u8_u32 unat_ucast_u32_u8 unat_div_distrib)
    have a': "(ucast (ucast (?d mod 256) :: u8) :: u32) = ?d mod 256"
      using a by (simp add: word_unat_eq_iff unat_mod_distrib)
    have b': "(ucast (ucast (?d div 256) :: u8) :: u32) = ?d div 256"
      using b by (simp add: word_unat_eq_iff unat_div_distrib)
    have "ucast (ucast (?d mod 256) :: u8) + ucast (ucast (?d div 256) :: u8) * 256 + 64 = ?c"
      unfolding a' b' by (metis add.commute diff_add_cancel div_mult_mod_eq)
    then show ?thesis
      using basic_header_parse_first [of 1 ?t "ucast (?d mod 256) # ucast (?d div 256) # rest"] three c h
      by (simp add: basic_header_serialize_def Let_def MAX_1BYTE_CSID_def MAX_2BYTE_CSID_def
          word_le_nat_alt parse_csid_def read_exact_def)
  qed
qed

lemma u24_be_cons: "unat w < 2 ^ 24 \<Longrightarrow> 0 # u24_be w = u32_be w"
  using be_bytes.simps(2) [of 3 "unat w"] by (simp add: u24_be_def u32_be_def)

lemma be_u24_u24_be [simp]: "unat w < 2 ^ 24 \<Longrightarrow> be_u24 (u24_be w) = w"
  by (simp add: be_u24_def u24_be_cons)

lemma length_u24_be [simp]: "length (u24_be w) = 3"
  by (simp add: u24_be_def)

text \<open>The headers the wire can carry for each chunk type.\<close>

definition message_header_ok :: "chunk_type \<Rightarrow> chunk_message_header \<Rightarrow> bool" where
  "message_header_ok t h \<longleftrightarrow>
     (mh_extended h \<or> mh_timestamp h < EXTENDED_TIMESTAMP_THRESHOLD)
     \<and> mh_message_length h \<le> EXTENDED_TIMESTAMP_THRESHOLD
     \<and> (mh_message_stream_id h \<noteq> None \<longleftrightarrow> t = Type0)
     \<and> (t = Type2 \<longrightarrow> mh_message_length h = 0 \<and> mh_message_type h = Command)
     \<and> (t = Type3 \<longrightarrow> h = message_header_default)"

lemma header_fields:
  assumes "message_header_ok t h"
  shows "be_u24 (header_ts h) = (if mh_extended h then EXTENDED_TIMESTAMP_THRESHOLD else mh_timestamp h)"
    and "be_u24 (header_len h) = mh_message_length h"
    and "length (header_ts h) = 3" and "length (header_len h) = 3"
proof -
  have thr: "unat EXTENDED_TIMESTAMP_THRESHOLD < 2 ^ 24"
    by (simp add: EXTENDED_TIMESTAMP_THRESHOLD_def)
  have l: "mh_message_length h \<le> EXTENDED_TIMESTAMP_THRESHOLD"
    using assms by (simp add: message_header_ok_def)
  then have "unat (mh_message_length h) < 2 ^ 24"
    using thr unfolding word_le_nat_alt by (rule le_less_trans)
  then show "be_u24 (header_len h) = mh_message_length h"
    using l by (simp add: header_len_def min_absorb1)
  show "be_u24 (header_ts h) = (if mh_extended h then EXTENDED_TIMESTAMP_THRESHOLD else mh_timestamp h)"
  proof (cases "mh_extended h")
    case True
    then show ?thesis using thr by (simp add: header_ts_def)
  next
    case False
    then have t: "mh_timestamp h < EXTENDED_TIMESTAMP_THRESHOLD"
      using assms by (simp add: message_header_ok_def)
    then have "unat (mh_timestamp h) < 2 ^ 24"
      using thr unfolding word_less_nat_alt by (rule less_trans)
    then show ?thesis using False t by (simp add: header_ts_def min_absorb1 order_less_imp_le)
  qed
qed (simp_all add: header_ts_def header_len_def)

lemma read_extended_ok:
  assumes "message_header_ok t h"
  shows "read_extended (be_u24 (header_ts h)) (header_ext h @ rest) = Inr (mh_timestamp h, mh_extended h, rest)"
proof (cases "mh_extended h")
  case True
  then show ?thesis using header_fields(1) [OF assms] by (simp add: read_extended_def header_ext_def)
next
  case False
  then have "mh_timestamp h \<noteq> EXTENDED_TIMESTAMP_THRESHOLD"
    using assms by (auto simp: message_header_ok_def)
  then show ?thesis using False header_fields(1) [OF assms] by (simp add: read_extended_def header_ext_def)
qed

lemma header_slices:
  assumes "length a = 3" and "length b = 3" and "length d = 4"
  shows "subslice 0 3 (a @ b @ [c] @ d) = a" "subslice 3 6 (a @ b @ [c] @ d) = b"
    "(a @ b @ [c] @ d) ! 6 = c" "subslice 7 11 (a @ b @ [c] @ d) = d"
    "subslice 0 3 (a @ b @ [c]) = a" "subslice 3 6 (a @ b @ [c]) = b" "(a @ b @ [c]) ! 6 = c"
  using assms by (simp_all add: subslice_def nth_append)

lemma message_header_roundtrip:
  assumes ok: "message_header_ok t h"
  shows "message_header_parse t (message_header_serialize t h @ rest) = Inr (h, rest)"
proof (cases t)
  case Type0
  then obtain m where m: "mh_message_stream_id h = Some m"
    using ok by (auto simp: message_header_ok_def)
  let ?buf = "header_ts h @ header_len h @ [message_type_to_u8 (mh_message_type h)] @ u32_le m"
  note f = header_fields [OF ok]
  have rd: "read_exact 11 e (?buf @ header_ext h @ rest) = Inr (?buf, header_ext h @ rest)" for e
    by (rule read_exact_append) (simp add: f)
  have s: "message_header_serialize Type0 h @ rest = ?buf @ header_ext h @ rest"
    by (simp add: m)
  show ?thesis
    unfolding Type0 s message_header_parse.simps parse_type0_def rd
    using f m read_extended_ok [OF ok, of rest]
    by (simp add: header_slices [OF f(3,4), of "u32_le m", simplified] Let_def)
next
  case Type1
  then have m: "mh_message_stream_id h = None" using ok by (auto simp: message_header_ok_def)
  let ?buf = "header_ts h @ header_len h @ [message_type_to_u8 (mh_message_type h)]"
  note f = header_fields [OF ok]
  have rd: "read_exact 7 e (?buf @ header_ext h @ rest) = Inr (?buf, header_ext h @ rest)" for e
    by (rule read_exact_append) (simp add: f)
  have s: "message_header_serialize Type1 h @ rest = ?buf @ header_ext h @ rest" by simp
  show ?thesis
    unfolding Type1 s message_header_parse.simps parse_type1_def rd
    using f m read_extended_ok [OF ok, of rest]
    by (simp add: header_slices [OF f(3,4), of "[0, 0, 0, 0]", simplified] Let_def)
next
  case Type2
  then have m: "mh_message_stream_id h = None" "mh_message_length h = 0" "mh_message_type h = Command"
    using ok by (auto simp: message_header_ok_def)
  note f = header_fields [OF ok]
  have sl: "subslice 0 3 (header_ts h) = header_ts h" using f(3) by (simp add: subslice_def)
  show ?thesis
    using m read_extended_ok [OF ok, of rest] f(3) sl
    by (simp add: Type2 parse_type2_def)
next
  case Type3
  then show ?thesis using ok by (simp add: message_header_ok_def)
qed

section \<open>Reassembling a chunked message\<close>

lemma write_body_end: "length data \<le> offset \<Longrightarrow> write_body cs n data offset = []"
  by (subst write_body.simps) simp

text \<open>The stream state of a chunk stream, present or not.\<close>

definition stream_of :: "chunk_parser \<Rightarrow> u32 \<Rightarrow> chunk_stream_state" where
  "stream_of p cs = (case cp_streams p cs of Some s \<Rightarrow> s | None \<Rightarrow> chunk_stream_state_default)"

lemma parse_chunk_step:
  assumes "basic_header_parse rd = Inr (bh, rd1)" and "bh_chunk_stream_id bh = cs"
    and "chunk_header bh (stream_of p cs) rd1 = Inr (header, st1, chunk @ rd3)"
    and "\<not> mh_extended header"
    and "length chunk = min (unat (mh_message_length header) - cs_received_bytes st1) (unat (cp_chunk_size p))"
  shows "parse_chunk p rd =
    complete_chunk (p\<lparr>cp_streams := (cp_streams p)(cs \<mapsto> st1\<lparr>cs_received_bytes := cs_received_bytes st1 + length chunk\<rparr>),
        cp_current_message := cp_current_message p @ chunk,
        cp_total_bytes_received := cp_total_bytes_received p + of_nat (length chunk),
        cp_bytes_since_last_ack := cp_bytes_since_last_ack p + of_nat (length chunk)\<rparr>)
      cs (st1\<lparr>cs_received_bytes := cs_received_bytes st1 + length chunk\<rparr>) header rd3"
  using assms by (simp add: parse_chunk_def Let_def stream_of_def)

text \<open>Running the parser over a buffer, \<open>n\<close> chunks, collecting the complete messages.\<close>

fun run_chunks :: "nat \<Rightarrow> chunk_parser \<Rightarrow> bytes \<Rightarrow> (bytes list \<times> bytes \<times> chunk_parser) result" where
  "run_chunks 0 p rd = Inr ([], rd, p)"
| "run_chunks (Suc n) p rd =
     (case parse_chunk p rd of
        (Inl e, _) \<Rightarrow> Inl e
      | (Inr (m, rd'), p') \<Rightarrow>
          and_then (run_chunks n p' rd') (\<lambda>(ms, rd'', p'').
            Inr ((case m of None \<Rightarrow> ms | Some msg \<Rightarrow> msg # ms), rd'', p'')))"

text \<open>Nothing is pending on the chunk stream.\<close>

definition idle :: "chunk_parser \<Rightarrow> u32 \<Rightarrow> bool" where
  "idle p cs \<longleftrightarrow> cp_current_message p = [] \<and> cs_received_bytes (stream_of p cs) = 0"

lemma write_body_step:
  assumes "offset < length data" and "0 < n"
  defines "e \<equiv> min (offset + n) (length data)"
  shows "write_body cs n data offset = subslice offset e data
    @ (if e < length data then basic_header_serialize \<lparr>bh_chunk_type = Type3, bh_chunk_stream_id = cs\<rparr> else [])
    @ write_body cs n data e"
  using assms by (subst write_body.simps) (simp add: Let_def)

text \<open>
  The chunk that starts at \<open>offset\<close>: what the parser does with its body once the header
  has been determined, and the remaining chunks, by induction on what is left.
\<close>

lemma run_chunk_body:
  assumes hdr: "\<not> mh_extended header" "unat (mh_message_length header) = length data"
      "mh_message_type header \<noteq> WindowAckSize"
    and size: "0 < unat (cp_chunk_size p)" and cs: "2 \<le> cs" "cs \<le> 65599"
    and off: "offset < length data \<or> (offset = 0 \<and> data = [])"
    and bh: "basic_header_parse rd = Inr (bh, rd1)" "bh_chunk_stream_id bh = cs"
    and ch: "chunk_header bh (stream_of p cs) rd1 =
      Inr (header, st1, write_body cs (unat (cp_chunk_size p)) data offset @ rest)"
    and st1: "cs_received_bytes st1 = offset" "cs_last_header st1 = Some header"
    and cur: "cp_current_message p = take offset data"
  shows "\<exists>n p'. run_chunks n p rd = Inr ([data], rest, p') \<and> idle p' cs
    \<and> cp_chunk_size p' = cp_chunk_size p"
  using off bh ch st1 cur size
proof (induction "length data - offset" arbitrary: offset p rd rd1 bh st1 rule: less_induct)
  case less
  let ?n = "unat (cp_chunk_size p)"
  define e where "e = min (offset + ?n) (length data)"
  define chunk where "chunk = subslice offset e data"
  define more where "more = (if e < length data
      then basic_header_serialize \<lparr>bh_chunk_type = Type3, bh_chunk_stream_id = cs\<rparr> else [])"
  have body: "write_body cs ?n data offset = chunk @ more @ write_body cs ?n data e"
  proof (cases "data = []")
    case True
    then show ?thesis using less.prems(1)
      by (simp add: chunk_def more_def e_def write_body_end subslice_def)
  next
    case False
    then show ?thesis
      using less.prems(1,8) write_body_step [of offset data ?n cs]
      by (simp only: chunk_def more_def e_def simp_thms)
  qed
  have oe: "offset \<le> e" "e \<le> length data" using less.prems(1) by (auto simp: e_def)
  have lc: "length chunk = e - offset" using oe by (simp add: chunk_def)
  have cat: "take offset data @ chunk = take e data"
    using oe by (simp add: chunk_def subslice_def) (metis le_add_diff_inverse take_add)
  define p' where "p' = p\<lparr>cp_streams := (cp_streams p)(cs \<mapsto> st1\<lparr>cs_received_bytes := e\<rparr>),
      cp_current_message := take e data,
      cp_total_bytes_received := cp_total_bytes_received p + of_nat (length chunk),
      cp_bytes_since_last_ack := cp_bytes_since_last_ack p + of_nat (length chunk)\<rparr>"
  have len: "length chunk = min (unat (mh_message_length header) - cs_received_bytes st1) ?n"
    using lc oe less.prems(5) hdr(2) by (auto simp: e_def)
  have step: "parse_chunk p rd = complete_chunk p' cs (st1\<lparr>cs_received_bytes := e\<rparr>) header
      (more @ write_body cs ?n data e @ rest)"
    using parse_chunk_step [OF less.prems(2,3) _ hdr(1) len, of "more @ write_body cs ?n data e @ rest"]
      less.prems(4,5,7) body cat lc oe by (simp add: p'_def)
  show ?case
  proof (cases "e < length data")
    case False
    then have e: "e = length data" using oe by simp
    have pc: "parse_chunk p rd = (Inr (Some data, rest), p'\<lparr>cp_current_message := [],
        cp_streams := (cp_streams p')(cs \<mapsto> st1\<lparr>cs_received_bytes := 0\<rparr>)\<rparr>)"
      unfolding step using e hdr by (simp add: complete_chunk_def more_def write_body_end p'_def)
    then have "run_chunks 1 p rd = Inr ([data], rest, p'\<lparr>cp_current_message := [],
        cp_streams := (cp_streams p')(cs \<mapsto> st1\<lparr>cs_received_bytes := 0\<rparr>)\<rparr>)"
      by simp
    moreover have "idle (p'\<lparr>cp_current_message := [],
        cp_streams := (cp_streams p')(cs \<mapsto> st1\<lparr>cs_received_bytes := 0\<rparr>)\<rparr>) cs"
      by (simp add: idle_def stream_of_def)
    ultimately show ?thesis by (intro exI conjI) (assumption, assumption, simp add: p'_def)
  next
    case True
    let ?rd' = "more @ write_body cs ?n data e @ rest"
    let ?bh' = "\<lparr>bh_chunk_type = Type3, bh_chunk_stream_id = cs\<rparr>"
    have pc: "parse_chunk p rd = (Inr (None, ?rd'), p')"
      unfolding step using True hdr by (simp add: complete_chunk_def)
    have b': "basic_header_parse ?rd' = Inr (?bh', write_body cs ?n data e @ rest)"
      using True cs by (simp add: more_def basic_header_roundtrip csid_ok_def)
    have c': "chunk_header ?bh' (stream_of p' cs) (write_body cs ?n data e @ rest) =
        Inr (header, st1\<lparr>cs_received_bytes := e\<rparr>, write_body cs (unat (cp_chunk_size p')) data e @ rest)"
      using less.prems(6) by (simp add: chunk_header_def stream_of_def p'_def)
    have "length data - e < length data - offset" using True less.prems(1,8) by (auto simp: e_def)
    from less.hyps [OF this _ b' _ c'] True less.prems(6,8)
    obtain m q where "run_chunks m p' ?rd' = Inr ([data], rest, q)" "idle q cs" "cp_chunk_size q = cp_chunk_size p'"
      by (auto simp: p'_def)
    then have "run_chunks (Suc m) p rd = Inr ([data], rest, q)" using pc by simp
    moreover have "cp_chunk_size q = cp_chunk_size p"
      using \<open>cp_chunk_size q = cp_chunk_size p'\<close> by (simp add: p'_def)
    ultimately show ?thesis using \<open>idle q cs\<close> by blast
  qed
qed

section \<open>Properties\<close>

interpretation basic_header: prefix_codec basic_header_serialize "\<lambda>d. ok_opt (basic_header_parse d)" csid_ok
  by unfold_locales (simp add: basic_header_roundtrip)

interpretation type0_header: prefix_codec "message_header_serialize Type0"
  "\<lambda>d. ok_opt (message_header_parse Type0 d)" "message_header_ok Type0"
  by unfold_locales (simp only: message_header_roundtrip ok_opt.simps)

text \<open>Every chunk header survives the wire: for every chunk type, every chunk
  stream id from 2 to 65599 in its one, two or three byte form, and every message header
  the type can carry, extended timestamps included, parsing the serialised basic and message
  header in front of any bytes returns both and leaves exactly those bytes.\<close>

theorem chunk_headers_roundtrip:
  assumes "csid_ok h" and "message_header_ok (bh_chunk_type h) m"
  shows "and_then (basic_header_parse (basic_header_serialize h @ message_header_serialize (bh_chunk_type h) m @ rest))
      (\<lambda>(h', rd). and_then (message_header_parse (bh_chunk_type h') rd) (\<lambda>(m', rd'). Inr (h', m', rd')))
    = Inr (h, m, rest)"
  using assms by (simp add: basic_header_roundtrip message_header_roundtrip)

definition sample_header :: chunk_message_header where
  "sample_header = \<lparr>mh_timestamp = 0x1000000, mh_message_length = 300, mh_message_type = Video,
     mh_message_stream_id = Some 1, mh_extended = True\<rparr>"

theorem chunk_headers_roundtrip_witness:
  "and_then (basic_header_parse (basic_header_serialize \<lparr>bh_chunk_type = Type0, bh_chunk_stream_id = 1000\<rparr>
       @ message_header_serialize Type0 sample_header @ [9]))
      (\<lambda>(h', rd). and_then (message_header_parse (bh_chunk_type h') rd) (\<lambda>(m', rd'). Inr (h', m', rd')))
    = Inr (\<lparr>bh_chunk_type = Type0, bh_chunk_stream_id = 1000\<rparr>, sample_header, [9])"
proof -
  have "csid_ok \<lparr>bh_chunk_type = Type0, bh_chunk_stream_id = 1000\<rparr>" "message_header_ok Type0 sample_header"
    by (simp_all add: csid_ok_def message_header_ok_def sample_header_def EXTENDED_TIMESTAMP_THRESHOLD_def)
  then show ?thesis
    using chunk_headers_roundtrip [of "\<lparr>bh_chunk_type = Type0, bh_chunk_stream_id = 1000\<rparr>" sample_header "[9]"]
    by simp
qed

lemma write_chunked_start:
  fixes ty :: message_type and msid :: u32
  assumes "2 \<le> cs" "cs \<le> 65599" and "length data \<le> 0xFFFFFF" and "timestamp < 0xFFFFFF"
  defines "header \<equiv> \<lparr>mh_timestamp = timestamp, mh_message_length = of_nat (length data),
      mh_message_type = ty, mh_message_stream_id = Some msid, mh_extended = False\<rparr>"
  shows "basic_header_parse (write_chunked cs ty msid timestamp sz data @ rest) =
      Inr (\<lparr>bh_chunk_type = Type0, bh_chunk_stream_id = cs\<rparr>,
        message_header_serialize Type0 header @ write_body cs (unat sz) data 0 @ rest)"
    and "chunk_header \<lparr>bh_chunk_type = Type0, bh_chunk_stream_id = cs\<rparr> st
        (message_header_serialize Type0 header @ body @ rest) =
      Inr (header, st\<lparr>cs_last_header := Some header\<rparr>, body @ rest)"
    and "unat (mh_message_length header) = length data"
proof -
  have l: "unat (of_nat (length data) :: u32) = length data"
    using assms(3) by (simp add: unat_of_nat)
  then show "unat (mh_message_length header) = length data" by (simp add: header_def)
  have "message_header_ok Type0 header"
    using assms(3,4) l
    by (simp add: message_header_ok_def header_def EXTENDED_TIMESTAMP_THRESHOLD_def word_le_nat_alt)
  then show "chunk_header \<lparr>bh_chunk_type = Type0, bh_chunk_stream_id = cs\<rparr> st
        (message_header_serialize Type0 header @ body @ rest) =
      Inr (header, st\<lparr>cs_last_header := Some header\<rparr>, body @ rest)"
    using message_header_roundtrip [of Type0 header "body @ rest"] by (simp add: chunk_header_def)
  have "\<not> (timestamp \<ge> 0xFFFFFF)" using assms(4) by simp
  then show "basic_header_parse (write_chunked cs ty msid timestamp sz data @ rest) =
      Inr (\<lparr>bh_chunk_type = Type0, bh_chunk_stream_id = cs\<rparr>,
        message_header_serialize Type0 header @ write_body cs (unat sz) data 0 @ rest)"
    using assms(1,2) basic_header_roundtrip [of "\<lparr>bh_chunk_type = Type0, bh_chunk_stream_id = cs\<rparr>"]
    unfolding write_chunked_def Let_def header_def csid_ok_def by (simp only: append.assoc chunk_basic_header.simps simp_thms if_False)
qed

lemma reassemble_lemma:
  assumes "2 \<le> cs" "cs \<le> 65599" and "length data \<le> 0xFFFFFF" and "timestamp < 0xFFFFFF"
    and "ty \<noteq> WindowAckSize" and "idle p cs" and "0 < cp_chunk_size p"
  shows "\<exists>n p'. run_chunks n p (write_chunked cs ty msid timestamp (cp_chunk_size p) data @ rest)
      = Inr ([data], rest, p') \<and> idle p' cs \<and> cp_chunk_size p' = cp_chunk_size p"
proof -
  let ?h = "\<lparr>mh_timestamp = timestamp, mh_message_length = of_nat (length data),
      mh_message_type = ty, mh_message_stream_id = Some msid, mh_extended = False\<rparr>"
  note s = write_chunked_start [OF assms(1-4), where ty = ty and msid = msid]
  have sz: "0 < unat (cp_chunk_size p)" using assms(7) by (simp add: word_less_nat_alt)
  show ?thesis
    by (rule run_chunk_body [where header = ?h and offset = 0, OF _ s(3) _ sz assms(1,2) _ s(1) _ s(2)])
      (use assms(5,6) in \<open>auto simp: idle_def\<close>)
qed

text \<open>C6. The chunk parser reassembles what the push client writes: for every message of at
  most \<open>0xFFFFFF\<close> bytes sent on an idle chunk stream with a timestamp below the
  extended range, when writer and parser use the same non-zero chunk size, finitely many
  \<^verbatim>\<open>parse_chunk\<close> calls deliver exactly the message once, consume exactly the
  bytes written, and leave the chunk stream idle.\<close>

theorem parse_chunk_reassembles:
  assumes "2 \<le> cs" "cs \<le> 65599" and "length data \<le> 0xFFFFFF" and "timestamp < 0xFFFFFF"
    and "ty \<noteq> WindowAckSize" and "idle p cs" and "0 < cp_chunk_size p"
  shows "\<exists>n p'. run_chunks n p (write_chunked cs ty msid timestamp (cp_chunk_size p) data @ rest)
      = Inr ([data], rest, p') \<and> idle p' cs \<and> cp_chunk_size p' = cp_chunk_size p"
  using assms by (rule reassemble_lemma)

theorem parse_chunk_reassembles_witness:
  "\<exists>n p'. run_chunks n chunk_parser_new (write_chunked 3 Command 0 0 128 (replicate 300 7) @ [1])
      = Inr ([replicate 300 7], [1], p')"
proof -
  have "idle chunk_parser_new 3"
    by (simp add: idle_def chunk_parser_new_def stream_of_def chunk_stream_state_default_def)
  moreover have "cp_chunk_size chunk_parser_new = 128"
    by (simp add: chunk_parser_new_def DEFAULT_CHUNK_SIZE_def)
  ultimately show ?thesis
    using parse_chunk_reassembles [of 3 "replicate 300 7" 0 Command chunk_parser_new 0 "[1]"] by auto
qed

text \<open>An extended timestamp breaks the parser: \<^verbatim>\<open>parse_chunk_inner\<close> reads four bytes
  after the chunk data for a timestamp that the header parser has already consumed, so
  a message with a timestamp from \<open>0xFFFFFF\<close> on, written in one chunk with
  nothing after it, is an error.\<close>

theorem extended_timestamp_rejected:
  assumes "2 \<le> cs" "cs \<le> 65599" and "0 < length data" "length data \<le> 0xFFFFFF"
    and "length data \<le> unat sz" and "timestamp \<ge> 0xFFFFFF" and "idle p cs" and "cp_chunk_size p = sz"
  shows "fst (parse_chunk p (write_chunked cs ty msid timestamp sz data)) =
    Inl (Bail ''Failed to read extended timestamp'')"
proof -
  define h where "h = \<lparr>mh_timestamp = timestamp, mh_message_length = of_nat (length data),
      mh_message_type = ty, mh_message_stream_id = Some msid, mh_extended = True\<rparr>"
  have l: "unat (of_nat (length data) :: u32) = length data"
    using assms(4) by (simp add: unat_of_nat)
  have ok: "message_header_ok Type0 h"
    using assms(4) l by (simp add: message_header_ok_def h_def EXTENDED_TIMESTAMP_THRESHOLD_def word_le_nat_alt)
  have body: "write_body cs (unat sz) data 0 = data"
    using assms(3,5) write_body_step [of 0 data "unat sz" cs]
    by (cases "unat sz") (simp_all add: write_body_end subslice_def min_absorb2)
  have w: "write_chunked cs ty msid timestamp sz data =
      basic_header_serialize \<lparr>bh_chunk_type = Type0, bh_chunk_stream_id = cs\<rparr> @ message_header_serialize Type0 h @ data"
    using assms(6) body by (simp add: write_chunked_def Let_def h_def)
  have b: "basic_header_parse (write_chunked cs ty msid timestamp sz data) =
      Inr (\<lparr>bh_chunk_type = Type0, bh_chunk_stream_id = cs\<rparr>, message_header_serialize Type0 h @ data)"
    unfolding w using assms(1,2) by (intro basic_header_roundtrip) (simp add: csid_ok_def)
  have c: "chunk_header \<lparr>bh_chunk_type = Type0, bh_chunk_stream_id = cs\<rparr> st (message_header_serialize Type0 h @ data) =
      Inr (h, st\<lparr>cs_last_header := Some h\<rparr>, data)" for st
    using message_header_roundtrip [OF ok, of data] by (simp add: chunk_header_def)
  have sz: "min (length data) (unat sz) = length data" using assms(5) by simp
  have r: "read_exact (length data) e data = Inr (data, [])" for e
    by (simp add: read_exact_def)
  show ?thesis
    using b c assms(7,8) l sz r
    by (simp add: parse_chunk_def idle_def stream_of_def Let_def h_def read_exact_def)
qed

theorem extended_timestamp_rejected_witness:
  "fst (parse_chunk chunk_parser_new (write_chunked 4 Audio 1 0xFFFFFF 128 [1, 2, 3])) =
    Inl (Bail ''Failed to read extended timestamp'')"
  by (rule extended_timestamp_rejected)
    (simp_all add: idle_def chunk_parser_new_def stream_of_def chunk_stream_state_default_def DEFAULT_CHUNK_SIZE_def)

text \<open>The chunk size the client announces is not the one it uses for commands: after
  announcing 65536 it still splits command messages at 128 bytes. A receiver that follows the
  announcement takes the continuation header for message data: from a command of between 129 and
  256 bytes it delivers a message of the right length whose byte 128 is the header byte \<open>0xC3\<close>,
  with all later bytes shifted.\<close>

theorem command_chunk_size_mismatch:
  assumes "128 < length data" "length data \<le> 256" and "idle p 3" and "cp_chunk_size p = 65536"
  shows "\<exists>p'. parse_chunk p (write_chunked 3 Command msid 0 128 data) =
    (Inr (Some (take 128 data @ [0xC3] @ subslice 128 (length data - 1) data), [last data]), p')"
proof -
  define h where "h = \<lparr>mh_timestamp = 0, mh_message_length = of_nat (length data),
      mh_message_type = Command, mh_message_stream_id = Some msid, mh_extended = False\<rparr>"
  note s = write_chunked_start [where cs = 3 and data = data and timestamp = 0 and ty = Command and msid = msid, folded h_def]
  have c3: "basic_header_serialize \<lparr>bh_chunk_type = Type3, bh_chunk_stream_id = 3\<rparr> = [0xC3]"
    by (simp add: basic_header_serialize_def MAX_1BYTE_CSID_def)
  have e: "min (0 + 128) (length data) = 128" using assms by simp
  have e2: "min (128 + 128) (length data) = length data" using assms by simp
  have "write_body 3 128 data 0 = take 128 data @ [0xC3] @ write_body 3 128 data 128"
    using assms(1) write_body_step [of 0 data 128 3] unfolding e c3 by (cases data) (simp_all add: subslice_def)
  also have "write_body 3 128 data 128 = drop 128 data"
    using assms write_body_step [of 128 data 128 3] unfolding e2 by (simp add: subslice_def write_body_end)
  also have "drop 128 data = subslice 128 (length data - 1) data @ [last data]"
    using assms(1) append_butlast_last_id [of "drop 128 data"]
    by (simp add: subslice_def butlast_conv_take diff_right_commute)
  finally have body: "write_body 3 (unat (128::u32)) data 0 =
      (take 128 data @ [0xC3] @ subslice 128 (length data - 1) data) @ [last data]" by simp
  define msg where "msg = take 128 data @ [0xC3] @ subslice 128 (length data - 1) data"
  have lm: "length msg = length data" using assms by (simp add: msg_def)
  note body = body [folded msg_def]
  have st: "cs_received_bytes (stream_of p 3) = 0" "cp_current_message p = []"
    using assms(3) by (simp_all add: idle_def)
  have "parse_chunk p (write_chunked 3 Command msid 0 128 data @ []) =
      complete_chunk (p\<lparr>cp_streams := (cp_streams p)(3 \<mapsto> (stream_of p 3)\<lparr>cs_last_header := Some h, cs_received_bytes := length data\<rparr>),
        cp_current_message := msg,
        cp_total_bytes_received := cp_total_bytes_received p + of_nat (length data),
        cp_bytes_since_last_ack := cp_bytes_since_last_ack p + of_nat (length data)\<rparr>)
      3 ((stream_of p 3)\<lparr>cs_last_header := Some h, cs_received_bytes := length data\<rparr>) h [last data]"
  proof -
    have 1: "basic_header_parse (write_chunked 3 Command msid 0 128 data @ []) =
      Inr (\<lparr>bh_chunk_type = Type0, bh_chunk_stream_id = 3\<rparr>, message_header_serialize Type0 h @ msg @ [last data])"
      using s(1) [where sz = 128 and rest = "[]"] assms body by simp
    have 2: "chunk_header \<lparr>bh_chunk_type = Type0, bh_chunk_stream_id = 3\<rparr> (stream_of p 3)
        (message_header_serialize Type0 h @ msg @ [last data]) =
      Inr (h, (stream_of p 3)\<lparr>cs_last_header := Some h\<rparr>, msg @ [last data])"
      using s(2) [where st = "stream_of p 3" and body = "msg @ [last data]" and rest = "[]"] assms by simp
    have 3: "length msg = min (unat (mh_message_length h) - cs_received_bytes ((stream_of p 3)\<lparr>cs_last_header := Some h\<rparr>)) (unat (cp_chunk_size p))"
      using assms s(3) st lm by simp
    show ?thesis using parse_chunk_step [OF 1 _ 2 _ 3] st lm by (simp add: h_def)
  qed
  then show ?thesis using s(3) assms by (simp add: complete_chunk_def h_def msg_def)
qed

theorem command_chunk_size_mismatch_witness:
  "\<exists>p'. parse_chunk (chunk_parser_new\<lparr>cp_chunk_size := 65536\<rparr>) (write_chunked 3 Command 0 0 128 (replicate 130 7)) =
    (Inr (Some (replicate 128 7 @ [0xC3] @ [7]), [7]), p')"
proof -
  have "idle (chunk_parser_new\<lparr>cp_chunk_size := 65536\<rparr>) 3"
    by (simp add: idle_def chunk_parser_new_def stream_of_def chunk_stream_state_default_def)
  then show ?thesis
    using command_chunk_size_mismatch [of "replicate 130 7" "chunk_parser_new\<lparr>cp_chunk_size := 65536\<rparr>" 0]
    by (simp add: subslice_def)
qed

end
