(* ===== verification/RtmpClient.thy ===== *)
theory RtmpClient
  imports Amf0 RtmpChunk H264
begin

text \<open>
  The RTMP push client, \<^verbatim>\<open>crates/protocols/src/rtmp/mod.rs\<close> and
  \<^verbatim>\<open>handshake.rs\<close>: the handshake packets and their verification, the AMF0
  command payloads, the FLV video and audio payloads and their extraction, and the
  client state with the bytes each operation writes. The socket is the list of bytes
  written to it; the current time is a parameter.
\<close>

section \<open>Handshake\<close>

definition RTMP_HANDSHAKE_VERSION :: u8 where "RTMP_HANDSHAKE_VERSION = 3"
definition HANDSHAKE_SIZE :: nat where "HANDSHAKE_SIZE = 1536"

text \<open>The linear congruential filler: \<open>n\<close> bytes from a 64-bit seed.\<close>

fun lcg_bytes :: "nat \<Rightarrow> u64 \<Rightarrow> bytes" where
  "lcg_bytes 0 seed = []"
| "lcg_bytes (Suc n) seed =
     (let seed' = seed * 1103515245 + 12345 in ucast (drop_bit 8 seed') # lcg_bytes n seed')"

text \<open>\<open>time\<close> is the Unix time in milliseconds, truncated to 32 bits.\<close>

definition generate_c1 :: "u32 \<Rightarrow> bytes" where
  "generate_c1 time = u32_be time @ [0, 0, 0, 0] @ lcg_bytes (HANDSHAKE_SIZE - 8) (ucast time)"

definition generate_c2 :: "bytes \<Rightarrow> bytes \<Rightarrow> bytes" where
  "generate_c2 s1 c1 = take 4 s1 @ take 4 c1 @ drop 8 s1"

text \<open>Step 2 of \<^verbatim>\<open>connect\<close>: check S0 and S2 and answer with C2.\<close>

definition client_handshake :: "bytes \<Rightarrow> u8 \<Rightarrow> bytes \<Rightarrow> bytes \<Rightarrow> bytes result" where
  "client_handshake c1 s0 s1 s2 =
     (if s0 \<noteq> RTMP_HANDSHAKE_VERSION then Inl (Bail ''Unsupported RTMP version from server'')
      else if be_u32 (take 4 s2) \<noteq> be_u32 (take 4 c1)
      then Inl (Bail ''S2 time does not match C1 time'')
      else if drop 8 s2 \<noteq> drop 8 c1 then Inl (Bail ''S2 random data does not match C1'')
      else Inr (generate_c2 s1 c1))"

text \<open>The server side that the unit tests run against.\<close>

definition generate_s2 :: "bytes \<Rightarrow> u32 \<Rightarrow> bytes" where
  "generate_s2 c1 s1_time = take 4 c1 @ u32_be s1_time @ drop 8 c1"

definition verify_c2 :: "bytes \<Rightarrow> bytes \<Rightarrow> unit result" where
  "verify_c2 c2 s1 =
     (if be_u32 (take 4 c2) \<noteq> be_u32 (take 4 s1) then Inl (Bail ''C2 time does not match S1 time'')
      else if drop 8 c2 \<noteq> drop 8 s1 then Inl (Bail ''C2 random data does not match S1'')
      else Inr ())"

section \<open>Commands\<close>

text \<open>A small integer constant as an AMF0 number.\<close>

abbreviation num :: "u16 \<Rightarrow> amf0_value" where "num n \<equiv> Number (f64_of_u16 n)"
abbreviation str :: "string \<Rightarrow> amf0_value" where "str s \<equiv> String (ascii s)"

definition connect_values :: "bytes \<Rightarrow> bytes \<Rightarrow> u16 \<Rightarrow> amf0_value list" where
  "connect_values app host port =
     (let tc_url = ascii ''rtmp://'' @ host @ ascii '':'' @ dec_digits (unat port) @ ascii ''/'' @ app
      in [str ''connect'', num 1,
          Object [(ascii ''app'', String app),
                  (ascii ''tcUrl'', String tc_url),
                  (ascii ''flashVer'', str ''FMLE/3.0 (compatible; mibeerec)''),
                  (ascii ''swfUrl'', String []),
                  (ascii ''fpad'', Boolean False),
                  (ascii ''capabilities'', num 239),
                  (ascii ''audioCodecs'', num 3575),
                  (ascii ''videoCodecs'', num 252),
                  (ascii ''videoFunction'', num 1),
                  (ascii ''pageUrl'', String []),
                  (ascii ''objectEncoding'', num 0)],
          Object [(ascii ''level'', str ''status'')]])"

definition encode_connect :: "bytes \<Rightarrow> bytes \<Rightarrow> u16 \<Rightarrow> bytes" where
  "encode_connect app host port = concat (map amf0_serialize (connect_values app host port))"

definition encode_create_stream :: bytes where
  "encode_create_stream = concat (map amf0_serialize [str ''createStream'', num 2, Null])"

definition encode_publish :: "bytes \<Rightarrow> bytes" where
  "encode_publish stream_name =
     concat (map amf0_serialize [str ''publish'', num 0, Null, String stream_name, str ''live''])"

definition encode_fcunpublish :: "bytes \<Rightarrow> bytes" where
  "encode_fcunpublish stream_name =
     concat (map amf0_serialize [str ''FCUnpublish'', num 0, Null, String stream_name])"

text \<open>The loop of \<^verbatim>\<open>parse_amf_values\<close>: values up to the first that does not parse.\<close>

function parse_amf_loop :: "bytes \<Rightarrow> nat \<Rightarrow> amf0_value list \<Rightarrow> amf0_value list" where
  "parse_amf_loop data pos values =
     (if pos < length data then
        (case amf0_parse (drop pos data) of
           Inl _ \<Rightarrow> values
         | Inr (v, consumed) \<Rightarrow> parse_amf_loop data (pos + consumed) (values @ [v]))
      else values)"
  by pat_completeness auto
termination
  by (relation "measure (\<lambda>(data, pos, values). length data - pos)")
    (auto dest: amf0_parse_bounds)

declare parse_amf_loop.simps [simp del]

definition parse_amf_values :: "bytes \<Rightarrow> amf0_value list result" where
  "parse_amf_values data =
     (let values = parse_amf_loop data 0 []
      in if values = [] then Inl (Bail ''No AMF values found'') else Inr values)"

text \<open>
  \<^verbatim>\<open>*id as u32\<close> of a double: truncation towards zero, saturating; not a number is 0.
\<close>

definition f64_to_u32 :: "u64 \<Rightarrow> u32" where
  "f64_to_u32 w =
     (let e = unat (drop_bit 52 w) mod 2048;
          m = unat w mod 2 ^ 52;
          neg = (unat w \<ge> 2 ^ 63);
          full = (if e = 0 then m else m + 2 ^ 52);
          v = (if e \<ge> 1075 then full * 2 ^ (e - 1075) else full div 2 ^ (1075 - e))
      in if e = 2047 \<and> m \<noteq> 0 then 0
         else if neg then 0
         else if e = 2047 \<or> v \<ge> 2 ^ 32 then 0xFFFFFFFF
         else of_nat v)"

text \<open>The search of \<^verbatim>\<open>read_stream_id\<close> for a number after a null.\<close>

fun number_after_null :: "amf0_value list \<Rightarrow> u64 option" where
  "number_after_null [] = None"
| "number_after_null (v # vs) =
     (case v of
        Null \<Rightarrow> (case vs of Number i # _ \<Rightarrow> Some i | _ \<Rightarrow> number_after_null vs)
      | _ \<Rightarrow> number_after_null vs)"

definition stream_id_of_response :: "amf0_value list \<Rightarrow> u32 result" where
  "stream_id_of_response values =
     (case number_after_null values of
        Some i \<Rightarrow> Inr (f64_to_u32 i)
      | None \<Rightarrow>
          if length values \<ge> 4 then
            (case values ! 3 of
               Number i \<Rightarrow> Inr (f64_to_u32 i)
             | _ \<Rightarrow> Inl (Bail ''Could not extract stream ID from createStream response''))
          else Inl (Bail ''Could not extract stream ID from createStream response''))"

section \<open>Payloads\<close>

definition build_video_sequence_header :: "bytes \<Rightarrow> bytes \<Rightarrow> bytes" where
  "build_video_sequence_header sps pps =
     (let profile = (if length sps \<ge> 3 then sps ! 1 else 0x42);
          level = (if length sps \<ge> 3 then sps ! 2 else 0x1E);
          profile_compat = (if length sps \<ge> 4 then sps ! 3 else 0x80)
      in [0x17, 0, 0, 0, 0, 1, profile, profile_compat, level, 0xFF, 0xE1]
         @ u16_be (of_nat (length sps)) @ sps @ [1] @ u16_be (of_nat (length pps)) @ pps)"

definition build_video_nalus :: "bytes \<Rightarrow> bool \<Rightarrow> int \<Rightarrow> bytes" where
  "build_video_nalus nal_data keyframe composition_offset =
     (let frame_type = (if keyframe then 1 else 2) :: u8;
          offset = max (-8388608) (min 8388607 composition_offset)
      in [push_bit 4 frame_type OR 7, 0, 0, 0, 1]
         @ drop 1 (u32_be (word_of_int offset)) @ nal_data)"

definition build_audio_sequence_header :: "bytes \<Rightarrow> bytes" where
  "build_audio_sequence_header audio_specific_config = [0xAF, 0] @ audio_specific_config"

definition build_audio_raw :: "bytes \<Rightarrow> bytes" where
  "build_audio_raw aac_data = [0xAF, 1] @ aac_data"

text \<open>
  A slice \<^verbatim>\<open>data[a..b]\<close> and an index \<^verbatim>\<open>data[i]\<close> that panic out of range.
\<close>

definition slice_or_panic :: "nat \<Rightarrow> nat \<Rightarrow> bytes \<Rightarrow> bytes result" where
  "slice_or_panic a b xs =
     (if a \<le> b \<and> b \<le> length xs then Inr (subslice a b xs) else Inl (Panic ''slice index out of range''))"

function extract_nalu_loop :: "bytes \<Rightarrow> nat \<Rightarrow> bytes list \<Rightarrow> bytes list result" where
  "extract_nalu_loop nal_data pos nal_units =
     (if pos + 4 \<le> length nal_data then
        let nal_len = unat (be_u32 (subslice pos (pos + 4) nal_data))
        in if pos + 4 + nal_len > length nal_data
           then Inl (Bail ''NAL unit extends beyond data'')
           else extract_nalu_loop nal_data (pos + (4 + nal_len))
                  (nal_units @ [subslice (pos + 4) (pos + 4 + nal_len) nal_data])
      else Inr nal_units)"
  by pat_completeness auto
termination
  by (relation "measure (\<lambda>(nal_data, pos, nal_units). length nal_data - pos)") auto

declare extract_nalu_loop.simps [simp del]

definition extract_sequence_header :: "bytes \<Rightarrow> bytes list result" where
  "extract_sequence_header payload =
     (if length payload < 11 then Inl (Bail ''AVC sequence header too short'')
      else
        let sps_len = unat (be_u16 (subslice 6 8 payload))
        in and_then (slice_or_panic 8 (8 + sps_len) payload) (\<lambda>sps.
           let pps_offset = 8 + sps_len + 1
           in and_then (slice_or_panic pps_offset (pps_offset + 2) payload) (\<lambda>pps_len_bytes.
              let pps_len = unat (be_u16 pps_len_bytes)
              in and_then (slice_or_panic (pps_offset + 2) (pps_offset + 2 + pps_len) payload) (\<lambda>pps.
                 Inr [sps, pps]))))"

definition extract_h264_nal_units :: "bytes \<Rightarrow> bytes list result" where
  "extract_h264_nal_units data =
     (if length data < 5 then Inl (Bail ''RTMP video data too short'')
      else if data ! 0 AND 15 \<noteq> 7 then Inl (Bail ''Unsupported video codec'')
      else
        let avc_packet_type = data ! 4;
            payload = drop 5 data
        in if avc_packet_type = 0 then extract_sequence_header payload
           else if avc_packet_type = 1 then
             and_then (slice_or_panic 8 (length data) data) (\<lambda>nal_data.
               extract_nalu_loop nal_data 0 [])
           else if avc_packet_type = 2 then Inr []
           else Inl (Bail ''Unknown AVC packet type''))"

definition extract_aac_frame :: "bytes \<Rightarrow> bytes result" where
  "extract_aac_frame data =
     (if length data < 2 then Inl (Bail ''RTMP audio data too short'')
      else if drop_bit 4 (data ! 0) AND 15 \<noteq> 10 then Inl (Bail ''Unsupported audio codec'')
      else Inr (drop 2 data))"

section \<open>The client\<close>

text \<open>
  The connection is the bytes written to it so far, \<open>None\<close> when there is none.
\<close>

record rtmp_push_client =
  rc_host :: bytes
  rc_port :: u16
  rc_app_name :: bytes
  rc_stream_name :: bytes
  rc_stream :: "bytes option"
  rc_stream_id :: u32
  rc_chunk_size :: u32
  rc_video_timestamp :: u32
  rc_audio_timestamp :: u32

definition RTMP_CHUNK_SIZE :: u32 where "RTMP_CHUNK_SIZE = 65536"

definition rtmp_push_client_new :: "bytes \<Rightarrow> u16 \<Rightarrow> bytes \<Rightarrow> bytes \<Rightarrow> rtmp_push_client" where
  "rtmp_push_client_new host port app_name stream_name =
     \<lparr>rc_host = host, rc_port = port, rc_app_name = app_name, rc_stream_name = stream_name,
      rc_stream = None, rc_stream_id = 0, rc_chunk_size = 128, rc_video_timestamp = 0,
      rc_audio_timestamp = 0\<rparr>"

definition is_connected :: "rtmp_push_client \<Rightarrow> bool" where
  "is_connected c \<longleftrightarrow> rc_stream c \<noteq> None"

definition write_protocol_message :: "message_type \<Rightarrow> bytes \<Rightarrow> bytes" where
  "write_protocol_message msg_type data = write_chunked 2 msg_type 0 0 128 data"

definition write_command_chunk :: "u32 \<Rightarrow> u32 \<Rightarrow> bytes \<Rightarrow> bytes" where
  "write_command_chunk message_stream_id timestamp amf_payload =
     write_chunked 3 Command message_stream_id timestamp 128 amf_payload"

definition write_data_chunk :: "u32 \<Rightarrow> message_type \<Rightarrow> u32 \<Rightarrow> u32 \<Rightarrow> u32 \<Rightarrow> bytes \<Rightarrow> bytes" where
  "write_data_chunk chunk_stream_id msg_type message_stream_id timestamp chunk_size data =
     write_chunked chunk_stream_id msg_type message_stream_id timestamp chunk_size data"

definition send_video :: "rtmp_push_client \<Rightarrow> bytes \<Rightarrow> u32 \<Rightarrow> unit result \<times> rtmp_push_client" where
  "send_video c data timestamp =
     (let c1 = c\<lparr>rc_video_timestamp := timestamp\<rparr>
      in case rc_stream c1 of
           None \<Rightarrow> (Inl (Bail ''Not connected''), c1)
         | Some out \<Rightarrow>
             (Inr (), c1\<lparr>rc_stream := Some (out @ write_data_chunk 5 Video (rc_stream_id c1)
                                                timestamp (rc_chunk_size c1) data)\<rparr>))"

definition send_audio :: "rtmp_push_client \<Rightarrow> bytes \<Rightarrow> u32 \<Rightarrow> unit result \<times> rtmp_push_client" where
  "send_audio c data timestamp =
     (let c1 = c\<lparr>rc_audio_timestamp := timestamp\<rparr>
      in case rc_stream c1 of
           None \<Rightarrow> (Inl (Bail ''Not connected''), c1)
         | Some out \<Rightarrow>
             (Inr (), c1\<lparr>rc_stream := Some (out @ write_data_chunk 4 Audio (rc_stream_id c1)
                                                timestamp (rc_chunk_size c1) data)\<rparr>))"

text \<open>\<^verbatim>\<open>close\<close>: the bytes of the final command and the reset client.\<close>

definition rtmp_close :: "rtmp_push_client \<Rightarrow> bytes option \<times> rtmp_push_client" where
  "rtmp_close c =
     (map_option (\<lambda>out. out @ write_command_chunk 0 0 (encode_fcunpublish (rc_stream_name c)))
        (rc_stream c),
      c\<lparr>rc_stream := None, rc_stream_id := 0, rc_chunk_size := 128, rc_video_timestamp := 0,
        rc_audio_timestamp := 0\<rparr>)"

section \<open>Command payloads\<close>

lemma parse_amf_loop_values:
  assumes "\<forall>v \<in> set vs. amf0_ok v"
  shows "parse_amf_loop (pre @ concat (map amf0_serialize vs)) (length pre) acc = acc @ vs"
  using assms
proof (induction vs arbitrary: pre acc)
  case Nil
  then show ?case by (simp add: parse_amf_loop.simps)
next
  case (Cons v vs)
  let ?d = "pre @ amf0_serialize v @ concat (map amf0_serialize vs)"
  have p: "amf0_parse (drop (length pre) ?d) = Inr (v, length (amf0_serialize v))"
    using Cons.prems by (simp add: amf0_roundtrip(1))
  have "length pre < length ?d" using serialize_first [of v] by auto
  then have "parse_amf_loop ?d (length pre) acc = parse_amf_loop ?d (length pre + length (amf0_serialize v)) (acc @ [v])"
    by (subst parse_amf_loop.simps) (simp only: p if_True sum.case prod.case)
  also have "\<dots> = acc @ v # vs"
    using Cons.IH [of "pre @ amf0_serialize v" "acc @ [v]"] Cons.prems by simp
  finally show ?case by simp
qed

lemma parse_amf_values_ok:
  assumes "\<forall>v \<in> set vs. amf0_ok v" and "vs \<noteq> []"
  shows "parse_amf_values (concat (map amf0_serialize vs)) = Inr vs"
  using parse_amf_loop_values [OF assms(1), of "[]" "[]"] assms(2)
  by (simp add: parse_amf_values_def Let_def)

lemma length_ascii [simp]: "length (ascii s) = length s"
  by (simp add: ascii_def)


lemma literal_utf8:
  "utf8_valid (ascii ''publish'')" "utf8_valid (ascii ''live'')" "utf8_valid (ascii ''FCUnpublish'')"
  "utf8_valid (ascii ''createStream'')" "utf8_valid (ascii ''connect'')" "utf8_valid (ascii ''level'')"
  "utf8_valid (ascii ''status'')" "utf8_valid (ascii ''app'')" "utf8_valid (ascii ''tcUrl'')"
  "utf8_valid (ascii ''flashVer'')" "utf8_valid (ascii ''FMLE/3.0 (compatible; mibeerec)'')"
  "utf8_valid (ascii ''swfUrl'')" "utf8_valid (ascii ''fpad'')" "utf8_valid (ascii ''capabilities'')"
  "utf8_valid (ascii ''audioCodecs'')" "utf8_valid (ascii ''videoCodecs'')"
  "utf8_valid (ascii ''videoFunction'')" "utf8_valid (ascii ''pageUrl'')"
  "utf8_valid (ascii ''objectEncoding'')"
  by code_simp+

lemma utf8_valid_lead:
  "a < 0x80 \<Longrightarrow> utf8_valid (a # bs) = utf8_valid bs"
  "\<not> a < 0x80 \<Longrightarrow> 0xC2 \<le> a \<and> a \<le> 0xDF \<Longrightarrow>
   utf8_valid (a # bs) = (case bs of b # cs \<Rightarrow> utf8_cont b \<and> utf8_valid cs | [] \<Rightarrow> False)"
  "\<not> a < 0x80 \<Longrightarrow> \<not> (0xC2 \<le> a \<and> a \<le> 0xDF) \<Longrightarrow> 0xE0 \<le> a \<and> a \<le> 0xEF \<Longrightarrow>
   utf8_valid (a # bs) = (case bs of b # c # cs \<Rightarrow> utf8_3 a b \<and> utf8_cont c \<and> utf8_valid cs | _ \<Rightarrow> False)"
  "\<not> a < 0x80 \<Longrightarrow> \<not> (0xC2 \<le> a \<and> a \<le> 0xDF) \<Longrightarrow> \<not> (0xE0 \<le> a \<and> a \<le> 0xEF) \<Longrightarrow>
   utf8_valid (a # bs) = (case bs of b # c # d # cs \<Rightarrow>
     utf8_4 a b \<and> utf8_cont c \<and> utf8_cont d \<and> utf8_valid cs | _ \<Rightarrow> False)"
  by (subst utf8_valid.simps(2), simp only: if_True if_False simp_thms)+

lemma utf8_valid_append: "utf8_valid xs \<Longrightarrow> utf8_valid ys \<Longrightarrow> utf8_valid (xs @ ys)"
proof (induction "length xs" arbitrary: xs rule: less_induct)
  case less
  show ?case
  proof (cases xs)
    case Nil
    then show ?thesis using less.prems by simp
  next
    case (Cons a bs)
    note lead = utf8_valid_lead [where a = a]
    consider (1) "a < 0x80" | (2) "\<not> a < 0x80" "0xC2 \<le> a \<and> a \<le> 0xDF"
      | (3) "\<not> a < 0x80" "\<not> (0xC2 \<le> a \<and> a \<le> 0xDF)" "0xE0 \<le> a \<and> a \<le> 0xEF"
      | (4) "\<not> a < 0x80" "\<not> (0xC2 \<le> a \<and> a \<le> 0xDF)" "\<not> (0xE0 \<le> a \<and> a \<le> 0xEF)" by blast
    then show ?thesis
    proof cases
      case 1
      then show ?thesis using less.hyps [of bs] less.prems Cons lead(1) by simp
    next
      case 2
      obtain b cs where "bs = b # cs" "utf8_cont b" "utf8_valid cs"
        using less.prems(1) lead(2) [OF 2, of bs] Cons by (auto split: list.splits)
      then show ?thesis using less.hyps [of cs] less.prems(2) Cons lead(2) [OF 2] by (simp del: utf8_valid.simps)
    next
      case 3
      obtain b d cs where "bs = b # d # cs" "utf8_3 a b" "utf8_cont d" "utf8_valid cs"
        using less.prems(1) lead(3) [OF 3, of bs] Cons by (auto split: list.splits)
      then show ?thesis using less.hyps [of cs] less.prems(2) Cons lead(3) [OF 3] by (simp del: utf8_valid.simps)
    next
      case 4
      obtain b d e cs where "bs = b # d # e # cs" "utf8_4 a b" "utf8_cont d" "utf8_cont e" "utf8_valid cs"
        using less.prems(1) lead(4) [OF 4, of bs] Cons by (auto split: list.splits)
      then show ?thesis using less.hyps [of cs] less.prems(2) Cons lead(4) [OF 4] by (simp del: utf8_valid.simps)
    qed
  qed
qed

lemma dec_digits_ascii: "\<forall>b \<in> set (dec_digits n). 48 \<le> b \<and> b \<le> 57"
proof (induction n rule: dec_digits.induct)
  case (1 n)
  have d: "48 \<le> (48 + of_nat m :: u8) \<and> (48 + of_nat m :: u8) \<le> 57" if "m < 10" for m
  proof -
    have "48 + of_nat m = (of_nat (48 + m) :: u8)" by simp
    moreover have "unat (of_nat (48 + m) :: u8) = 48 + m"
      using that by (simp only: unat_of_nat) simp
    ultimately have "unat (48 + of_nat m :: u8) = 48 + m" by (simp only:)
    then show ?thesis using that by (simp add: word_le_nat_alt)
  qed
  show ?case
  proof (cases "n < 10")
    case True
    then show ?thesis using d [of n] by (subst dec_digits.simps) simp
  next
    case False
    then show ?thesis using 1 d [of "n mod 10"] by (subst dec_digits.simps) auto
  qed
qed

lemma dec_digits_length: "n < 10 ^ k \<Longrightarrow> 0 < k \<Longrightarrow> length (dec_digits n) \<le> k"
proof (induction k arbitrary: n)
  case 0
  then show ?case by simp
next
  case (Suc k)
  show ?case
  proof (cases "n < 10")
    case True
    then show ?thesis by (subst dec_digits.simps) simp
  next
    case False
    then have "0 < k" using Suc.prems by (cases k) auto
    moreover have "n div 10 < 10 ^ k" using Suc.prems by (simp add: less_mult_imp_div_less mult.commute)
    ultimately show ?thesis using Suc.IH [of "n div 10"] False by (subst dec_digits.simps) simp
  qed
qed

lemma dec_digits_utf8: "utf8_valid (dec_digits n)"
  by (rule utf8_ascii) (use dec_digits_ascii [of n] in \<open>auto intro: le_less_trans\<close>)

section \<open>Payload round trips\<close>

lemma extract_nalu_loop_units:
  assumes "\<forall>nal \<in> set nals. length nal < 2 ^ 32"
  shows "extract_nalu_loop (pre @ concat (map avcc_unit nals)) (length pre) acc = Inr (acc @ nals)"
  using assms
proof (induction nals arbitrary: pre acc)
  case Nil
  then show ?case by (simp add: extract_nalu_loop.simps)
next
  case (Cons nal nals)
  let ?D = "pre @ avcc_unit nal @ concat (map avcc_unit nals)"
  have sz: "unat (of_nat (length nal) :: u32) = length nal"
    using Cons.prems by (simp add: unat_of_nat)
  have a: "subslice (length pre) (length pre + 4) ?D = u32_be (of_nat (length nal))"
    by (simp add: subslice_append_skip avcc_unit_def)
  have b: "subslice (length pre + 4) (length pre + 4 + length nal) ?D = nal"
    by (simp add: subslice_def avcc_unit_def)
  have "extract_nalu_loop ?D (length pre + (4 + length nal)) (acc @ [nal]) = Inr (acc @ nal # nals)"
    using Cons.IH [of "pre @ avcc_unit nal" "acc @ [nal]"] Cons.prems by (simp add: add.assoc)
  then show ?case
    by (subst extract_nalu_loop.simps) (simp add: Let_def a b sz)
qed

lemma extract_nalus_lemma:
  assumes "\<forall>nal \<in> set nals. length nal < 2 ^ 32"
  shows "extract_h264_nal_units (build_video_nalus (concat (map avcc_unit nals)) k off) = Inr nals"
proof -
  let ?cts = "drop 1 (u32_be (word_of_int (max (-8388608) (min 8388607 off))))"
  let ?b0 = "push_bit 4 (if k then 1 else 2) OR 7 :: u8"
  let ?nd = "concat (map avcc_unit nals)"
  have d: "build_video_nalus ?nd k off = ([?b0, 0, 0, 0, 1] @ ?cts) @ ?nd"
    by (simp add: build_video_nalus_def Let_def)
  have l: "length ([?b0, 0, 0, 0, 1] @ ?cts) = 8" by simp
  have "slice_or_panic 8 (length (build_video_nalus ?nd k off)) (build_video_nalus ?nd k off) = Inr ?nd"
    unfolding d using l by (simp add: slice_or_panic_def subslice_def)
  moreover have "?b0 AND 15 = 7" by (cases k) simp_all
  ultimately show ?thesis
    using extract_nalu_loop_units [OF assms, of "[]" "[]"]
    by (simp add: extract_h264_nal_units_def Let_def) (simp add: d)
qed

lemma extract_sequence_lemma:
  assumes "length sps < 65536" and "length pps < 65536"
  shows "extract_h264_nal_units (build_video_sequence_header sps pps) = Inr [sps, pps]"
proof -
  define rec where "rec = [1, if length sps \<ge> 3 then sps ! 1 else 0x42, if length sps \<ge> 4 then sps ! 3 else 0x80,
      if length sps \<ge> 3 then sps ! 2 else 0x1E, 0xFF, 0xE1 :: u8]"
  define payload where "payload = rec @ u16_be (of_nat (length sps)) @ sps @ [1] @ u16_be (of_nat (length pps)) @ pps"
  have d: "build_video_sequence_header sps pps = [0x17, 0, 0, 0, 0] @ payload"
    by (simp add: build_video_sequence_header_def payload_def rec_def Let_def)
  have lr: "length rec = 6" by (simp add: rec_def)
  have u: "unat (of_nat (length sps) :: u16) = length sps" "unat (of_nat (length pps) :: u16) = length pps"
    using assms by (simp_all add: unat_of_nat)
  have s1: "subslice 6 8 payload = u16_be (of_nat (length sps))"
    using lr by (simp add: payload_def subslice_def)
  have s2: "subslice 8 (8 + length sps) payload = sps"
    using lr by (simp add: payload_def subslice_def)
  have s3: "subslice (8 + length sps + 1) (8 + length sps + 1 + 2) payload = u16_be (of_nat (length pps))"
    using lr by (simp add: payload_def subslice_def)
  have s4: "subslice (8 + length sps + 1 + 2) (8 + length sps + 1 + 2 + length pps) payload = pps"
    using lr by (simp add: payload_def subslice_def)
  have len: "length payload = 11 + length sps + length pps" using lr by (simp add: payload_def)
  have "extract_sequence_header payload = Inr [sps, pps]"
    using len unfolding extract_sequence_header_def Let_def s1 be_u16_u16_be u
    by (simp add: slice_or_panic_def s2 s3 [simplified] s4 [simplified] u)
  then show ?thesis by (simp add: extract_h264_nal_units_def d)
qed

section \<open>Properties\<close>

text \<open>Every command the client sends decodes to the values it means: the payloads of
  connect, createStream, publish and FCUnpublish, parsed as AMF0, give back exactly their value
  lists, for all UTF-8 names of fewer than 65000 bytes.\<close>

theorem commands_decode:
  assumes "utf8_valid app" "length app < 30000" and "utf8_valid host" "length host < 30000"
    and "utf8_valid name" "length name < 65000"
  shows "parse_amf_values (encode_connect app host port) = Inr (connect_values app host port)
    \<and> parse_amf_values encode_create_stream = Inr [str ''createStream'', num 2, Null]
    \<and> parse_amf_values (encode_publish name)
        = Inr [str ''publish'', num 0, Null, String name, str ''live'']
    \<and> parse_amf_values (encode_fcunpublish name)
        = Inr [str ''FCUnpublish'', num 0, Null, String name]"
proof -
  have digits: "length (dec_digits (unat port)) \<le> 5"
    using dec_digits_length [of "unat port" 5] u16_less [of port] by simp
  define url where "url = ascii ''rtmp://'' @ host @ ascii '':'' @ dec_digits (unat port) @ ascii ''/'' @ app"
  have "utf8_valid (ascii ''rtmp://'')" "utf8_valid (ascii '':'')" "utf8_valid (ascii ''/'')"
    by code_simp+
  then have url_utf8: "utf8_valid url"
    using assms(1,3) by (simp add: url_def utf8_valid_append dec_digits_utf8)
  have url_len: "length url < 65536" using assms(2,4) digits by (simp add: url_def)
  have "\<forall>v \<in> set (connect_values app host port). amf0_ok v"
    using assms(1,2) url_utf8 url_len literal_utf8
    unfolding connect_values_def url_def [symmetric] by (simp add: Let_def)
  moreover have "connect_values app host port \<noteq> []" by (simp add: connect_values_def Let_def)
  ultimately have "parse_amf_values (encode_connect app host port) = Inr (connect_values app host port)"
    unfolding encode_connect_def by (rule parse_amf_values_ok)
  moreover have "parse_amf_values encode_create_stream = Inr [str ''createStream'', num 2, Null]"
    unfolding encode_create_stream_def by (rule parse_amf_values_ok) (simp_all add: literal_utf8)
  moreover have "parse_amf_values (encode_publish name)
      = Inr [str ''publish'', num 0, Null, String name, str ''live'']"
    unfolding encode_publish_def by (rule parse_amf_values_ok) (use assms in \<open>simp_all add: literal_utf8\<close>)
  moreover have "parse_amf_values (encode_fcunpublish name)
      = Inr [str ''FCUnpublish'', num 0, Null, String name]"
    unfolding encode_fcunpublish_def by (rule parse_amf_values_ok) (use assms in \<open>simp_all add: literal_utf8\<close>)
  ultimately show ?thesis by blast
qed

theorem commands_decode_witness:
  "parse_amf_values (encode_publish [99, 97, 109])
     = Inr [str ''publish'', num 0, Null, String [99, 97, 109], str ''live'']"
  using commands_decode [of "[97]" "[104]" "[99, 97, 109]"] by simp

text \<open>The payload of a frame or of a sequence header carries its NAL units:
  \<^verbatim>\<open>extract_h264_nal_units\<close> returns the units that \<^verbatim>\<open>build_video_nalus\<close> was given
  in length-prefixed form, and the two parameter sets of \<^verbatim>\<open>build_video_sequence_header\<close>.\<close>

theorem video_payload_roundtrip:
  assumes "\<forall>nal \<in> set nals. length nal < 2 ^ 32" and "length sps < 65536" and "length pps < 65536"
  shows "extract_h264_nal_units (build_video_nalus (concat (map avcc_unit nals)) keyframe offset) = Inr nals
    \<and> extract_h264_nal_units (build_video_sequence_header sps pps) = Inr [sps, pps]"
  using extract_nalus_lemma [OF assms(1)] extract_sequence_lemma [OF assms(2,3)] by blast

theorem video_payload_roundtrip_witness:
  "extract_h264_nal_units (build_video_nalus (concat (map avcc_unit [[0x65, 1], [0x41]])) True 40) = Inr [[0x65, 1], [0x41]]
    \<and> extract_h264_nal_units (build_video_sequence_header [0x67, 0x42, 0, 0x1E] [0x68, 0xCE]) = Inr [[0x67, 0x42, 0, 0x1E], [0x68, 0xCE]]"
  by (rule video_payload_roundtrip) simp_all

text \<open>A malformed sequence header makes the extraction panic instead of returning an error:
  whenever the announced SPS length exceeds what follows, the slice is out of range.\<close>

theorem extract_sequence_header_panics:
  assumes "length payload \<ge> 11" and "unat (be_u16 (subslice 6 8 payload)) > length payload - 8"
  shows "extract_h264_nal_units ([0x17, 0, 0, 0, 0] @ payload) = Inl (Panic ''slice index out of range'')"
  using assms by (simp add: extract_h264_nal_units_def extract_sequence_header_def slice_or_panic_def Let_def)

theorem extract_sequence_header_panics_witness:
  "extract_h264_nal_units ([0x17, 0, 0, 0, 0] @ [1, 66, 0, 30, 255, 225, 255, 255, 0, 0, 0])
     = Inl (Panic ''slice index out of range'')"
proof (rule extract_sequence_header_panics)
  show "unat (be_u16 (subslice 6 8 [1, 66, 0, 30, 255, 225, 255, 255, 0, 0, 0]))
      > length [1, 66, 0, 30, 255, 225, 255, 255, 0, 0, 0 :: u8] - 8"
    by (simp add: subslice_def be_u16_def)
qed simp

text \<open>The handshake: an honest server is accepted and accepts the reply, and an S2 that does not echo C1 is refused.\<close>

lemma length_lcg [simp]: "length (lcg_bytes n seed) = n"
  by (induction n arbitrary: seed) (simp_all add: Let_def)

lemma length_c1: "length (generate_c1 time) = HANDSHAKE_SIZE"
proof -
  have "8 \<le> HANDSHAKE_SIZE" by (simp add: HANDSHAKE_SIZE_def)
  then show ?thesis by (simp add: generate_c1_def)
qed

lemma handshake_completes:
  assumes "length s1 = HANDSHAKE_SIZE" and "length c1 = HANDSHAKE_SIZE"
  shows "client_handshake c1 RTMP_HANDSHAKE_VERSION s1 (generate_s2 c1 s1_time) = Inr (generate_c2 s1 c1)
    \<and> length (generate_c2 s1 c1) = HANDSHAKE_SIZE \<and> verify_c2 (generate_c2 s1 c1) s1 = Inr ()"
proof -
  have "8 \<le> HANDSHAKE_SIZE" by (simp add: HANDSHAKE_SIZE_def)
  then show ?thesis using assms
    by (simp add: client_handshake_def generate_s2_def generate_c2_def verify_c2_def min_absorb2)
qed

lemma handshake_rejects_other_echo:
  assumes "client_handshake c1 s0 s1 s2 = Inr c2" and "length c1 = HANDSHAKE_SIZE" "length s2 = HANDSHAKE_SIZE"
  shows "take 4 s2 = take 4 c1 \<and> drop 8 s2 = drop 8 c1"
proof -
  have t: "be_u32 (take 4 s2) = be_u32 (take 4 c1)" and d: "drop 8 s2 = drop 8 c1"
    using assms(1) by (auto simp: client_handshake_def split: if_splits)
  have "4 \<le> HANDSHAKE_SIZE" by (simp add: HANDSHAKE_SIZE_def)
  then have "length (take 4 s2) = 4" "length (take 4 c1) = 4" using assms(2,3) by simp_all
  then have "take 4 s2 = take 4 c1" using t by (metis u32_be_be_u32)
  with d show ?thesis by simp
qed

end
