(* ===== verification/Text.thy ===== *)
theory Text
  imports Prelude
begin

text \<open>
  The string operations of the standard library that the protocol parsers use, on
  UTF-8 byte strings: trimming of Unicode white space, splitting, prefix tests,
  number parsing and formatting. The lemmas are the inverses the components need:
  splitting a joined list, parsing a printed number.
\<close>

section \<open>White space\<close>

text \<open>The length of the white space character at the front of a UTF-8 string, 0 if there is none.\<close>

definition ws_char :: "bytes \<Rightarrow> bool" where
  "ws_char c \<longleftrightarrow>
     c \<in> set [[9], [10], [11], [12], [13], [32], [0xC2, 0x85], [0xC2, 0xA0], [0xE1, 0x9A, 0x80],
       [0xE2, 0x80, 0xA8], [0xE2, 0x80, 0xA9], [0xE2, 0x80, 0xAF], [0xE2, 0x81, 0x9F],
       [0xE3, 0x80, 0x80]]
     \<or> (length c = 3 \<and> take 2 c = [0xE2, 0x80] \<and> 0x80 \<le> c ! 2 \<and> c ! 2 \<le> 0x8A)"

definition ws_len :: "bytes \<Rightarrow> nat" where
  "ws_len s = (if ws_char (take 1 s) then 1 else if ws_char (take 2 s) then 2
               else if ws_char (take 3 s) then 3 else 0)"

definition ws_len_end :: "bytes \<Rightarrow> nat" where
  "ws_len_end s =
     (if ws_char (drop (length s - 1) s) then 1
      else if ws_char (drop (length s - 2) s) then 2
      else if ws_char (drop (length s - 3) s) then 3 else 0)"

lemma ws_char_nonempty [simp]: "\<not> ws_char []"
  by (simp add: ws_char_def)

function trim_start :: "bytes \<Rightarrow> bytes" where
  "trim_start s = (if s \<noteq> [] \<and> 0 < ws_len s then trim_start (drop (ws_len s) s) else s)"
  by pat_completeness auto
termination
  by (relation "measure length") auto

function trim_end :: "bytes \<Rightarrow> bytes" where
  "trim_end s = (if s \<noteq> [] \<and> 0 < ws_len_end s then trim_end (take (length s - ws_len_end s) s) else s)"
  by pat_completeness auto
termination
  by (relation "measure length") auto

declare trim_start.simps [simp del] trim_end.simps [simp del]

definition trim :: "bytes \<Rightarrow> bytes" where
  "trim s = trim_end (trim_start s)"

section \<open>Splitting and searching\<close>

fun split_on :: "u8 \<Rightarrow> bytes \<Rightarrow> bytes list" where
  "split_on c [] = [[]]"
| "split_on c (b # bs) =
     (if b = c then [] # split_on c bs
      else (case split_on c bs of [] \<Rightarrow> [[b]] | p # ps \<Rightarrow> (b # p) # ps))"

fun split_once :: "u8 \<Rightarrow> bytes \<Rightarrow> (bytes \<times> bytes) option" where
  "split_once c [] = None"
| "split_once c (b # bs) =
     (if b = c then Some ([], bs)
      else map_option (\<lambda>(k, v). (b # k, v)) (split_once c bs))"

fun join :: "bytes \<Rightarrow> bytes list \<Rightarrow> bytes" where
  "join sep [] = []"
| "join sep [p] = p"
| "join sep (p # q # ps) = p @ sep @ join sep (q # ps)"

definition starts_with :: "bytes \<Rightarrow> bytes \<Rightarrow> bool" where
  "starts_with p s \<longleftrightarrow> take (length p) s = p"

definition ends_with :: "bytes \<Rightarrow> bytes \<Rightarrow> bool" where
  "ends_with p s \<longleftrightarrow> length p \<le> length s \<and> drop (length s - length p) s = p"

fun contains :: "bytes \<Rightarrow> bytes \<Rightarrow> bool" where
  "contains p [] = (p = [])"
| "contains p (b # bs) = (starts_with p (b # bs) \<or> contains p bs)"

definition strip_prefix :: "bytes \<Rightarrow> bytes \<Rightarrow> bytes option" where
  "strip_prefix p s = (if starts_with p s then Some (drop (length p) s) else None)"

function trim_start_matches :: "bytes \<Rightarrow> bytes \<Rightarrow> bytes" where
  "trim_start_matches p s =
     (if p \<noteq> [] \<and> s \<noteq> [] \<and> starts_with p s then trim_start_matches p (drop (length p) s) else s)"
  by pat_completeness auto
termination
  by (relation "measure (\<lambda>(p, s). length s)") auto

declare trim_start_matches.simps [simp del]

section \<open>Case and numbers\<close>

definition ascii_lower :: "u8 \<Rightarrow> u8" where
  "ascii_lower b = (if 65 \<le> b \<and> b \<le> 90 then b + 32 else b)"

definition eq_ignore_ascii_case :: "bytes \<Rightarrow> bytes \<Rightarrow> bool" where
  "eq_ignore_ascii_case a b \<longleftrightarrow> map ascii_lower a = map ascii_lower b"

definition digit_value :: "nat \<Rightarrow> u8 \<Rightarrow> nat option" where
  "digit_value base b =
     (let v = (if 48 \<le> b \<and> b \<le> 57 then unat b - 48
               else if 97 \<le> b \<and> b \<le> 122 then unat b - 87
               else if 65 \<le> b \<and> b \<le> 90 then unat b - 55 else 99)
      in if v < base then Some v else None)"

fun parse_digits :: "nat \<Rightarrow> nat \<Rightarrow> bytes \<Rightarrow> nat option" where
  "parse_digits base acc [] = Some acc"
| "parse_digits base acc (b # bs) =
     (case digit_value base b of None \<Rightarrow> None | Some d \<Rightarrow> parse_digits base (acc * base + d) bs)"

text \<open>\<^verbatim>\<open>from_str_radix\<close> for an unsigned type with maximum \<open>m\<close>: an optional plus sign, at least one digit.\<close>

definition parse_uint :: "nat \<Rightarrow> nat \<Rightarrow> bytes \<Rightarrow> nat option" where
  "parse_uint base m s =
     (let digits = (case s of b # bs \<Rightarrow> if b = 43 then bs else s | [] \<Rightarrow> [])
      in if digits = [] then None
         else case parse_digits base 0 digits of
                None \<Rightarrow> None
              | Some v \<Rightarrow> if v \<le> m then Some v else None)"

definition hex_digit :: "nat \<Rightarrow> u8" where
  "hex_digit d = (if d < 10 then 48 + of_nat d else 87 + of_nat d)"

text \<open>\<^verbatim>\<open>hex::encode\<close> and \<^verbatim>\<open>format!("{:08x}")\<close>.\<close>

definition hex_encode :: "bytes \<Rightarrow> bytes" where
  "hex_encode bs = concat (map (\<lambda>b. [hex_digit (unat b div 16), hex_digit (unat b mod 16)]) bs)"

fun hex_fixed :: "nat \<Rightarrow> nat \<Rightarrow> bytes" where
  "hex_fixed 0 v = []"
| "hex_fixed (Suc n) v = hex_digit (v div 16 ^ n mod 16) # hex_fixed n v"

section \<open>Inverses\<close>

lemma split_on_free: "c \<notin> set p \<Longrightarrow> split_on c p = [p]"
  by (induction p) auto

lemma split_on_cons: "c \<notin> set p \<Longrightarrow> split_on c (p @ c # rest) = p # split_on c rest"
  by (induction p) (auto split: list.splits)

lemma split_on_join:
  assumes "\<forall>p \<in> set ps. c \<notin> set p" and "ps \<noteq> []"
  shows "split_on c (join [c] ps) = ps"
  using assms
proof (induction "[c]" ps rule: join.induct)
  case (3 p q ps)
  then show ?case by (simp add: split_on_cons)
qed (simp_all add: split_on_free)

lemma split_once_append: "c \<notin> set k \<Longrightarrow> split_once c (k @ c # v) = Some (k, v)"
  by (induction k) auto

lemma split_once_None: "split_once c s = None \<longleftrightarrow> c \<notin> set s"
  by (induction s) auto

lemma split_once_Some: "split_once c s = Some (k, v) \<Longrightarrow> s = k @ c # v \<and> c \<notin> set k"
  by (induction s arbitrary: k) (auto split: if_splits)

lemma trim_id: "ws_len s = 0 \<Longrightarrow> ws_len_end s = 0 \<Longrightarrow> trim s = s"
  by (simp add: trim_def trim_start.simps [of s] trim_end.simps [of s])

lemma trim_nil [simp]: "trim [] = []"
  by (simp add: trim_def trim_start.simps trim_end.simps)

lemma length_trim_start: "length (trim_start s) \<le> length s"
proof (induction s rule: trim_start.induct)
  case (1 s)
  then show ?case by (subst trim_start.simps) force
qed

lemma length_trim_end: "length (trim_end s) \<le> length s"
proof (induction s rule: trim_end.induct)
  case (1 s)
  then show ?case by (subst trim_end.simps) force
qed

lemma length_trim: "length (trim s) \<le> length s"
  unfolding trim_def using length_trim_end [of "trim_start s"] length_trim_start [of s] by linarith

text \<open>A visible ASCII character at both ends stops trimming.\<close>

lemma ws_char_first: "ws_char (b # bs) \<Longrightarrow> b \<notin> {33..126}"
  by (auto simp: ws_char_def)

lemma ws_char_last: "ws_char bs \<Longrightarrow> last bs \<notin> {33..126}"
  unfolding ws_char_def
  by (auto simp: length_Suc_conv numeral_3_eq_3 word_le_nat_alt)

lemma ws_len_visible: "s \<noteq> [] \<Longrightarrow> hd s \<in> {33..126} \<Longrightarrow> ws_len s = 0"
proof -
  assume "s \<noteq> []" "hd s \<in> {33..126}"
  then have "\<not> ws_char (take n s)" for n
    using ws_char_first [of "hd s" "take (n - 1) (tl s)"] by (cases s; cases n) auto
  then show ?thesis by (simp add: ws_len_def)
qed

lemma ws_len_end_visible: "s \<noteq> [] \<Longrightarrow> last s \<in> {33..126} \<Longrightarrow> ws_len_end s = 0"
proof -
  assume a: "s \<noteq> []" "last s \<in> {33..126}"
  have "\<not> ws_char (drop (length s - n) s)" for n
  proof (cases "drop (length s - n) s = []")
    case False
    then have "last (drop (length s - n) s) = last s" by (simp add: last_drop)
    then show ?thesis using a(2) ws_char_last by metis
  qed simp
  then show ?thesis by (simp add: ws_len_end_def)
qed

lemma trim_visible: "s \<noteq> [] \<Longrightarrow> hd s \<in> {33..126} \<Longrightarrow> last s \<in> {33..126} \<Longrightarrow> trim s = s"
  by (intro trim_id ws_len_visible ws_len_end_visible)

text \<open>Numbers.\<close>

lemma digit_value_hex:
  assumes "d < base" and "base \<le> 16"
  shows "digit_value base (hex_digit d) = Some d"
proof -
  have "d \<in> set [0..<16]" using assms by auto
  moreover have "\<forall>d \<in> set [0..<16]. digit_value 16 (hex_digit d) = Some d" by code_simp
  moreover have "digit_value base b = (case digit_value 16 b of Some v \<Rightarrow> if v < base then Some v else None | None \<Rightarrow> None)" for b
    using assms(2) by (auto simp: digit_value_def Let_def)
  ultimately show ?thesis using assms(1) by simp
qed

lemma parse_digits_append:
  "parse_digits base acc (xs @ ys) =
   (case parse_digits base acc xs of None \<Rightarrow> None | Some v \<Rightarrow> parse_digits base v ys)"
  by (induction xs arbitrary: acc) (auto split: option.splits)

lemma dec_digit_hex: "d < 10 \<Longrightarrow> 48 + of_nat d = hex_digit d"
  by (simp add: hex_digit_def)

lemma parse_digits_dec: "parse_digits 10 0 (dec_digits n) = Some n"
proof (induction n rule: dec_digits.induct)
  case (1 n)
  show ?case
  proof (cases "n < 10")
    case True
    then show ?thesis by (subst dec_digits.simps) (simp add: dec_digit_hex digit_value_hex)
  next
    case False
    then have "parse_digits 10 0 (dec_digits (n div 10)) = Some (n div 10)" using 1 by simp
    then show ?thesis using False
      by (subst dec_digits.simps)
        (simp add: parse_digits_append dec_digit_hex digit_value_hex)
  qed
qed

lemma dec_digits_first: "\<exists>d ds. dec_digits n = hex_digit d # ds \<and> d < 10"
proof (induction n rule: dec_digits.induct)
  case (1 n)
  show ?case
  proof (cases "n < 10")
    case True
    then show ?thesis by (subst dec_digits.simps) (auto simp: dec_digit_hex)
  next
    case False
    then obtain d ds where "dec_digits (n div 10) = hex_digit d # ds" "d < 10" using 1 by auto
    then show ?thesis using False by (subst dec_digits.simps) auto
  qed
qed

lemma hex_digit_range: "d < 16 \<Longrightarrow> hex_digit d \<in> {48..57} \<union> {97..102}"
proof -
  assume "d < 16"
  then have "d \<in> set [0..<16]" by simp
  moreover have "\<forall>d \<in> set [0..<16]. (48 \<le> hex_digit d \<and> hex_digit d \<le> 57) \<or> (97 \<le> hex_digit d \<and> hex_digit d \<le> 102)"
    by code_simp
  ultimately show ?thesis by auto
qed

lemma parse_uint_dec: "n \<le> m \<Longrightarrow> parse_uint 10 m (dec_digits n) = Some n"
proof -
  assume "n \<le> m"
  obtain d ds where d: "dec_digits n = hex_digit d # ds" "d < 10" using dec_digits_first by blast
  then have "hex_digit d \<noteq> 43" using hex_digit_range [of d] by auto
  with d parse_digits_dec [of n] \<open>n \<le> m\<close> show ?thesis by (simp add: parse_uint_def Let_def)
qed

lemma parse_digits_hex_fixed:
  "parse_digits 16 acc (hex_fixed n v) = Some (acc * 16 ^ n + v mod 16 ^ n)"
proof (induction n arbitrary: acc)
  case 0
  then show ?case by simp
next
  case (Suc n)
  have "(acc * 16 + v div 16 ^ n mod 16) * 16 ^ n + v mod 16 ^ n = acc * 16 ^ Suc n + v mod 16 ^ Suc n"
    using mod_mult2_eq [of v "16 ^ n" 16] by (simp add: algebra_simps)
  then show ?case using Suc.IH by (simp add: digit_value_hex)
qed

lemma length_hex_fixed [simp]: "length (hex_fixed n v) = n"
  by (induction n) simp_all

lemma set_hex_fixed: "set (hex_fixed n v) \<subseteq> {48..57} \<union> {97..102}"
  by (induction n) (use hex_digit_range in auto)

lemma set_dec_digits: "set (dec_digits n) \<subseteq> {48..57}"
proof (induction n rule: dec_digits.induct)
  case (1 n)
  have d: "(48 + of_nat m :: u8) \<in> {48..57}" if "m < 10" for m
  proof -
    have "m \<in> set [0..<10]" using that by simp
    moreover have "\<forall>m \<in> set [0..<10]. 48 \<le> (48 + of_nat m :: u8) \<and> (48 + of_nat m :: u8) \<le> 57" by code_simp
    ultimately show ?thesis by auto
  qed
  show ?case
  proof (cases "n < 10")
    case True
    then show ?thesis using d [of n] by (subst dec_digits.simps) simp
  next
    case False
    then show ?thesis using 1 d [of "n mod 10"] by (subst dec_digits.simps) auto
  qed
qed

end
