(* ===== verification/RtspAuth.thy ===== *)
theory RtspAuth
  imports Text
begin

text \<open>
  Digest authentication of the RTSP server, \<^verbatim>\<open>crates/protocols/src/rtsp_server/auth.rs\<close>:
  the inline MD5, the parameter parser, the comparison and the verification.
  Strings are their UTF-8 bytes. The lemmas show that the buffered MD5 equals
  the padded-message definition of RFC 1321 whatever the split of the input into
  \<^verbatim>\<open>update\<close> calls, that a correct response is accepted, and
  exactly which wrong responses the comparison accepts too.
\<close>

section \<open>Comparison\<close>

definition constant_time_str_eq :: "bytes \<Rightarrow> bytes \<Rightarrow> bool" where
  "constant_time_str_eq a b =
     (if length a \<noteq> length b then False
      else fold (\<lambda>(x, y) acc. acc XOR x XOR y) (zip a b) 0 = 0)"

section \<open>MD5\<close>

definition md5_K :: "u32 list" where
  "md5_K =
     [0xd76aa478, 0xe8c7b756, 0x242070db, 0xc1bdceee, 0xf57c0faf, 0x4787c62a, 0xa8304613, 0xfd469501,
      0x698098d8, 0x8b44f7af, 0xffff5bb1, 0x895cd7be, 0x6b901122, 0xfd987193, 0xa679438e, 0x49b40821,
      0xf61e2562, 0xc040b340, 0x265e5a51, 0xe9b6c7aa, 0xd62f105d, 0x02441453, 0xd8a1e681, 0xe7d3fbc8,
      0x21e1cde6, 0xc33707d6, 0xf4d50d87, 0x455a14ed, 0xa9e3e905, 0xfcefa3f8, 0x676f02d9, 0x8d2a4c8a,
      0xfffa3942, 0x8771f681, 0x6d9d6122, 0xfde5380c, 0xa4beea44, 0x4bdecfa9, 0xf6bb4b60, 0xbebfbc70,
      0x289b7ec6, 0xeaa127fa, 0xd4ef3085, 0x04881d05, 0xd9d4d039, 0xe6db99e5, 0x1fa27cf8, 0xc4ac5665,
      0xf4292244, 0x432aff97, 0xab9423a7, 0xfc93a039, 0x655b59c3, 0x8f0ccc92, 0xffeff47d, 0x85845dd1,
      0x6fa87e4f, 0xfe2ce6e0, 0xa3014314, 0x4e0811a1, 0xf7537e82, 0xbd3af235, 0x2ad7d2bb, 0xeb86d391]"

definition md5_S :: "nat list" where
  "md5_S =
     [7, 12, 17, 22, 7, 12, 17, 22, 7, 12, 17, 22, 7, 12, 17, 22,
      5, 9, 14, 20, 5, 9, 14, 20, 5, 9, 14, 20, 5, 9, 14, 20,
      4, 11, 16, 23, 4, 11, 16, 23, 4, 11, 16, 23, 4, 11, 16, 23,
      6, 10, 15, 21, 6, 10, 15, 21, 6, 10, 15, 21, 6, 10, 15, 21]"

type_synonym md5_words = "u32 \<times> u32 \<times> u32 \<times> u32"

record md5 =
  md_state :: md5_words
  md_count :: u64
  md_buffer :: bytes

definition md5_init :: md5_words where
  "md5_init = (0x67452301, 0xEFCDAB89, 0x98BADCFE, 0x10325476)"

definition md5_new :: md5 where
  "md5_new = \<lparr>md_state = md5_init, md_count = 0, md_buffer = replicate 64 0\<rparr>"

definition md5_fg :: "nat \<Rightarrow> u32 \<Rightarrow> u32 \<Rightarrow> u32 \<Rightarrow> u32 \<times> nat" where
  "md5_fg i b c d =
     (if i \<le> 15 then ((b AND c) OR (NOT b AND d), i)
      else if i \<le> 31 then ((d AND b) OR (NOT d AND c), (5 * i + 1) mod 16)
      else if i \<le> 47 then (b XOR c XOR d, (3 * i + 5) mod 16)
      else (c XOR (b OR NOT d), (7 * i) mod 16))"

definition md5_round :: "u32 list \<Rightarrow> nat \<Rightarrow> md5_words \<Rightarrow> md5_words" where
  "md5_round x i = (\<lambda>(a, b, c, d).
     let (f, g) = md5_fg i b c d
     in (d, b + word_rotl (md5_S ! i) (a + f + md5_K ! i + x ! g), b, c))"

definition process_block :: "md5_words \<Rightarrow> bytes \<Rightarrow> md5_words" where
  "process_block state block =
     (let x = map (\<lambda>i. le_u32 (subslice (4 * i) (4 * i + 4) block)) [0..<16];
          (a, b, c, d) = fold (md5_round x) [0..<64] state;
          (s0, s1, s2, s3) = state
      in (s0 + a, s1 + b, s2 + c, s3 + d))"

text \<open>\<^verbatim>\<open>buffer[at..at + xs.len()].copy_from_slice(xs)\<close>.\<close>

definition copy_at :: "nat \<Rightarrow> bytes \<Rightarrow> bytes \<Rightarrow> bytes" where
  "copy_at i xs buf = take i buf @ xs @ drop (i + length xs) buf"

function process_blocks :: "bytes \<Rightarrow> nat \<Rightarrow> md5_words \<Rightarrow> nat \<times> md5_words" where
  "process_blocks data offset state =
     (if offset + 64 \<le> length data
      then process_blocks data (offset + 64) (process_block state (subslice offset (offset + 64) data))
      else (offset, state))"
  by pat_completeness auto
termination
  by (relation "measure (\<lambda>(data, offset, state). length data - offset)") auto

declare process_blocks.simps [simp del]

definition md5_update :: "md5 \<Rightarrow> bytes \<Rightarrow> md5" where
  "md5_update m data =
     (let len = length data;
          buffer_used = unat (md_count m) mod 64;
          m1 = m\<lparr>md_count := md_count m + of_nat len\<rparr>;
          space = 64 - buffer_used;
          copy_len = min space len;
          (m2, offset, stop) =
            (if buffer_used \<noteq> 0 then
               let buf = copy_at buffer_used (take copy_len data) (md_buffer m1)
               in if buffer_used + copy_len = 64
                  then (m1\<lparr>md_buffer := buf, md_state := process_block (md_state m1) buf\<rparr>, copy_len, False)
                  else (m1\<lparr>md_buffer := buf\<rparr>, copy_len, True)
             else (m1, 0, False))
      in if stop then m2
         else
           let (offset', state') = process_blocks data offset (md_state m2);
               m3 = m2\<lparr>md_state := state'\<rparr>
           in if offset' < len then m3\<lparr>md_buffer := copy_at 0 (drop offset' data) (md_buffer m3)\<rparr>
              else m3)"

definition md5_digest :: "md5_words \<Rightarrow> bytes" where
  "md5_digest = (\<lambda>(a, b, c, d). u32_le a @ u32_le b @ u32_le c @ u32_le d)"

definition md5_finalize :: "md5 \<Rightarrow> bytes" where
  "md5_finalize m =
     (let buffer_used = unat (md_count m) mod 64;
          buffer = copy_at buffer_used [0x80] (md_buffer m);
          (buffer1, state1) =
            (if buffer_used < 56
             then (copy_at (buffer_used + 1) (replicate (56 - (buffer_used + 1)) 0) buffer, md_state m)
             else
               let full = copy_at (buffer_used + 1) (replicate (64 - (buffer_used + 1)) 0) buffer
               in (copy_at 0 (replicate 56 0) full, process_block (md_state m) full));
          bits = md_count m * 8;
          buffer2 = copy_at 56 (u64_le bits) buffer1
      in md5_digest (process_block state1 buffer2))"

definition md5_hash :: "bytes \<Rightarrow> bytes" where
  "md5_hash data = md5_finalize (md5_update md5_new data)"

definition md5_hex :: "bytes \<Rightarrow> bytes" where
  "md5_hex data = hex_encode (md5_hash data)"

section \<open>Parameters and verification\<close>

text \<open>
  \<^verbatim>\<open>build_digest_challenge\<close>; the double quote is byte 34.
\<close>

definition quoted :: "bytes \<Rightarrow> bytes" where
  "quoted s = [34] @ s @ [34]"

definition build_digest_challenge :: "bytes \<Rightarrow> bytes \<Rightarrow> bytes" where
  "build_digest_challenge realm nonce =
     ascii ''Digest realm='' @ quoted realm @ ascii '', nonce='' @ quoted nonce
     @ ascii '', algorithm=MD5, stale=FALSE''"

text \<open>The position of the first comma or space, or the end.\<close>

fun find_value_end :: "bytes \<Rightarrow> nat" where
  "find_value_end [] = 0"
| "find_value_end (b # bs) = (if b = 44 \<or> b = 32 then 0 else Suc (find_value_end bs))"

definition skip_comma :: "bytes \<Rightarrow> bytes" where
  "skip_comma s = trim (case strip_prefix [44] s of Some r \<Rightarrow> r | None \<Rightarrow> s)"

text \<open>
  One round of the loop of \<^verbatim>\<open>parse_auth_params\<close>: no \<^verbatim>\<open>=\<close> left, an
  unterminated quote, or a key with its value and the rest.
\<close>

datatype auth_step = NoMore | Unterminated | Param bytes bytes bytes

definition auth_param_step :: "bytes \<Rightarrow> auth_step" where
  "auth_param_step remaining =
     (case split_once 61 (trim remaining) of
        None \<Rightarrow> NoMore
      | Some (k, rest) \<Rightarrow>
          let key = trim k; remaining1 = trim rest
          in if starts_with [34] remaining1 then
               (case split_once 34 (drop 1 remaining1) of
                  None \<Rightarrow> Unterminated
                | Some (value, rest2) \<Rightarrow> Param key value (skip_comma (trim rest2)))
             else
               let e = find_value_end remaining1
               in Param key (take e remaining1) (skip_comma (trim (drop e remaining1))))"

lemma length_skip_comma: "length (skip_comma s) \<le> length s"
  unfolding skip_comma_def
  by (auto simp: strip_prefix_def split: option.splits intro: order_trans [OF length_trim])

lemma auth_param_step_shorter:
  assumes "auth_param_step s = Param k v rest"
  shows "length rest < length s"
proof -
  obtain k0 r0 where s0: "split_once 61 (trim s) = Some (k0, r0)"
    using assms by (auto simp: auth_param_step_def split: option.splits)
  have "length r0 < length (trim s)" using split_once_Some [OF s0] by simp
  then have r0: "length r0 < length s" using length_trim [of s] by linarith
  have "length rest \<le> length (trim r0)"
  proof (cases "starts_with [34] (trim r0)")
    case True
    then obtain v0 r2 where q: "split_once 34 (drop 1 (trim r0)) = Some (v0, r2)" "rest = skip_comma (trim r2)"
      using assms s0 by (auto simp: auth_param_step_def Let_def split: option.splits)
    have "length (drop 1 (trim r0)) = length v0 + Suc (length r2)"
      using split_once_Some [OF q(1)] by simp
    then have "length r2 \<le> length (trim r0)" by simp
    then show ?thesis unfolding q(2)
      using length_skip_comma [of "trim r2"] length_trim [of r2] by linarith
  next
    case False
    then have "rest = skip_comma (trim (drop (find_value_end (trim r0)) (trim r0)))"
      using assms s0 by (auto simp: auth_param_step_def Let_def)
    then show ?thesis
      using length_skip_comma [of "trim (drop (find_value_end (trim r0)) (trim r0))"]
        length_trim [of "drop (find_value_end (trim r0)) (trim r0)"] by simp
  qed
  then show ?thesis using r0 length_trim [of r0] by linarith
qed

function parse_auth_loop :: "bytes \<Rightarrow> (bytes \<Rightarrow> bytes option) \<Rightarrow> (bytes \<Rightarrow> bytes option) result" where
  "parse_auth_loop remaining params =
     (if remaining = [] then Inr params
      else
        (case auth_param_step remaining of
           NoMore \<Rightarrow> Inr params
         | Unterminated \<Rightarrow> Inl (Bail ''Unterminated quoted string in auth params'')
         | Param key value rest \<Rightarrow> parse_auth_loop rest (params(key \<mapsto> value))))"
  by pat_completeness auto
termination
  by (relation "measure (\<lambda>(remaining, params). length remaining)")
    (auto dest: auth_param_step_shorter)

declare parse_auth_loop.simps [simp del]

definition parse_auth_params :: "bytes \<Rightarrow> (bytes \<Rightarrow> bytes option) result" where
  "parse_auth_params input = parse_auth_loop (trim input) Map.empty"

abbreviation colon :: bytes where "colon \<equiv> ascii '':''"

definition expected_response ::
  "(bytes \<Rightarrow> bytes option) \<Rightarrow> bytes \<Rightarrow> bytes \<Rightarrow> bytes \<Rightarrow> bytes \<Rightarrow> bytes \<Rightarrow> bytes \<Rightarrow> bytes" where
  "expected_response params client_nonce method uri username password realm =
     (let ha1 = md5_hex (username @ colon @ realm @ colon @ password);
          ha2 = md5_hex (method @ colon @ uri)
      in case params (ascii ''qop'') of
           Some qop \<Rightarrow>
             let nc = (case params (ascii ''nc'') of Some s \<Rightarrow> s | None \<Rightarrow> ascii ''00000001'');
                 cnonce = (case params (ascii ''cnonce'') of Some s \<Rightarrow> s | None \<Rightarrow> [])
             in md5_hex (ha1 @ colon @ client_nonce @ colon @ nc @ colon @ cnonce @ colon @ qop @ colon @ ha2)
         | None \<Rightarrow> md5_hex (ha1 @ colon @ client_nonce @ colon @ ha2))"

definition verify_params ::
  "(bytes \<Rightarrow> bytes option) \<Rightarrow> bytes \<Rightarrow> bytes \<Rightarrow> bytes \<Rightarrow> bytes \<Rightarrow> bytes \<Rightarrow> bool" where
  "verify_params params method uri username password realm =
     (case params (ascii ''username'') of
        None \<Rightarrow> False
      | Some client_username \<Rightarrow>
          if client_username \<noteq> username then False
          else (case (params (ascii ''realm''), params (ascii ''nonce''),
                      params (ascii ''uri''), params (ascii ''response'')) of
                  (Some client_realm, Some client_nonce, Some client_uri, Some client_response) \<Rightarrow>
                    constant_time_str_eq client_response
                      (expected_response params client_nonce method uri username password realm)
                    \<and> constant_time_str_eq client_realm realm
                    \<and> constant_time_str_eq client_uri uri
                | _ \<Rightarrow> False))"

definition verify_digest_auth ::
  "bytes \<Rightarrow> bytes \<Rightarrow> bytes \<Rightarrow> bytes \<Rightarrow> bytes \<Rightarrow> bytes \<Rightarrow> bool" where
  "verify_digest_auth auth_header method uri username password realm =
     (let header = trim auth_header;
          params_str =
            (case strip_prefix (ascii ''Digest'') header of
               Some s \<Rightarrow> Some (trim s)
             | None \<Rightarrow> map_option trim (strip_prefix (ascii ''digest'') header))
      in case params_str of
           None \<Rightarrow> False
         | Some s \<Rightarrow>
             (case parse_auth_params s of
                Inl _ \<Rightarrow> False
              | Inr params \<Rightarrow> verify_params params method uri username password realm))"

section \<open>MD5 against RFC 1321\<close>

text \<open>The message padded to a multiple of 64 bytes and processed block by block.\<close>

function fold_blocks :: "md5_words \<Rightarrow> bytes \<Rightarrow> md5_words" where
  "fold_blocks st bs =
     (if 64 \<le> length bs then fold_blocks (process_block st (take 64 bs)) (drop 64 bs) else st)"
  by pat_completeness auto
termination
  by (relation "measure (\<lambda>(st, bs). length bs)") auto

declare fold_blocks.simps [simp del]

definition md5_pad :: "bytes \<Rightarrow> bytes" where
  "md5_pad data =
     (let r = length data mod 64
      in data @ [0x80] @ replicate (if r < 56 then 55 - r else 119 - r) 0
         @ u64_le (of_nat (8 * length data)))"

definition md5_ref :: "bytes \<Rightarrow> bytes" where
  "md5_ref data = md5_digest (fold_blocks md5_init (md5_pad data))"

lemma fold_blocks_small: "length bs < 64 \<Longrightarrow> fold_blocks st bs = st"
  by (subst fold_blocks.simps) simp

lemma fold_blocks_one: "length b = 64 \<Longrightarrow> fold_blocks st (b @ rest) = fold_blocks (process_block st b) rest"
  by (subst fold_blocks.simps) simp

lemma fold_blocks_append:
  "64 dvd length a \<Longrightarrow> fold_blocks st (a @ b) = fold_blocks (fold_blocks st a) b"
proof (induction "length a" arbitrary: a st rule: less_induct)
  case less
  show ?case
  proof (cases "a = []")
    case True
    then show ?thesis by (simp add: fold_blocks_small)
  next
    case False
    then have l: "64 \<le> length a" using less.prems by (auto intro: dvd_imp_le)
    have a: "a = take 64 a @ drop 64 a" by simp
    have d: "64 dvd length (drop 64 a)" using less.prems l by (simp add: dvd_minus_self)
    have "fold_blocks st (a @ b) = fold_blocks (process_block st (take 64 a)) (drop 64 a @ b)"
      using l fold_blocks_one [of "take 64 a" st "drop 64 a @ b"] by (simp flip: append.assoc)
    also have "\<dots> = fold_blocks (fold_blocks (process_block st (take 64 a)) (drop 64 a)) b"
      using l False d by (intro less.hyps) simp_all
    also have "fold_blocks (process_block st (take 64 a)) (drop 64 a) = fold_blocks st a"
      using l by (subst (2) fold_blocks.simps) simp
    finally show ?thesis .
  qed
qed

lemma process_blocks_fold:
  "offset \<le> length data \<Longrightarrow> process_blocks data offset st =
     (offset + 64 * ((length data - offset) div 64), fold_blocks st (drop offset data))"
proof (induction "length data - offset" arbitrary: offset st rule: less_induct)
  case less
  show ?case
  proof (cases "offset + 64 \<le> length data")
    case False
    then have "process_blocks data offset st = (offset, st)" by (subst process_blocks.simps) simp
    moreover have "length (drop offset data) < 64" using False by simp
    ultimately show ?thesis using False less.prems by (simp add: fold_blocks_small)
  next
    case True
    let ?b = "subslice offset (offset + 64) data"
    have b: "?b = take 64 (drop offset data)" by (simp add: subslice_def)
    have "process_blocks data offset st = process_blocks data (offset + 64) (process_block st ?b)"
      using True by (subst process_blocks.simps) simp
    also have "\<dots> = (offset + 64 + 64 * ((length data - (offset + 64)) div 64),
        fold_blocks (process_block st ?b) (drop (offset + 64) data))"
      using True by (intro less.hyps) simp_all
    also have "fold_blocks (process_block st ?b) (drop (offset + 64) data) = fold_blocks st (drop offset data)"
      using True fold_blocks.simps [of st "drop offset data"] by (simp add: b add.commute le_diff_conv2)
    also have "offset + 64 + 64 * ((length data - (offset + 64)) div 64) = offset + 64 * ((length data - offset) div 64)"
    proof -
      have "length data - offset = length data - (offset + 64) + 64" using True by simp
      then have "(length data - offset) div 64 = (length data - (offset + 64)) div 64 + 1"
        by (metis add.commute div_add_self2 zero_neq_numeral)
      then show ?thesis by simp
    qed
    finally show ?thesis .
  qed
qed

text \<open>What the state means: the bytes hashed so far.\<close>

definition md5_abs :: "md5 \<Rightarrow> bytes \<Rightarrow> bool" where
  "md5_abs m d \<longleftrightarrow> md_state m = fold_blocks md5_init (take (64 * (length d div 64)) d)
     \<and> md_count m = of_nat (length d) \<and> length (md_buffer m) = 64
     \<and> take (length d mod 64) (md_buffer m) = drop (64 * (length d div 64)) d"

lemma md5_abs_new: "md5_abs md5_new []"
  by (simp add: md5_abs_def md5_new_def fold_blocks_small)

lemma count_mod_64: "unat (of_nat n :: u64) mod 64 = n mod 64"
proof -
  have "(n mod 2 ^ 64) mod 64 = n mod 64" by (rule mod_mod_cancel) simp
  then show ?thesis by (simp add: unat_of_nat)
qed

lemma length_copy_at: "i + length xs \<le> length buf \<Longrightarrow> length (copy_at i xs buf) = length buf"
  by (simp add: copy_at_def)

lemma copy_at_append: "length pre = i \<Longrightarrow> copy_at i xs (pre @ rest) = pre @ xs @ drop (length xs) rest"
  by (simp add: copy_at_def)

lemma md5_abs_splitI:
  assumes "d = full @ tail" and "64 dvd length full" and "length tail < 64"
    and "md_state m = fold_blocks md5_init full" and "md_count m = of_nat (length d)"
    and "length (md_buffer m) = 64" and "take (length tail) (md_buffer m) = tail"
  shows "md5_abs m d"
proof -
  obtain k where "length full = 64 * k" using assms(2) by (auto elim: dvdE)
  then have "length d div 64 = k" "length d mod 64 = length tail"
    using assms(1,3) by simp_all
  then show ?thesis using assms \<open>length full = 64 * k\<close> by (simp add: md5_abs_def)
qed

lemma md5_abs_splitE:
  assumes "md5_abs m d"
  obtains full tail where "d = full @ tail" "64 dvd length full" "length tail < 64"
    "md_state m = fold_blocks md5_init full" "md_count m = of_nat (length d)"
    "length (md_buffer m) = 64" "take (length tail) (md_buffer m) = tail" "length d mod 64 = length tail"
proof -
  let ?n = "64 * (length d div 64)"
  have l: "length (drop ?n d) = length d mod 64" by (simp add: minus_mult_div_eq_mod)
  have n: "?n \<le> length d" by simp
  show ?thesis
  proof (rule that [of "take ?n d" "drop ?n d"])
    show "64 dvd length (take ?n d)" using n by (simp add: min_absorb2)
  qed (use assms l in \<open>simp_all add: md5_abs_def\<close>)
qed

lemma md5_abs_update:
  assumes "md5_abs m d"
  shows "md5_abs (md5_update m e) (d @ e)"
proof -
  obtain full tail where s: "d = full @ tail" "64 dvd length full" "length tail < 64"
    "md_state m = fold_blocks md5_init full" "md_count m = of_nat (length d)"
    "length (md_buffer m) = 64" "take (length tail) (md_buffer m) = tail" "length d mod 64 = length tail"
    using assms by (rule md5_abs_splitE)
  have used: "unat (md_count m) mod 64 = length tail" using s(5,8) by (simp add: count_mod_64)
  have count: "md_count m + of_nat (length e) = of_nat (length (d @ e))" using s(5) by simp
  \<comment> \<open>hashing the rest \<open>r\<close> of the new data from a block boundary\<close>
  have rest: "md5_abs (if off + 64 * (length r div 64) < length e
        then m3\<lparr>md_buffer := copy_at 0 (drop (off + 64 * (length r div 64)) e) (md_buffer m3)\<rparr> else m3) (d @ e)"
    if "r = drop off e" "off \<le> length e" "d @ e = fb @ r" "64 dvd length fb"
      "md_state m3 = fold_blocks (fold_blocks md5_init fb) r"
      "md_count m3 = of_nat (length (d @ e))" "length (md_buffer m3) = 64" for off r fb m3
  proof -
    let ?k = "64 * (length r div 64)"
    have rs: "r = take ?k r @ drop ?k r" by simp
    have lr: "length (drop ?k r) = length r mod 64" by (simp add: minus_mult_div_eq_mod)
    have lr64: "length (drop ?k r) < 64" by (simp only: lr)
    have d64: "64 dvd length (take ?k r)" by (simp add: min_absorb2)
    have st: "md_state m3 = fold_blocks md5_init (fb @ take ?k r)"
      using that(5) fold_blocks_append [OF that(4), of md5_init "take ?k r"]
        fold_blocks_append [OF d64, of "fold_blocks md5_init fb" "drop ?k r"] fold_blocks_small [OF lr64]
      by simp
    have de: "drop (off + ?k) e = drop ?k r" using that(1) by (simp add: add.commute)
    show ?thesis
    proof (rule md5_abs_splitI [where full = "fb @ take ?k r" and tail = "drop ?k r"])
      show "d @ e = (fb @ take ?k r) @ drop ?k r" using that(3) by simp
      show "64 dvd length (fb @ take ?k r)" using that(4) d64 by simp
      show "length (drop ?k r) < 64" by (rule lr64)
      let ?m = "if off + ?k < length e then m3\<lparr>md_buffer := copy_at 0 (drop (off + ?k) e) (md_buffer m3)\<rparr> else m3"
      show "md_state ?m = fold_blocks md5_init (fb @ take ?k r)" "md_count ?m = of_nat (length (d @ e))"
        using st that(6) by simp_all
      show "length (md_buffer ?m) = 64"
        using that(7) lr64 by (simp add: de length_copy_at)
      show "take (length (drop ?k r)) (md_buffer ?m) = drop ?k r"
        using that(1,2) by (auto simp: de copy_at_def add.commute)
    qed
  qed
  show ?thesis
  proof (cases "tail = []")
    case True
    let ?m3 = "m\<lparr>md_count := md_count m + of_nat (length e), md_state := fold_blocks (md_state m) e\<rparr>"
    have eq: "md5_update m e = (if 0 + 64 * (length e div 64) < length e
        then ?m3\<lparr>md_buffer := copy_at 0 (drop (0 + 64 * (length e div 64)) e) (md_buffer ?m3)\<rparr> else ?m3)"
      using True used by (simp add: md5_update_def Let_def process_blocks_fold)
    show ?thesis unfolding eq
      by (rule rest [where fb = full]) (use True s count in simp_all)
  next
    case False
    let ?u = "length tail"
    let ?c = "min (64 - ?u) (length e)"
    let ?buf = "copy_at ?u (take ?c e) (md_buffer m)"
    have buf: "take (?u + ?c) ?buf = tail @ take ?c e" and lbuf: "length ?buf = 64"
      using s(3,6,7) by (simp_all add: copy_at_def min_def)
    show ?thesis
    proof (cases "?u + ?c = 64")
      case True
      have b64: "?buf = tail @ take ?c e" using buf lbuf True by simp
      have c: "?c = 64 - ?u" "?c \<le> length e" using True by simp_all
      let ?m3 = "m\<lparr>md_count := md_count m + of_nat (length e), md_buffer := ?buf,
          md_state := fold_blocks (process_block (md_state m) ?buf) (drop ?c e)\<rparr>"
      have eq: "md5_update m e = (if ?c + 64 * (length (drop ?c e) div 64) < length e
          then ?m3\<lparr>md_buffer := copy_at 0 (drop (?c + 64 * (length (drop ?c e) div 64)) e) (md_buffer ?m3)\<rparr> else ?m3)"
        using False used True c(2) by (simp add: md5_update_def Let_def process_blocks_fold)
      show ?thesis unfolding eq
      proof (rule rest [where fb = "full @ tail @ take ?c e"])
        show "md_state ?m3 = fold_blocks (fold_blocks md5_init (full @ tail @ take ?c e)) (drop ?c e)"
          using fold_blocks_append [OF s(2), of md5_init "tail @ take ?c e"] s(4) b64 lbuf
            fold_blocks_one [of ?buf "md_state m" "[]"] by (simp add: fold_blocks_small)
        have "length (take ?c e) = ?c" by simp
        then show "64 dvd length (full @ tail @ take ?c e)"
          using s(2) True by (simp only: length_append dvd_add dvd_refl)
      qed (use s count lbuf c in simp_all)
    next
      case no: False
      have lt: "?u + length e < 64"
      proof (rule ccontr)
        assume "\<not> ?u + length e < 64"
        then have "?c = 64 - ?u" by simp
        then show False using no s(3) by simp
      qed
      then have c: "?c = length e" "?u + length e < 64" by simp_all
      have m: "md5_update m e = m\<lparr>md_count := md_count m + of_nat (length e), md_buffer := ?buf\<rparr>"
        using False used no by (simp add: md5_update_def Let_def)
      show ?thesis unfolding m
        by (rule md5_abs_splitI [where full = full and tail = "tail @ e"])
          (use s count buf lbuf c in simp_all)
    qed
  qed
qed

lemma md5_finalize_ref:
  assumes "md5_abs m d"
  shows "md5_finalize m = md5_ref d"
proof -
  obtain full tail where s: "d = full @ tail" "64 dvd length full" "length tail < 64"
    "md_state m = fold_blocks md5_init full" "md_count m = of_nat (length d)"
    "length (md_buffer m) = 64" "take (length tail) (md_buffer m) = tail" "length d mod 64 = length tail"
    using assms by (rule md5_abs_splitE)
  have used: "unat (md_count m) mod 64 = length tail" using s(5,8) by (simp add: count_mod_64)
  have bits: "md_count m * 8 = of_nat (8 * length d)" using s(5) by (simp add: mult.commute)
  let ?l = "u64_le (of_nat (8 * length d) :: u64)"
  have pad: "fold_blocks md5_init (md5_pad d) = fold_blocks (md_state m)
      (tail @ [0x80] @ replicate (if length tail < 56 then 55 - length tail else 119 - length tail) 0 @ ?l)"
    using fold_blocks_append [OF s(2), of md5_init] s(1,4,8) by (simp add: md5_pad_def Let_def)
  show ?thesis
  proof (cases "length tail < 56")
    case True
    let ?b = "tail @ [0x80] @ replicate (55 - length tail) 0 @ ?l"
    have "copy_at 56 ?l (copy_at (length tail + 1) (replicate (56 - (length tail + 1)) 0)
        (copy_at (length tail) [0x80] (md_buffer m))) = ?b"
    proof -
      have 0: "md_buffer m = tail @ drop (length tail) (md_buffer m)" using s(7) by (metis append_take_drop_id)
      have 1: "copy_at (length tail) [0x80] (md_buffer m) = (tail @ [0x80]) @ drop (length tail + 1) (md_buffer m)"
        by (subst 0, subst copy_at_append) simp_all
      have 2: "copy_at (length tail + 1) (replicate (56 - (length tail + 1)) 0) ((tail @ [0x80]) @ drop (length tail + 1) (md_buffer m))
          = (tail @ [0x80] @ replicate (55 - length tail) 0) @ drop 56 (md_buffer m)"
        using True by (subst copy_at_append) simp_all
      have 3: "copy_at 56 ?l ((tail @ [0x80] @ replicate (55 - length tail) 0) @ drop 56 (md_buffer m)) = ?b"
        using True s(6) by (subst copy_at_append) simp_all
      show ?thesis by (simp only: 1 2 3)
    qed
    then have "md5_finalize m = md5_digest (process_block (md_state m) ?b)"
      using True by (simp add: md5_finalize_def used bits Let_def)
    moreover have "length ?b = 64" using True by simp
    ultimately show ?thesis
      using fold_blocks_one [of ?b "md_state m" "[]"] True by (simp add: md5_ref_def pad fold_blocks_small)
  next
    case False
    let ?b1 = "tail @ [0x80] @ replicate (63 - length tail) 0"
    let ?b2 = "replicate 56 0 @ ?l"
    have e1: "copy_at (length tail + 1) (replicate (64 - (length tail + 1)) 0)
        (copy_at (length tail) [0x80] (md_buffer m)) = ?b1"
      using s(3,6,7) by (simp add: copy_at_def)
    have l1: "length ?b1 = 64" using s(3) by simp
    have e2: "copy_at 56 ?l (copy_at 0 (replicate 56 0) ?b1) = ?b2"
      using l1 by (simp add: copy_at_def)
    have "md5_finalize m = md5_digest (process_block (process_block (md_state m) ?b1) ?b2)"
      using False e1 e2 by (simp add: md5_finalize_def used bits Let_def)
    moreover have "replicate (119 - length tail) (0::u8) = replicate (63 - length tail) 0 @ replicate 56 0"
      using s(3) by (simp flip: replicate_add)
    then have "fold_blocks md5_init (md5_pad d) = fold_blocks (md_state m) (?b1 @ ?b2)"
      using False pad by simp
    moreover have "length ?b2 = 64" by simp
    ultimately show ?thesis
      using fold_blocks_one [OF l1, of "md_state m" ?b2] fold_blocks_one [of ?b2 "process_block (md_state m) ?b1" "[]"]
      by (simp add: md5_ref_def fold_blocks_small)
  qed
qed

section \<open>What the comparison accepts\<close>

definition xor_all :: "bytes \<Rightarrow> u8" where
  "xor_all bs = fold (XOR) bs 0"

lemma fold_xor_acc: "fold (XOR) bs (a :: u8) = a XOR fold (XOR) bs 0"
proof (induction bs arbitrary: a)
  case Nil
  then show ?case by simp
next
  case (Cons b bs)
  show ?case using Cons.IH [of "b XOR a"] Cons.IH [of b] by (simp add: xor.assoc xor.left_commute)
qed

lemma xor_all_Cons [simp]: "xor_all (b # bs) = b XOR xor_all bs"
  unfolding xor_all_def using fold_xor_acc [of bs b] by simp

lemma xor_all_Nil [simp]: "xor_all [] = 0"
  by (simp add: xor_all_def)

lemma fold_xor_zip:
  "length a = length b \<Longrightarrow> fold (\<lambda>(x, y) acc. acc XOR x XOR y) (zip a b) c = c XOR xor_all a XOR xor_all b"
proof (induction a b arbitrary: c rule: list_induct2)
  case Nil
  then show ?case by simp
next
  case (Cons x xs y ys)
  then show ?case by (simp add: xor.assoc xor.left_commute)
qed

lemma constant_time_str_eq_iff:
  "constant_time_str_eq a b \<longleftrightarrow> length a = length b \<and> xor_all a = xor_all b"
proof (cases "length a = length b")
  case True
  have "x XOR y = 0 \<longleftrightarrow> x = y" for x y :: u8
    by (auto simp: bit_eq_iff bit_xor_iff)
  then show ?thesis using True fold_xor_zip [OF True, of 0] by (simp add: constant_time_str_eq_def)
qed (simp add: constant_time_str_eq_def)

lemma length_hex_encode [simp]: "length (hex_encode bs) = 2 * length bs"
  by (induction bs) (simp_all add: hex_encode_def)

lemma hex_encode_small: "\<forall>b \<in> set (hex_encode bs). unat b < 128"
proof -
  have "unat (hex_digit d) < 128" if "d < 16" for d
    using hex_digit_range [OF that] by (auto simp: word_le_nat_alt)
  moreover have "unat b div 16 < 16" for b :: u8
    using u8_less [of b] by linarith
  ultimately show ?thesis by (auto simp: hex_encode_def)
qed

lemma xor_small: "unat (a :: u8) < 2 ^ n \<Longrightarrow> unat b < 2 ^ n \<Longrightarrow> unat (a XOR b) < 2 ^ n"
proof -
  assume "unat a < 2 ^ n" "unat b < 2 ^ n"
  then have "take_bit n (a XOR b) = a XOR b" by (simp add: take_bit_small)
  then have "unat (a XOR b) = unat (a XOR b) mod 2 ^ n" using unat_take_bit [of n "a XOR b"] by simp
  also have "\<dots> < 2 ^ n" by simp
  finally show ?thesis .
qed

lemma xor_all_small: "\<forall>b \<in> set bs. unat b < 2 ^ n \<Longrightarrow> unat (xor_all bs) < 2 ^ n"
  by (induction bs) (simp_all add: xor_small)

lemma length_u32_le_digest: "length (md5_digest w) = 16"
  by (cases w) (simp add: md5_digest_def)

lemma length_md5_hash [simp]: "length (md5_hash d) = 16"
  by (simp add: md5_hash_def md5_finalize_def Let_def split_def length_u32_le_digest)

lemma length_md5_hex: "length (md5_hex d) = 32"
  by (simp add: md5_hex_def)

lemma expected_response_hex:
  "\<exists>d. expected_response params n method uri username password realm = md5_hex d"
  by (auto simp: expected_response_def Let_def split: option.splits)

lemma xor_all_zeros [simp]: "xor_all (replicate n 0) = 0"
  by (induction n) simp_all

section \<open>Parsing the header parameters\<close>

definition quoted_param :: "bytes \<times> bytes \<Rightarrow> bytes" where
  "quoted_param = (\<lambda>(k, v). k @ [61] @ quoted v)"

text \<open>A key of visible characters without equals sign, a value without a double quote.\<close>

definition param_ok :: "bytes \<times> bytes \<Rightarrow> bool" where
  "param_ok = (\<lambda>(k, v). k \<noteq> [] \<and> set k \<subseteq> {33..126} \<and> 61 \<notin> set k \<and> 34 \<notin> set v)"

definition params_text :: "(bytes \<times> bytes) list \<Rightarrow> bytes" where
  "params_text kvs = join [44, 32] (map quoted_param kvs)"

lemma quoted_param_ends:
  assumes "param_ok kv"
  shows "quoted_param kv \<noteq> []" "hd (quoted_param kv) \<in> {33..126}" "last (quoted_param kv) = 34"
  using assms by (cases kv; cases "fst kv"; auto simp: quoted_param_def param_ok_def quoted_def)+

lemma params_text_ends:
  assumes "\<forall>kv \<in> set kvs. param_ok kv" and "kvs \<noteq> []"
  shows "params_text kvs \<noteq> [] \<and> hd (params_text kvs) \<in> {33..126} \<and> last (params_text kvs) = 34"
  using assms
proof (induction kvs rule: induct_list012)
  case 1
  then show ?case by simp
next
  case (2 kv)
  then show ?case using quoted_param_ends [of kv] by (simp add: params_text_def)
next
  case (3 kv kv' kvs)
  then show ?case using quoted_param_ends [of kv] by (simp add: params_text_def hd_append)
qed

lemma trim_space: "s \<noteq> [] \<Longrightarrow> hd s \<in> {33..126} \<Longrightarrow> last s \<in> {33..126} \<Longrightarrow> trim (32 # s) = s"
proof -
  assume a: "s \<noteq> []" "hd s \<in> {33..126}" "last s \<in> {33..126}"
  have "ws_len (32 # s) = 1" by (simp add: ws_len_def ws_char_def)
  then have "trim_start (32 # s) = trim_start s" by (subst trim_start.simps) simp
  also have "\<dots> = s" using ws_len_visible [OF a(1,2)] by (simp add: trim_start.simps)
  finally show ?thesis using ws_len_end_visible [OF a(1,3)] by (simp add: trim_def trim_end.simps)
qed

lemma visible_34: "(34 :: u8) \<in> {33..126}" and visible_44: "(44 :: u8) \<in> {33..126}"
  by simp_all

lemma auth_param_step_quoted:
  assumes ok: "param_ok (k, v)" and rest: "rest = [] \<or> (\<exists>s. rest = [44, 32] @ s \<and> s \<noteq> [] \<and> hd s \<in> {33..126} \<and> last s = 34)"
  shows "auth_param_step (quoted_param (k, v) @ rest) = Param k v (drop 2 rest)"
proof -
  let ?s = "quoted_param (k, v) @ rest"
  have k: "k \<noteq> []" "set k \<subseteq> {33..126}" "61 \<notin> set k" "34 \<notin> set v" using ok by (auto simp: param_ok_def)
  have lr: "rest = [] \<or> last rest = 34" using rest by auto
  have q: "quoted_param (k, v) = k @ [61] @ [34] @ v @ [34]" by (simp add: quoted_param_def quoted_def)
  have hk: "hd k \<in> {33..126}" "last k \<in> {33..126}" using k(1,2) hd_in_set last_in_set by blast+
  have "last ?s = 34" using lr by (auto simp: q)
  moreover have "?s \<noteq> []" "hd ?s \<in> {33..126}" using k(1) hk by (simp_all add: q)
  ultimately have t: "trim ?s = ?s" using visible_34 by (intro trim_visible) simp_all
  have so: "split_once 61 ?s = Some (k, [34] @ v @ [34] @ rest)"
    using split_once_append [OF k(3), of "[34] @ v @ [34] @ rest"] by (simp add: q)
  have tk: "trim k = k" by (rule trim_visible [OF k(1) hk])
  have tr: "trim ([34] @ v @ [34] @ rest) = [34] @ v @ [34] @ rest"
    by (rule trim_visible) (use lr in \<open>auto simp: visible_34\<close>)
  have sq: "split_once 34 (v @ 34 # rest) = Some (v, rest)" by (rule split_once_append [OF k(4)])
  have "skip_comma (trim rest) = drop 2 rest"
  proof (cases "rest = []")
    case True
    then show ?thesis by (simp add: skip_comma_def strip_prefix_def starts_with_def)
  next
    case False
    then obtain s where s: "rest = [44, 32] @ s" "s \<noteq> []" "hd s \<in> {33..126}" "last s = 34"
      using rest by blast
    have "trim rest = rest" using s(2,4) visible_44 visible_34 by (intro trim_visible) (simp_all add: s(1))
    moreover have "strip_prefix [44] rest = Some (32 # s)"
      by (simp add: s(1) strip_prefix_def starts_with_def)
    ultimately show ?thesis using trim_space [OF s(2,3)] s(4) visible_34 by (simp add: skip_comma_def s(1))
  qed
  then show ?thesis
    unfolding auth_param_step_def t so using tk tr sq
    by (simp add: starts_with_def)
qed

lemma parse_auth_loop_text:
  assumes "\<forall>kv \<in> set kvs. param_ok kv"
  shows "parse_auth_loop (params_text kvs) m = Inr (fold (\<lambda>(k, v) f. f(k \<mapsto> v)) kvs m)"
  using assms
proof (induction kvs arbitrary: m rule: induct_list012)
  case 1
  then show ?case by (simp add: params_text_def parse_auth_loop.simps)
next
  case (2 kv)
  obtain k v where kv: "kv = (k, v)" by (cases kv)
  have "auth_param_step (quoted_param kv) = Param k v []"
    using auth_param_step_quoted [of k v "[]"] 2 by (simp add: kv)
  then show ?case using quoted_param_ends(1) [of kv] 2
    by (simp add: params_text_def parse_auth_loop.simps kv fun_eq_iff)
next
  case (3 kv kv' kvs)
  obtain k v where kv: "kv = (k, v)" by (cases kv)
  let ?s = "params_text (kv' # kvs)"
  have e: "?s \<noteq> [] \<and> hd ?s \<in> {33..126} \<and> last ?s = 34"
    by (rule params_text_ends) (use 3 in auto)
  have "auth_param_step (quoted_param kv @ [44, 32] @ ?s) = Param k v ?s"
    using auth_param_step_quoted [of k v "[44, 32] @ ?s"] 3 e by (simp add: kv)
  moreover have "params_text (kv # kv' # kvs) = quoted_param kv @ [44, 32] @ ?s"
    by (simp add: params_text_def)
  ultimately have "parse_auth_loop (params_text (kv # kv' # kvs)) m = parse_auth_loop ?s (m(k \<mapsto> v))"
    using quoted_param_ends(1) [of kv] 3 by (subst parse_auth_loop.simps) simp
  then show ?case using "3.IH"(2) [of "m(k \<mapsto> v)"] 3 by (simp add: kv)
qed

lemma verify_digest_text:
  assumes "\<forall>kv \<in> set kvs. param_ok kv" and "kvs \<noteq> []"
  shows "verify_digest_auth (ascii ''Digest '' @ params_text kvs) method uri username password realm
    = verify_params (fold (\<lambda>(k, v) f. f(k \<mapsto> v)) kvs Map.empty) method uri username password realm"
proof -
  let ?t = "params_text kvs"
  have e: "?t \<noteq> [] \<and> hd ?t \<in> {33..126} \<and> last ?t = 34" by (rule params_text_ends [OF assms])
  have l: "last ?t \<in> {33..126}" using e visible_34 by simp
  have lit: "ascii ''Digest '' = [68, 105, 103, 101, 115, 116, 32]" "ascii ''Digest'' = [68, 105, 103, 101, 115, 116]"
    by code_simp+
  have "(68 :: u8) \<in> {33..126}" by simp
  then have "trim (ascii ''Digest '' @ ?t) = ascii ''Digest '' @ ?t"
    using e l by (intro trim_visible) (simp_all add: lit)
  moreover have "strip_prefix (ascii ''Digest'') (ascii ''Digest '' @ ?t) = Some (32 # ?t)"
    by (simp add: lit strip_prefix_def starts_with_def)
  moreover have "trim (32 # ?t) = ?t" using e l by (intro trim_space) simp_all
  moreover have "trim ?t = ?t" using e l by (intro trim_visible) simp_all
  ultimately show ?thesis
    by (simp add: verify_digest_auth_def Let_def parse_auth_params_def parse_auth_loop_text [OF assms(1)])
qed

section \<open>Properties\<close>


definition digest_params :: "bytes \<Rightarrow> bytes \<Rightarrow> bytes \<Rightarrow> bytes \<Rightarrow> bytes \<Rightarrow> (bytes \<times> bytes) list" where
  "digest_params username realm nonce uri response =
     [(ascii ''username'', username), (ascii ''realm'', realm), (ascii ''nonce'', nonce),
      (ascii ''uri'', uri), (ascii ''response'', response)]"

lemma digest_keys:
  "param_ok (ascii ''username'', v) = (34 \<notin> set v)" "param_ok (ascii ''realm'', v) = (34 \<notin> set v)"
  "param_ok (ascii ''nonce'', v) = (34 \<notin> set v)" "param_ok (ascii ''uri'', v) = (34 \<notin> set v)"
  "param_ok (ascii ''response'', v) = (34 \<notin> set v)"
  by (simp_all add: param_ok_def ascii_def)

lemma digest_params_lookup:
  assumes "f = fold (\<lambda>(k, v) f. f(k \<mapsto> v)) (digest_params username realm nonce uri response) Map.empty"
  shows "f (ascii ''username'') = Some username" "f (ascii ''realm'') = Some realm"
    "f (ascii ''nonce'') = Some nonce" "f (ascii ''uri'') = Some uri"
    "f (ascii ''response'') = Some response" "f (ascii ''qop'') = None"
  by (simp_all add: assms digest_params_def ascii_def)

definition digest_response :: "bytes \<Rightarrow> bytes \<Rightarrow> bytes \<Rightarrow> bytes \<Rightarrow> bytes \<Rightarrow> bytes \<Rightarrow> bytes" where
  "digest_response username realm password nonce method uri =
     md5_hex (md5_hex (username @ colon @ realm @ colon @ password) @ colon @ nonce @ colon
       @ md5_hex (method @ colon @ uri))"

lemma verify_digest_params:
  assumes "34 \<notin> set username" "34 \<notin> set realm" "34 \<notin> set nonce" "34 \<notin> set uri" "34 \<notin> set response"
  shows "verify_digest_auth (ascii ''Digest '' @ params_text (digest_params username realm nonce uri response))
      method uri username password realm
    \<longleftrightarrow> length response = 32 \<and> xor_all response = xor_all (digest_response username realm password nonce method uri)"
proof -
  let ?kvs = "digest_params username realm nonce uri response"
  have ok: "\<forall>kv \<in> set ?kvs. param_ok kv" using assms by (simp add: digest_params_def digest_keys)
  have ne: "?kvs \<noteq> []" by (simp add: digest_params_def)
  note l = digest_params_lookup [OF refl, of username realm nonce uri response]
  show ?thesis
    unfolding verify_digest_text [OF ok ne] verify_params_def
    by (simp add: l expected_response_def Let_def digest_response_def constant_time_str_eq_iff length_md5_hex)
qed

lemma hex_no_quote: "34 \<notin> set (md5_hex d)"
proof -
  have "hex_digit k \<noteq> 34" if "k < 16" for k using hex_digit_range [OF that] by auto
  moreover have "unat b div 16 < 16" for b :: u8 using u8_less [of b] by linarith
  ultimately show ?thesis by (auto simp: md5_hex_def hex_encode_def)
qed

text \<open>The right answer is accepted: for all credentials, nonces, methods and URIs without a
  double quote, the \<^verbatim>\<open>Authorization\<close> header that RFC 2617 prescribes for them (the five
  quoted parameters with the response digest) passes \<^verbatim>\<open>verify_digest_auth\<close>.\<close>

theorem digest_auth_complete:
  assumes "34 \<notin> set username" "34 \<notin> set realm" "34 \<notin> set nonce" "34 \<notin> set uri"
  shows "verify_digest_auth
      (ascii ''Digest '' @ params_text (digest_params username realm nonce uri
         (digest_response username realm password nonce method uri)))
      method uri username password realm"
  using verify_digest_params [OF assms, of "digest_response username realm password nonce method uri" "method" "password"]
  by (simp add: hex_no_quote digest_response_def length_md5_hex)

theorem digest_auth_complete_witness:
  "verify_digest_auth
      (ascii ''Digest '' @ params_text (digest_params (ascii ''admin'') (ascii ''MiBee'') (ascii ''0a1b'') (ascii ''rtsp://h/live/1'')
         (digest_response (ascii ''admin'') (ascii ''MiBee'') (ascii ''pw'') (ascii ''0a1b'') (ascii ''DESCRIBE'') (ascii ''rtsp://h/live/1''))))
      (ascii ''DESCRIBE'') (ascii ''rtsp://h/live/1'') (ascii ''admin'') (ascii ''pw'') (ascii ''MiBee'')"
  by (rule digest_auth_complete) (simp_all add: ascii_def)

text \<open>
  One response for each of the 128 parities of ASCII bytes, without a double quote.
\<close>

definition forged_response :: "u8 \<Rightarrow> bytes" where
  "forged_response x = (if x = 34 then [35, 1] @ replicate 30 0 else x # replicate 31 0)"

definition forged_responses :: "bytes list" where
  "forged_responses = map (\<lambda>i. forged_response (of_nat i)) [0..<128]"

text \<open>The comparison accepts wrong answers: it folds the differences with exclusive or, so
  it only compares lengths and byte parities. Hence, without knowing the password, one of a list of
  128 fixed responses authenticates, for every password, every nonce (of any origin: the nonce
  is never compared with the one the server issued) and every method.\<close>

theorem digest_auth_forgeable:
  assumes "34 \<notin> set username" "34 \<notin> set realm" "34 \<notin> set nonce" "34 \<notin> set uri"
  shows "length forged_responses = 128 \<and> (\<exists>r \<in> set forged_responses. verify_digest_auth
      (ascii ''Digest '' @ params_text (digest_params username realm nonce uri r))
      method uri username password realm)"
proof -
  let ?x = "xor_all (digest_response username realm password nonce method uri)"
  let ?r = "forged_response ?x"
  have x: "unat ?x < 2 ^ 7"
    unfolding digest_response_def md5_hex_def by (rule xor_all_small) (use hex_encode_small in simp)
  have "?r \<in> set forged_responses"
    unfolding forged_responses_def set_map
    by (rule image_eqI [where x = "unat ?x"]) (use x in simp_all)
  moreover have "34 \<notin> set ?r" "length ?r = 32" "xor_all ?r = ?x" by (simp_all add: forged_response_def)
  ultimately have "\<exists>r \<in> set forged_responses. verify_digest_auth
      (ascii ''Digest '' @ params_text (digest_params username realm nonce uri r))
      method uri username password realm"
    using verify_digest_params [OF assms, of ?r "method" "password"] by blast
  moreover have "length forged_responses = 128"
    unfolding forged_responses_def length_map length_upt by simp
  ultimately show ?thesis by blast
qed

theorem digest_auth_forgeable_witness:
  "\<exists>r \<in> set forged_responses. verify_digest_auth
      (ascii ''Digest '' @ params_text (digest_params (ascii ''admin'') (ascii ''MiBee'') (ascii ''0'') (ascii ''rtsp://h/live/1'') r))
      (ascii ''DESCRIBE'') (ascii ''rtsp://h/live/1'') (ascii ''admin'') (ascii ''secret'') (ascii ''MiBee'')"
  using digest_auth_forgeable [of "ascii ''admin''" "ascii ''MiBee''" "ascii ''0''" "ascii ''rtsp://h/live/1''"
      "ascii ''DESCRIBE''" "ascii ''secret''"] by (simp add: ascii_def)

end
