(* ===== verification/RtspFraming.thy ===== *)
theory RtspFraming
  imports Text Rtp
begin

text \<open>
  Framing helpers of the RTSP server, \<^verbatim>\<open>crates/protocols/src/rtsp_server/framing.rs\<close>:
  the \<^verbatim>\<open>Transport\<close> header, case-insensitive header lookup, interleaved RTP
  frames and the sequence gap tracker. Lower-casing of header keys is ASCII only: the
  keys compared against contain no letter that another Unicode character lower-cases to.
\<close>

section \<open>Transport headers\<close>

record transport_info =
  ti_interleaved :: "(u8 \<times> u8) option"
  ti_client_port :: "(u16 \<times> u16) option"
  ti_server_port :: "(u16 \<times> u16) option"
  ti_session_id :: bytes
  ti_ssrc :: "u32 option"
  ti_mode :: "bytes option"

definition parse_u8 :: "bytes \<Rightarrow> u8 option" where
  "parse_u8 s = map_option of_nat (parse_uint 10 255 s)"

definition parse_u16 :: "bytes \<Rightarrow> u16 option" where
  "parse_u16 s = map_option of_nat (parse_uint 10 65535 s)"

definition parse_u32 :: "bytes \<Rightarrow> u32 option" where
  "parse_u32 s = map_option of_nat (parse_uint 10 4294967295 s)"

text \<open>A pair \<open>a-b\<close>; anything else leaves the field as it was.\<close>

definition parse_pair :: "(bytes \<Rightarrow> 'a option) \<Rightarrow> bytes \<Rightarrow> ('a \<times> 'a) option \<Rightarrow> ('a \<times> 'a) option" where
  "parse_pair p value old =
     (case split_on 45 value of
        [a, b] \<Rightarrow> (case (p a, p b) of (Some r, Some c) \<Rightarrow> Some (r, c) | _ \<Rightarrow> old)
      | _ \<Rightarrow> old)"

definition parse_ssrc :: "bytes \<Rightarrow> u32 option" where
  "parse_ssrc value =
     (let v = trim value
      in case parse_u32 v of
           Some x \<Rightarrow> Some x
         | None \<Rightarrow> map_option of_nat (parse_uint 16 4294967295 (trim_start_matches (ascii ''0x'') v)))"

definition transport_empty :: transport_info where
  "transport_empty =
     \<lparr>ti_interleaved = None, ti_client_port = None, ti_server_port = None, ti_session_id = [],
      ti_ssrc = None, ti_mode = None\<rparr>"

definition transport_param :: "bytes \<Rightarrow> transport_info \<Rightarrow> transport_info" where
  "transport_param param t =
     (case split_once 61 (trim param) of
        None \<Rightarrow> t
      | Some (k, v) \<Rightarrow>
          let key = map ascii_lower (trim k); value = trim v
          in if key = ascii ''interleaved''
             then t\<lparr>ti_interleaved := parse_pair parse_u8 value (ti_interleaved t)\<rparr>
             else if key = ascii ''client_port''
             then t\<lparr>ti_client_port := parse_pair parse_u16 value (ti_client_port t)\<rparr>
             else if key = ascii ''server_port''
             then t\<lparr>ti_server_port := parse_pair parse_u16 value (ti_server_port t)\<rparr>
             else if key = ascii ''ssrc'' then t\<lparr>ti_ssrc := parse_ssrc value\<rparr>
             else if key = ascii ''mode'' then t\<lparr>ti_mode := Some value\<rparr>
             else t)"

definition transport_parse :: "bytes \<Rightarrow> transport_info result" where
  "transport_parse header = Inr (fold transport_param (split_on 59 header) transport_empty)"

definition pair_text :: "nat \<times> nat \<Rightarrow> bytes" where
  "pair_text = (\<lambda>(a, b). dec_digits a @ ascii ''-'' @ dec_digits b)"

definition opt_part :: "bytes \<Rightarrow> ('a \<Rightarrow> bytes) \<Rightarrow> 'a option \<Rightarrow> bytes list" where
  "opt_part name f v = (case v of None \<Rightarrow> [] | Some x \<Rightarrow> [name @ ascii ''='' @ f x])"

definition transport_parts :: "transport_info \<Rightarrow> bytes list" where
  "transport_parts t =
     [ascii ''RTP/AVP/TCP'']
     @ opt_part (ascii ''interleaved'') (\<lambda>(a, b). pair_text (unat a, unat b)) (ti_interleaved t)
     @ opt_part (ascii ''client_port'') (\<lambda>(a, b). pair_text (unat a, unat b)) (ti_client_port t)
     @ opt_part (ascii ''server_port'') (\<lambda>(a, b). pair_text (unat a, unat b)) (ti_server_port t)
     @ opt_part (ascii ''ssrc'') (\<lambda>s. ascii ''0x'' @ hex_fixed 8 (unat s)) (ti_ssrc t)
     @ opt_part (ascii ''mode'') (\<lambda>m. m) (ti_mode t)"

definition transport_serialize :: "transport_info \<Rightarrow> bytes" where
  "transport_serialize t = join (ascii '';'') (transport_parts t)"

type_synonym headers = "(bytes \<times> bytes) list"

definition get_header :: "headers \<Rightarrow> bytes \<Rightarrow> bytes option" where
  "get_header headers name =
     map_option snd (find (\<lambda>(k, _). eq_ignore_ascii_case k name) headers)"

section \<open>Interleaved frames\<close>

definition build_interleaved_frame :: "u8 \<Rightarrow> bytes \<Rightarrow> bytes result" where
  "build_interleaved_frame channel rtp_data =
     (let len = length rtp_data
      in if len > 65535 then Inl (Bail ''RTP data too large for interleaved transport'')
         else Inr ([0x24, channel] @ u16_be (of_nat len) @ rtp_data))"

section \<open>Sequence tracking\<close>

record rtp_header_info =
  ri_sequence_number :: u16
  ri_ssrc :: u32

definition parse_rtp_header_for_tracking :: "bytes \<Rightarrow> rtp_header_info option" where
  "parse_rtp_header_for_tracking data =
     (if length data < 12 then None
      else if drop_bit 6 (data ! 0) AND 3 \<noteq> 2 then None
      else Some \<lparr>ri_sequence_number = be_u16 (subslice 2 4 data),
                 ri_ssrc = be_u32 (subslice 8 12 data)\<rparr>)"

record sequence_tracker =
  sq_last_seq :: "u16 option"

definition tracker_new :: sequence_tracker where
  "tracker_new = \<lparr>sq_last_seq = None\<rparr>"

definition tracker_expected :: "sequence_tracker \<Rightarrow> u16" where
  "tracker_expected t = (case sq_last_seq t of Some s \<Rightarrow> s + 1 | None \<Rightarrow> 0)"

definition tracker_check :: "sequence_tracker \<Rightarrow> u16 \<Rightarrow> u16 option \<times> sequence_tracker" where
  "tracker_check t seq =
     (case sq_last_seq t of
        Some prev \<Rightarrow>
          let expected = prev + 1
          in if seq = expected then (None, t\<lparr>sq_last_seq := Some seq\<rparr>)
             else
               let gap = seq - expected
               in (if gap > 0 then Some gap else None, t\<lparr>sq_last_seq := Some seq\<rparr>)
      | None \<Rightarrow> (None, t\<lparr>sq_last_seq := Some seq\<rparr>))"

section \<open>Transport round trip\<close>

lemma transport_param_kv:
  assumes "k \<noteq> []" "set k \<subseteq> {33..126}" "61 \<notin> set k" and "v \<noteq> []" "hd v \<in> {33..126}" "last v \<in> {33..126}"
  shows "split_once 61 (trim (k @ [61] @ v)) = Some (k, v) \<and> trim k = k \<and> trim v = v"
proof -
  have hk: "hd k \<in> {33..126}" "last k \<in> {33..126}" using assms(1,2) hd_in_set last_in_set by blast+
  have "trim (k @ [61] @ v) = k @ [61] @ v"
    by (rule trim_visible) (use assms hk in simp_all)
  moreover have "split_once 61 (k @ [61] @ v) = Some (k, v)"
    using split_once_append [OF assms(3), of v] by simp
  ultimately show ?thesis using trim_visible [OF assms(1) hk] trim_visible [OF assms(4-6)] by simp
qed

lemma transport_keys:
  "ascii ''interleaved'' = [105, 110, 116, 101, 114, 108, 101, 97, 118, 101, 100]"
  "ascii ''client_port'' = [99, 108, 105, 101, 110, 116, 95, 112, 111, 114, 116]"
  "ascii ''server_port'' = [115, 101, 114, 118, 101, 114, 95, 112, 111, 114, 116]"
  "ascii ''ssrc'' = [115, 115, 114, 99]" "ascii ''mode'' = [109, 111, 100, 101]"
  "ascii ''='' = [61]" "ascii ''-'' = [45]" "ascii ''0x'' = [48, 120]" "ascii '';'' = [59]"
  "ascii ''RTP/AVP/TCP'' = [82, 84, 80, 47, 65, 86, 80, 47, 84, 67, 80]"
  by code_simp+

lemma dec_digits_ends: "dec_digits n \<noteq> []" "hd (dec_digits n) \<in> {48..57}" "last (dec_digits n) \<in> {48..57}"
proof -
  show ne: "dec_digits n \<noteq> []" using dec_digits_first [of n] by auto
  show "hd (dec_digits n) \<in> {48..57}" "last (dec_digits n) \<in> {48..57}"
    using set_dec_digits [of n] hd_in_set [OF ne] last_in_set [OF ne] by blast+
qed

lemma digits_visible: "(b :: u8) \<in> {48..57} \<Longrightarrow> b \<in> {33..126}"
  by (auto intro: order_trans [of 33 48] order_trans [of b 57])

lemma hex_visible: "(b :: u8) \<in> {48..57} \<union> {97..102} \<Longrightarrow> b \<in> {33..126}"
  by (auto simp: word_le_nat_alt)

lemma pair_text_ends:
  "pair_text p \<noteq> []" "hd (pair_text p) \<in> {33..126}" "last (pair_text p) \<in> {33..126}"
  using dec_digits_ends [of "fst p"] dec_digits_ends [of "snd p"]
  by (cases p; simp add: pair_text_def digits_visible del: atLeastAtMost_iff)+

lemma pair_text_split: "split_on 45 (pair_text (a, b)) = [dec_digits a, dec_digits b]"
proof -
  have "45 \<notin> set (dec_digits n)" for n using set_dec_digits [of n] by auto
  then show ?thesis using split_on_cons [of 45 "dec_digits a" "dec_digits b"]
    by (simp add: pair_text_def transport_keys split_on_free)
qed

lemma parse_pair_u8: "parse_pair parse_u8 (pair_text (unat a, unat b)) old = Some (a, b)"
  using u8_less [of a] u8_less [of b]
  by (simp add: parse_pair_def pair_text_split parse_u8_def parse_uint_dec del: u8_less)

lemma parse_pair_u16: "parse_pair parse_u16 (pair_text (unat a, unat b)) old = Some (a, b)"
  using u16_less [of a] u16_less [of b]
  by (simp add: parse_pair_def pair_text_split parse_u16_def parse_uint_dec)

lemma parse_ssrc_hex: "parse_ssrc (ascii ''0x'' @ hex_fixed 8 (unat s)) = Some s"
proof -
  let ?h = "hex_fixed 8 (unat s)"
  let ?v = "ascii ''0x'' @ ?h"
  have ne: "?h \<noteq> []" by (metis length_hex_fixed list.size(3) zero_neq_numeral)
  have h: "set ?h \<subseteq> {48..57} \<union> {97..102}" by (rule set_hex_fixed)
  then have "last ?h \<in> {33..126}" using last_in_set [OF ne] by (blast intro: hex_visible)
  then have t: "trim ?v = ?v" using ne by (intro trim_visible) (simp_all add: transport_keys)
  have "parse_uint 10 4294967295 ?v = None"
    by (simp add: parse_uint_def transport_keys digit_value_def)
  moreover have "trim_start_matches (ascii ''0x'') ?v = ?h"
  proof -
    have "\<not> starts_with (ascii ''0x'') ?h" using h ne
      by (cases ?h; cases "tl ?h") (auto simp: starts_with_def transport_keys)
    then have "trim_start_matches (ascii ''0x'') ?h = ?h" by (subst trim_start_matches.simps) simp
    then show ?thesis by (subst trim_start_matches.simps) (simp add: transport_keys starts_with_def)
  qed
  moreover have "parse_uint 16 4294967295 ?h = Some (unat s)"
  proof -
    obtain x xs where x: "?h = x # xs" using ne by (cases ?h) auto
    then have "x \<noteq> 43" using h by auto
    moreover have "unat s \<le> 4294967295" using u32_less [of s] by simp
    ultimately show ?thesis
      using parse_digits_hex_fixed [of 0 8 "unat s"] u32_less [of s] x by (simp add: parse_uint_def Let_def)
  qed
  ultimately show ?thesis by (simp add: parse_ssrc_def t parse_u32_def)
qed

lemma lower_key [simp]:
  "map ascii_lower (ascii ''interleaved'') = ascii ''interleaved''"
  "map ascii_lower (ascii ''client_port'') = ascii ''client_port''"
  "map ascii_lower (ascii ''server_port'') = ascii ''server_port''"
  "map ascii_lower (ascii ''ssrc'') = ascii ''ssrc''" "map ascii_lower (ascii ''mode'') = ascii ''mode''"
  by code_simp+

lemma key_chars:
  "k \<in> {ascii ''interleaved'', ascii ''client_port'', ascii ''server_port'', ascii ''ssrc'', ascii ''mode''} \<Longrightarrow>
   k \<noteq> [] \<and> set k \<subseteq> {33..126} \<and> 61 \<notin> set k \<and> 59 \<notin> set k"
  by (auto simp: transport_keys)

lemma transport_param_key:
  assumes "k \<in> {ascii ''interleaved'', ascii ''client_port'', ascii ''server_port'', ascii ''ssrc'', ascii ''mode''}"
    and "v \<noteq> []" "hd v \<in> {33..126}" "last v \<in> {33..126}"
  shows "transport_param (k @ ascii ''='' @ v) t =
    (if k = ascii ''interleaved'' then t\<lparr>ti_interleaved := parse_pair parse_u8 v (ti_interleaved t)\<rparr>
     else if k = ascii ''client_port'' then t\<lparr>ti_client_port := parse_pair parse_u16 v (ti_client_port t)\<rparr>
     else if k = ascii ''server_port'' then t\<lparr>ti_server_port := parse_pair parse_u16 v (ti_server_port t)\<rparr>
     else if k = ascii ''ssrc'' then t\<lparr>ti_ssrc := parse_ssrc v\<rparr> else t\<lparr>ti_mode := Some v\<rparr>)"
proof -
  have k: "k \<noteq> []" "set k \<subseteq> {33..126}" "61 \<notin> set k" using key_chars [OF assms(1)] by blast+
  have kv: "split_once 61 (trim (k @ ascii ''='' @ v)) = Some (k, v)" "trim k = k" "trim v = v"
    using transport_param_kv [OF k assms(2-4)] by (simp_all add: transport_keys)
  have "map ascii_lower k = k" using assms(1) by auto
  then show ?thesis using assms(1) by (auto simp: transport_param_def kv)
qed

definition transport_ok :: "transport_info \<Rightarrow> bool" where
  "transport_ok t \<longleftrightarrow> (case ti_mode t of None \<Rightarrow> True
     | Some m \<Rightarrow> m \<noteq> [] \<and> hd m \<in> {33..126} \<and> last m \<in> {33..126} \<and> 59 \<notin> set m)"

lemma digits_no_semicolon: "59 \<notin> set (dec_digits n)" "59 \<notin> set (hex_fixed k v)"
  using set_dec_digits [of n] set_hex_fixed [of k v] by auto

lemma transport_parts_split:
  assumes "transport_ok t"
  shows "split_on 59 (transport_serialize t) = transport_parts t"
proof -
  have "\<forall>p \<in> set (transport_parts t). 59 \<notin> set p"
    using assms
    by (auto simp: transport_parts_def opt_part_def transport_ok_def pair_text_def transport_keys
        digits_no_semicolon split: option.splits prod.splits)
  then show ?thesis unfolding transport_serialize_def
    using split_on_join [of "transport_parts t" 59] by (simp add: transport_keys(9) transport_parts_def)
qed

lemma key_distinct:
  "ascii ''client_port'' \<noteq> ascii ''interleaved''" "ascii ''server_port'' \<noteq> ascii ''interleaved''"
  "ascii ''server_port'' \<noteq> ascii ''client_port''" "ascii ''ssrc'' \<noteq> ascii ''interleaved''"
  "ascii ''ssrc'' \<noteq> ascii ''client_port''" "ascii ''ssrc'' \<noteq> ascii ''server_port''"
  "ascii ''mode'' \<noteq> ascii ''interleaved''" "ascii ''mode'' \<noteq> ascii ''client_port''"
  "ascii ''mode'' \<noteq> ascii ''server_port''" "ascii ''mode'' \<noteq> ascii ''ssrc''"
  by (simp_all add: transport_keys)

lemma ssrc_text_ends:
  "ascii ''0x'' @ hex_fixed 8 n \<noteq> [] \<and> hd (ascii ''0x'' @ hex_fixed 8 n) \<in> {33..126}
   \<and> last (ascii ''0x'' @ hex_fixed 8 n) \<in> {33..126}"
proof -
  have ne: "hex_fixed 8 n \<noteq> []" by (metis length_hex_fixed list.size(3) zero_neq_numeral)
  then have "last (hex_fixed 8 n) \<in> {48..57} \<union> {97..102}"
    using set_hex_fixed [of 8 n] last_in_set by blast
  then have "last (hex_fixed 8 n) \<in> {33..126}" by (rule hex_visible)
  then show ?thesis using ne by (simp add: transport_keys)
qed

lemma transport_part_steps:
  "fold transport_param (opt_part (ascii ''interleaved'') (\<lambda>(a, b). pair_text (unat a, unat b)) v) t =
    (case v of None \<Rightarrow> t | Some x \<Rightarrow> t\<lparr>ti_interleaved := Some x\<rparr>)"
  "fold transport_param (opt_part (ascii ''client_port'') (\<lambda>(a, b). pair_text (unat a, unat b)) w) t =
    (case w of None \<Rightarrow> t | Some x \<Rightarrow> t\<lparr>ti_client_port := Some x\<rparr>)"
  "fold transport_param (opt_part (ascii ''server_port'') (\<lambda>(a, b). pair_text (unat a, unat b)) w) t =
    (case w of None \<Rightarrow> t | Some x \<Rightarrow> t\<lparr>ti_server_port := Some x\<rparr>)"
  "fold transport_param (opt_part (ascii ''ssrc'') (\<lambda>s. ascii ''0x'' @ hex_fixed 8 (unat s)) z) t =
    (case z of None \<Rightarrow> t | Some x \<Rightarrow> t\<lparr>ti_ssrc := Some x\<rparr>)"
proof -
  note key = transport_param_key [OF _ pair_text_ends]
  show "fold transport_param (opt_part (ascii ''interleaved'') (\<lambda>(a, b). pair_text (unat a, unat b)) v) t =
    (case v of None \<Rightarrow> t | Some x \<Rightarrow> t\<lparr>ti_interleaved := Some x\<rparr>)"
    using key [of "ascii ''interleaved''"]
    by (cases v) (auto simp: opt_part_def parse_pair_u8)
  show "fold transport_param (opt_part (ascii ''client_port'') (\<lambda>(a, b). pair_text (unat a, unat b)) w) t =
    (case w of None \<Rightarrow> t | Some x \<Rightarrow> t\<lparr>ti_client_port := Some x\<rparr>)"
    using key [of "ascii ''client_port''"] key_distinct
    by (cases w) (auto simp: opt_part_def parse_pair_u16)
  show "fold transport_param (opt_part (ascii ''server_port'') (\<lambda>(a, b). pair_text (unat a, unat b)) w) t =
    (case w of None \<Rightarrow> t | Some x \<Rightarrow> t\<lparr>ti_server_port := Some x\<rparr>)"
    using key [of "ascii ''server_port''"] key_distinct
    by (cases w) (auto simp: opt_part_def parse_pair_u16)
  show "fold transport_param (opt_part (ascii ''ssrc'') (\<lambda>s. ascii ''0x'' @ hex_fixed 8 (unat s)) z) t =
    (case z of None \<Rightarrow> t | Some x \<Rightarrow> t\<lparr>ti_ssrc := Some x\<rparr>)"
    using transport_param_key [of "ascii ''ssrc''" "ascii ''0x'' @ hex_fixed 8 (unat (the z))" t]
      ssrc_text_ends [of "unat (the z)"] key_distinct parse_ssrc_hex [of "the z"]
    by (cases z) (simp_all add: opt_part_def)
qed

lemma transport_mode_step:
  assumes "transport_ok t"
  shows "fold transport_param (opt_part (ascii ''mode'') (\<lambda>m. m) (ti_mode t)) t0 =
    (case ti_mode t of None \<Rightarrow> t0 | Some x \<Rightarrow> t0\<lparr>ti_mode := Some x\<rparr>)"
proof (cases "ti_mode t")
  case (Some m)
  then have "m \<noteq> []" "hd m \<in> {33..126}" "last m \<in> {33..126}"
    using assms by (simp_all add: transport_ok_def)
  then show ?thesis
    using transport_param_key [of "ascii ''mode''" m t0] key_distinct Some by (simp add: opt_part_def)
qed (simp add: opt_part_def)

lemma transport_first_part: "transport_param (ascii ''RTP/AVP/TCP'') t = t"
proof -
  have "trim (ascii ''RTP/AVP/TCP'') = ascii ''RTP/AVP/TCP''"
    by (rule trim_visible) (simp_all add: transport_keys)
  moreover have "split_once 61 (ascii ''RTP/AVP/TCP'') = None"
    by (simp add: split_once_None transport_keys)
  ultimately show ?thesis by (simp add: transport_param_def)
qed

lemma transport_roundtrip_lemma:
  assumes "transport_ok t"
  shows "transport_parse (transport_serialize t) = Inr (t\<lparr>ti_session_id := []\<rparr>)"
proof -
  have "fold transport_param (transport_parts t) transport_empty = t\<lparr>ti_session_id := []\<rparr>"
    unfolding transport_parts_def fold_append o_apply transport_part_steps transport_mode_step [OF assms]
    by (cases t) (simp add: transport_first_part transport_empty_def split: option.splits)
  then show ?thesis by (simp add: transport_parse_def transport_parts_split [OF assms])
qed

section \<open>Frames and gaps\<close>

text \<open>Reading one interleaved frame off the front of the byte stream, as an RTSP client does.\<close>

definition read_frame :: "bytes \<Rightarrow> ((u8 \<times> bytes) \<times> bytes) option" where
  "read_frame s =
     (if length s < 4 \<or> s ! 0 \<noteq> 0x24 then None
      else
        let n = unat (be_u16 (subslice 2 4 s))
        in if length s < 4 + n then None else Some ((s ! 1, subslice 4 (4 + n) s), drop (4 + n) s))"

definition frame_bytes :: "u8 \<times> bytes \<Rightarrow> bytes" where
  "frame_bytes = (\<lambda>(c, d). case build_interleaved_frame c d of Inr f \<Rightarrow> f | Inl _ \<Rightarrow> [])"

lemma read_frame_build:
  assumes "length d \<le> 65535"
  shows "build_interleaved_frame c d = Inr (frame_bytes (c, d))
    \<and> read_frame (frame_bytes (c, d) @ rest) = Some ((c, d), rest)"
proof -
  have f: "frame_bytes (c, d) = [0x24, c] @ u16_be (of_nat (length d)) @ d"
    using assms by (simp add: frame_bytes_def build_interleaved_frame_def)
  have u: "unat (of_nat (length d) :: u16) = length d" using assms by (simp add: unat_of_nat)
  have s1: "subslice 2 4 (([0x24, c] @ u16_be (of_nat (length d)) @ d) @ rest) = u16_be (of_nat (length d))"
    by (simp add: subslice_def)
  have s2: "subslice 4 (4 + length d) (([0x24, c] @ u16_be (of_nat (length d)) @ d) @ rest) = d"
    by (simp add: subslice_def)
  have "read_frame (frame_bytes (c, d) @ rest) = Some ((c, d), rest)"
    unfolding read_frame_def Let_def f s1 be_u16_u16_be u s2 by (simp add: numeral_eq_Suc)
  then show ?thesis using assms f by (simp add: build_interleaved_frame_def)
qed

interpretation frame: prefix_codec frame_bytes read_frame "\<lambda>(c, d). length d \<le> 65535"
  by unfold_locales (use read_frame_build in auto)

text \<open>The tracker's view of a sequence of packets: the gaps reported.\<close>

fun track :: "sequence_tracker \<Rightarrow> bytes list \<Rightarrow> u16 list" where
  "track t [] = []"
| "track t (d # ds) =
     (case parse_rtp_header_for_tracking d of
        None \<Rightarrow> track t ds
      | Some info \<Rightarrow>
          let (gap, t') = tracker_check t (ri_sequence_number info)
          in (case gap of None \<Rightarrow> [] | Some g \<Rightarrow> [g]) @ track t' ds)"

lemma track_header:
  assumes "rtp_wf p"
  shows "parse_rtp_header_for_tracking (rtp_to_bytes p) =
    Some \<lparr>ri_sequence_number = rp_sequence_number p, ri_ssrc = rp_ssrc p\<rparr>"
proof -
  have cc: "unat (rf_csrc_count (rp_flags p)) < 16" using assms by (simp add: rtp_wf_def unat_of_nat)
  let ?b = "push_bit 6 2 OR push_bit 5 (of_bool False) OR push_bit 4 (of_bool (rf_extension (rp_flags p)))
       OR rf_csrc_count (rp_flags p)"
  let ?b1 = "push_bit 7 (of_bool (rf_marker (rp_flags p))) OR rf_payload_type (rp_flags p)"
  let ?D = "[?b, ?b1] @ u16_be (rp_sequence_number p) @ u32_be (rp_timestamp p) @ u32_be (rp_ssrc p)
    @ (concat (map u32_be (rp_csrc_list p)) @ ext_bytes p @ rp_payload p)"
  have D: "rtp_to_bytes p = ?D" using rtp_to_bytes_split [OF assms] by simp
  have sl: "subslice 2 4 ?D = u16_be (rp_sequence_number p)" "subslice 8 12 ?D = u32_be (rp_ssrc p)"
    by (rule header_subslices; simp)+
  have v: "drop_bit 6 (?D ! 0) AND 3 = 2" using first_byte_fields(1) [OF cc, of False] by simp
  have l: "\<not> length ?D < 12" by simp
  show ?thesis unfolding D parse_rtp_header_for_tracking_def sl
    using v l by (simp only: if_False simp_thms be_u16_u16_be be_u32_u32_be)
qed

lemma track_consecutive:
  assumes "\<forall>p \<in> set ps. rtp_wf p" and "\<forall>j < length ps. rp_sequence_number (ps ! j) = seq + of_nat j"
    and "sq_last_seq t = None \<or> sq_last_seq t = Some (seq - 1)"
  shows "track t (map rtp_to_bytes ps) = []"
  using assms
proof (induction ps arbitrary: seq t)
  case Nil
  then show ?case by simp
next
  case (Cons p ps)
  have s: "rp_sequence_number p = seq" using Cons.prems(2) [rule_format, of 0] by simp
  have nxt: "\<forall>j < length ps. rp_sequence_number (ps ! j) = (seq + 1) + of_nat j"
    using Cons.prems(2) by (metis Suc_less_eq add.assoc length_Cons nth_Cons_Suc of_nat_Suc)
  have c: "tracker_check t seq = (None, t\<lparr>sq_last_seq := Some seq\<rparr>)"
    using Cons.prems(3) by (auto simp: tracker_check_def)
  have "track (t\<lparr>sq_last_seq := Some seq\<rparr>) (map rtp_to_bytes ps) = []"
    by (rule Cons.IH [OF _ nxt]) (use Cons.prems in simp_all)
  then show ?case using Cons.prems(1) by (simp add: track_header s c)
qed

section \<open>Properties\<close>

text \<open>A \<^verbatim>\<open>Transport\<close> header survives printing and parsing: for every transport
  whose mode, if any, is non-empty, has visible ends and no semicolon, parsing the printed header returns every
  field (the session id is not part of the header).\<close>

theorem transport_roundtrip:
  assumes "transport_ok t"
  shows "transport_parse (transport_serialize t) = Inr (t\<lparr>ti_session_id := []\<rparr>)"
  using assms by (rule transport_roundtrip_lemma)

theorem transport_roundtrip_witness:
  "transport_parse (transport_serialize \<lparr>ti_interleaved = Some (0, 1), ti_client_port = None,
       ti_server_port = Some (6000, 6001), ti_session_id = [], ti_ssrc = Some 0xABCD1234, ti_mode = Some (ascii ''play'')\<rparr>)
   = Inr \<lparr>ti_interleaved = Some (0, 1), ti_client_port = None,
       ti_server_port = Some (6000, 6001), ti_session_id = [], ti_ssrc = Some 0xABCD1234, ti_mode = Some (ascii ''play'')\<rparr>"
  by (subst transport_roundtrip) (simp_all add: transport_ok_def ascii_def)

text \<open>Delivery keeps packet boundaries and order: the interleaved frames of any sequence
  of RTP packets of at most 65535 bytes, written one after the other, determine the channels and
  packets; larger packets are refused.\<close>

theorem interleaved_frames_decodable:
  "(\<forall>c d. is_ok (build_interleaved_frame c d) \<longleftrightarrow> length d \<le> 65535) \<and>
   (\<forall>xs ys r s. list_all (\<lambda>(c, d). length d \<le> 65535) xs \<and> list_all (\<lambda>(c, d). length d \<le> 65535) ys \<and>
      length xs = length ys \<and> concat (map frame_bytes xs) @ r = concat (map frame_bytes ys) @ s
      \<longrightarrow> xs = ys \<and> r = s)"
  using frame.enc_list_inj by (auto simp: build_interleaved_frame_def Let_def list_all_iff)

theorem interleaved_frames_decodable_witness:
  "is_ok (build_interleaved_frame 0 [1, 2, 3])"
  using interleaved_frames_decodable by simp

text \<open>The gap detector raises no false alarm on the packetizer's output: the packets of a
  fragmented NAL unit, serialised and tracked in order, report no gap, also across the
  wrap-around of the sequence number.\<close>

theorem fragments_have_no_gap:
  assumes "fragment_nal nal_data r t pt seq ts ssrc mtu = Inr ps" and "unat pt < 128"
  shows "track tracker_new (map rtp_to_bytes ps) = []"
proof (rule track_consecutive)
  show "\<forall>p \<in> set ps. rtp_wf p" using fragment_nal_valid [OF assms] by blast
  show "\<forall>j < length ps. rp_sequence_number (ps ! j) = seq + of_nat j"
    using fragment_nal_sequence [OF assms(1)] by blast
qed (simp add: tracker_new_def)

theorem fragments_have_no_gap_witness:
  "\<exists>ps. fragment_nal (replicate 5 7) 3 5 96 65535 0 1 16 = Inr ps \<and> track tracker_new (map rtp_to_bytes ps) = []"
proof -
  obtain ps where "fragment_nal (replicate 5 7) 3 5 96 65535 0 1 16 = Inr ps"
    using fragment_nal_eq [of "replicate 5 7" 16] by auto
  moreover from fragments_have_no_gap [OF this] have "track tracker_new (map rtp_to_bytes ps) = []" by simp
  ultimately show ?thesis by blast
qed

text \<open>A late or duplicate packet is reported as a gap of almost \<open>2 ^ 16\<close> packets, because the difference wraps.\<close>

lemma duplicate_reported_as_gap:
  "fst (tracker_check \<lparr>sq_last_seq = Some s\<rparr> s) = Some 0xFFFF"
  by (simp add: tracker_check_def Let_def word_gt_0)

end
