(* ===== verification/HashMap.thy ===== *)
theory HashMap
  imports Prelude
begin

text \<open>
  \<^verbatim>\<open>std::collections::HashMap\<close> as an association list with distinct keys. The
  order of the list is the iteration order, which the program does not
  control: every statement about a component that iterates over a map holds for
  every list, hence for every order. The locale \<open>kv_store\<close> is the contract of a keyed
  store; the clients rely on it and on the \<open>hm_\<close> lemmas only.
\<close>

locale kv_store =
  fixes get :: "'s \<Rightarrow> 'k \<Rightarrow> 'v option"
    and put :: "'k \<Rightarrow> 'v \<Rightarrow> 's \<Rightarrow> 's"
    and del :: "'k \<Rightarrow> 's \<Rightarrow> 's"
    and empty :: 's
    and wf :: "'s \<Rightarrow> bool"
  assumes wf_empty: "wf empty" and wf_put: "wf s \<Longrightarrow> wf (put k v s)" and wf_del: "wf s \<Longrightarrow> wf (del k s)"
    and get_empty: "get empty k = None"
    and get_put: "wf s \<Longrightarrow> get (put k v s) k' = (if k' = k then Some v else get s k')"
    and get_del: "wf s \<Longrightarrow> get (del k s) k' = (if k' = k then None else get s k')"
begin

lemma put_put: "wf s \<Longrightarrow> get (put k v (put k w s)) = get (put k v s)"
  by (rule ext) (simp add: get_put wf_put)

lemma del_put: "wf s \<Longrightarrow> get (del k (put k v s)) = get (del k s)"
  by (rule ext) (simp add: get_put get_del wf_put)

lemma put_commute: "wf s \<Longrightarrow> k \<noteq> k' \<Longrightarrow> get (put k v (put k' v' s)) = get (put k' v' (put k v s))"
  by (rule ext) (simp add: get_put wf_put)

end

type_synonym ('k, 'v) hmap = "('k \<times> 'v) list"

definition hm_wf :: "('k, 'v) hmap \<Rightarrow> bool" where
  "hm_wf m \<longleftrightarrow> distinct (map fst m)"

abbreviation hm_get :: "('k, 'v) hmap \<Rightarrow> 'k \<Rightarrow> 'v option" where
  "hm_get \<equiv> map_of"

text \<open>\<^verbatim>\<open>insert\<close>: replace the value of a present key, else add the entry.\<close>

fun hm_insert :: "'k \<Rightarrow> 'v \<Rightarrow> ('k, 'v) hmap \<Rightarrow> ('k, 'v) hmap" where
  "hm_insert k v [] = [(k, v)]"
| "hm_insert k v ((k', v') # m) = (if k' = k then (k, v) # m else (k', v') # hm_insert k v m)"

definition hm_remove :: "'k \<Rightarrow> ('k, 'v) hmap \<Rightarrow> ('k, 'v) hmap" where
  "hm_remove k m = filter (\<lambda>(k', v). k' \<noteq> k) m"

text \<open>\<^verbatim>\<open>retain\<close>.\<close>

definition hm_retain :: "('k \<Rightarrow> 'v \<Rightarrow> bool) \<Rightarrow> ('k, 'v) hmap \<Rightarrow> ('k, 'v) hmap" where
  "hm_retain P m = filter (\<lambda>(k, v). P k v) m"

lemma hm_get_insert [simp]: "hm_get (hm_insert k v m) k' = (if k' = k then Some v else hm_get m k')"
  by (induction m) auto

lemma hm_get_remove [simp]: "hm_get (hm_remove k m) k' = (if k' = k then None else hm_get m k')"
  by (induction m) (auto simp: hm_remove_def)

lemma fst_set_insert [simp]: "fst ` set (hm_insert k v m) = insert k (fst ` set m)"
proof (induction m)
  case (Cons e m)
  then show ?case by (cases e) (auto simp: insert_commute)
qed simp

lemma hm_wf_Nil [simp]: "hm_wf []"
  by (simp add: hm_wf_def)

lemma hm_wf_insert [simp]: "hm_wf m \<Longrightarrow> hm_wf (hm_insert k v m)"
  by (induction m) (auto simp: hm_wf_def)

lemma hm_wf_filter: "hm_wf m \<Longrightarrow> hm_wf (filter P m)"
  unfolding hm_wf_def by (induction m) auto

lemma hm_wf_remove [simp]: "hm_wf m \<Longrightarrow> hm_wf (hm_remove k m)"
  unfolding hm_remove_def by (rule hm_wf_filter)

lemma hm_wf_retain [simp]: "hm_wf m \<Longrightarrow> hm_wf (hm_retain P m)"
  unfolding hm_retain_def by (rule hm_wf_filter)

lemma hm_get_retain:
  "hm_wf m \<Longrightarrow> hm_get (hm_retain P m) k =
     (case hm_get m k of Some v \<Rightarrow> if P k v then Some v else None | None \<Rightarrow> None)"
proof (induction m)
  case Nil
  then show ?case by (simp add: hm_retain_def)
next
  case (Cons e m)
  obtain k' v' where e: "e = (k', v')" by (cases e)
  have n: "k' \<notin> fst ` set m" and wf: "hm_wf m" using Cons.prems by (auto simp: hm_wf_def e)
  have "hm_get (hm_retain P m) k' = None" "hm_get m k' = None"
    using n by (auto simp: map_of_eq_None_iff hm_retain_def)
  then show ?case using Cons.IH [OF wf] by (auto simp: hm_retain_def e)
qed

lemma hm_get_in: "hm_wf m \<Longrightarrow> (k, v) \<in> set m \<longleftrightarrow> hm_get m k = Some v"
  by (simp add: hm_wf_def)

lemma length_hm_insert: "hm_wf m \<Longrightarrow> length (hm_insert k v m) = (if hm_get m k = None then Suc (length m) else length m)"
  by (induction m) (auto simp: hm_wf_def)

lemma length_hm_retain_le: "length (hm_retain P m) \<le> length m"
  by (simp add: hm_retain_def)

lemma length_hm_remove_le: "length (hm_remove k m) \<le> length m"
  by (simp add: hm_remove_def)

interpretation hm: kv_store hm_get hm_insert hm_remove "[]" hm_wf
  by unfold_locales auto

end
