(* ===== verification/RtspServer.thy ===== *)
theory RtspServer
  imports RtspAuth RtspFraming HashMap
begin

text \<open>
  The RTSP server, \<^verbatim>\<open>crates/protocols/src/rtsp_server/server.rs\<close> and
  \<^verbatim>\<open>mod.rs\<close>: methods, request reader, responses, the session state machine with
  its handlers, stream lookup, the live stream registry and the per-connection
  request loop. One step of the loop takes a parsed request to the response
  written, the new session state and what happens next; the delivery loop of a
  playing client is in \<^verbatim>\<open>RtspDelivery\<close>. Session ids and nonces
  come from the random generator and are parameters, as is the Base64 encoder of the
  \<^verbatim>\<open>base64\<close> crate. Failing socket writes end the connection in the source and
  are not modelled.
\<close>

section \<open>Methods and requests\<close>

datatype rtsp_method =
    Options | Describe | Setup | Play | Pause | Teardown | Announce | GetParameter | SetParameter

fun method_text :: "rtsp_method \<Rightarrow> bytes" where
  "method_text Options = ascii ''OPTIONS''"
| "method_text Describe = ascii ''DESCRIBE''"
| "method_text Setup = ascii ''SETUP''"
| "method_text Play = ascii ''PLAY''"
| "method_text Pause = ascii ''PAUSE''"
| "method_text Teardown = ascii ''TEARDOWN''"
| "method_text Announce = ascii ''ANNOUNCE''"
| "method_text GetParameter = ascii ''GET_PARAMETER''"
| "method_text SetParameter = ascii ''SET_PARAMETER''"

definition method_from_str :: "bytes \<Rightarrow> rtsp_method result" where
  "method_from_str s =
     (if s = ascii ''OPTIONS'' then Inr Options
      else if s = ascii ''DESCRIBE'' then Inr Describe
      else if s = ascii ''SETUP'' then Inr Setup
      else if s = ascii ''PLAY'' then Inr Play
      else if s = ascii ''PAUSE'' then Inr Pause
      else if s = ascii ''TEARDOWN'' then Inr Teardown
      else if s = ascii ''ANNOUNCE'' then Inr Announce
      else if s = ascii ''GET_PARAMETER'' then Inr GetParameter
      else if s = ascii ''SET_PARAMETER'' then Inr SetParameter
      else Inl (Bail ''Unknown RTSP method''))"

record parsed_request =
  rq_method :: rtsp_method
  rq_uri :: bytes
  rq_headers :: headers
  rq_body :: bytes
  rq_cseq :: u32

text \<open>
  \<^verbatim>\<open>reader.read_line\<close>: a line with its newline, or what is left at the end
  of the stream; a line that is not UTF-8 is an error.
\<close>

fun take_line :: "bytes \<Rightarrow> bytes \<times> bytes" where
  "take_line [] = ([], [])"
| "take_line (b # bs) =
     (if b = 10 then ([b], bs) else let (l, r) = take_line bs in (b # l, r))"

definition read_line :: "bytes \<Rightarrow> (bytes \<times> bytes) result" where
  "read_line s =
     (let (l, r) = take_line s
      in if utf8_valid l then Inr (l, r) else Inl (Bail ''stream did not contain valid UTF-8''))"

text \<open>\<^verbatim>\<open>trim_end_matches("\r\n").trim_end_matches('\n')\<close> of a line, which has at most one newline.\<close>

definition strip_eol :: "bytes \<Rightarrow> bytes" where
  "strip_eol l =
     (if ends_with [13, 10] l then take (length l - 2) l
      else if ends_with [10] l then take (length l - 1) l else l)"

lemma take_line_length: "take_line s = (l, r) \<Longrightarrow> l \<noteq> [] \<Longrightarrow> length r < length s"
proof (induction s arbitrary: l)
  case (Cons b bs)
  obtain l' r' where lr: "take_line bs = (l', r')" by fastforce
  show ?case
  proof (cases "b = 10")
    case True
    then show ?thesis using Cons.prems by simp
  next
    case False
    then have r: "r = r'" using Cons.prems lr by simp
    show ?thesis
    proof (cases "l' = []")
      case True
      have "bs = []"
      proof (rule ccontr)
        assume "bs \<noteq> []"
        then have "fst (take_line bs) \<noteq> []" by (cases bs) (auto simp: Let_def split: prod.splits)
        then show False using lr True by simp
      qed
      then show ?thesis using lr r by simp
    next
      case ne: False
      then show ?thesis using Cons.IH [of l'] lr r by simp
    qed
  qed
qed simp

lemma read_line_length: "read_line s = Inr (l, r) \<Longrightarrow> l \<noteq> [] \<Longrightarrow> length r < length s"
  by (auto simp: read_line_def Let_def split: prod.splits if_splits intro: take_line_length)

text \<open>The first non-empty line.\<close>

function read_request_line :: "bytes \<Rightarrow> (bytes option \<times> bytes) result" where
  "read_request_line s =
     (case read_line s of
        Inl e \<Rightarrow> Inl e
      | Inr (l, r) \<Rightarrow>
          if l = [] then Inr (None, r)
          else if strip_eol l \<noteq> [] then Inr (Some (strip_eol l), r)
          else read_request_line r)"
  by pat_completeness auto
termination
  by (relation "measure length") (auto dest: read_line_length)

declare read_request_line.simps [simp del]

function read_headers :: "bytes \<Rightarrow> headers \<Rightarrow> (headers \<times> bytes) result" where
  "read_headers s hs =
     (case read_line s of
        Inl e \<Rightarrow> Inl e
      | Inr (l, r) \<Rightarrow>
          if l = [] then Inl (Bail ''Unexpected EOF in RTSP headers'')
          else if strip_eol l = [] then Inr (hs, r)
          else (case split_once 58 (strip_eol l) of
                  Some (name, value) \<Rightarrow> read_headers r (hs @ [(trim name, trim value)])
                | None \<Rightarrow> read_headers r hs))"
  by pat_completeness auto
termination
  by (relation "measure (\<lambda>(s, hs). length s)") (auto dest: read_line_length)

declare read_headers.simps [simp del]

definition header_number :: "nat \<Rightarrow> headers \<Rightarrow> bytes \<Rightarrow> nat" where
  "header_number m hs name =
     (case get_header hs name of
        None \<Rightarrow> 0
      | Some v \<Rightarrow> (case parse_uint 10 m v of Some n \<Rightarrow> n | None \<Rightarrow> 0))"

definition read_rtsp_request :: "bytes \<Rightarrow> (parsed_request option \<times> bytes) result" where
  "read_rtsp_request s =
     and_then (read_request_line s) (\<lambda>(line, r1).
       case line of
         None \<Rightarrow> Inr (None, r1)
       | Some line \<Rightarrow>
           (case split_once 32 line of
              None \<Rightarrow> Inl (Bail ''Invalid RTSP request line'')
            | Some (m, rest) \<Rightarrow>
                (case split_once 32 rest of
                   None \<Rightarrow> Inl (Bail ''Invalid RTSP request line'')
                 | Some (uri, version) \<Rightarrow>
                     and_then (method_from_str m) (\<lambda>method.
                     and_then (read_headers r1 []) (\<lambda>(headers, r2).
                       let content_length = header_number (2 ^ 64 - 1) headers (ascii ''Content-Length'')
                       in if content_length > 2 ^ 63 - 1 then Inl (Panic ''capacity overflow'')
                          else if content_length > length r2 then Inl (Bail ''early eof'')
                          else Inr (Some \<lparr>rq_method = method, rq_uri = uri, rq_headers = headers,
                                          rq_body = take content_length r2,
                                          rq_cseq = of_nat (header_number 4294967295 headers (ascii ''CSeq''))\<rparr>,
                                    drop content_length r2))))))"

section \<open>Responses\<close>

definition crlf :: bytes where "crlf = [13, 10]"

definition header_line :: "bytes \<times> bytes \<Rightarrow> bytes" where
  "header_line = (\<lambda>(name, value). name @ ascii '': '' @ value @ crlf)"

definition build_response :: "u32 \<Rightarrow> nat \<Rightarrow> bytes \<Rightarrow> headers \<Rightarrow> bytes \<Rightarrow> bytes" where
  "build_response cseq status_code reason extra_headers body =
     ascii ''RTSP/1.0 '' @ dec_digits status_code @ ascii '' '' @ reason @ crlf
     @ ascii ''CSeq: '' @ dec_digits (unat cseq) @ crlf
     @ concat (map header_line extra_headers)
     @ (if body \<noteq> [] then ascii ''Content-Length: '' @ dec_digits (length body) @ crlf else [])
     @ crlf
     @ body"

definition build_unauthorized_response :: "u32 \<Rightarrow> bytes \<Rightarrow> bytes \<Rightarrow> bytes" where
  "build_unauthorized_response cseq realm nonce =
     build_response cseq 401 (ascii ''Unauthorized'')
       [(ascii ''WWW-Authenticate'', build_digest_challenge realm nonce)] []"

definition build_ok_response :: "u32 \<Rightarrow> headers \<Rightarrow> bytes \<Rightarrow> bytes" where
  "build_ok_response cseq extra_headers body = build_response cseq 200 (ascii ''OK'') extra_headers body"

definition build_not_found_response :: "u32 \<Rightarrow> bytes" where
  "build_not_found_response cseq = build_response cseq 404 (ascii ''Not Found'') [] []"

definition build_invalid_state_response :: "u32 \<Rightarrow> bytes" where
  "build_invalid_state_response cseq =
     build_response cseq 455 (ascii ''Method Not Valid In This State'') [] []"

definition build_unsupported_transport_response :: "u32 \<Rightarrow> bytes" where
  "build_unsupported_transport_response cseq =
     build_response cseq 461 (ascii ''Unsupported Transport'') [] []"

section \<open>Streams\<close>

record rtsp_server_config =
  sc_port :: u16
  sc_auth_required :: bool
  sc_realm :: bytes
  sc_username :: bytes
  sc_password :: bytes

record stream_config =
  st_path :: bytes
  st_sdp_body :: bytes
  st_ssrc :: u32

definition slash_path :: "bytes \<Rightarrow> bytes" where
  "slash_path path = (if starts_with [47] path then path else [47] @ path)"

definition url_path :: "stream_config \<Rightarrow> bytes" where
  "url_path st = slash_path (st_path st)"

definition matches_uri :: "stream_config \<Rightarrow> bytes \<Rightarrow> bool" where
  "matches_uri st uri \<longleftrightarrow>
     uri = url_path st \<or> ends_with (url_path st) uri \<or> contains ([47] @ st_path st) uri"

text \<open>
  A live stream. Its broadcast channel is not part of the record: what a client
  receives from it is the sequence of events of the delivery loop.
\<close>

record live_stream_entry =
  le_sdp_body :: bytes
  le_ssrc :: u32
  le_cached_sps :: "bytes option"
  le_cached_pps :: "bytes option"

record rtsp_server =
  sv_config :: rtsp_server_config
  sv_streams :: "(bytes, stream_config) hmap"
  sv_live_streams :: "(bytes, live_stream_entry) hmap"

definition rtsp_server_new :: "rtsp_server_config \<Rightarrow> rtsp_server" where
  "rtsp_server_new config = \<lparr>sv_config = config, sv_streams = [], sv_live_streams = []\<rparr>"

definition add_stream :: "stream_config \<Rightarrow> rtsp_server \<Rightarrow> rtsp_server" where
  "add_stream st sv = sv\<lparr>sv_streams := hm_insert (st_path st) st (sv_streams sv)\<rparr>"

definition register_live_stream :: "bytes \<Rightarrow> bytes \<Rightarrow> u32 \<Rightarrow> rtsp_server \<Rightarrow> rtsp_server" where
  "register_live_stream path sdp_body ssrc sv =
     sv\<lparr>sv_live_streams := hm_insert path
          \<lparr>le_sdp_body = sdp_body, le_ssrc = ssrc, le_cached_sps = None, le_cached_pps = None\<rparr>
          (sv_live_streams sv)\<rparr>"

definition unregister_live_stream :: "bytes \<Rightarrow> rtsp_server \<Rightarrow> bool \<times> rtsp_server" where
  "unregister_live_stream path sv =
     (hm_get (sv_live_streams sv) path \<noteq> None,
      sv\<lparr>sv_live_streams := hm_remove path (sv_live_streams sv)\<rparr>)"

definition update_sps_pps :: "bytes \<Rightarrow> bytes \<Rightarrow> bytes \<Rightarrow> rtsp_server \<Rightarrow> rtsp_server" where
  "update_sps_pps path sps pps sv =
     (case hm_get (sv_live_streams sv) path of
        None \<Rightarrow> sv
      | Some entry \<Rightarrow>
          sv\<lparr>sv_live_streams := hm_insert path
               (entry\<lparr>le_cached_sps := Some sps, le_cached_pps := Some pps\<rparr>) (sv_live_streams sv)\<rparr>)"

text \<open>\<^verbatim>\<open>str::find\<close> of a substring.\<close>

fun find_sub :: "bytes \<Rightarrow> bytes \<Rightarrow> nat option" where
  "find_sub p [] = (if p = [] then Some 0 else None)"
| "find_sub p (b # bs) =
     (if starts_with p (b # bs) then Some 0 else map_option Suc (find_sub p bs))"

definition build_live_sdp :: "(bytes \<Rightarrow> bytes) \<Rightarrow> live_stream_entry \<Rightarrow> bytes" where
  "build_live_sdp b64 entry =
     (let base_sdp = le_sdp_body entry
      in case (le_cached_sps entry, le_cached_pps entry) of
           (Some sps, Some pps) \<Rightarrow>
             let fmtp_with_sprop = ascii ''a=fmtp:96 packetization-mode=1; sprop-parameter-sets=''
                                   @ b64 sps @ ascii '','' @ b64 pps @ crlf
             in (case find_sub (ascii ''a=fmtp:96'') base_sdp of
                   Some idx \<Rightarrow>
                     let line_end = (case find_sub crlf (drop idx base_sdp) of
                                       Some e \<Rightarrow> idx + e + 2 | None \<Rightarrow> length base_sdp)
                     in take idx base_sdp @ fmtp_with_sprop @ drop line_end base_sdp
                 | None \<Rightarrow> base_sdp)
         | _ \<Rightarrow> base_sdp)"

definition find_stream_by_uri :: "bytes \<Rightarrow> (bytes, stream_config) hmap \<Rightarrow> stream_config option" where
  "find_stream_by_uri uri streams = find (\<lambda>st. matches_uri st uri) (map snd streams)"

definition live_match :: "bytes \<Rightarrow> bytes \<Rightarrow> bool" where
  "live_match uri path \<longleftrightarrow>
     uri = slash_path path \<or> ends_with (slash_path path) uri \<or> contains (slash_path path) uri"

text \<open>\<^verbatim>\<open>max_by_key\<close> keeps the last of several maxima.\<close>

fun max_by_key :: "('a \<Rightarrow> nat) \<Rightarrow> 'a list \<Rightarrow> 'a option" where
  "max_by_key f [] = None"
| "max_by_key f (x # xs) =
     (case max_by_key f xs of
        None \<Rightarrow> Some x
      | Some y \<Rightarrow> if f x > f y then Some x else Some y)"

definition find_live_stream ::
  "bytes \<Rightarrow> (bytes, live_stream_entry) hmap \<Rightarrow> (bytes \<times> live_stream_entry) option" where
  "find_live_stream uri live_streams =
     max_by_key (\<lambda>(path, entry). length (slash_path path))
       (filter (\<lambda>(path, entry). live_match uri path) live_streams)"

section \<open>Sessions\<close>

datatype session_state =
    InitState
  | Described bytes
  | SetupState bytes transport_info bytes
  | Playing bytes transport_info bytes u32
  | TeardownState

definition handle_options :: "u32 \<Rightarrow> bytes" where
  "handle_options cseq =
     build_ok_response cseq
       [(ascii ''Public'', ascii ''DESCRIBE, SETUP, TEARDOWN, PLAY, PAUSE, OPTIONS, GET_PARAMETER'')] []"

text \<open>\<^verbatim>\<open>uri.trim_end_matches(&url_path)\<close>.\<close>

function trim_end_matches :: "bytes \<Rightarrow> bytes \<Rightarrow> bytes" where
  "trim_end_matches p s =
     (if p \<noteq> [] \<and> s \<noteq> [] \<and> ends_with p s then trim_end_matches p (take (length s - length p) s) else s)"
  by pat_completeness auto
termination
  by (relation "measure (\<lambda>(p, s). length s)") auto

declare trim_end_matches.simps [simp del]

definition handle_describe ::
  "u32 \<Rightarrow> bytes \<Rightarrow> stream_config \<Rightarrow> session_state \<Rightarrow> bytes \<times> session_state" where
  "handle_describe cseq uri st session =
     (build_ok_response cseq
        [(ascii ''Content-Type'', ascii ''application/sdp''),
         (ascii ''Content-Base'', trim_end_matches (url_path st) uri)]
        (st_sdp_body st),
      Described (st_path st))"

definition handle_setup ::
  "bytes \<Rightarrow> u32 \<Rightarrow> bytes \<Rightarrow> bytes \<Rightarrow> (bytes, stream_config) hmap \<Rightarrow> session_state \<Rightarrow>
     (bytes \<times> transport_info option) \<times> session_state" where
  "handle_setup session_id cseq uri transport_header streams session =
     (let found = (case find_stream_by_uri uri streams of
                     Some s \<Rightarrow> Some s
                   | None \<Rightarrow> if length streams = 1 then Some (snd (hd streams)) else None)
      in case found of
           None \<Rightarrow> ((build_not_found_response cseq, None), session)
         | Some stream \<Rightarrow>
             (case transport_parse transport_header of
                Inl _ \<Rightarrow> ((build_unsupported_transport_response cseq, None), session)
              | Inr client_transport \<Rightarrow>
                  let interleaved = (case ti_interleaved client_transport of Some p \<Rightarrow> p | None \<Rightarrow> (0, 1));
                      response_transport =
                        \<lparr>ti_interleaved = Some interleaved, ti_client_port = None, ti_server_port = None,
                         ti_session_id = session_id, ti_ssrc = Some (st_ssrc stream),
                         ti_mode = Some (ascii ''play'')\<rparr>;
                      resp = build_ok_response cseq
                               [(ascii ''Transport'', transport_serialize response_transport),
                                (ascii ''Session'', session_id)] []
                  in ((resp, Some response_transport),
                      SetupState session_id response_transport (st_path stream))))"

definition handle_play :: "u32 \<Rightarrow> bytes \<Rightarrow> session_state \<Rightarrow> (bytes \<times> u8 option) \<times> session_state" where
  "handle_play cseq session_id session =
     (case session of
        SetupState sid transport stream_path \<Rightarrow>
          if sid \<noteq> session_id
          then ((build_response cseq 454 (ascii ''Session Not Found'') [] [], None), session)
          else
            let channel = (case ti_interleaved transport of Some (c, _) \<Rightarrow> c | None \<Rightarrow> 0)
            in ((build_ok_response cseq
                   [(ascii ''Session'', session_id), (ascii ''Range'', ascii ''npt=0.000-'')] [],
                 Some channel),
                Playing sid transport stream_path
                  (case ti_ssrc transport of Some s \<Rightarrow> s | None \<Rightarrow> 0))
      | _ \<Rightarrow> ((build_invalid_state_response cseq, None), session))"

definition handle_teardown :: "u32 \<Rightarrow> bytes \<Rightarrow> session_state \<Rightarrow> bytes \<times> session_state" where
  "handle_teardown cseq session_id session =
     (build_ok_response cseq [(ascii ''Session'', session_id)] [], TeardownState)"

definition handle_pause :: "u32 \<Rightarrow> bytes \<Rightarrow> session_state \<Rightarrow> bytes" where
  "handle_pause cseq session_id session =
     (case session of
        Playing _ _ _ _ \<Rightarrow> build_ok_response cseq [(ascii ''Session'', session_id)] []
      | _ \<Rightarrow> build_invalid_state_response cseq)"

definition handle_get_parameter :: "u32 \<Rightarrow> bytes" where
  "handle_get_parameter cseq = build_ok_response cseq [] []"

definition check_auth :: "parsed_request \<Rightarrow> rtsp_server_config \<Rightarrow> bool" where
  "check_auth req config =
     (if \<not> sc_auth_required config then True
      else case get_header (rq_headers req) (ascii ''Authorization'') of
             Some header \<Rightarrow>
               verify_digest_auth header (method_text (rq_method req)) (rq_uri req)
                 (sc_username config) (sc_password config) (sc_realm config)
           | None \<Rightarrow> False)"

section \<open>Connections\<close>

text \<open>What the connection loop does after a response: read on, close, or deliver a live stream.\<close>

datatype conn_next = Continue | Close | Deliver bytes u8 u8 u32

definition session_header :: "parsed_request \<Rightarrow> bytes" where
  "session_header req = (case get_header (rq_headers req) (ascii ''Session'') of Some s \<Rightarrow> s | None \<Rightarrow> [])"

definition resolve_describe :: "(bytes \<Rightarrow> bytes) \<Rightarrow> rtsp_server \<Rightarrow> bytes \<Rightarrow> stream_config option" where
  "resolve_describe b64 sv uri =
     (case find_stream_by_uri uri (sv_streams sv) of
        Some s \<Rightarrow> Some s
      | None \<Rightarrow>
          map_option (\<lambda>(path, entry).
              \<lparr>st_path = path, st_sdp_body = build_live_sdp b64 entry, st_ssrc = le_ssrc entry\<rparr>)
            (find_live_stream uri (sv_live_streams sv)))"

definition live_config :: "bytes \<times> live_stream_entry \<Rightarrow> stream_config" where
  "live_config = (\<lambda>(path, entry).
     \<lparr>st_path = path, st_sdp_body = le_sdp_body entry, st_ssrc = le_ssrc entry\<rparr>)"

definition resolve_setup :: "rtsp_server \<Rightarrow> bytes \<Rightarrow> session_state \<Rightarrow> stream_config option" where
  "resolve_setup sv uri session =
     (case find_stream_by_uri uri (sv_streams sv) of
        Some s \<Rightarrow> Some s
      | None \<Rightarrow>
          (case find_live_stream uri (sv_live_streams sv) of
             Some pe \<Rightarrow> Some (live_config pe)
           | None \<Rightarrow>
               (case session of
                  Described stream_path \<Rightarrow>
                    map_option (\<lambda>entry. live_config (stream_path, entry))
                      (hm_get (sv_live_streams sv) stream_path)
                | _ \<Rightarrow> None)))"

definition after_play :: "rtsp_server \<Rightarrow> session_state \<Rightarrow> conn_next" where
  "after_play sv session =
     (case session of
        Playing _ transport stream_path _ \<Rightarrow>
          (case hm_get (sv_live_streams sv) stream_path of
             Some entry \<Rightarrow>
               Deliver stream_path
                 (case ti_interleaved transport of Some (c, _) \<Rightarrow> c | None \<Rightarrow> 0)
                 (case ti_interleaved transport of Some (_, c) \<Rightarrow> c | None \<Rightarrow> 1)
                 (le_ssrc entry)
           | None \<Rightarrow> Continue)
      | _ \<Rightarrow> Continue)"

definition conn_step ::
  "(bytes \<Rightarrow> bytes) \<Rightarrow> bytes \<Rightarrow> rtsp_server \<Rightarrow> bytes \<Rightarrow> parsed_request \<Rightarrow> session_state \<Rightarrow>
     bytes \<times> session_state \<times> conn_next" where
  "conn_step b64 fresh_sid sv nonce req session =
     (if \<not> check_auth req (sv_config sv)
      then (build_unauthorized_response (rq_cseq req) (sc_realm (sv_config sv)) nonce, session, Continue)
      else
        (case rq_method req of
           Options \<Rightarrow> (handle_options (rq_cseq req), session, Continue)
         | Describe \<Rightarrow>
             (case resolve_describe b64 sv (rq_uri req) of
                None \<Rightarrow> (build_not_found_response (rq_cseq req), session, Continue)
              | Some stream \<Rightarrow>
                  let (resp, session') = handle_describe (rq_cseq req) (rq_uri req) stream session
                  in (resp, session', Continue))
         | Setup \<Rightarrow>
             (case get_header (rq_headers req) (ascii ''Transport'') of
                None \<Rightarrow> (build_unsupported_transport_response (rq_cseq req), session, Continue)
              | Some transport_header \<Rightarrow>
                  (case resolve_setup sv (rq_uri req) session of
                     None \<Rightarrow> (build_not_found_response (rq_cseq req), session, Continue)
                   | Some s \<Rightarrow>
                       let ((resp, transport), session') =
                             handle_setup fresh_sid (rq_cseq req) (rq_uri req) transport_header
                               [(st_path s, s)] session
                       in (resp, session', Continue)))
         | Play \<Rightarrow>
             let ((resp, channel), session') = handle_play (rq_cseq req) (session_header req) session
             in (resp, session', after_play sv session')
         | Teardown \<Rightarrow>
             let (resp, session') = handle_teardown (rq_cseq req) (session_header req) session
             in (resp, session', Close)
         | Pause \<Rightarrow> (handle_pause (rq_cseq req) (session_header req) session, session, Continue)
         | GetParameter \<Rightarrow> (handle_get_parameter (rq_cseq req), session, Continue)
         | _ \<Rightarrow> (build_response (rq_cseq req) 551 (ascii ''Option not supported'') [] [], session, Continue)))"

text \<open>
  The loop of \<^verbatim>\<open>handle_connection\<close> over the requests of a connection: the responses
  written, the final session and whether a delivery started. Each request comes with
  the server it meets (the live registry changes while the connection is open; the
  configuration and the static streams do not) and the session id the generator draws for it.
\<close>

type_synonym request_event = "rtsp_server \<times> bytes \<times> parsed_request"

fun conn_run ::
  "(bytes \<Rightarrow> bytes) \<Rightarrow> bytes \<Rightarrow> request_event list \<Rightarrow> session_state \<Rightarrow>
     bytes list \<times> session_state \<times> conn_next" where
  "conn_run b64 nonce [] session = ([], session, Continue)"
| "conn_run b64 nonce ((sv, sid, req) # reqs) session =
     (case conn_step b64 sid sv nonce req session of
        (resp, session', Continue) \<Rightarrow>
          (let (out, session'', nxt) = conn_run b64 nonce reqs session' in (resp # out, session'', nxt))
      | (resp, session', nxt) \<Rightarrow> ([resp], session', nxt))"

section \<open>The session protocol\<close>

text \<open>
  The session as a state machine: \<open>session_step e s s'\<close> is a transition the protocol
  allows on request \<open>e\<close>. Every transition but staying put needs an authorised request.
\<close>

inductive session_step :: "request_event \<Rightarrow> session_state \<Rightarrow> session_state \<Rightarrow> bool" where
  do_stay: "session_step e s s"
| do_described: "check_auth req (sv_config sv) \<Longrightarrow> rq_method req = Describe \<Longrightarrow>
     session_step (sv, sid, req) s (Described path)"
| do_setup: "check_auth req (sv_config sv) \<Longrightarrow> rq_method req = Setup \<Longrightarrow>
     ti_session_id tr = sid \<Longrightarrow> ti_ssrc tr = Some ssrc \<Longrightarrow>
     session_step (sv, sid, req) s (SetupState sid tr path)"
| do_play: "check_auth req (sv_config sv) \<Longrightarrow> rq_method req = Play \<Longrightarrow> session_header req = sid \<Longrightarrow>
     ti_ssrc tr = None \<and> ssrc = 0 \<or> ti_ssrc tr = Some ssrc \<Longrightarrow>
     session_step (sv, new_sid, req) (SetupState sid tr path) (Playing sid tr path ssrc)"
| do_teardown: "check_auth req (sv_config sv) \<Longrightarrow> rq_method req = Teardown \<Longrightarrow>
     session_step (sv, sid, req) s TeardownState"

inductive_cases session_stepE: "session_step e s s'"

lemma handle_setup_session:
  "snd (handle_setup sid cseq uri th streams session) = session \<or>
   (\<exists>tr path ssrc. snd (handle_setup sid cseq uri th streams session) = SetupState sid tr path
      \<and> ti_session_id tr = sid \<and> ti_ssrc tr = Some ssrc)"
  by (auto simp: handle_setup_def Let_def split: option.splits sum.splits)

lemma handle_play_session:
  "snd (handle_play cseq hdr session) = session \<or>
   (\<exists>tr path ssrc. session = SetupState hdr tr path \<and> snd (handle_play cseq hdr session) = Playing hdr tr path ssrc
      \<and> (ti_ssrc tr = None \<and> ssrc = 0 \<or> ti_ssrc tr = Some ssrc))"
  by (auto simp: handle_play_def Let_def split: session_state.splits option.splits)

text \<open>The request loop implements the state machine.\<close>

lemma conn_step_unauthorized:
  "\<not> check_auth req (sv_config sv) \<Longrightarrow> conn_step b64 sid sv nonce req session =
     (build_unauthorized_response (rq_cseq req) (sc_realm (sv_config sv)) nonce, session, Continue)"
  by (simp add: conn_step_def)

lemma conn_step_refines:
  "session_step (sv, sid, req) session (fst (snd (conn_step b64 sid sv nonce req session)))"
proof (cases "check_auth req (sv_config sv)")
  case False
  then show ?thesis by (simp add: conn_step_unauthorized session_step.do_stay)
next
  case auth: True
  show ?thesis
  proof (cases "rq_method req")
    case Setup
    show ?thesis
    proof (cases "get_header (rq_headers req) (ascii ''Transport'')")
      case None
      then show ?thesis using auth Setup by (simp add: conn_step_def session_step.do_stay)
    next
      case (Some th)
      show ?thesis
      proof (cases "resolve_setup sv (rq_uri req) session")
        case None
        then show ?thesis using auth Setup Some by (simp add: conn_step_def session_step.do_stay)
      next
        case (Some s)
        then show ?thesis
          using auth Setup \<open>get_header _ _ = Some th\<close>
            handle_setup_session [of sid "rq_cseq req" "rq_uri req" th "[(st_path s, s)]" session]
          by (auto simp: conn_step_def split: prod.splits intro: session_step.intros)
      qed
    qed
  next
    case Play
    then show ?thesis using auth handle_play_session [of "rq_cseq req" "session_header req" session]
      by (auto simp: conn_step_def split: prod.splits intro: session_step.intros)
  qed (use auth in \<open>auto simp: conn_step_def handle_describe_def handle_teardown_def
         split: option.splits intro: session_step.intros\<close>)
qed

text \<open>
  The history invariant: a session is set up only by an authorised SETUP that issued its id, and
  playing only after a later authorised PLAY that carried that id.
\<close>

definition request_at :: "request_event list \<Rightarrow> nat \<Rightarrow> rtsp_method \<Rightarrow> bool" where
  "request_at hist i m \<longleftrightarrow>
     i < length hist \<and>
     (case hist ! i of (sv, sid, req) \<Rightarrow> rq_method req = m \<and> check_auth req (sv_config sv))"

definition issued_at :: "request_event list \<Rightarrow> nat \<Rightarrow> bytes \<Rightarrow> bool" where
  "issued_at hist i sid \<longleftrightarrow> request_at hist i Setup \<and> fst (snd (hist ! i)) = sid"

definition played_at :: "request_event list \<Rightarrow> nat \<Rightarrow> bytes \<Rightarrow> bool" where
  "played_at hist j sid \<longleftrightarrow> request_at hist j Play \<and> session_header (snd (snd (hist ! j))) = sid"

fun session_ok :: "request_event list \<times> session_state \<Rightarrow> bool" where
  "session_ok (hist, SetupState sid tr path) \<longleftrightarrow>
     (\<exists>i. issued_at hist i sid) \<and> ti_session_id tr = sid \<and> ti_ssrc tr \<noteq> None"
| "session_ok (hist, Playing sid tr path ssrc) \<longleftrightarrow>
     (\<exists>i j. i < j \<and> issued_at hist i sid \<and> played_at hist j sid) \<and> ti_session_id tr = sid \<and> ti_ssrc tr = Some ssrc"
| "session_ok (hist, _) \<longleftrightarrow> True"

definition advance ::
  "(bytes \<Rightarrow> bytes) \<Rightarrow> bytes \<Rightarrow> request_event \<Rightarrow> request_event list \<times> session_state \<Rightarrow>
     request_event list \<times> session_state" where
  "advance b64 nonce = (\<lambda>(sv, sid, req) (hist, session).
     (hist @ [(sv, sid, req)], fst (snd (conn_step b64 sid sv nonce req session))))"

lemma at_append [simp]:
  "issued_at hist i sid \<Longrightarrow> issued_at (hist @ [e]) i sid"
  "played_at hist i sid \<Longrightarrow> played_at (hist @ [e]) i sid"
  by (auto simp: issued_at_def played_at_def request_at_def nth_append)

lemma issued_at_less: "issued_at hist i sid \<Longrightarrow> i < length hist"
  by (simp add: issued_at_def request_at_def)

lemma at_new:
  "check_auth req (sv_config sv) \<Longrightarrow> rq_method req = Setup \<Longrightarrow> issued_at (hist @ [(sv, sid, req)]) (length hist) sid"
  "check_auth req (sv_config sv) \<Longrightarrow> rq_method req = Play \<Longrightarrow> session_header req = h \<Longrightarrow>
     played_at (hist @ [(sv, sid, req)]) (length hist) h"
  by (simp_all add: issued_at_def played_at_def request_at_def)

lemma session_ok_append: "session_ok (hist, session) \<Longrightarrow> session_ok (hist @ [e], session)"
  by (cases session) (auto; meson at_append)+

lemma session_step_ok:
  assumes "session_step e s s'" and "session_ok (hist, s)"
  shows "session_ok (hist @ [e], s')"
  using assms
proof (cases rule: session_step.cases)
  case (do_setup req sv tr sid ssrc path)
  then show ?thesis using at_new(1) [of req sv] by auto
next
  case (do_play req sv sid tr ssrc new_sid path)
  then obtain i where "issued_at hist i sid" "ti_session_id tr = sid" "ti_ssrc tr = Some ssrc" using assms(2) by auto
  then have "issued_at (hist @ [e]) i sid" "i < length hist" by (simp_all add: issued_at_less)
  moreover have "played_at (hist @ [e]) (length hist) sid" using do_play by (simp add: at_new)
  ultimately show ?thesis using do_play(2,3) \<open>ti_session_id tr = sid\<close> \<open>ti_ssrc tr = Some ssrc\<close> by auto
qed (use session_ok_append in auto)

interpretation rtsp_session: inv_system "\<lambda>s. s = ([], InitState)" "advance b64 nonce" session_ok
proof
  fix op s assume "session_ok s"
  then show "session_ok (advance b64 nonce op s)"
    by (cases s; cases op) (auto simp: advance_def intro: session_step_ok [OF conn_step_refines])
qed auto

text \<open>The loop is the state machine run on the requests it reads before it stops.\<close>

lemma conn_run_fold:
  "conn_run b64 nonce reqs session = (out, session', nxt) \<Longrightarrow>
   fold (advance b64 nonce) (take (length out) reqs) (hist, session) = (hist @ take (length out) reqs, session')"
proof (induction b64 nonce reqs session arbitrary: hist out rule: conn_run.induct)
  case (2 b64 nonce sv sid req reqs session)
  obtain resp s1 n1 where st: "conn_step b64 sid sv nonce req session = (resp, s1, n1)" by (metis prod_cases3)
  show ?case
  proof (cases "n1 = Continue")
    case True
    obtain out' where r: "conn_run b64 nonce reqs s1 = (out', session', nxt)" "out = resp # out'"
      using "2.prems" st True by (auto split: prod.splits)
    then show ?thesis using "2.IH" [OF st [symmetric] refl True r(1)] st by (simp add: advance_def)
  next
    case False
    then have "out = [resp]" "session' = s1" using "2.prems" st by (auto split: conn_next.splits)
    then show ?thesis using st by (simp add: advance_def)
  qed
qed simp

lemma at_take:
  "issued_at (take n hist) i sid \<Longrightarrow> issued_at hist i sid" "played_at (take n hist) i sid \<Longrightarrow> played_at hist i sid"
  by (auto simp: issued_at_def played_at_def request_at_def)

lemma conn_run_session_ok:
  assumes "conn_run b64 nonce reqs InitState = (out, session', nxt)"
  shows "session_ok (take (length out) reqs, session')"
  using rtsp_session.inv_reachable [of "([], InitState)" b64 nonce "take (length out) reqs"]
    conn_run_fold [OF assms, of "[]"] by simp

text \<open>A delivery starts only in the playing state, on a registered path.\<close>

lemma conn_step_deliver:
  "conn_step b64 sid sv nonce req session = (resp, session', Deliver path c1 c2 ssrc) \<Longrightarrow>
   \<exists>sid tr ssrc'. session' = Playing sid tr path ssrc'"
  by (auto simp: conn_step_def after_play_def Let_def split: if_splits prod.splits rtsp_method.splits option.splits session_state.splits)

lemma conn_run_deliver:
  "conn_run b64 nonce reqs session = (out, session', Deliver path c1 c2 ssrc) \<Longrightarrow>
   \<exists>sid tr ssrc'. session' = Playing sid tr path ssrc'"
proof (induction b64 nonce reqs session arbitrary: out rule: conn_run.induct)
  case (2 b64 nonce sv sid req reqs session)
  obtain resp s1 n1 where st: "conn_step b64 sid sv nonce req session = (resp, s1, n1)" by (metis prod_cases3)
  show ?case
  proof (cases "n1 = Continue")
    case True
    then obtain out' where "conn_run b64 nonce reqs s1 = (out', session', Deliver path c1 c2 ssrc)"
      using "2.prems" st by (auto split: prod.splits)
    then show ?thesis by (rule "2.IH" [OF st [symmetric] refl True])
  next
    case False
    then show ?thesis using "2.prems" st conn_step_deliver [of b64 sid sv nonce req session]
      by (auto split: conn_next.splits)
  qed
qed simp

lemma hm_live_empty [simp]: "find_live_stream uri [] = None"
  by (simp add: find_live_stream_def)

section \<open>Properties of the request loop\<close>

text \<open>C4. Media flows only to a client that negotiated it: whatever sequence of requests a
  connection receives and however the registry changes meanwhile, if the session ends up playing, or a
  delivery starts, then an authorised SETUP issued a session id and a later authorised PLAY carried exactly that id.\<close>

theorem playing_requires_setup_and_play:
  assumes "conn_run b64 nonce reqs InitState = (out, session, nxt)"
    and "nxt = Deliver path c1 c2 ssrc \<or> session = Playing sid' tr' path ssrc'"
  shows "\<exists>sid tr ssrc i j. session = Playing sid tr path ssrc \<and> ti_session_id tr = sid \<and> ti_ssrc tr = Some ssrc
           \<and> i < j \<and> issued_at reqs i sid \<and> played_at reqs j sid"
proof -
  obtain sid tr ss where s: "session = Playing sid tr path ss"
    using assms(2) conn_run_deliver assms(1) by blast
  obtain i j where "i < j" "issued_at reqs i sid" "played_at reqs j sid" "ti_session_id tr = sid" "ti_ssrc tr = Some ss"
    using conn_run_session_ok [OF assms(1)] unfolding s session_ok.simps by (blast dest: at_take)
  with s show ?thesis by blast
qed

definition demo_server :: "bool \<Rightarrow> rtsp_server" where
  "demo_server auth = register_live_stream (ascii ''live/1'') (ascii ''v=0'') 7
     (rtsp_server_new \<lparr>sc_port = 8554, sc_auth_required = auth, sc_realm = ascii ''hub'', sc_username = ascii ''u'', sc_password = ascii ''p''\<rparr>)"

definition demo_request :: "rtsp_method \<Rightarrow> headers \<Rightarrow> parsed_request" where
  "demo_request m hs = \<lparr>rq_method = m, rq_uri = ascii ''rtsp://h/live/1'', rq_headers = hs, rq_body = [], rq_cseq = 1\<rparr>"

definition demo_run :: "request_event list" where
  "demo_run = [(demo_server False, ascii ''s1'', demo_request Setup [(ascii ''Transport'', ascii ''RTP/AVP/TCP;interleaved=2-3'')]),
     (demo_server False, ascii ''s2'', demo_request Play [(ascii ''Session'', ascii ''s1'')])]"

definition demo_transport :: "transport_info" where
  "demo_transport = \<lparr>ti_interleaved = Some (2, 3), ti_client_port = None, ti_server_port = None,
     ti_session_id = ascii ''s1'', ti_ssrc = Some 7, ti_mode = Some (ascii ''play'')\<rparr>"

lemma demo_setup:
  "\<exists>resp. conn_step id (ascii ''s1'') (demo_server False) [] (demo_request Setup [(ascii ''Transport'', ascii ''RTP/AVP/TCP;interleaved=2-3'')]) InitState
     = (resp, SetupState (ascii ''s1'') demo_transport (ascii ''live/1''), Continue)"
proof -
  let ?s = "\<lparr>st_path = ascii ''live/1'', st_sdp_body = ascii ''v=0'', st_ssrc = 7\<rparr>"
  have "resolve_setup (demo_server False) (ascii ''rtsp://h/live/1'') InitState = Some ?s" by code_simp
  moreover have "get_header [(ascii ''Transport'', ascii ''RTP/AVP/TCP;interleaved=2-3'')] (ascii ''Transport'')
    = Some (ascii ''RTP/AVP/TCP;interleaved=2-3'')" by code_simp
  moreover have "find_stream_by_uri (ascii ''rtsp://h/live/1'') [(ascii ''live/1'', ?s)] = Some ?s" by code_simp
  moreover have "transport_parse (ascii ''RTP/AVP/TCP;interleaved=2-3'') = Inr \<lparr>ti_interleaved = Some (2, 3),
     ti_client_port = None, ti_server_port = None, ti_session_id = [], ti_ssrc = None, ti_mode = None\<rparr>" by code_simp
  moreover have "check_auth rq (sv_config (demo_server False))" for rq
    by (simp add: check_auth_def demo_server_def register_live_stream_def rtsp_server_new_def)
  ultimately show ?thesis
    by (simp add: conn_step_def demo_request_def handle_setup_def Let_def demo_transport_def)
qed

lemma demo_play:
  "\<exists>resp. conn_step id (ascii ''s2'') (demo_server False) [] (demo_request Play [(ascii ''Session'', ascii ''s1'')])
     (SetupState (ascii ''s1'') demo_transport (ascii ''live/1''))
     = (resp, Playing (ascii ''s1'') demo_transport (ascii ''live/1'') 7, Deliver (ascii ''live/1'') 2 3 7)"
proof -
  have "session_header (demo_request Play [(ascii ''Session'', ascii ''s1'')]) = ascii ''s1''" by code_simp
  moreover have "check_auth rq (sv_config (demo_server False))" for rq
    by (simp add: check_auth_def demo_server_def register_live_stream_def rtsp_server_new_def)
  moreover have "hm_get (sv_live_streams (demo_server False)) (ascii ''live/1'')
    = Some \<lparr>le_sdp_body = ascii ''v=0'', le_ssrc = 7, le_cached_sps = None, le_cached_pps = None\<rparr>" by code_simp
  ultimately show ?thesis
    by (simp add: conn_step_def demo_request_def handle_play_def after_play_def Let_def demo_transport_def)
qed

theorem playing_requires_setup_and_play_witness:
  "snd (snd (conn_run id [] demo_run InitState)) = Deliver (ascii ''live/1'') 2 3 7 \<and>
   (\<exists>sid i j. i < j \<and> issued_at demo_run i sid \<and> played_at demo_run j sid)"
proof -
  obtain out where r: "conn_run id [] demo_run InitState
      = (out, Playing (ascii ''s1'') demo_transport (ascii ''live/1'') 7, Deliver (ascii ''live/1'') 2 3 7)"
    using demo_setup demo_play by (fastforce simp: demo_run_def)
  show ?thesis using playing_requires_setup_and_play [OF r, of "ascii ''live/1''" 2 3 7] r by auto
qed



section \<open>Routing to live streams\<close>

lemma max_by_key_None [simp]: "max_by_key f xs = None \<longleftrightarrow> xs = []"
  by (cases xs) (auto split: option.splits)

lemma max_by_key_Some:
  "max_by_key f xs = Some y \<Longrightarrow> y \<in> set xs \<and> (\<forall>x \<in> set xs. f x \<le> f y)"
proof (induction xs arbitrary: y)
  case (Cons x xs)
  show ?case
  proof (cases "max_by_key f xs")
    case None
    then show ?thesis using Cons.prems by simp
  next
    case (Some z)
    then show ?thesis using Cons.IH [of z] Cons.prems by (fastforce split: if_splits)
  qed
qed simp

lemma contains_append: "contains p (a @ p @ b)"
proof (induction a)
  case Nil
  have "starts_with p (p @ b)" by (simp add: starts_with_def)
  then show ?case by (cases "p @ b") auto
qed simp

lemma starts_with_iff: "starts_with p s \<longleftrightarrow> (\<exists>b. s = p @ b)"
  unfolding starts_with_def by (metis append_eq_conv_conj append_take_drop_id)

lemma contains_iff: "contains p s \<longleftrightarrow> (\<exists>a b. s = a @ p @ b)"
proof
  show "contains p s \<Longrightarrow> \<exists>a b. s = a @ p @ b"
  proof (induction s)
    case (Cons c s)
    show ?case
    proof (cases "starts_with p (c # s)")
      case True
      then show ?thesis unfolding starts_with_iff by (metis append_Nil)
    next
      case False
      then obtain a b where "s = a @ p @ b" using Cons by auto
      then show ?thesis by (metis append_Cons)
    qed
  qed simp
qed (auto simp: contains_append)

lemma ends_with_contains: "ends_with p s \<Longrightarrow> contains p s"
  unfolding ends_with_def contains_iff by (metis append_Nil2 append_take_drop_id)

text \<open>The three tests of the source amount to the last one.\<close>

lemma live_match_iff: "live_match uri path \<longleftrightarrow> (\<exists>a b. uri = a @ slash_path path @ b)"
  unfolding live_match_def contains_iff [symmetric]
  using ends_with_contains contains_append [of "slash_path path" "[]" "[]"] by auto

lemma find_live_None:
  "hm_wf live \<Longrightarrow> find_live_stream uri live = None \<longleftrightarrow> (\<forall>path \<in> dom (hm_get live). \<not> live_match uri path)"
  by (auto simp: find_live_stream_def filter_empty_conv dom_map_of_conv_image_fst)

lemma find_live_Some:
  assumes "hm_wf live" and "find_live_stream uri live = Some (path, entry)"
  shows "hm_get live path = Some entry \<and> live_match uri path \<and>
    (\<forall>p \<in> dom (hm_get live). live_match uri p \<longrightarrow> length (slash_path p) \<le> length (slash_path path))"
proof -
  note m = max_by_key_Some [OF assms(2) [unfolded find_live_stream_def]]
  have "hm_get live path = Some entry" "live_match uri path" using m assms(1) by (auto simp: hm_get_in)
  moreover have "length (slash_path p) \<le> length (slash_path path)"
    if dp: "p \<in> dom (hm_get live)" and lp: "live_match uri p" for p
  proof -
    obtain e where "(p, e) \<in> set live" using dp map_of_SomeD [of live p] by blast
    then show ?thesis using conjunct2 [OF m, rule_format, of "(p, e)"] lp by simp
  qed
  ultimately show ?thesis by blast
qed

text \<open>Stream routing follows the longest mount: a URI finds a live stream exactly when some registered
  path occurs in it, the stream found is registered under its path and no registered path that occurs in the URI is
  longer; and if the matching mounts have different lengths, the answer does not depend on the iteration order of the map.\<close>

theorem live_routing_longest_match:
  assumes wf: "hm_wf live"
  shows "(find_live_stream uri live = None \<longleftrightarrow> (\<forall>path \<in> dom (hm_get live). \<not> live_match uri path)) \<and>
    (\<forall>path entry. find_live_stream uri live = Some (path, entry) \<longrightarrow>
       hm_get live path = Some entry \<and> live_match uri path \<and>
       (\<forall>p \<in> dom (hm_get live). live_match uri p \<longrightarrow> length (slash_path p) \<le> length (slash_path path))) \<and>
    (\<forall>live'. hm_wf live' \<and> hm_get live' = hm_get live \<and>
       inj_on (length \<circ> slash_path) {p \<in> dom (hm_get live). live_match uri p} \<longrightarrow>
       find_live_stream uri live' = find_live_stream uri live)"
proof (intro conjI allI impI)
  show "find_live_stream uri live = None \<longleftrightarrow> (\<forall>path \<in> dom (hm_get live). \<not> live_match uri path)"
    by (rule find_live_None [OF wf])
next
  fix path entry assume "find_live_stream uri live = Some (path, entry)"
  from find_live_Some [OF wf this]
  show "hm_get live path = Some entry" "live_match uri path"
    "\<forall>p \<in> dom (hm_get live). live_match uri p \<longrightarrow> length (slash_path p) \<le> length (slash_path path)"
    by blast+
next
  fix live' assume a: "hm_wf live' \<and> hm_get live' = hm_get live \<and>
    inj_on (length \<circ> slash_path) {p \<in> dom (hm_get live). live_match uri p}"
  show "find_live_stream uri live' = find_live_stream uri live"
  proof (cases "find_live_stream uri live'")
    case None
    then show ?thesis using find_live_None [OF wf, of uri] find_live_None [of live' uri] a by simp
  next
    case (Some pe)
    obtain p e where pe: "pe = (p, e)" by (cases pe)
    have "find_live_stream uri live \<noteq> None"
      using find_live_Some [of live' uri p e] Some pe a find_live_None [OF wf, of uri] by auto
    then obtain p' e' where l: "find_live_stream uri live = Some (p', e')" by auto
    have "length (slash_path p) = length (slash_path p')"
      using find_live_Some [OF wf l] find_live_Some [of live' uri p e] Some pe a by (intro le_antisym) auto
    then have "p = p'" using find_live_Some [OF wf l] find_live_Some [of live' uri p e] Some pe a
      inj_onD [of "length \<circ> slash_path" _ p p'] by auto
    then show ?thesis using find_live_Some [OF wf l] find_live_Some [of live' uri p e] Some pe a l by auto
  qed
qed

text \<open>
  A mount also captures every URI that merely extends it: with only \<^verbatim>\<open>live/1\<close> registered, a
  request for \<^verbatim>\<open>/live/10\<close> is routed to camera 1.
\<close>

lemma find_live_captures_extension:
  "find_live_stream (host @ slash_path path @ suffix) [(path, entry)] = Some (path, entry)"
proof -
  have "live_match (host @ slash_path path @ suffix) path" unfolding live_match_iff by blast
  then show ?thesis by (simp add: find_live_stream_def)
qed

definition demo_mounts :: "(bytes, live_stream_entry) hmap" where
  "demo_mounts = map (\<lambda>(p, s). (p, \<lparr>le_sdp_body = [], le_ssrc = s, le_cached_sps = None, le_cached_pps = None\<rparr>))
     [(ascii ''live/1'', 1), (ascii ''live/1/sub'', 2)]"

theorem live_routing_longest_match_witness:
  "\<exists>entry. find_live_stream (ascii ''rtsp://h/live/1/sub'') demo_mounts = Some (ascii ''live/1/sub'', entry)
     \<and> hm_get demo_mounts (ascii ''live/1/sub'') = Some entry"
proof -
  have wf: "hm_wf demo_mounts" by code_simp
  have "map_option fst (find_live_stream (ascii ''rtsp://h/live/1/sub'') demo_mounts) = Some (ascii ''live/1/sub'')" by code_simp
  then obtain entry where "find_live_stream (ascii ''rtsp://h/live/1/sub'') demo_mounts = Some (ascii ''live/1/sub'', entry)" by auto
  then show ?thesis using live_routing_longest_match [OF wf, of "ascii ''rtsp://h/live/1/sub''"] by blast
qed

section \<open>Reading requests\<close>

text \<open>A request as a client prints it.\<close>

definition print_request :: "parsed_request \<Rightarrow> bytes" where
  "print_request req =
     method_text (rq_method req) @ [32] @ rq_uri req @ [32] @ ascii ''RTSP/1.0'' @ crlf
     @ concat (map header_line (rq_headers req)) @ crlf @ rq_body req"

definition plain :: "bytes \<Rightarrow> bool" where
  "plain s \<longleftrightarrow> (\<forall>b \<in> set s. b < 128) \<and> 10 \<notin> set s"

definition visible_ends :: "bytes \<Rightarrow> bool" where
  "visible_ends s \<longleftrightarrow> s \<noteq> [] \<and> hd s \<in> {33..126} \<and> last s \<in> {33..126}"

definition header_ok :: "bytes \<times> bytes \<Rightarrow> bool" where
  "header_ok = (\<lambda>(name, value). plain name \<and> plain value \<and> 58 \<notin> set name \<and> visible_ends name
     \<and> (value = [] \<or> visible_ends value))"

text \<open>A request whose \<^verbatim>\<open>Content-Length\<close> and \<^verbatim>\<open>CSeq\<close> headers agree with its body and number.\<close>

definition request_ok :: "parsed_request \<Rightarrow> bool" where
  "request_ok req \<longleftrightarrow>
     plain (rq_uri req) \<and> 32 \<notin> set (rq_uri req) \<and> (\<forall>h \<in> set (rq_headers req). header_ok h)
     \<and> header_number (2 ^ 64 - 1) (rq_headers req) (ascii ''Content-Length'') = length (rq_body req)
     \<and> length (rq_body req) \<le> 2 ^ 63 - 1
     \<and> rq_cseq req = of_nat (header_number 4294967295 (rq_headers req) (ascii ''CSeq''))"

lemma take_line_append: "10 \<notin> set x \<Longrightarrow> take_line (x @ 10 # r) = (x @ [10], r)"
  by (induction x) auto

lemma read_line_crlf: "plain x \<Longrightarrow> read_line (x @ crlf @ r) = Inr (x @ crlf, r)"
proof -
  assume x: "plain x"
  have "utf8_valid (x @ crlf)" using x by (intro utf8_ascii) (auto simp: plain_def crlf_def)
  moreover have "take_line ((x @ [13]) @ 10 # r) = ((x @ [13]) @ [10], r)"
    using x by (intro take_line_append) (auto simp: plain_def)
  ultimately show ?thesis by (simp add: read_line_def crlf_def)
qed

lemma strip_eol_crlf [simp]: "strip_eol (x @ crlf) = x"
  by (simp add: strip_eol_def ends_with_def crlf_def)

lemma plain_append [simp]: "plain (x @ y) \<longleftrightarrow> plain x \<and> plain y"
  by (auto simp: plain_def)

lemma method_roundtrip [simp]: "method_from_str (method_text m) = Inr m"
  by (cases m) (simp_all add: method_from_str_def ascii_def)

lemma method_text_plain: "plain (method_text m) \<and> 32 \<notin> set (method_text m)"
  by (cases m) (simp_all add: plain_def ascii_def)

lemma trim_space_visible: "visible_ends v \<Longrightarrow> trim (32 # v) = v"
  unfolding visible_ends_def by (intro trim_space) simp_all

lemma trim_space_nil: "trim [32] = []"
  by code_simp

lemma trim_value: "value = [] \<or> visible_ends value \<Longrightarrow> trim (32 # value) = value"
  using trim_space_visible trim_space_nil by auto

lemma read_headers_print:
  "\<forall>h \<in> set hs. header_ok h \<Longrightarrow>
   read_headers (concat (map header_line hs) @ crlf @ r) acc = Inr (acc @ hs, r)"
proof (induction hs arbitrary: acc)
  case Nil
  then show ?case using read_line_crlf [of "[]" r] strip_eol_crlf [of "[]"]
    by (subst read_headers.simps) (simp add: plain_def crlf_def)
next
  case (Cons h hs)
  obtain name v where h: "h = (name, v)" by (cases h)
  have ok: "plain name" "plain v" "58 \<notin> set name" "visible_ends name" "v = [] \<or> visible_ends v"
    using Cons.prems by (auto simp: header_ok_def h)
  let ?l = "name @ 58 # 32 # v" and ?rest = "concat (map header_line hs) @ crlf @ r"
  have "plain ?l" using ok by (auto simp: plain_def)
  then have "read_line (?l @ crlf @ ?rest) = Inr (?l @ crlf, ?rest)" by (rule read_line_crlf)
  moreover have "concat (map header_line (h # hs)) @ crlf @ r = ?l @ crlf @ ?rest"
    by (simp add: h header_line_def ascii_def)
  moreover have "split_once 58 ?l = Some (name, 32 # v)" using ok(3) by (rule split_once_append)
  moreover have "trim name = name" using ok(4) trim_visible by (simp add: visible_ends_def)
  ultimately show ?case using Cons trim_value [OF ok(5)] strip_eol_crlf [of ?l]
    by (subst read_headers.simps) (simp add: h)
qed

text \<open>C8. The request reader inverts the request syntax: a printed request, followed by any bytes, is
  read back with its method, URI, headers, body and sequence number, and exactly its bytes are consumed, so
  pipelined requests stay separate.\<close>

theorem request_roundtrip:
  assumes "request_ok req"
  shows "read_rtsp_request (print_request req @ rest) = Inr (Some req, rest)"
proof -
  let ?l = "method_text (rq_method req) @ 32 # rq_uri req @ 32 # ascii ''RTSP/1.0''"
  let ?r = "concat (map header_line (rq_headers req)) @ crlf @ rq_body req @ rest"
  have "plain ?l" using assms method_text_plain [of "rq_method req"]
    by (auto simp: request_ok_def plain_def ascii_def)
  then have "read_line (?l @ crlf @ ?r) = Inr (?l @ crlf, ?r)" by (rule read_line_crlf)
  then have line: "read_request_line (print_request req @ rest) = Inr (Some ?l, ?r)"
    using strip_eol_crlf [of ?l] by (subst read_request_line.simps) (simp add: print_request_def)
  have s1: "split_once 32 ?l = Some (method_text (rq_method req), rq_uri req @ 32 # ascii ''RTSP/1.0'')"
    using method_text_plain by (intro split_once_append) simp
  have s2: "split_once 32 (rq_uri req @ 32 # ascii ''RTSP/1.0'') = Some (rq_uri req, ascii ''RTSP/1.0'')"
    using assms by (intro split_once_append) (simp add: request_ok_def)
  have hs: "read_headers ?r [] = Inr (rq_headers req, rq_body req @ rest)"
    using read_headers_print [of "rq_headers req" "rq_body req @ rest" "[]"] assms by (simp add: request_ok_def)
  have n: "\<not> length (rq_body req) > 2 ^ 63 - 1" using assms unfolding request_ok_def by linarith
  show ?thesis
    unfolding read_rtsp_request_def line and_then.simps prod.case option.case s1 s2 method_roundtrip hs Let_def
    using assms n unfolding request_ok_def by simp
qed

definition demo_print :: parsed_request where
  "demo_print = \<lparr>rq_method = Describe, rq_uri = ascii ''/live/1'', rq_headers = [(ascii ''CSeq'', ascii ''7''), (ascii ''Content-Length'', ascii ''2'')],
     rq_body = [1, 2], rq_cseq = 7\<rparr>"

theorem request_roundtrip_witness:
  "read_rtsp_request (print_request demo_print @ print_request demo_print) = Inr (Some demo_print, print_request demo_print)"
proof -
  have "get_header [(ascii ''CSeq'', ascii ''7''), (ascii ''Content-Length'', ascii ''2'')] (ascii ''Content-Length'') = Some (ascii ''2'')" 
    "get_header [(ascii ''CSeq'', ascii ''7''), (ascii ''Content-Length'', ascii ''2'')] (ascii ''CSeq'') = Some (ascii ''7'')" by code_simp+
  then have "request_ok demo_print"
    by (simp add: request_ok_def demo_print_def header_number_def plain_def header_ok_def visible_ends_def ascii_def
        parse_uint_def digit_value_def)
  then show ?thesis by (rule request_roundtrip)
qed

end
