(* ===== verification/Rtcp.thy ===== *)
theory Rtcp
  imports Prelude
begin

text \<open>
  RTCP sender reports, \<^verbatim>\<open>crates/protocols/src/rtcp.rs\<close>. A \<^verbatim>\<open>SystemTime\<close> is the pair of whole
  seconds and nanoseconds since the Unix epoch; a time before the epoch is
  clamped to it by \<^verbatim>\<open>duration_since(..).unwrap_or_default()\<close>, hence natural numbers.

  The source computes the fraction in \<^verbatim>\<open>f64\<close> as \<open>\<lfloor>fl (n / 10^9) * 2^32\<rfloor>\<close>. Its rounding
  error is at most \<open>2^-22\<close>, less than the distance \<open>1 / 5^9\<close> of \<open>n * 2^23 / 5^9\<close> to an integer
  it does not reach, and an integer value is a dyadic quotient and exact, so the value is \<open>n * 2^32 div 10^9\<close>.
\<close>

definition NTP_EPOCH_OFFSET :: u64 where
  "NTP_EPOCH_OFFSET = 2208988800"

definition system_time_to_ntp :: "nat \<Rightarrow> nat \<Rightarrow> u64" where
  "system_time_to_ntp secs_since_epoch subsec_nanos =
     (let secs = of_nat secs_since_epoch + NTP_EPOCH_OFFSET;
          frac = of_nat (subsec_nanos * 2 ^ 32 div 10 ^ 9)
      in push_bit 32 secs OR frac)"

definition ntp_to_rtp :: "u64 \<Rightarrow> u32 \<Rightarrow> u32" where
  "ntp_to_rtp ntp clock_rate =
     (let secs = drop_bit 32 ntp;
          frac = ntp AND 0xFFFFFFFF;
          rtp = secs * ucast clock_rate
                + of_nat (unat frac * unat clock_rate div 2 ^ 32)
      in ucast (rtp AND 0xFFFFFFFF))"

definition build_sender_report :: "u32 \<Rightarrow> u64 \<Rightarrow> u32 \<Rightarrow> u32 \<Rightarrow> u32 \<Rightarrow> bytes" where
  "build_sender_report ssrc ntp_timestamp rtp_timestamp packet_count octet_count =
     [0x80, 200] @ u16_be 6 @ u32_be ssrc @ u64_be ntp_timestamp @ u32_be rtp_timestamp
     @ u32_be packet_count @ u32_be octet_count"

lemma length_sender_report [simp]: "length (build_sender_report s n r p oc) = 28"
  by (simp add: build_sender_report_def)

lemma low32: "w AND 0xFFFFFFFF = take_bit 32 w" for w :: u64
  by (simp add: take_bit_eq_mask mask_eq_exp_minus_1)

lemma ntp_frac_less: "n < 10 ^ 9 \<Longrightarrow> n * 2 ^ 32 div 10 ^ 9 < (2 ^ 32 :: nat)"
  by (simp add: div_less_iff_less_mult)

lemma unat_system_time_to_ntp:
  assumes "secs + 2208988800 < 2 ^ 32" and "nanos < 10 ^ 9"
  shows "unat (system_time_to_ntp secs nanos) = (secs + 2208988800) * 2 ^ 32 + nanos * 2 ^ 32 div 10 ^ 9"
proof -
  have s: "unat (of_nat secs + NTP_EPOCH_OFFSET) = secs + 2208988800"
  proof -
    have "of_nat secs + NTP_EPOCH_OFFSET = of_nat (secs + 2208988800)" by (simp add: NTP_EPOCH_OFFSET_def)
    then show ?thesis using assms(1) by (simp only: unat_of_nat) simp
  qed
  have f: "unat (of_nat (nanos * 2 ^ 32 div 10 ^ 9) :: u64) = nanos * 2 ^ 32 div 10 ^ 9"
    using ntp_frac_less [OF assms(2)] by (simp add: unat_of_nat)
  show ?thesis unfolding system_time_to_ntp_def Let_def
    by (subst unat_pack) (use s f assms(1) ntp_frac_less [OF assms(2)] in simp_all)
qed

lemma mult_div_split: "0 < m \<Longrightarrow> n * r div m = n div m * r + n mod m * r div m" for m n r :: nat
proof -
  assume "0 < m"
  have "n * r = n mod m * r + (n div m * r) * m"
    by (metis add.commute add_mult_distrib div_mult_mod_eq mult.assoc mult.commute)
  then show ?thesis using \<open>0 < m\<close> by (simp only: div_mult_self1)
qed

lemma low_u32_of_nat: "unat (ucast (take_bit 32 (of_nat n :: u64)) :: u32) = n mod 2 ^ 64 mod 2 ^ 32"
proof -
  have "unat (take_bit 32 (of_nat n :: u64)) = n mod 2 ^ 64 mod 2 ^ 32"
    by (simp only: unat_take_bit unat_of_nat) simp
  then show ?thesis by (simp only: unsigned_ucast_eq) (simp add: take_bit_nat_def)
qed

text \<open>The RTP timestamp is the NTP time in clock ticks, rounded down, modulo \<open>2 ^ 32\<close>.\<close>

lemma unat_ntp_to_rtp: "unat (ntp_to_rtp ntp r) = unat ntp * unat r div 2 ^ 32 mod 2 ^ 32"
proof -
  let ?s = "unat ntp div 2 ^ 32" and ?f = "unat ntp mod 2 ^ 32"
  let ?x = "?s * unat r" and ?y = "?f * unat r div 2 ^ 32"
  have frac: "unat (ntp AND 0xFFFFFFFF) = ?f"
    unfolding low32 by (rule unat_take_bit)
  have prod: "drop_bit 32 ntp * ucast r = of_nat ?x"
    by (rule word_unat_eq_iff [THEN iffD2])
       (simp add: unat_word_ariths unat_of_nat unat_drop_bit unsigned_ucast_eq take_bit_eq_mod mod_simps)
  have "ntp_to_rtp ntp r = ucast (take_bit 32 (of_nat (?x + ?y) :: u64))"
    unfolding ntp_to_rtp_def Let_def prod of_nat_add by (simp only: frac [symmetric] low32)
  then have "unat (ntp_to_rtp ntp r) = (?x + ?y) mod 2 ^ 64 mod 2 ^ 32"
    by (simp only: low_u32_of_nat)
  also have "\<dots> = (?x + ?y) mod 2 ^ 32" by (rule mod_mod_cancel) simp
  also have "?x + ?y = unat ntp * unat r div 2 ^ 32" by (rule mult_div_split [symmetric]) simp
  finally show ?thesis .
qed


text \<open>A sender report ties the two clocks together: it is 28 bytes of version 2 and type 200, its NTP field is the wall
  clock since 1900 in units of \<open>2 ^ -32\<close> seconds, its RTP field the same instant in clock ticks, rounded down, modulo \<open>2 ^ 32\<close>,
  and the counts follow.\<close>

theorem sender_report_clocks_agree:
  assumes "secs + 2208988800 < 2 ^ 32" and "nanos < 10 ^ 9"
    and "sr = build_sender_report ssrc (system_time_to_ntp secs nanos) (ntp_to_rtp (system_time_to_ntp secs nanos) rate) packets octets"
  shows "length sr = 28 \<and> take 4 sr = [0x80, 200, 0, 6] \<and> be_u32 (subslice 4 8 sr) = ssrc \<and>
    be_val (subslice 8 16 sr) = (secs + 2208988800) * 2 ^ 32 + nanos * 2 ^ 32 div 10 ^ 9 \<and>
    be_val (subslice 16 20 sr) = ((secs + 2208988800) * 2 ^ 32 + nanos * 2 ^ 32 div 10 ^ 9) * unat rate div 2 ^ 32 mod 2 ^ 32 \<and>
    be_u32 (subslice 20 24 sr) = packets \<and> be_u32 (subslice 24 28 sr) = octets"
proof -
  let ?n = "system_time_to_ntp secs nanos"
  have u16: "u16_be 6 = [0, 6]" by code_simp
  have sl: "sr = [0x80, 200, 0, 6] @ u32_be ssrc @ u64_be ?n @ u32_be (ntp_to_rtp ?n rate) @ u32_be packets @ u32_be octets"
    unfolding assms(3) build_sender_report_def u16 by simp
  have "be_val (u64_be ?n) = unat ?n" using u64_less [of ?n] by (simp add: u64_be_def)
  moreover have "be_val (u32_be (ntp_to_rtp ?n rate)) = unat (ntp_to_rtp ?n rate)"
    using u32_less [of "ntp_to_rtp ?n rate"] by (simp add: u32_be_def)
  ultimately show ?thesis
    unfolding unat_ntp_to_rtp unat_system_time_to_ntp [OF assms(1,2)] sl subslice_def by simp
qed

theorem sender_report_clocks_agree_witness:
  "length (build_sender_report 7 (system_time_to_ntp 0 500000000) (ntp_to_rtp (system_time_to_ntp 0 500000000) 90000) 1 2) = 28"
  using sender_report_clocks_agree [of 0 500000000 _ 7 90000 1 2] by simp

end
