(* ===== verification/RtspDelivery.thy ===== *)
theory RtspDelivery
  imports RtspServer Rtcp
begin

text \<open>
  The delivery loop of a playing client, the inner loop of \<^verbatim>\<open>handle_connection\<close> in
  \<^verbatim>\<open>crates/protocols/src/rtsp_server/server.rs\<close>. The loop selects between a frame of
  the broadcast channel, a request of the client and a five second timer that is
  created anew by every iteration. Here the arrivals are a list of events with the
  time at which they become ready, in milliseconds of the monotonic clock; the timer
  fires when nothing is ready within five seconds of the start of the iteration (an arrival at
  that very instant may win in the source, and loses here). \<open>wall\<close> is the wall clock at an instant
  of the monotonic clock. Writes to the client succeed. \<open>horizon\<close> bounds the run.
\<close>

datatype source_event =
    FrameData bytes | FrameLagged | FrameClosed | ReadRequest parsed_request | ReadEnd

record delivery =
  dl_seq_tracker :: sequence_tracker
  dl_last_activity :: nat
  dl_packet_count :: u32
  dl_octet_count :: u32
  dl_session :: session_state

record delivery_config =
  dc_session_id :: bytes
  dc_channel :: u8
  dc_rtcp_channel :: u8
  dc_ssrc :: u32

definition delivery_new :: "nat \<Rightarrow> session_state \<Rightarrow> delivery" where
  "delivery_new now session =
     \<lparr>dl_seq_tracker = tracker_new, dl_last_activity = now, dl_packet_count = 0, dl_octet_count = 0,
      dl_session = session\<rparr>"

text \<open>Each handler returns the bytes written, the new state and whether the loop goes on.\<close>

definition frame_out :: "bytes result \<Rightarrow> bytes list" where
  "frame_out r = (case r of Inr f \<Rightarrow> [f] | Inl _ \<Rightarrow> [])"

definition on_data :: "delivery_config \<Rightarrow> nat \<Rightarrow> bytes \<Rightarrow> delivery \<Rightarrow> bytes list \<times> delivery \<times> bool" where
  "on_data cfg now data d =
     (let tracker = (case parse_rtp_header_for_tracking data of
                       Some info \<Rightarrow> snd (tracker_check (dl_seq_tracker d) (ri_sequence_number info))
                     | None \<Rightarrow> dl_seq_tracker d);
          payload_size = (if 12 \<le> length data then length data - 12 else 0)
      in (frame_out (build_interleaved_frame (dc_channel cfg) data),
          d\<lparr>dl_seq_tracker := tracker, dl_last_activity := now,
            dl_packet_count := dl_packet_count d + 1,
            dl_octet_count := dl_octet_count d + of_nat payload_size\<rparr>, True))"

definition on_request :: "delivery_config \<Rightarrow> nat \<Rightarrow> parsed_request \<Rightarrow> delivery \<Rightarrow> bytes list \<times> delivery \<times> bool" where
  "on_request cfg now req d =
     (let d' = d\<lparr>dl_last_activity := now\<rparr>
      in case rq_method req of
           Teardown \<Rightarrow>
             let (resp, session) = handle_teardown (rq_cseq req) (dc_session_id cfg) (dl_session d')
             in ([resp], d'\<lparr>dl_session := session\<rparr>, False)
         | Pause \<Rightarrow> ([handle_pause (rq_cseq req) (dc_session_id cfg) (dl_session d')], d', False)
         | _ \<Rightarrow> ([handle_options (rq_cseq req)], d', True))"

fun on_event :: "delivery_config \<Rightarrow> nat \<Rightarrow> source_event \<Rightarrow> delivery \<Rightarrow> bytes list \<times> delivery \<times> bool" where
  "on_event cfg now (FrameData data) d = on_data cfg now data d"
| "on_event cfg now FrameLagged d = ([], d, True)"
| "on_event cfg now FrameClosed d = ([], d, False)"
| "on_event cfg now (ReadRequest req) d = on_request cfg now req d"
| "on_event cfg now ReadEnd d = ([], d, False)"

definition sender_report :: "delivery_config \<Rightarrow> nat \<times> nat \<Rightarrow> delivery \<Rightarrow> bytes" where
  "sender_report cfg = (\<lambda>(secs, nanos) d.
     let ntp_ts = system_time_to_ntp secs nanos
     in build_sender_report (dc_ssrc cfg) ntp_ts (ntp_to_rtp ntp_ts 90000)
          (dl_packet_count d) (dl_octet_count d))"

definition on_tick :: "delivery_config \<Rightarrow> nat \<Rightarrow> nat \<times> nat \<Rightarrow> delivery \<Rightarrow> bytes list \<times> delivery \<times> bool" where
  "on_tick cfg now wall d =
     (if now - dl_last_activity d > 60000
      then let (resp, session) = handle_teardown 0 (dc_session_id cfg) (dl_session d)
           in ([resp], d\<lparr>dl_session := session\<rparr>, False)
      else (frame_out (build_interleaved_frame (dc_rtcp_channel cfg) (sender_report cfg wall d)), d, True))"

definition ready :: "(nat \<times> source_event) list \<Rightarrow> nat \<Rightarrow> (nat \<times> source_event \<times> (nat \<times> source_event) list) option" where
  "ready arrivals t =
     (case arrivals of
        [] \<Rightarrow> None
      | (a, ev) # rest \<Rightarrow> if a < t + 5000 then Some (max t a, ev, rest) else None)"

lemma ready_length: "ready arrivals t = Some (now, ev, rest) \<Longrightarrow> length rest < length arrivals \<and> t \<le> now"
  by (auto simp: ready_def split: list.splits if_splits)

function deliver_run ::
  "(nat \<Rightarrow> nat \<times> nat) \<Rightarrow> delivery_config \<Rightarrow> nat \<Rightarrow> (nat \<times> source_event) list \<Rightarrow> nat \<Rightarrow> delivery \<Rightarrow>
     bytes list \<times> delivery" where
  "deliver_run wall cfg horizon arrivals t d =
     (case ready arrivals t of
        Some (now, ev, rest) \<Rightarrow>
          (case on_event cfg now ev d of
             (out, d', True) \<Rightarrow> (let (out', d'') = deliver_run wall cfg horizon rest now d' in (out @ out', d''))
           | (out, d', False) \<Rightarrow> (out, d'))
      | None \<Rightarrow>
          if horizon < t + 5000 then ([], d)
          else
            (case on_tick cfg (t + 5000) (wall (t + 5000)) d of
               (out, d', True) \<Rightarrow>
                 (let (out', d'') = deliver_run wall cfg horizon arrivals (t + 5000) d' in (out @ out', d''))
             | (out, d', False) \<Rightarrow> (out, d')))"
  by pat_completeness auto
termination
  by (relation "measure (\<lambda>(wall, cfg, horizon, arrivals, t, d). length arrivals + (horizon - t))")
    (auto dest: ready_length)

declare deliver_run.simps [simp del]

section \<open>What a client receives\<close>

text \<open>The state after a list of frames, with the time of the last.\<close>

fun frames_state :: "delivery_config \<Rightarrow> (nat \<times> bytes) list \<Rightarrow> delivery \<Rightarrow> delivery" where
  "frames_state cfg [] d = d"
| "frames_state cfg ((a, data) # fs) d = frames_state cfg fs (fst (snd (on_data cfg a data d)))"

text \<open>Frames that arrive in order and less than five seconds apart, starting at \<open>t\<close>.\<close>

fun steady :: "nat \<Rightarrow> (nat \<times> bytes) list \<Rightarrow> bool" where
  "steady t [] \<longleftrightarrow> True"
| "steady t ((a, data) # fs) \<longleftrightarrow> t \<le> a \<and> a < t + 5000 \<and> steady a fs"

definition frame_arrivals :: "(nat \<times> bytes) list \<Rightarrow> (nat \<times> source_event) list" where
  "frame_arrivals = map (\<lambda>(a, data). (a, FrameData data))"

lemma on_data_out: "length data \<le> 65535 \<Longrightarrow> fst (on_data cfg now data d) = [frame_bytes (dc_channel cfg, data)]"
  by (simp add: on_data_def Let_def frame_out_def frame_bytes_def build_interleaved_frame_def)

lemma on_data_continue: "snd (snd (on_data cfg now data d)) = True"
  by (simp add: on_data_def Let_def)

lemma deliver_frames:
  assumes "steady t fs" and "list_all (\<lambda>(a, data). length data \<le> 65535) fs"
  shows "deliver_run wall cfg horizon (frame_arrivals fs @ rest) t d =
    (let (out, d') = deliver_run wall cfg horizon rest (last (t # map fst fs)) (frames_state cfg fs d)
     in (map (\<lambda>(a, data). frame_bytes (dc_channel cfg, data)) fs @ out, d'))"
  using assms
proof (induction fs arbitrary: t d)
  case Nil
  then show ?case by (simp add: frame_arrivals_def)
next
  case (Cons f fs)
  obtain a data where f: "f = (a, data)" by (cases f)
  have a: "t \<le> a" "a < t + 5000" "steady a fs" and l: "length data \<le> 65535" using Cons.prems by (auto simp: f)
  obtain d' where d': "on_data cfg a data d = ([frame_bytes (dc_channel cfg, data)], d', True)"
    using on_data_out [OF l] on_data_continue by (metis prod.collapse)
  have "frame_arrivals (f # fs) = (a, FrameData data) # frame_arrivals fs" by (simp add: frame_arrivals_def f)
  then show ?case
    using Cons.IH [OF a(3), of d'] Cons.prems a d'
    by (subst deliver_run.simps) (auto simp: f max_def ready_def split: prod.splits)
qed

lemma deliver_frames_end:
  assumes "steady t fs" and "list_all (\<lambda>(a, data). length data \<le> 65535) fs"
  shows "deliver_run wall cfg horizon (frame_arrivals fs @ [(last (t # map fst fs), FrameClosed)]) t d
    = (map (\<lambda>(a, data). frame_bytes (dc_channel cfg, data)) fs, frames_state cfg fs d)"
  unfolding deliver_frames [OF assms] by (subst deliver_run.simps) (simp add: ready_def)

text \<open>The counters of the sender report.\<close>

lemma frames_state_counts:
  "dl_packet_count (frames_state cfg fs d) = dl_packet_count d + of_nat (length fs)
   \<and> (list_all (\<lambda>(a, data). 12 \<le> length data) fs \<longrightarrow>
      dl_octet_count (frames_state cfg fs d) = dl_octet_count d + of_nat (\<Sum>(a, data) \<leftarrow> fs. length data - 12))"
  by (induction cfg fs d rule: frames_state.induct) (auto simp: on_data_def Let_def)


section \<open>Properties\<close>

text \<open>A live stream reaches the client complete and in order: whatever frames of at most 65535 bytes the broadcast
  channel delivers, less than five seconds apart, the client is sent exactly their interleaved frames, and
  the counters for the sender report hold their number and payload size modulo \<open>2 ^ 32\<close>. No
  sender report is among them, because every frame restarts the five second timer.\<close>

theorem delivery_sends_frames_and_no_report:
  assumes "steady t fs" and "list_all (\<lambda>(a, data). 12 \<le> length data \<and> length data \<le> 65535) fs"
    and "deliver_run wall cfg horizon (frame_arrivals fs @ [(last (t # map fst fs), FrameClosed)]) t (delivery_new t session) = (out, d)"
  shows "out = map (\<lambda>(a, data). frame_bytes (dc_channel cfg, data)) fs \<and>
    dl_packet_count d = of_nat (length fs) \<and> dl_octet_count d = of_nat (\<Sum>(a, data) \<leftarrow> fs. length data - 12)"
proof -
  have "list_all (\<lambda>(a, data). length data \<le> 65535) fs" "list_all (\<lambda>(a, data). 12 \<le> length data) fs"
    using assms(2) by (auto simp: list_all_iff)
  moreover from this have "(out, d) = (map (\<lambda>(a, data). frame_bytes (dc_channel cfg, data)) fs, frames_state cfg fs (delivery_new t session))"
    using deliver_frames_end [OF assms(1)] assms(3) by metis
  ultimately show ?thesis
    using frames_state_counts [of cfg fs "delivery_new t session"] by (simp add: delivery_new_def)
qed

theorem delivery_sends_frames_and_no_report_witness:
  "fst (deliver_run (\<lambda>t. (t, 0)) \<lparr>dc_session_id = [], dc_channel = 0, dc_rtcp_channel = 1, dc_ssrc = 7\<rparr> 100000
     (frame_arrivals [(1000, replicate 14 0), (2000, replicate 13 0)] @ [(2000, FrameClosed)]) 0 (delivery_new 0 InitState))
   = [frame_bytes (0, replicate 14 0), frame_bytes (0, replicate 13 0)]"
  (is "fst ?r = _")
proof -
  obtain out d where r: "?r = (out, d)" by (cases ?r)
  show ?thesis
    using delivery_sends_frames_and_no_report [of 0 "[(1000, replicate 14 0), (2000, replicate 13 0)]" "\<lambda>t. (t, 0)"
        "\<lparr>dc_session_id = [], dc_channel = 0, dc_rtcp_channel = 1, dc_ssrc = 7\<rparr>" 100000 InitState out d] r by simp
qed

lemma idle_tick:
  "dl_last_activity d = t \<Longrightarrow> k * 5000 \<le> 60000 \<Longrightarrow>
   on_tick cfg (t + k * 5000) w d = ([frame_bytes (dc_rtcp_channel cfg, sender_report cfg w d)], d, True)"
  by (simp add: on_tick_def frame_out_def build_interleaved_frame_def frame_bytes_def sender_report_def Let_def split: prod.splits)

lemma deliver_idle:
  assumes "dl_last_activity d = t" and "t + 65000 \<le> horizon" and "k \<le> 12"
  shows "deliver_run wall cfg horizon [] (t + k * 5000) d =
    (map (\<lambda>i. frame_bytes (dc_rtcp_channel cfg, sender_report cfg (wall (t + i * 5000)) d)) [Suc k..<13]
       @ [fst (handle_teardown 0 (dc_session_id cfg) (dl_session d))],
     d\<lparr>dl_session := TeardownState\<rparr>)"
  using assms(3)
proof (induction "12 - k" arbitrary: k)
  case 0
  then have "k = 12" by simp
  then show ?case using assms(1,2)
    by (subst deliver_run.simps) (simp add: ready_def on_tick_def handle_teardown_def)
next
  case (Suc n)
  then have k: "k < 12" "n = 12 - Suc k" "Suc k \<le> 12" by simp_all
  have e: "t + k * 5000 + 5000 = t + Suc k * 5000" by simp
  have "[Suc k..<13] = Suc k # [Suc (Suc k)..<13]" using k by (simp add: upt_conv_Cons)
  moreover have "\<not> horizon < t + Suc k * 5000" using k assms(2) by simp
  moreover have "Suc k * 5000 \<le> 60000" using k by simp
  ultimately show ?case
    using Suc.hyps(1) [OF k(2,3)] idle_tick [OF assms(1), of "Suc k"]
    by (subst deliver_run.simps) (simp only: e, simp add: ready_def)
qed



end
