(* ===== verification/RateLimit.thy ===== *)
theory RateLimit
  imports HashMap
begin

text \<open>
  The login rate limiter, \<^verbatim>\<open>crates/security/src/rate_limit.rs\<close>: a bounded table of
  attempt counters, one per client key, each with the start of its window in Unix
  seconds (\<^verbatim>\<open>u64\<close>). The process-wide table is the state that the operations pass
  on; the clock reading is an argument.
\<close>

record rate_limit_entry =
  rl_count :: nat
  rl_window_start :: u64

type_synonym rl_state = "(bytes, rate_limit_entry) hmap"

definition MAX_TRACKED_CLIENTS :: nat where
  "MAX_TRACKED_CLIENTS = 8192"

definition is_window_expired :: "rate_limit_entry \<Rightarrow> u64 \<Rightarrow> u64 \<Rightarrow> bool" where
  "is_window_expired entry now window_secs \<longleftrightarrow> rl_window_start entry + window_secs \<le> now"

definition check_rate_limit :: "u64 \<Rightarrow> bytes \<Rightarrow> nat \<Rightarrow> u64 \<Rightarrow> rl_state \<Rightarrow> bool \<times> rl_state" where
  "check_rate_limit now ip limit window_secs state =
     (let state = (if MAX_TRACKED_CLIENTS div 2 \<le> length state
                   then hm_retain (\<lambda>_ e. \<not> is_window_expired e now window_secs) state else state)
      in if MAX_TRACKED_CLIENTS \<le> length state then (False, state)
         else
           (case hm_get state ip of
              Some entry \<Rightarrow>
                if \<not> is_window_expired entry now window_secs then
                  (if rl_count entry < limit
                   then (True, hm_insert ip (entry\<lparr>rl_count := rl_count entry + 1\<rparr>) state)
                   else (False, state))
                else (True, hm_insert ip (entry\<lparr>rl_count := 1, rl_window_start := now\<rparr>) state)
            | None \<Rightarrow> (True, hm_insert ip \<lparr>rl_count = 1, rl_window_start = now\<rparr> state)))"

definition reset_rate_limit :: "bytes \<Rightarrow> rl_state \<Rightarrow> rl_state" where
  "reset_rate_limit ip state = hm_remove ip state"

definition reset_all :: "rl_state \<Rightarrow> rl_state" where
  "reset_all state = []"

record rate_limit_config =
  rc_max_requests :: nat
  rc_window_secs :: u64

definition DEFAULT_RATE_LIMIT_CONFIG :: rate_limit_config where
  "DEFAULT_RATE_LIMIT_CONFIG = \<lparr>rc_max_requests = 20, rc_window_secs = 60\<rparr>"

text \<open>The configuration cell: the first initialisation wins.\<close>

definition init_rate_limit_config :: "nat \<Rightarrow> u64 \<Rightarrow> rate_limit_config option \<Rightarrow> rate_limit_config option" where
  "init_rate_limit_config max_requests window_secs cell =
     (case cell of None \<Rightarrow> Some \<lparr>rc_max_requests = max_requests, rc_window_secs = window_secs\<rparr> | Some c \<Rightarrow> Some c)"

definition get_rate_limit_config :: "rate_limit_config option \<Rightarrow> rate_limit_config" where
  "get_rate_limit_config cell = (case cell of Some c \<Rightarrow> c | None \<Rightarrow> DEFAULT_RATE_LIMIT_CONFIG)"

section \<open>The table stays bounded\<close>

datatype rl_op = Check u64 bytes nat u64 | ResetKey bytes | ResetAll

fun rl_step :: "rl_op \<Rightarrow> rl_state \<Rightarrow> rl_state" where
  "rl_step (Check now ip limit window) s = snd (check_rate_limit now ip limit window s)"
| "rl_step (ResetKey ip) s = reset_rate_limit ip s"
| "rl_step ResetAll s = reset_all s"

definition rl_inv :: "rl_state \<Rightarrow> bool" where
  "rl_inv s \<longleftrightarrow> hm_wf s \<and> length s \<le> MAX_TRACKED_CLIENTS"

definition prune :: "u64 \<Rightarrow> u64 \<Rightarrow> rl_state \<Rightarrow> rl_state" where
  "prune now window s =
     (if MAX_TRACKED_CLIENTS div 2 \<le> length s then hm_retain (\<lambda>_ e. \<not> is_window_expired e now window) s else s)"

lemma check_rate_limit_prune:
  "check_rate_limit now ip limit window s =
     (let s = prune now window s
      in if MAX_TRACKED_CLIENTS \<le> length s then (False, s)
         else
           (case hm_get s ip of
              Some entry \<Rightarrow>
                if \<not> is_window_expired entry now window then
                  (if rl_count entry < limit then (True, hm_insert ip (entry\<lparr>rl_count := rl_count entry + 1\<rparr>) s)
                   else (False, s))
                else (True, hm_insert ip (entry\<lparr>rl_count := 1, rl_window_start := now\<rparr>) s)
            | None \<Rightarrow> (True, hm_insert ip \<lparr>rl_count = 1, rl_window_start = now\<rparr> s)))"
  by (simp add: check_rate_limit_def prune_def)

lemma prune_wf [simp]: "hm_wf s \<Longrightarrow> hm_wf (prune now window s)"
  by (simp add: prune_def)

lemma prune_length: "length (prune now window s) \<le> length s"
  by (simp add: prune_def length_hm_retain_le)

lemma rl_inv_check: "rl_inv s \<Longrightarrow> rl_inv (snd (check_rate_limit now ip limit window s))"
  using prune_length [of now window s]
  by (auto simp: rl_inv_def check_rate_limit_prune Let_def length_hm_insert split: option.splits)

interpretation rate_limiter: inv_system "\<lambda>s. s = []" rl_step rl_inv
proof
  fix s op assume "rl_inv s"
  then show "rl_inv (rl_step op s)"
    using length_hm_remove_le [of _ s]
    by (cases op) (simp_all add: rl_inv_check reset_rate_limit_def reset_all_def, auto simp: rl_inv_def intro: le_trans)
qed (auto simp: rl_inv_def)

text \<open>The attempt table is bounded: no sequence of requests, with any client keys, clock readings, limits and windows, and of
  resets makes it hold more than 8192 clients, and it never holds a client twice.\<close>

theorem rate_limit_table_bounded:
  "length (fold rl_step ops []) \<le> 8192 \<and> hm_wf (fold rl_step ops [])"
  using rate_limiter.inv_reachable [of "[]" ops] by (simp add: rl_inv_def MAX_TRACKED_CLIENTS_def)

section \<open>The limit\<close>

text \<open>How often a client is let through in a run with one limit and window.\<close>

fun allowed :: "bytes \<Rightarrow> nat \<Rightarrow> u64 \<Rightarrow> (u64 \<times> bytes) list \<Rightarrow> rl_state \<Rightarrow> nat" where
  "allowed ip limit window [] s = 0"
| "allowed ip limit window ((now, k) # reqs) s =
     (case check_rate_limit now k limit window s of
        (ok, s') \<Rightarrow> (if ok \<and> k = ip then 1 else 0) + allowed ip limit window reqs s')"

text \<open>
  What a client has left in an interval that starts at \<open>t0\<close> and lasts one window: the rest
  of the window it is in, and one more window if that one began before the interval.
\<close>

definition left_over :: "bytes \<Rightarrow> nat \<Rightarrow> nat \<Rightarrow> rl_state \<Rightarrow> nat" where
  "left_over ip limit t0 s =
     (case hm_get s ip of
        None \<Rightarrow> max 1 limit
      | Some e \<Rightarrow> (max 1 limit - rl_count e) + (if unat (rl_window_start e) < t0 then max 1 limit else 0))"

definition no_wrap :: "u64 \<Rightarrow> rl_state \<Rightarrow> bool" where
  "no_wrap window s \<longleftrightarrow> (\<forall>k e. hm_get s k = Some e \<longrightarrow> unat (rl_window_start e) + unat window < 2 ^ 64)"

lemma expired_iff:
  "unat (rl_window_start e) + unat window < 2 ^ 64 \<Longrightarrow>
   is_window_expired e now window \<longleftrightarrow> unat (rl_window_start e) + unat window \<le> unat now"
  by (simp add: is_window_expired_def word_le_nat_alt unat_word_ariths)

lemma prune_get:
  "hm_wf s \<Longrightarrow> hm_get (prune now window s) k = hm_get s k \<or>
     (\<exists>e. hm_get s k = Some e \<and> is_window_expired e now window \<and> hm_get (prune now window s) k = None)"
  by (auto simp: prune_def hm_get_retain split: option.splits)

lemma prune_no_wrap: "hm_wf s \<Longrightarrow> no_wrap window s \<Longrightarrow> no_wrap window (prune now window s)"
  unfolding no_wrap_def using prune_get by (metis option.distinct(1))

lemma prune_left_over:
  assumes "hm_wf s" and "no_wrap window s" and "unat now < t0 + unat window"
  shows "left_over ip limit t0 (prune now window s) \<le> left_over ip limit t0 s"
proof (rule disjE [OF prune_get [OF assms(1), of now window ip]])
  assume "hm_get (prune now window s) ip = hm_get s ip"
  then show ?thesis by (simp add: left_over_def)
next
  assume "\<exists>e. hm_get s ip = Some e \<and> is_window_expired e now window \<and> hm_get (prune now window s) ip = None"
  then obtain e where e: "hm_get s ip = Some e" "is_window_expired e now window" "hm_get (prune now window s) ip = None" by blast
  then have "unat (rl_window_start e) < t0" using assms(2,3) expired_iff by (fastforce simp: no_wrap_def)
  then show ?thesis using e by (simp add: left_over_def)
qed

text \<open>One request: an allowed one of the client uses up a unit of what it has left.\<close>

lemma check_left_over:
  assumes "hm_wf s" and "no_wrap window s" and t: "t0 \<le> unat now" "unat now < t0 + unat window"
    and nw: "unat now + unat window < 2 ^ 64"
    and c: "check_rate_limit now k limit window s = (ok, s')"
  shows "hm_wf s' \<and> no_wrap window s' \<and>
    (if ok \<and> k = ip then 1 else 0) + left_over ip limit t0 s' \<le> left_over ip limit t0 s"
proof -
  let ?p = "prune now window s"
  have p: "hm_wf ?p" "no_wrap window ?p" "left_over ip limit t0 ?p \<le> left_over ip limit t0 s"
    using assms by (simp_all add: prune_no_wrap prune_left_over)
  have ck: "(ok, s') = (if MAX_TRACKED_CLIENTS \<le> length ?p then (False, ?p)
      else (case hm_get ?p k of
              Some entry \<Rightarrow>
                if \<not> is_window_expired entry now window then
                  (if rl_count entry < limit then (True, hm_insert k (entry\<lparr>rl_count := rl_count entry + 1\<rparr>) ?p)
                   else (False, ?p))
                else (True, hm_insert k (entry\<lparr>rl_count := 1, rl_window_start := now\<rparr>) ?p)
            | None \<Rightarrow> (True, hm_insert k \<lparr>rl_count = 1, rl_window_start = now\<rparr> ?p)))"
    using c unfolding check_rate_limit_prune Let_def by (rule sym)
  consider "ok = False" "s' = ?p"
    | e where "hm_get ?p k = Some e" "rl_count e < limit" "ok" "s' = hm_insert k (e\<lparr>rl_count := rl_count e + 1\<rparr>) ?p"
    | e where "hm_get ?p k = Some e" "is_window_expired e now window" "ok"
        "s' = hm_insert k (e\<lparr>rl_count := 1, rl_window_start := now\<rparr>) ?p"
    | "hm_get ?p k = None" "ok" "s' = hm_insert k \<lparr>rl_count = 1, rl_window_start = now\<rparr> ?p"
  proof (cases "MAX_TRACKED_CLIENTS \<le> length ?p")
    case True
    then show ?thesis using ck that(1) by (simp only: if_True) simp
  next
    case False
    then show ?thesis using ck that by (cases "hm_get ?p k") (simp_all split: if_splits)
  qed
  then show ?thesis
  proof cases
    case 1
    then show ?thesis using p by simp
  next
    case (2 e)
    then show ?thesis using p by (auto simp: no_wrap_def left_over_def split: option.splits)
  next
    case (3 e)
    have "unat (rl_window_start e) < t0" using 3 p(2) t(2) expired_iff by (fastforce simp: no_wrap_def)
    then show ?thesis using 3 p nw t(1) by (auto simp: no_wrap_def left_over_def split: option.splits)
  next
    case 4
    then show ?thesis using p nw t(1) by (auto simp: no_wrap_def left_over_def split: option.splits)
  qed
qed

lemma allowed_left_over:
  assumes "hm_wf s" and "no_wrap window s"
    and "\<forall>(now, k) \<in> set reqs. t0 \<le> unat now \<and> unat now < t0 + unat window \<and> unat now + unat window < 2 ^ 64"
  shows "allowed ip limit window reqs s \<le> left_over ip limit t0 s"
  using assms
proof (induction reqs arbitrary: s)
  case (Cons r reqs)
  obtain now k where r: "r = (now, k)" by (cases r)
  obtain ok s' where c: "check_rate_limit now k limit window s = (ok, s')" by fastforce
  have "hm_wf s' \<and> no_wrap window s' \<and>
    (if ok \<and> k = ip then 1 else 0) + left_over ip limit t0 s' \<le> left_over ip limit t0 s"
    using Cons.prems by (intro check_left_over [OF Cons.prems(1,2) _ _ _ c]) (auto simp: r)
  moreover from this have "allowed ip limit window reqs s' \<le> left_over ip limit t0 s'"
    using Cons.prems(3) by (intro Cons.IH) auto
  ultimately show ?case by (simp add: r c)
qed simp

lemma left_over_le: "left_over ip limit t0 s \<le> 2 * max 1 limit"
  by (auto simp: left_over_def split: option.splits)

text \<open>C17. Brute force is limited: within any interval of one window, whatever the other clients do, a client is let through
  at most twice the limit (the limit of the window it was in and that of the one it begins); with no earlier attempt on record, at most the limit.\<close>

theorem rate_limit_enforced:
  assumes "hm_wf s" and "no_wrap window s"
    and "\<forall>(now, k) \<in> set reqs. t0 \<le> unat now \<and> unat now < t0 + unat window \<and> unat now + unat window < 2 ^ 64"
  shows "allowed ip limit window reqs s \<le> 2 * max 1 limit \<and>
    (hm_get s ip = None \<longrightarrow> allowed ip limit window reqs s \<le> max 1 limit)"
  using allowed_left_over [OF assms, of ip limit] left_over_le [of ip limit t0 s]
  by (auto simp: left_over_def)

theorem rate_limit_enforced_witness:
  "allowed [1] 2 60 [(100, [1]), (101, [1]), (102, [2]), (103, [1])] [] \<le> 2"
  using rate_limit_enforced [of "[]" 60 "[(100, [1]), (101, [1]), (102, [2]), (103, [1])]" 100 "[1]" 2]
  by (simp add: no_wrap_def)

text \<open>
  The factor two is attained: at the end of one window and the start of the next a client gets the full limit
  twice within a second, although the documentation of the function calls the window sliding.
\<close>

lemma window_is_fixed_not_sliding:
  "allowed [1] 2 60 [(100, [1]), (159, [1]), (160, [1]), (161, [1])] [] = 4"
  by (simp add: check_rate_limit_def MAX_TRACKED_CLIENTS_def is_window_expired_def)

text \<open>When 8192 clients are inside their windows, every request is refused, also of a client that is in the table and has attempts left: the
  saturation test comes before the lookup, although its message speaks of new client keys.\<close>

theorem saturated_table_rejects_known_clients:
  assumes "hm_wf s" and "length s = MAX_TRACKED_CLIENTS"
    and "\<forall>(k, e) \<in> set s. \<not> is_window_expired e now window"
  shows "check_rate_limit now ip limit window s = (False, s)"
proof -
  have "hm_retain (\<lambda>_ e. \<not> is_window_expired e now window) s = s"
    using assms(3) by (auto simp: hm_retain_def intro!: filter_True)
  then show ?thesis using assms(2) by (simp add: check_rate_limit_prune prune_def)
qed

definition full_table :: rl_state where
  "full_table = map (\<lambda>i. (be_bytes 2 i, \<lparr>rl_count = 1, rl_window_start = 100\<rparr>)) [0..<8192]"

lemma full_table_wf: "hm_wf full_table"
proof -
  have "inj_on (be_bytes 2) {0..<8192}"
    by (rule inj_on_inverseI [where g = be_val]) simp
  then show ?thesis by (simp add: hm_wf_def full_table_def comp_def distinct_map)
qed

theorem saturated_table_rejects_known_clients_witness:
  "check_rate_limit 101 (be_bytes 2 7) 20 60 full_table = (False, full_table)"
proof (rule saturated_table_rejects_known_clients [OF full_table_wf])
  show "length full_table = MAX_TRACKED_CLIENTS" by (simp add: full_table_def MAX_TRACKED_CLIENTS_def)
  show "\<forall>(k, e) \<in> set full_table. \<not> is_window_expired e 101 60"
    by (auto simp: full_table_def is_window_expired_def)
qed

end
