(* ===== verification/Resource.thy ===== *)
theory Resource
  imports HashMap
begin

text \<open>
  Stream resources, \<^verbatim>\<open>crates/streaming/src/resource.rs\<close>: the per-stream memory budget and
  the stream lifecycle. Both are maps from stream ids behind a lock; an operation
  is a function on the map, atomic as the lock makes it. The watch channel by which an entry announces its
  state carries the state stored in the entry. \<^verbatim>\<open>usize\<close> sums saturate at \<open>2 ^ 64 - 1\<close>.
\<close>

type_synonym uuid = "128 word"

definition usize_max :: nat where
  "usize_max = 2 ^ 64 - 1"

definition saturating_add :: "nat \<Rightarrow> nat \<Rightarrow> nat" where
  "saturating_add a b = min usize_max (a + b)"

section \<open>Memory budgets\<close>

record stream_budget =
  sb_inner :: "(uuid, nat) hmap"
  sb_max_per_stream :: nat

definition DEFAULT_MAX_BUDGET_PER_STREAM :: nat where
  "DEFAULT_MAX_BUDGET_PER_STREAM = 10 * 1024 * 1024"

definition budget_with_max_per_stream :: "nat \<Rightarrow> stream_budget" where
  "budget_with_max_per_stream m = \<lparr>sb_inner = [], sb_max_per_stream = m\<rparr>"

definition budget_new :: stream_budget where
  "budget_new = budget_with_max_per_stream DEFAULT_MAX_BUDGET_PER_STREAM"

definition budget_allocated :: "uuid \<Rightarrow> stream_budget \<Rightarrow> nat" where
  "budget_allocated stream_id b = (case hm_get (sb_inner b) stream_id of Some n \<Rightarrow> n | None \<Rightarrow> 0)"

text \<open>The entry is created before the test, so a refused request leaves an entry of zero bytes.\<close>

definition try_alloc :: "uuid \<Rightarrow> nat \<Rightarrow> stream_budget \<Rightarrow> unit result \<times> stream_budget" where
  "try_alloc stream_id bytes b =
     (let current = budget_allocated stream_id b;
          b = b\<lparr>sb_inner := hm_insert stream_id current (sb_inner b)\<rparr>;
          new_total = saturating_add current bytes
      in if sb_max_per_stream b < new_total
         then (Inl (Bail ''503: Per-stream memory budget exceeded''), b)
         else (Inr (), b\<lparr>sb_inner := hm_insert stream_id new_total (sb_inner b)\<rparr>))"

definition budget_release :: "uuid \<Rightarrow> nat \<Rightarrow> stream_budget \<Rightarrow> stream_budget" where
  "budget_release stream_id bytes b =
     (case hm_get (sb_inner b) stream_id of
        None \<Rightarrow> b
      | Some current \<Rightarrow>
          let rest = current - bytes;
              inner = hm_insert stream_id rest (sb_inner b)
          in b\<lparr>sb_inner := (if rest = 0 then hm_remove stream_id inner else inner)\<rparr>)"

definition remove_stream :: "uuid \<Rightarrow> stream_budget \<Rightarrow> stream_budget" where
  "remove_stream stream_id b = b\<lparr>sb_inner := hm_remove stream_id (sb_inner b)\<rparr>"

definition budget_stream_count :: "stream_budget \<Rightarrow> nat" where
  "budget_stream_count b = length (sb_inner b)"

definition total_allocated :: "stream_budget \<Rightarrow> nat" where
  "total_allocated b = sum_list (map snd (sb_inner b))"

definition stream_budgets :: "stream_budget \<Rightarrow> (uuid \<times> nat) list" where
  "stream_budgets b = sb_inner b"

text \<open>The specification: a counter per stream.\<close>

datatype budget_op = Alloc uuid nat | Release uuid nat | Remove uuid

fun budget_step :: "budget_op \<Rightarrow> stream_budget \<Rightarrow> stream_budget" where
  "budget_step (Alloc i n) b = snd (try_alloc i n b)"
| "budget_step (Release i n) b = budget_release i n b"
| "budget_step (Remove i) b = remove_stream i b"

fun spec_step :: "nat \<Rightarrow> budget_op \<Rightarrow> (uuid \<Rightarrow> nat) \<Rightarrow> (uuid \<Rightarrow> nat)" where
  "spec_step limit (Alloc i n) f = (if f i + n \<le> limit then f(i := f i + n) else f)"
| "spec_step limit (Release i n) f = f(i := f i - n)"
| "spec_step limit (Remove i) f = f(i := 0)"

definition budget_inv :: "nat \<Rightarrow> stream_budget \<Rightarrow> bool" where
  "budget_inv limit b \<longleftrightarrow> hm_wf (sb_inner b) \<and> sb_max_per_stream b = limit \<and> (\<forall>i. budget_allocated i b \<le> limit)"

lemma allocated_insert [simp]:
  "budget_allocated j (b\<lparr>sb_inner := hm_insert i n m\<rparr>) = (if j = i then n else budget_allocated j (b\<lparr>sb_inner := m\<rparr>))"
  by (simp add: budget_allocated_def)

lemma allocated_remove [simp]:
  "budget_allocated j (b\<lparr>sb_inner := hm_remove i m\<rparr>) = (if j = i then 0 else budget_allocated j (b\<lparr>sb_inner := m\<rparr>))"
  by (simp add: budget_allocated_def)

lemma allocated_same [simp]: "budget_allocated j (b\<lparr>sb_inner := sb_inner b\<rparr>) = budget_allocated j b"
  by (simp add: budget_allocated_def)

lemma try_alloc_allocated:
  assumes "sb_max_per_stream b < usize_max"
  shows "fst (try_alloc i n b) = Inr () \<longleftrightarrow> budget_allocated i b + n \<le> sb_max_per_stream b"
    and "budget_allocated j (snd (try_alloc i n b)) =
      (if j = i \<and> budget_allocated i b + n \<le> sb_max_per_stream b then budget_allocated i b + n else budget_allocated j b)"
  using assms by (auto simp: try_alloc_def Let_def saturating_add_def)

lemma release_allocated: "budget_allocated j (budget_release i n b) = (if j = i then budget_allocated i b - n else budget_allocated j b)"
  by (auto simp: budget_release_def Let_def budget_allocated_def split: option.splits)

lemma remove_allocated: "budget_allocated j (remove_stream i b) = (if j = i then 0 else budget_allocated j b)"
  by (simp add: remove_stream_def)

lemma budget_step_frame:
  "sb_max_per_stream (budget_step op b) = sb_max_per_stream b"
  "hm_wf (sb_inner b) \<Longrightarrow> hm_wf (sb_inner (budget_step op b))"
  by (cases op; auto simp: try_alloc_def budget_release_def remove_stream_def Let_def split: option.splits)+

text \<open>Every operation refines its specification.\<close>

lemma budget_step_refines:
  "limit < usize_max \<Longrightarrow> sb_max_per_stream b = limit \<Longrightarrow>
   (\<lambda>i. budget_allocated i (budget_step op b)) = spec_step limit op (\<lambda>i. budget_allocated i b)"
  by (cases op) (auto simp: try_alloc_allocated release_allocated remove_allocated)

lemma spec_step_le: "\<forall>i. f i \<le> limit \<Longrightarrow> \<forall>i. spec_step limit op f i \<le> limit"
  by (cases op) (auto intro: le_trans [OF diff_le_self])

lemma budget_step_inv: "limit < usize_max \<Longrightarrow> budget_inv limit b \<Longrightarrow> budget_inv limit (budget_step op b)"
  using budget_step_refines [of limit b op] spec_step_le [of "\<lambda>i. budget_allocated i b" limit op]
  by (simp add: budget_inv_def budget_step_frame fun_eq_iff)

lemma budget_inv_new: "budget_inv limit (budget_with_max_per_stream limit)"
  by (simp add: budget_with_max_per_stream_def budget_inv_def budget_allocated_def)

text \<open>
  A limit below \<^verbatim>\<open>usize::MAX\<close> is a premise of the invariant, so the system pairs
  the state with it.
\<close>

interpretation budget: inv_system
  "\<lambda>(limit, b). limit < usize_max \<and> b = budget_with_max_per_stream limit"
  "\<lambda>op (limit, b). (limit, budget_step op b)" "\<lambda>(limit, b). limit < usize_max \<and> budget_inv limit b"
  by unfold_locales (auto simp: budget_step_inv budget_inv_new)

lemma fold_pair: "fold (\<lambda>op (limit, b). (limit, g op b)) ops (limit, b) = (limit, fold g ops b)"
  by (induction ops arbitrary: b) simp_all

lemma budget_run_refines:
  "limit < usize_max \<Longrightarrow> sb_max_per_stream b = limit \<Longrightarrow>
   (\<lambda>i. budget_allocated i (fold budget_step ops b)) = fold (spec_step limit) ops (\<lambda>i. budget_allocated i b)"
  by (induction ops arbitrary: b) (simp_all add: budget_step_refines budget_step_frame)

text \<open>C15. The memory budget implements one counter per stream: after any sequence of reservations, releases and removals
  the bytes on record are those of the specification, where a reservation counts exactly if it keeps the stream within the
  limit, so no stream ever exceeds its limit and no stream affects another.\<close>

theorem budget_refines_counters:
  assumes "limit < usize_max"
  shows "(\<lambda>i. budget_allocated i (fold budget_step ops (budget_with_max_per_stream limit))) = fold (spec_step limit) ops (\<lambda>i. 0)
    \<and> (\<forall>i. budget_allocated i (fold budget_step ops (budget_with_max_per_stream limit)) \<le> limit)"
  using budget_run_refines [OF assms, of "budget_with_max_per_stream limit" ops]
    budget.inv_reachable [of "(limit, budget_with_max_per_stream limit)" ops] assms
  by (simp add: fold_pair budget_inv_def) (simp add: budget_with_max_per_stream_def budget_allocated_def)

theorem budget_refines_counters_witness:
  "budget_allocated 1 (fold budget_step [Alloc 1 60, Alloc 2 100, Alloc 1 50, Release 1 10] (budget_with_max_per_stream 100)) = 50"
  using budget_refines_counters [of 100 "[Alloc 1 60, Alloc 2 100, Alloc 1 50, Release 1 10]"]
  by (simp add: usize_max_def fun_eq_iff)

text \<open>A refused reservation of an unknown stream leaves an entry behind, although an entry of zero bytes is documented to be removed.\<close>

lemma refused_alloc_leaves_entry:
  "budget_stream_count (snd (try_alloc 1 101 (budget_with_max_per_stream 100))) = 1"
  by (simp add: try_alloc_def budget_with_max_per_stream_def budget_stream_count_def budget_allocated_def saturating_add_def usize_max_def)

section \<open>Lifecycle\<close>

datatype stream_state = Starting | Running | Stopping | Stopped | Error

fun can_transition_to :: "stream_state \<Rightarrow> stream_state \<Rightarrow> bool" where
  "can_transition_to Starting s = (s = Running \<or> s = Error)"
| "can_transition_to Running s = (s = Stopping \<or> s = Error)"
| "can_transition_to Stopping s = (s = Stopped \<or> s = Error)"
| "can_transition_to Stopped s = (s = Starting)"
| "can_transition_to Error s = (s = Starting)"

type_synonym stream_entries = "(uuid, stream_state) hmap"

definition lifecycle_start :: "uuid \<Rightarrow> stream_entries \<Rightarrow> stream_entries" where
  "lifecycle_start i m = hm_insert i Starting m"

definition transition :: "uuid \<Rightarrow> stream_state \<Rightarrow> stream_entries \<Rightarrow> unit result \<times> stream_entries" where
  "transition i s m =
     (case hm_get m i of
        None \<Rightarrow> (Inl (Bail ''not found in lifecycle''), m)
      | Some cur \<Rightarrow>
          if can_transition_to cur s then (Inr (), hm_insert i s m)
          else (Inl (Bail ''Invalid transition''), m))"

text \<open>Two transitions with \<^verbatim>\<open>?\<close>: the second runs only after the first.\<close>

definition stop_transitions :: "uuid \<Rightarrow> stream_entries \<Rightarrow> unit result \<times> stream_entries" where
  "stop_transitions i m =
     (case transition i Stopping m of
        (Inl e, m') \<Rightarrow> (Inl e, m')
      | (Inr _, m') \<Rightarrow> transition i Stopped m')"

definition lifecycle_stop :: "uuid \<Rightarrow> stream_entries \<Rightarrow> unit result \<times> stream_entries" where
  "lifecycle_stop i m =
     (case hm_get m i of
        None \<Rightarrow> (Inl (Bail ''not found in lifecycle''), m)
      | Some Starting \<Rightarrow> stop_transitions i m
      | Some Running \<Rightarrow> stop_transitions i m
      | Some Stopped \<Rightarrow> (Inl (Bail ''already stopped''), m)
      | Some Error \<Rightarrow> (Inl (Bail ''in error state''), m)
      | Some Stopping \<Rightarrow> (Inl (Bail ''already stopping''), m))"

definition restart :: "uuid \<Rightarrow> stream_entries \<Rightarrow> unit result \<times> stream_entries" where
  "restart i m =
     (case hm_get m i of
        None \<Rightarrow> (Inl (Bail ''not found in lifecycle''), m)
      | Some s \<Rightarrow>
          if s = Stopped \<or> s = Error then transition i Starting m
          else (Inl (Bail ''cannot restart''), m))"

definition lifecycle_state :: "uuid \<Rightarrow> stream_entries \<Rightarrow> stream_state option" where
  "lifecycle_state i m = hm_get m i"

definition lifecycle_remove :: "uuid \<Rightarrow> stream_entries \<Rightarrow> stream_entries" where
  "lifecycle_remove i m = hm_remove i m"

definition active_count :: "stream_entries \<Rightarrow> nat" where
  "active_count m = length (filter (\<lambda>(i, s). s = Starting \<or> s = Running) m)"

lemmas lifecycle_defs = transition_def stop_transitions_def lifecycle_stop_def restart_def lifecycle_state_def

text \<open>Stopping works exactly on running streams and goes all the way: a running stream ends stopped, every other
  state, \<open>Starting\<close> included (which the documentation lists as valid), gives an error, and a failed stop changes nothing.\<close>

theorem stop_exactly_when_running:
  "(fst (lifecycle_stop i m) = Inr () \<longleftrightarrow> lifecycle_state i m = Some Running) \<and>
   (lifecycle_state i m = Some Running \<longrightarrow>
      (\<forall>j. lifecycle_state j (snd (lifecycle_stop i m)) = (if j = i then Some Stopped else lifecycle_state j m))) \<and>
   (lifecycle_state i m \<noteq> Some Running \<longrightarrow> snd (lifecycle_stop i m) = m)"
  by (auto simp: lifecycle_defs split: option.splits stream_state.splits)

theorem stop_exactly_when_running_witness:
  "fst (lifecycle_stop 1 (lifecycle_start 1 [])) \<noteq> Inr () \<and>
   lifecycle_state 1 (snd (lifecycle_stop 1 (snd (transition 1 Running (lifecycle_start 1 []))))) = Some Stopped"
proof -
  have "lifecycle_state 1 (lifecycle_start 1 []) = Some Starting"
    "lifecycle_state 1 (snd (transition 1 Running (lifecycle_start 1 []))) = Some Running"
    by (simp_all add: lifecycle_state_def lifecycle_start_def transition_def)
  then show ?thesis
    using stop_exactly_when_running [of 1 "lifecycle_start 1 []"]
      stop_exactly_when_running [of 1 "snd (transition 1 Running (lifecycle_start 1 []))"] by auto
qed

end
