(* ===== verification/BufferPool.thy ===== *)
theory BufferPool
  imports Prelude "HOL-Library.Multiset"
begin

text \<open>
  The frame buffer pool, \<^verbatim>\<open>crates/streaming/src/buffer.rs\<close>. A vector is its capacity and its
  content; what a fresh vector's capacity is (at least the request) and how the borrower
  grows it is not the pool's business, so both are arguments. Dropping a buffer
  tries the lock of the pool: the outcome is an argument too.
\<close>

record vec_buf =
  vb_capacity :: nat
  vb_data :: bytes

record pool_inner =
  pi_buffers :: "vec_buf list"
  pi_total_capacity :: nat

record buffer_pool =
  bp_inner :: pool_inner
  bp_max_bytes :: nat

definition pool_new :: "nat \<Rightarrow> buffer_pool" where
  "pool_new max_bytes = \<lparr>bp_inner = \<lparr>pi_buffers = [], pi_total_capacity = 0\<rparr>, bp_max_bytes = max_bytes\<rparr>"

text \<open>\<^verbatim>\<open>Iterator::position\<close> and \<^verbatim>\<open>Vec::swap_remove\<close>.\<close>

fun position :: "('a \<Rightarrow> bool) \<Rightarrow> 'a list \<Rightarrow> nat option" where
  "position P [] = None"
| "position P (x # xs) = (if P x then Some 0 else map_option Suc (position P xs))"

definition swap_remove :: "nat \<Rightarrow> 'a list \<Rightarrow> 'a \<times> 'a list" where
  "swap_remove i xs = (xs ! i, butlast (xs[i := last xs]))"

definition acquire :: "nat \<Rightarrow> nat \<Rightarrow> buffer_pool \<Rightarrow> vec_buf \<times> buffer_pool" where
  "acquire max_size fresh_capacity p =
     (let inner = bp_inner p
      in case position (\<lambda>b. max_size \<le> vb_capacity b) (pi_buffers inner) of
           Some pos \<Rightarrow>
             let (buf, rest) = swap_remove pos (pi_buffers inner)
             in (buf\<lparr>vb_data := []\<rparr>,
                 p\<lparr>bp_inner := \<lparr>pi_buffers = rest, pi_total_capacity = pi_total_capacity inner - vb_capacity buf\<rparr>\<rparr>)
         | None \<Rightarrow> (\<lparr>vb_capacity = fresh_capacity, vb_data = []\<rparr>, p))"

definition pool_usage :: "bool \<Rightarrow> buffer_pool \<Rightarrow> nat \<times> nat" where
  "pool_usage contended p =
     (if contended then (0, 0) else (length (pi_buffers (bp_inner p)), pi_total_capacity (bp_inner p)))"

definition drop_buffer :: "bool \<Rightarrow> vec_buf \<Rightarrow> buffer_pool \<Rightarrow> buffer_pool" where
  "drop_buffer contended buf p =
     (if contended then p
      else let would_be = min (2 ^ 64 - 1) (pi_total_capacity (bp_inner p) + vb_capacity buf)
           in if would_be \<le> bp_max_bytes p
              then p\<lparr>bp_inner := \<lparr>pi_buffers = pi_buffers (bp_inner p) @ [buf], pi_total_capacity = would_be\<rparr>\<rparr>
              else p)"

section \<open>Accounting\<close>

definition pool_inv :: "nat \<Rightarrow> buffer_pool \<Rightarrow> bool" where
  "pool_inv limit p \<longleftrightarrow> bp_max_bytes p = limit \<and>
     pi_total_capacity (bp_inner p) = sum_list (map vb_capacity (pi_buffers (bp_inner p))) \<and>
     pi_total_capacity (bp_inner p) \<le> limit"

lemma position_Some: "position P xs = Some i \<Longrightarrow> i < length xs \<and> P (xs ! i)"
proof (induction xs arbitrary: i)
  case (Cons x xs)
  then show ?case by (cases "P x") auto
qed simp

lemma position_None: "position P xs = None \<longleftrightarrow> (\<forall>x \<in> set xs. \<not> P x)"
  by (induction xs) auto

lemma mset_swap_remove:
  assumes "i < length xs"
  shows "add_mset (fst (swap_remove i xs)) (mset (snd (swap_remove i xs))) = mset xs"
proof -
  have ne: "xs \<noteq> []" using assms by auto
  let ?ys = "xs[i := last xs]"
  have l: "last ?ys = last xs"
    using ne assms by (cases "i = length xs - 1") (auto simp: last_conv_nth nth_list_update)
  have "mset ?ys = add_mset (last xs) (mset xs - {#xs ! i#})" using assms by (simp add: mset_update)
  moreover have "mset ?ys = add_mset (last xs) (mset (butlast ?ys))"
    using ne l by (metis append_butlast_last_id list_update_nonempty mset_append mset_single_iff_right union_mset_add_mset_right add.right_neutral mset.simps)
  ultimately have "mset (butlast ?ys) = mset xs - {#xs ! i#}" by simp
  then show ?thesis using assms by (simp add: swap_remove_def)
qed

lemma sum_swap_remove:
  assumes "i < length xs"
  shows "f (xs ! i) + sum_list (map f (snd (swap_remove i xs))) = (sum_list (map f xs) :: nat)"
proof -
  have "sum_mset (image_mset f (add_mset (xs ! i) (mset (snd (swap_remove i xs))))) = sum_mset (image_mset f (mset xs))"
    using mset_swap_remove [OF assms] by (simp add: swap_remove_def)
  then show ?thesis by (simp add: sum_mset_sum_list [symmetric])
qed

datatype pool_op = Acquire nat nat | DropBuffer bool vec_buf

fun pool_step :: "pool_op \<Rightarrow> buffer_pool \<Rightarrow> buffer_pool" where
  "pool_step (Acquire n fresh) p = snd (acquire n fresh p)"
| "pool_step (DropBuffer contended buf) p = drop_buffer contended buf p"

lemma acquire_inv: "pool_inv limit p \<Longrightarrow> pool_inv limit (snd (acquire n fresh p))"
proof (cases "position (\<lambda>b. n \<le> vb_capacity b) (pi_buffers (bp_inner p))")
  case (Some i)
  assume p: "pool_inv limit p"
  have i: "i < length (pi_buffers (bp_inner p))" using position_Some [OF Some] by simp
  then show ?thesis using p Some sum_swap_remove [OF i, of vb_capacity]
    by (auto simp: pool_inv_def acquire_def swap_remove_def Let_def)
qed (simp add: acquire_def Let_def)

lemma drop_buffer_inv: "limit < 2 ^ 64 - 1 \<Longrightarrow> pool_inv limit p \<Longrightarrow> pool_inv limit (drop_buffer contended buf p)"
  by (auto simp: pool_inv_def drop_buffer_def Let_def)

interpretation pool: inv_system
  "\<lambda>(limit, p). limit < 2 ^ 64 - 1 \<and> p = pool_new limit"
  "\<lambda>op (limit, p). (limit, pool_step op p)" "\<lambda>(limit, p). limit < 2 ^ 64 - 1 \<and> pool_inv limit p"
proof
  fix s op assume "(\<lambda>(limit, p). limit < 2 ^ 64 - 1 \<and> pool_inv limit p) (s :: nat \<times> buffer_pool)"
  then show "(\<lambda>(limit, p). limit < 2 ^ 64 - 1 \<and> pool_inv limit p) ((\<lambda>op (limit, p). (limit, pool_step op p)) op s)"
    by (cases op) (auto simp: acquire_inv drop_buffer_inv)
qed (auto simp: pool_inv_def pool_new_def)

lemma fold_pool: "fold (\<lambda>op (limit, p). (limit, pool_step op p)) ops (limit, p) = (limit, fold pool_step ops p)"
  by (induction ops arbitrary: p) simp_all

text \<open>C16. The pool keeps its promise on memory: after any sequence of acquisitions and drops, of buffers of any size and with the lock contended
  or not, the recorded capacity is the sum of the cached capacities and within the budget; and an acquired buffer is empty, large
  enough, and taken out of the cache if it came from it.\<close>

theorem pool_within_budget:
  assumes "limit < 2 ^ 64 - 1" and "n \<le> fresh"
    and "p = fold pool_step ops (pool_new limit)" and "acquire n fresh p = (buf, p')"
  shows "pi_total_capacity (bp_inner p) = sum_list (map vb_capacity (pi_buffers (bp_inner p))) \<and>
    pi_total_capacity (bp_inner p) \<le> limit \<and>
    vb_data buf = [] \<and> n \<le> vb_capacity buf \<and>
    (p' = p \<and> (\<forall>b \<in> set (pi_buffers (bp_inner p)). vb_capacity b < n) \<or>
     (\<exists>old. buf = old\<lparr>vb_data := []\<rparr> \<and> mset (pi_buffers (bp_inner p)) = add_mset old (mset (pi_buffers (bp_inner p')))))"
proof -
  have inv: "pool_inv limit p"
    using pool.inv_reachable [of "(limit, pool_new limit)" ops] assms(1,3) by (simp add: fold_pool)
  show ?thesis
  proof (cases "position (\<lambda>b. n \<le> vb_capacity b) (pi_buffers (bp_inner p))")
    case None
    then have "buf = \<lparr>vb_capacity = fresh, vb_data = []\<rparr>" "p' = p" using assms(4) by (simp_all add: acquire_def Let_def)
    moreover have "\<forall>b \<in> set (pi_buffers (bp_inner p)). vb_capacity b < n"
      using None unfolding position_None by (simp add: not_le)
    ultimately show ?thesis using inv assms(2) by (simp add: pool_inv_def)
  next
    case (Some i)
    have i: "i < length (pi_buffers (bp_inner p))" "n \<le> vb_capacity (pi_buffers (bp_inner p) ! i)"
      using position_Some [OF Some] by simp_all
    have "buf = (pi_buffers (bp_inner p) ! i)\<lparr>vb_data := []\<rparr>"
      "pi_buffers (bp_inner p') = snd (swap_remove i (pi_buffers (bp_inner p)))"
      using assms(4) Some by (auto simp: acquire_def swap_remove_def Let_def)
    then show ?thesis using inv i mset_swap_remove [OF i(1)] by (auto simp: pool_inv_def swap_remove_def)
  qed
qed

theorem pool_within_budget_witness:
  "\<exists>buf p'. acquire 50 50 (fold pool_step [DropBuffer False \<lparr>vb_capacity = 64, vb_data = [1]\<rparr>] (pool_new 100)) = (buf, p')
     \<and> vb_data buf = [] \<and> 50 \<le> vb_capacity buf"
proof -
  obtain buf p' where a: "acquire 50 50 (fold pool_step [DropBuffer False \<lparr>vb_capacity = 64, vb_data = [1]\<rparr>] (pool_new 100)) = (buf, p')"
    by fastforce
  have "vb_data buf = [] \<and> 50 \<le> vb_capacity buf" using pool_within_budget [OF _ _ refl a] by simp
  then show ?thesis using a by blast
qed

text \<open>The search takes the first buffer that is large enough, not the best fit its comment announces.\<close>

lemma acquire_is_first_fit:
  "vb_capacity (fst (acquire 10 10 (fold pool_step
     [DropBuffer False \<lparr>vb_capacity = 90, vb_data = []\<rparr>, DropBuffer False \<lparr>vb_capacity = 10, vb_data = []\<rparr>] (pool_new 100)))) = 90"
  by (simp add: acquire_def drop_buffer_def pool_new_def swap_remove_def Let_def)

end
