(* ===== verification/Sentence.thy ===== *)
theory Sentence
  imports Prelude
begin

text \<open>
  Sentence streaming for speech, \<^verbatim>\<open>crates/streaming/src/sentence.rs\<close>: the filter that hides
  \<^verbatim>\<open><think>\<close> spans of a streamed reply and the splitter that emits complete sentences. A
  \<^verbatim>\<open>String\<close> is the list of its Unicode scalar values; the markers and the comparison that
  ignores ASCII case concern ASCII characters only, so searching bytes and characters agree.
\<close>

type_synonym utext = "u32 list"

definition utext_of :: "string \<Rightarrow> utext" where
  "utext_of s = map of_char s"

definition THINK_OPEN :: utext where "THINK_OPEN = utext_of ''<think>''"
definition THINK_CLOSE :: utext where "THINK_CLOSE = utext_of ''</think>''"

definition lower_u32 :: "u32 \<Rightarrow> u32" where
  "lower_u32 c = (if 65 \<le> c \<and> c \<le> 90 then c + 32 else c)"

definition eq_ignore_case :: "utext \<Rightarrow> utext \<Rightarrow> bool" where
  "eq_ignore_case a b \<longleftrightarrow> map lower_u32 a = map lower_u32 b"

text \<open>\<^verbatim>\<open>str::find\<close>.\<close>

fun find_at :: "'a list \<Rightarrow> 'a list \<Rightarrow> nat option" where
  "find_at m [] = (if m = [] then Some 0 else None)"
| "find_at m (x # xs) = (if take (length m) (x # xs) = m then Some 0 else map_option Suc (find_at m xs))"

text \<open>The longest suffix of the text that is a strict prefix of the marker: lengths from the largest down.\<close>

primrec marker_prefix_from :: "utext \<Rightarrow> utext \<Rightarrow> nat \<Rightarrow> nat" where
  "marker_prefix_from t m 0 = 0"
| "marker_prefix_from t m (Suc n) =
     (if eq_ignore_case (drop (length t - Suc n) t) (take (Suc n) m) then Suc n else marker_prefix_from t m n)"

definition marker_prefix_len :: "utext \<Rightarrow> utext \<Rightarrow> nat" where
  "marker_prefix_len t m = marker_prefix_from t m (min (length t) (length m - 1))"

record think_filter =
  tf_in_think :: bool
  tf_pending :: utext

definition think_filter_new :: think_filter where
  "think_filter_new = \<lparr>tf_in_think = False, tf_pending = []\<rparr>"

lemma find_at_bound: "find_at m s = Some i \<Longrightarrow> i \<le> length s"
  by (induction s arbitrary: i) (auto split: if_splits)

lemma find_at_nonempty: "find_at m s = Some i \<Longrightarrow> m \<noteq> [] \<Longrightarrow> s \<noteq> []"
  by (cases s) auto

function think_loop :: "bool \<Rightarrow> utext \<Rightarrow> utext \<Rightarrow> utext \<times> think_filter" where
  "think_loop in_think pending out =
     (if in_think then
        (case find_at THINK_CLOSE pending of
           Some at \<Rightarrow> think_loop False (drop (at + length THINK_CLOSE) pending) out
         | None \<Rightarrow>
             (out, \<lparr>tf_in_think = True,
                    tf_pending = drop (length pending - marker_prefix_len pending THINK_CLOSE) pending\<rparr>))
      else
        (case find_at THINK_OPEN pending of
           Some at \<Rightarrow> think_loop True (drop (at + length THINK_OPEN) pending) (out @ take at pending)
         | None \<Rightarrow>
             (let emit_to = length pending - marker_prefix_len pending THINK_OPEN
              in (out @ take emit_to pending, \<lparr>tf_in_think = False, tf_pending = drop emit_to pending\<rparr>))))"
  by pat_completeness auto
termination
  by (relation "measure (\<lambda>(b, p, out). length p)")
    (auto dest!: find_at_nonempty simp: THINK_OPEN_def THINK_CLOSE_def utext_of_def)

declare think_loop.simps [simp del]

definition think_push :: "think_filter \<Rightarrow> utext \<Rightarrow> utext \<times> think_filter" where
  "think_push f delta = think_loop (tf_in_think f) (tf_pending f @ delta) []"

section \<open>The sentence splitter\<close>

definition is_boundary :: "u32 \<Rightarrow> bool" where
  "is_boundary c \<longleftrightarrow> c \<in> set [0x3002, 0xFF01, 0xFF1F, 33, 63, 59, 0xFF1B, 10]"

text \<open>\<^verbatim>\<open>char::is_whitespace\<close>.\<close>

definition is_ws :: "u32 \<Rightarrow> bool" where
  "is_ws c \<longleftrightarrow> c \<in> set [9, 10, 11, 12, 13, 32, 0x85, 0xA0, 0x1680, 0x2028, 0x2029, 0x202F, 0x205F, 0x3000]
     \<or> 0x2000 \<le> c \<and> c \<le> 0x200A"

definition trim_text :: "utext \<Rightarrow> utext" where
  "trim_text s = rev (dropWhile is_ws (rev (dropWhile is_ws s)))"

function split_loop :: "utext \<Rightarrow> utext list \<times> utext" where
  "split_loop buf =
     (case dropWhile (\<lambda>c. \<not> is_boundary c) buf of
        [] \<Rightarrow> ([], buf)
      | c # rest \<Rightarrow>
          let sentence = trim_text (takeWhile (\<lambda>c. \<not> is_boundary c) buf @ [c]);
              (out, buf') = split_loop rest
          in (if sentence \<noteq> [] then sentence # out else out, buf'))"
  by pat_completeness auto
termination
proof (relation "measure length", goal_cases)
  case (2 buf c rest)
  have "length (dropWhile (\<lambda>c. \<not> is_boundary c) buf) \<le> length buf" by (rule length_dropWhile_le)
  then show ?case using 2 by simp
qed simp

declare split_loop.simps [simp del]

definition splitter_push :: "utext \<Rightarrow> utext \<Rightarrow> utext list \<times> utext" where
  "splitter_push buf delta = split_loop (buf @ delta)"

definition splitter_flush :: "utext \<Rightarrow> utext option \<times> utext" where
  "splitter_flush buf = (if trim_text buf = [] then (None, []) else (Some (trim_text buf), []))"

section \<open>Searching a marker across a cut\<close>

definition matches :: "'a list \<Rightarrow> 'a list \<Rightarrow> nat \<Rightarrow> bool" where
  "matches m s i \<longleftrightarrow> take (length m) (drop i s) = m"

lemma find_at_Some_iff:
  "m \<noteq> [] \<Longrightarrow> find_at m s = Some i \<longleftrightarrow> matches m s i \<and> (\<forall>j < i. \<not> matches m s j)"
proof (induction s arbitrary: i)
  case Nil
  then show ?case by (simp add: matches_def)
next
  case (Cons x xs)
  show ?case
  proof (cases i)
    case 0
    then show ?thesis by (simp add: matches_def)
  next
    case (Suc k)
    have "(\<forall>j < Suc k. \<not> matches m (x # xs) j) \<longleftrightarrow> \<not> matches m (x # xs) 0 \<and> (\<forall>j < k. \<not> matches m xs j)"
      by (auto simp: All_less_Suc2 matches_def)
    then show ?thesis using Cons Suc by (auto simp: matches_def)
  qed
qed

lemma find_at_None_iff: "m \<noteq> [] \<Longrightarrow> find_at m s = None \<longleftrightarrow> (\<forall>i. \<not> matches m s i)"
proof (induction s)
  case Nil
  then show ?case by (simp add: matches_def)
next
  case (Cons x xs)
  have "(\<forall>i. \<not> matches m (x # xs) i) \<longleftrightarrow> \<not> matches m (x # xs) 0 \<and> (\<forall>i. \<not> matches m xs i)"
    unfolding matches_def by (metis drop_Suc_Cons not0_implies_Suc)
  then show ?case using Cons by (auto simp: matches_def)
qed

lemma matches_length: "m \<noteq> [] \<Longrightarrow> matches m s i \<Longrightarrow> i + length m \<le> length s"
  unfolding matches_def by (metis add.commute diff_diff_cancel length_drop length_take less_imp_le_nat linorder_not_less
      min.absorb_iff2 nat_le_linear ordered_cancel_comm_monoid_diff_class.le_diff_conv2 drop_all take_Nil)

lemma matches_append: "i + length m \<le> length p \<Longrightarrow> matches m (p @ b) i \<longleftrightarrow> matches m p i"
  by (simp add: matches_def)

lemma matches_drop: "k \<le> i \<Longrightarrow> matches m (drop k s) (i - k) \<longleftrightarrow> matches m s i"
  by (simp add: matches_def)

lemma find_at_append_Some:
  assumes "m \<noteq> []" and "find_at m p = Some i"
  shows "find_at m (p @ b) = Some i"
proof -
  have i: "matches m p i" "\<forall>j < i. \<not> matches m p j" using assms find_at_Some_iff by blast+
  have "i + length m \<le> length p" using matches_length [OF assms(1) i(1)] .
  then show ?thesis using i assms(1) by (auto simp: find_at_Some_iff matches_append)
qed

text \<open>What \<open>marker_prefix_len\<close> computes: the largest partial marker at the end of the text.\<close>

definition partial_at_end :: "utext \<Rightarrow> utext \<Rightarrow> nat \<Rightarrow> bool" where
  "partial_at_end t m n \<longleftrightarrow> 0 < n \<and> n \<le> length t \<and> n < length m \<and> eq_ignore_case (drop (length t - n) t) (take n m)"

lemma marker_prefix_from_max:
  "marker_prefix_from t m k \<le> k \<and>
   (marker_prefix_from t m k = 0 \<or> eq_ignore_case (drop (length t - marker_prefix_from t m k) t) (take (marker_prefix_from t m k) m)) \<and>
   (\<forall>n. 0 < n \<and> n \<le> k \<and> eq_ignore_case (drop (length t - n) t) (take n m) \<longrightarrow> n \<le> marker_prefix_from t m k)"
  by (induction k) (auto simp: le_Suc_eq)

lemma marker_prefix_len_max:
  "m \<noteq> [] \<Longrightarrow> marker_prefix_len t m \<le> length t \<and> (marker_prefix_len t m = 0 \<or> partial_at_end t m (marker_prefix_len t m)) \<and>
   (\<forall>n. partial_at_end t m n \<longrightarrow> n \<le> marker_prefix_len t m)"
  using marker_prefix_from_max [of t m "min (length t) (length m - 1)"]
  by (auto simp: marker_prefix_len_def partial_at_end_def simp del: marker_prefix_from.simps)

lemma marker_prefix_len_cong:
  assumes "m \<noteq> []" and "\<And>n. partial_at_end t m n \<longleftrightarrow> partial_at_end t' m n"
  shows "marker_prefix_len t m = marker_prefix_len t' m"
  using marker_prefix_len_max [OF assms(1), of t] marker_prefix_len_max [OF assms(1), of t'] assms(2)
  by (metis le_antisym le_0_eq linear)

lemma eq_ignore_case_refl [simp]: "eq_ignore_case a a"
  by (simp add: eq_ignore_case_def)

lemma eq_ignore_case_take: "eq_ignore_case (a @ b) (take n m) \<Longrightarrow> length a \<le> n \<Longrightarrow> eq_ignore_case a (take (length a) m)"
proof -
  assume e: "eq_ignore_case (a @ b) (take n m)" and "length a \<le> n"
  have "map lower_u32 a = take (length a) (map lower_u32 (take n m))"
    using e by (metis eq_ignore_case_def append_eq_conv_conj length_map map_append)
  then show ?thesis using \<open>length a \<le> n\<close> by (simp add: eq_ignore_case_def take_map min_absorb1)
qed

lemma partial_at_end_suffix: "n \<le> length y \<Longrightarrow> partial_at_end (x @ y) m n \<longleftrightarrow> partial_at_end y m n"
  by (auto simp: partial_at_end_def)

text \<open>
  The cut lemma: text without a complete marker can be cut at the held back suffix; what follows is searched, and held back, as
  if the whole text were there.
\<close>

lemma cut_search:
  assumes m: "m \<noteq> []" and none: "find_at m p = None"
  defines "k \<equiv> length p - marker_prefix_len p m"
  shows "find_at m (p @ b) = map_option (\<lambda>i. i + k) (find_at m (drop k p @ b))"
    and "marker_prefix_len (p @ b) m = marker_prefix_len (drop k p @ b) m"
proof -
  have kp: "k \<le> length p" by (simp add: k_def)
  have d: "drop k (p @ b) = drop k p @ b" using kp by simp
  have hold: "n \<le> length p - k" if "partial_at_end p m n" for n
    using that marker_prefix_len_max [OF m, of p] by (simp add: k_def)
  have late: "k \<le> i" if i: "matches m (p @ b) i" for i
  proof (rule ccontr)
    assume "\<not> k \<le> i"
    then have ik: "i < length p" "i < k" using kp by auto
    have "\<not> i + length m \<le> length p" using none m i matches_append find_at_None_iff by blast
    moreover have "take (length m) (drop i p @ b) = m" using i ik by (simp add: matches_def)
    ultimately have "drop i p = take (length p - i) m" by (metis (no_types) add.commute append_eq_conv_conj
          diff_le_self le_diff_conv length_drop linorder_not_less nat_less_le take_all_iff take_append take_take min_def order_refl)
    then have "partial_at_end p m (length p - i)"
      using ik \<open>\<not> i + length m \<le> length p\<close> by (auto simp: partial_at_end_def)
    from hold [OF this] ik kp show False by simp
  qed
  show "find_at m (p @ b) = map_option (\<lambda>i. i + k) (find_at m (drop k p @ b))"
  proof (cases "find_at m (drop k p @ b)")
    case None
    then have "\<not> matches m (p @ b) i" for i
      using late [of i] matches_drop [of k i m "p @ b"] find_at_None_iff [OF m] d by metis
    then have "find_at m (p @ b) = None" using find_at_None_iff [OF m] by blast
    then show ?thesis using None by simp
  next
    case (Some i)
    then have "matches m (drop k (p @ b)) i" "\<forall>j < i. \<not> matches m (drop k (p @ b)) j"
      using find_at_Some_iff [OF m] d by metis+
    then have "matches m (p @ b) (i + k) \<and> (\<forall>j < i + k. \<not> matches m (p @ b) j)"
      using late matches_drop [of k _ m "p @ b"]
      by (metis add_diff_cancel_right' le_add2 less_diff_conv2)
    then have "find_at m (p @ b) = Some (i + k)" using find_at_Some_iff [OF m] by blast
    then show ?thesis using Some by simp
  qed
  show "marker_prefix_len (p @ b) m = marker_prefix_len (drop k p @ b) m"
  proof (rule marker_prefix_len_cong [OF m])
    fix n
    show "partial_at_end (p @ b) m n \<longleftrightarrow> partial_at_end (drop k p @ b) m n"
    proof (cases "n \<le> length (drop k p @ b)")
      case True
      then show ?thesis using partial_at_end_suffix [of n "drop k p @ b" "take k p" m] by (metis append.assoc append_take_drop_id)
    next
      case False
      have "\<not> partial_at_end (p @ b) m n"
      proof
        assume pe: "partial_at_end (p @ b) m n"
        let ?a = "drop (length (p @ b) - n) p"
        have la: "length ?a = n - length b" "length b < n" "n \<le> length p + length b"
          using pe False kp by (auto simp: partial_at_end_def)
        have "eq_ignore_case (?a @ b) (take n m)" using pe la by (simp add: partial_at_end_def)
        then have "eq_ignore_case ?a (take (length ?a) m)" by (rule eq_ignore_case_take) (simp add: la)
        moreover have "?a = drop (length p - length ?a) p" using la by simp
        ultimately have "partial_at_end p m (n - length b)"
          using la pe by (auto simp: partial_at_end_def)
        from hold [OF this] False kp show False by simp
      qed
      then show ?thesis using False by (auto simp: partial_at_end_def)
    qed
  qed
qed

section \<open>Independence of the chunking\<close>

lemma markers_nonempty [simp]: "THINK_OPEN \<noteq> []" "THINK_CLOSE \<noteq> []"
  by (simp_all add: THINK_OPEN_def THINK_CLOSE_def utext_of_def)

text \<open>The four ways through the loop.\<close>

lemma think_loop_close:
  "find_at THINK_CLOSE p = Some i \<Longrightarrow> think_loop True p out = think_loop False (drop (i + length THINK_CLOSE) p) out"
  "find_at THINK_CLOSE p = None \<Longrightarrow> think_loop True p out =
     (out, \<lparr>tf_in_think = True, tf_pending = drop (length p - marker_prefix_len p THINK_CLOSE) p\<rparr>)"
  by (simp_all add: think_loop.simps [of True])

lemma think_loop_open:
  "find_at THINK_OPEN p = Some i \<Longrightarrow> think_loop False p out = think_loop True (drop (i + length THINK_OPEN) p) (out @ take i p)"
  "find_at THINK_OPEN p = None \<Longrightarrow> think_loop False p out =
     (out @ take (length p - marker_prefix_len p THINK_OPEN) p,
      \<lparr>tf_in_think = False, tf_pending = drop (length p - marker_prefix_len p THINK_OPEN) p\<rparr>)"
  by (simp_all add: think_loop.simps [of False] Let_def)

lemma find_at_end: "m \<noteq> [] \<Longrightarrow> find_at m p = Some i \<Longrightarrow> i + length m \<le> length p"
  using find_at_Some_iff matches_length by blast

lemma drop_marker_shorter: "m \<noteq> [] \<Longrightarrow> find_at m p = Some i \<Longrightarrow> length (drop (i + length m) p) < length p"
  using find_at_end [of m p i] by (cases m) auto

lemma think_loop_out: "think_loop t p out = (out @ fst (think_loop t p []), snd (think_loop t p []))"
proof (induction p arbitrary: t out rule: measure_induct_rule [where f = length])
  case (less p)
  show ?case
  proof (cases t)
    case True
    show ?thesis
    proof (cases "find_at THINK_CLOSE p")
      case (Some i)
      note ih = less [OF drop_marker_shorter [OF markers_nonempty(2) Some]]
      show ?thesis using ih [of False out] ih [of False "[]"] True by (simp add: think_loop_close(1) [OF Some])
    qed (use True in \<open>simp add: think_loop_close(2)\<close>)
  next
    case False
    show ?thesis
    proof (cases "find_at THINK_OPEN p")
      case (Some i)
      note ih = less [OF drop_marker_shorter [OF markers_nonempty(1) Some], of True]
      show ?thesis using ih [of "out @ take i p"] ih [of "take i p"] False by (simp add: think_loop_open(1) [OF Some])
    qed (use False in \<open>simp add: think_loop_open(2)\<close>)
  qed
qed

definition continue :: "utext \<times> think_filter \<Rightarrow> utext \<Rightarrow> utext \<times> think_filter" where
  "continue r b = (let (o1, f) = r; (o2, f') = think_push f b in (o1 @ o2, f'))"

lemma continue_out: "continue (o1, f) b = (o1 @ fst (think_push f b), snd (think_push f b))"
  by (simp add: continue_def split_beta)

lemma think_loop_prefix:
  assumes f: "find_at m (x @ y) = map_option (\<lambda>i. i + length x) (find_at m y)"
    and l: "marker_prefix_len (x @ y) m = marker_prefix_len y m"
    and m: "m = (if t then THINK_CLOSE else THINK_OPEN)"
  shows "think_loop t (x @ y) [] = ((if t then [] else x) @ fst (think_loop t y []), snd (think_loop t y []))"
proof -
  have "marker_prefix_len y m \<le> length y" using marker_prefix_len_max [of m y] by (simp add: m)
  then have e: "length (x @ y) - marker_prefix_len (x @ y) m = length x + (length y - marker_prefix_len y m)" using l by simp
  show ?thesis
  proof (cases "find_at m y")
    case None
    then have n: "find_at m (x @ y) = None" using f by simp
    show ?thesis
    proof (cases t)
      case True
      then show ?thesis using None n e by (simp only: m if_True think_loop_close(2)) simp
    next
      case False
      then show ?thesis using None n e by (simp only: m if_False think_loop_open(2)) simp
    qed
  next
    case (Some i)
    then have n: "find_at m (x @ y) = Some (i + length x)" using f by simp
    have d: "drop (i + length x + length m) (x @ y) = drop (i + length m) y" "take (i + length x) (x @ y) = x @ take i y" by simp_all
    show ?thesis
    proof (cases t)
      case True
      then show ?thesis using think_loop_close(1) [of "x @ y" "i + length x" "[]"] think_loop_close(1) [of y i "[]"] Some n d(1)
        by (simp only: m if_True) simp
    next
      case False
      then have "think_loop False (x @ y) [] = think_loop True (drop (i + length m) y) (x @ take i y)"
        using think_loop_open(1) [of "x @ y" "i + length x" "[]"] n d by (simp only: m if_False append_Nil)
      moreover have "think_loop False y [] = think_loop True (drop (i + length m) y) (take i y)"
        using think_loop_open(1) [of y i "[]"] Some False by (simp only: m if_False append_Nil)
      ultimately show ?thesis
        using False think_loop_out [of True "drop (i + length m) y" "x @ take i y"] think_loop_out [of True "drop (i + length m) y" "take i y"] by simp
    qed
  qed
qed

lemma think_loop_cut:
  assumes none: "find_at m p = None" and m: "m = (if t then THINK_CLOSE else THINK_OPEN)"
  shows "think_loop t (p @ b) [] = continue (think_loop t p []) b"
proof -
  have ne: "m \<noteq> []" by (simp add: m)
  define k where "k = length p - marker_prefix_len p m"
  note cut = cut_search [OF ne none, of b, folded k_def]
  have p: "p @ b = take k p @ (drop k p @ b)" "length (take k p) = k" by (simp_all add: k_def)
  have "think_loop t (p @ b) [] = ((if t then [] else take k p) @ fst (think_loop t (drop k p @ b) []), snd (think_loop t (drop k p @ b) []))"
    using think_loop_prefix [of m "take k p" "drop k p @ b" t] cut p m by metis
  moreover have "think_loop t p [] = (if t then [] else take k p, \<lparr>tf_in_think = t, tf_pending = drop k p\<rparr>)"
    using none by (cases t) (simp_all add: m k_def think_loop_close(2) think_loop_open(2))
  ultimately show ?thesis by (simp add: continue_out think_push_def)
qed

lemma think_loop_append: "think_loop t (p @ b) [] = continue (think_loop t p []) b"
proof (induction p arbitrary: t rule: measure_induct_rule [where f = length])
  case (less p)
  define m where m: "m = (if t then THINK_CLOSE else THINK_OPEN)"
  have ne: "m \<noteq> []" by (simp add: m)
  show ?case
  proof (cases "find_at m p")
    case None
    then show ?thesis using think_loop_cut m by blast
  next
    case (Some i)
    note s = find_at_append_Some [OF ne Some, of b]
    have d: "drop (i + length m) (p @ b) = drop (i + length m) p @ b" "take i (p @ b) = take i p"
      using find_at_end [OF ne Some] by simp_all
    note ih = less [OF drop_marker_shorter [OF ne Some]]
    show ?thesis
    proof (cases t)
      case True
      then show ?thesis using ih [of False] Some s d by (simp add: m think_loop_close(1))
    next
      case False
      let ?p = "drop (i + length m) p"
      obtain o1 f1 where l: "think_loop True ?p [] = (o1, f1)" by fastforce
      have "think_loop False p [] = (take i p @ o1, f1)"
        using Some False l think_loop_out [of True ?p "take i p"] by (simp add: m think_loop_open(1))
      moreover have "think_loop False (p @ b) [] = (take i p @ o1 @ fst (think_push f1 b), snd (think_push f1 b))"
      proof -
        have "find_at THINK_OPEN (p @ b) = Some i" using s False m by simp
        then have "think_loop False (p @ b) [] = think_loop True (?p @ b) (take i p)"
          using think_loop_open(1) [of "p @ b" i "[]"] d False m by (simp only: append_Nil if_False)
        then show ?thesis using ih [of True] l think_loop_out [of True "?p @ b" "take i p"] by (simp add: continue_out)
      qed
      ultimately show ?thesis using False by (simp add: continue_out)
    qed
  qed
qed

lemma think_push_append: "think_push f (a @ b) = continue (think_push f a) b"
  using think_loop_append [of "tf_in_think f" "tf_pending f @ a" b] by (simp add: think_push_def)

lemma split_loop_append:
  "split_loop (a @ b) = (let (o1, buf) = split_loop a; (o2, buf') = split_loop (buf @ b) in (o1 @ o2, buf'))"
proof (induction a rule: split_loop.induct)
  case (1 a)
  show ?case
  proof (cases "dropWhile (\<lambda>c. \<not> is_boundary c) a")
    case Nil
    then have "split_loop a = ([], a)" by (subst split_loop.simps) (simp only: list.case)
    then show ?thesis by (simp add: split_beta)
  next
    case (Cons c rest)
    then have "\<exists>x \<in> set a. is_boundary x" by (metis dropWhile_eq_Nil_conv list.distinct(1))
    then have d: "dropWhile (\<lambda>c. \<not> is_boundary c) (a @ b) = c # rest @ b"
      "takeWhile (\<lambda>c. \<not> is_boundary c) (a @ b) = takeWhile (\<lambda>c. \<not> is_boundary c) a"
      using Cons by auto
    have ih: "split_loop (rest @ b) = (let (o1, buf) = split_loop rest; (o2, buf') = split_loop (buf @ b) in (o1 @ o2, buf'))"
      using "1.IH" Cons by blast
    show ?thesis
      by (simp add: split_loop.simps [of a] split_loop.simps [of "a @ b"] Cons d ih Let_def split_beta)
  qed
qed

text \<open>
  The stream as it is spoken: every delta of the model goes through the filter, the visible text through the splitter, and
  the remainder is flushed at the end.
\<close>

fun speak :: "think_filter \<Rightarrow> utext \<Rightarrow> utext list \<Rightarrow> utext list" where
  "speak f buf [] = (case fst (splitter_flush buf) of None \<Rightarrow> [] | Some s \<Rightarrow> [s])"
| "speak f buf (d # ds) =
     (let (visible, f') = think_push f d; (sentences, buf') = splitter_push buf visible
      in sentences @ speak f' buf' ds)"

definition spoken :: "utext list \<Rightarrow> utext list" where
  "spoken ds = speak think_filter_new [] ds"

definition speak_at_once :: "think_filter \<Rightarrow> utext \<Rightarrow> utext \<Rightarrow> utext list" where
  "speak_at_once f buf text =
     (let (sentences, buf') = split_loop (buf @ fst (think_push f text))
      in sentences @ (case fst (splitter_flush buf') of None \<Rightarrow> [] | Some s \<Rightarrow> [s]))"

lemma think_push_stable:
  assumes "think_push f a = (v, f')"
  shows "think_push f' [] = ([], f')"
  using think_push_append [of f a "[]"] assms by (simp add: continue_out prod_eq_iff)

lemma split_loop_stable:
  assumes "split_loop a = (ss, buf)"
  shows "split_loop buf = ([], buf)"
  using split_loop_append [of a "[]"] assms by (cases "split_loop buf") simp

lemma speak_chunks:
  "think_push f [] = ([], f) \<Longrightarrow> split_loop buf = ([], buf) \<Longrightarrow> speak f buf ds = speak_at_once f buf (concat ds)"
proof (induction ds arbitrary: f buf)
  case Nil
  then show ?case by (simp add: speak_at_once_def)
next
  case (Cons d ds)
  obtain v f' where p: "think_push f d = (v, f')" by fastforce
  obtain ss buf' where q: "split_loop (buf @ v) = (ss, buf')" by fastforce
  have "speak f' buf' ds = speak_at_once f' buf' (concat ds)"
    by (rule Cons.IH [OF think_push_stable [OF p] split_loop_stable [OF q]])
  moreover have "fst (think_push f (concat (d # ds))) = v @ fst (think_push f' (concat ds))"
    using think_push_append [of f d "concat ds"] p by (simp add: continue_out)
  ultimately show ?case
    using p q split_loop_append [of "buf @ v" "fst (think_push f' (concat ds))"]
    by (simp add: splitter_push_def speak_at_once_def Let_def split_beta)
qed

lemma new_stable: "think_push think_filter_new [] = ([], think_filter_new)" "split_loop [] = ([], [])"
  by (simp_all add: think_push_def think_filter_new_def think_loop.simps split_loop.simps THINK_OPEN_def utext_of_def)

lemma spoken_concat: "spoken ds = speak_at_once think_filter_new [] (concat ds)"
  unfolding spoken_def by (rule speak_chunks [OF new_stable])

text \<open>C19. What is spoken does not depend on how the reply is cut into deltas, even when a cut falls inside a marker: two streams of the same
  text produce the same sentences.\<close>

theorem speech_independent_of_chunking:
  assumes "concat ds = concat es"
  shows "spoken ds = spoken es"
  using assms by (simp add: spoken_concat)

theorem speech_independent_of_chunking_witness:
  "spoken [utext_of ''Hi! <thi'', utext_of ''nk>no</'', utext_of ''think>Yes.''] = spoken [utext_of ''Hi! <think>no</think>Yes.'']"
  by (rule speech_independent_of_chunking) (simp add: utext_of_def)

lemma find_at_skip: "x \<notin> set a \<Longrightarrow> find_at (x # m) (a @ s) = map_option (\<lambda>i. i + length a) (find_at (x # m) s)"
  by (induction a) (auto simp: option.map_comp comp_def option.map_ident)

lemma lower_lt: "lower_u32 c = 60 \<Longrightarrow> c = 60"
proof -
  assume l: "lower_u32 c = 60"
  show ?thesis
  proof (cases "65 \<le> c \<and> c \<le> 90")
    case True
    then have "c + 32 = 60" using l by (simp add: lower_u32_def)
    then have "c = 60 - 32" by (metis add_diff_cancel_right')
    then show ?thesis using True by simp
  next
    case False
    then have "lower_u32 c = c" unfolding lower_u32_def by (rule if_not_P)
    then show ?thesis using l by simp
  qed
qed

lemma no_marker_open:
  assumes "60 \<notin> set c"
  shows "find_at THINK_OPEN c = None \<and> marker_prefix_len c THINK_OPEN = 0"
proof -
  obtain m where o: "THINK_OPEN = 60 # m" by (simp add: THINK_OPEN_def utext_of_def)
  have "\<not> partial_at_end c THINK_OPEN n" for n
  proof
    assume p: "partial_at_end c THINK_OPEN n"
    then obtain x xs where x: "drop (length c - n) c = x # xs" "n \<noteq> 0" by (cases "drop (length c - n) c") (auto simp: partial_at_end_def)
    have "lower_u32 x = lower_u32 60" using p x by (cases n) (auto simp: partial_at_end_def eq_ignore_case_def o)
    moreover have "lower_u32 60 = 60" by code_simp
    ultimately have "x = 60" using lower_lt by simp
    then show False using x(1) assms by (metis in_set_dropD list.set_intros(1))
  qed
  then have "marker_prefix_len c THINK_OPEN = 0" using marker_prefix_len_max [OF markers_nonempty(1), of c] by blast
  moreover have "find_at THINK_OPEN c = None" using find_at_skip [OF assms, of m "[]"] o by simp
  ultimately show ?thesis by blast
qed

lemma think_hidden:
  assumes "60 \<notin> set a" and "60 \<notin> set c" and "find_at THINK_CLOSE (r @ THINK_CLOSE) = Some (length r)"
  shows "fst (think_push think_filter_new (a @ THINK_OPEN @ r @ THINK_CLOSE @ c)) = a @ c"
proof -
  obtain m where o: "THINK_OPEN = 60 # m" by (simp add: THINK_OPEN_def utext_of_def)
  have f1: "find_at THINK_OPEN (a @ THINK_OPEN @ r @ THINK_CLOSE @ c) = Some (length a)"
    using find_at_skip [OF assms(1), of m "THINK_OPEN @ r @ THINK_CLOSE @ c"] by (simp add: o)
  have f2: "find_at THINK_CLOSE (r @ THINK_CLOSE @ c) = Some (length r)"
    using find_at_append_Some [OF markers_nonempty(2) assms(3), of c] by simp
  show ?thesis
    using no_marker_open [OF assms(2)]
    by (simp add: think_push_def think_filter_new_def think_loop_open(1) [OF f1] think_loop_close(1) [OF f2] think_loop_open(2))
qed



text \<open>
  The filter has no flush: a reply that ends in what could begin a marker loses that ending.
\<close>

lemma trailing_bracket_lost: "fst (think_push think_filter_new (utext_of ''a <'')) = utext_of ''a ''"
  by code_simp

end
