(* ===== verification/Tracking.thy ===== *)
theory Tracking
  imports HashMap
begin

text \<open>
  The object tracker of \<^verbatim>\<open>crates/streaming/src/ai/tracking.rs\<close>. Floating-point numbers are an arbitrary type with the
  operations the code uses (\<open>f32_ops\<close>), so that every statement holds whatever the rounding; where an ordering law of the
  floats is needed it is a named hypothesis. Counters are 32-bit and identifiers 64-bit words.
\<close>

section \<open>Floats\<close>

record 'f f32_ops =
  fo_add :: "'f \<Rightarrow> 'f \<Rightarrow> 'f"
  fo_sub :: "'f \<Rightarrow> 'f \<Rightarrow> 'f"
  fo_mul :: "'f \<Rightarrow> 'f \<Rightarrow> 'f"
  fo_div :: "'f \<Rightarrow> 'f \<Rightarrow> 'f"
  fo_lt :: "'f \<Rightarrow> 'f \<Rightarrow> bool"
  fo_le :: "'f \<Rightarrow> 'f \<Rightarrow> bool"
  fo_max :: "'f \<Rightarrow> 'f \<Rightarrow> 'f"
  fo_min :: "'f \<Rightarrow> 'f \<Rightarrow> 'f"
  fo_lit :: "int \<Rightarrow> int \<Rightarrow> 'f"
  fo_of_u32 :: "u32 \<Rightarrow> 'f"

text \<open>\<open>fo_lit p q\<close> is the literal with the value \<open>p / q\<close>.\<close>

type_synonym 'f bbox = "'f \<times> 'f \<times> 'f \<times> 'f"

record 'f tracker_params =
  tp_high_confidence :: 'f
  tp_max_age :: u32
  tp_min_hits :: u32
  tp_min_iou :: 'f

definition tracker_params_default :: "'f f32_ops \<Rightarrow> 'f tracker_params" where
  "tracker_params_default fo =
     \<lparr>tp_high_confidence = fo_lit fo 1 2, tp_max_age = 10, tp_min_hits = 2, tp_min_iou = fo_lit fo 3 10\<rparr>"

datatype track_state = Tentative | Confirmed | Deleted

record 'f kalman_state =
  ks_pos :: "'f bbox"
  ks_vel :: "'f \<times> 'f"

record 'f track =
  tr_id :: u64
  tr_label :: string
  tr_bbox :: "'f bbox"
  tr_confidence :: 'f
  tr_state :: track_state
  tr_hit_streak :: u32
  tr_age :: u32
  tr_time_since_update :: u32
  tr_kf :: "'f kalman_state"

record 'f detection =
  dt_label :: string
  dt_confidence :: 'f
  dt_bbox :: "u32 \<times> u32 \<times> u32 \<times> u32"

section \<open>The filter and the overlap\<close>

definition bbox_center :: "'f f32_ops \<Rightarrow> 'f bbox \<Rightarrow> 'f bbox" where
  "bbox_center fo = (\<lambda>(x, y, w, h).
     (fo_add fo x (fo_div fo w (fo_lit fo 2 1)), fo_add fo y (fo_div fo h (fo_lit fo 2 1)), w, h))"

definition center_bbox :: "'f f32_ops \<Rightarrow> 'f bbox \<Rightarrow> 'f bbox" where
  "center_bbox fo = (\<lambda>(x, y, w, h).
     (fo_sub fo x (fo_div fo w (fo_lit fo 2 1)), fo_sub fo y (fo_div fo h (fo_lit fo 2 1)), w, h))"

definition kf_from_bbox :: "'f f32_ops \<Rightarrow> 'f bbox \<Rightarrow> 'f kalman_state" where
  "kf_from_bbox fo b = \<lparr>ks_pos = bbox_center fo b, ks_vel = (fo_lit fo 0 1, fo_lit fo 0 1)\<rparr>"

definition kf_predict :: "'f f32_ops \<Rightarrow> 'f kalman_state \<Rightarrow> 'f kalman_state" where
  "kf_predict fo k =
     (case (ks_pos k, ks_vel k) of ((x, y, w, h), (vx, vy)) \<Rightarrow> k\<lparr>ks_pos := (fo_add fo x vx, fo_add fo y vy, w, h)\<rparr>)"

definition kf_update :: "'f f32_ops \<Rightarrow> 'f bbox \<Rightarrow> 'f kalman_state \<Rightarrow> 'f kalman_state" where
  "kf_update fo observed k =
     (let (ox, oy, ow, oh) = bbox_center fo observed;
          (px, py, pw, ph) = ks_pos k;
          (vx, vy) = ks_vel k;
          alpha = fo_lit fo 6 10;
          blend = (\<lambda>o' p. fo_add fo (fo_mul fo alpha o') (fo_mul fo (fo_sub fo (fo_lit fo 1 1) alpha) p));
          smooth = (\<lambda>inst v. fo_add fo (fo_mul fo (fo_lit fo 1 2) inst) (fo_mul fo (fo_lit fo 1 2) v));
          nx = blend ox px; ny = blend oy py
      in \<lparr>ks_pos = (nx, ny, blend ow pw, blend oh ph),
          ks_vel = (smooth (fo_sub fo nx px) vx, smooth (fo_sub fo ny py) vy)\<rparr>)"

definition predicted_bbox :: "'f f32_ops \<Rightarrow> 'f kalman_state \<Rightarrow> 'f bbox" where
  "predicted_bbox fo k = center_bbox fo (ks_pos k)"

definition iou :: "'f f32_ops \<Rightarrow> 'f bbox \<Rightarrow> 'f bbox \<Rightarrow> 'f" where
  "iou fo = (\<lambda>(ax, ay, aw, ah) (bx, by', bw, bh).
     let ix1 = fo_max fo ax bx; iy1 = fo_max fo ay by';
         ix2 = fo_min fo (fo_add fo ax aw) (fo_add fo bx bw); iy2 = fo_min fo (fo_add fo ay ah) (fo_add fo by' bh);
         iw = fo_max fo (fo_sub fo ix2 ix1) (fo_lit fo 0 1); ih = fo_max fo (fo_sub fo iy2 iy1) (fo_lit fo 0 1);
         inter = fo_mul fo iw ih;
         union = fo_sub fo (fo_add fo (fo_mul fo aw ah) (fo_mul fo bw bh)) inter
     in if fo_le fo union (fo_lit fo 0 1) then fo_lit fo 0 1 else fo_div fo inter union)"

definition f32_bbox :: "'f f32_ops \<Rightarrow> u32 \<times> u32 \<times> u32 \<times> u32 \<Rightarrow> 'f bbox" where
  "f32_bbox fo = (\<lambda>(x, y, w, h). (fo_of_u32 fo x, fo_of_u32 fo y, fo_of_u32 fo w, fo_of_u32 fo h))"

section \<open>Greedy assignment\<close>

type_synonym 'f pair = "'f \<times> nat \<times> nat"

definition candidate_pairs :: "'f f32_ops \<Rightarrow> 'f list list \<Rightarrow> 'f \<Rightarrow> 'f pair list" where
  "candidate_pairs fo costs threshold =
     concat (map (\<lambda>t. map (\<lambda>d. (costs ! t ! d, t, d)) (filter (\<lambda>d. fo_le fo threshold (costs ! t ! d)) [0..<length (costs ! t)]))
       [0..<length costs])"

text \<open>\<^verbatim>\<open>sort_by\<close>, stable, by decreasing cost.\<close>

fun insert_desc :: "'f f32_ops \<Rightarrow> 'f pair \<Rightarrow> 'f pair list \<Rightarrow> 'f pair list" where
  "insert_desc fo x [] = [x]"
| "insert_desc fo x (y # ys) = (if fo_lt fo (fst x) (fst y) then y # insert_desc fo x ys else x # y # ys)"

fun sort_desc :: "'f f32_ops \<Rightarrow> 'f pair list \<Rightarrow> 'f pair list" where
  "sort_desc fo [] = []"
| "sort_desc fo (x # xs) = insert_desc fo x (sort_desc fo xs)"

fun assign_loop :: "'f pair list \<Rightarrow> bool list \<Rightarrow> bool list \<Rightarrow> (nat \<times> nat) list \<Rightarrow> (nat \<times> nat) list" where
  "assign_loop [] used_t used_d out = out"
| "assign_loop ((c, t, d) # pairs) used_t used_d out =
     (if \<not> used_t ! t \<and> \<not> used_d ! d
      then assign_loop pairs (used_t[t := True]) (used_d[d := True]) (out @ [(t, d)])
      else assign_loop pairs used_t used_d out)"

definition greedy_assign :: "'f f32_ops \<Rightarrow> 'f list list \<Rightarrow> 'f \<Rightarrow> (nat \<times> nat) list" where
  "greedy_assign fo costs threshold =
     assign_loop (sort_desc fo (candidate_pairs fo costs threshold)) (replicate (length costs) False)
       (replicate (case costs of [] \<Rightarrow> 0 | r # _ \<Rightarrow> length r) False) []"

section \<open>The tracker\<close>

record 'f tracker =
  tk_params :: "'f tracker_params"
  tk_tracks :: "'f track list"
  tk_next_id :: u64

definition tracker_new :: "'f tracker_params \<Rightarrow> 'f tracker" where
  "tracker_new params = \<lparr>tk_params = params, tk_tracks = [], tk_next_id = 1\<rparr>"

definition age_track :: "'f f32_ops \<Rightarrow> 'f track \<Rightarrow> 'f track" where
  "age_track fo t = t\<lparr>tr_kf := kf_predict fo (tr_kf t), tr_age := tr_age t + 1, tr_time_since_update := tr_time_since_update t + 1\<rparr>"

definition match_track :: "'f f32_ops \<Rightarrow> 'f tracker_params \<Rightarrow> 'f detection \<Rightarrow> 'f track \<Rightarrow> 'f track" where
  "match_track fo params det t =
     (let kf = kf_update fo (f32_bbox fo (dt_bbox det)) (tr_kf t);
          hits = tr_hit_streak t + 1
      in t\<lparr>tr_kf := kf, tr_bbox := center_bbox fo (ks_pos kf), tr_confidence := dt_confidence det, tr_label := dt_label det,
           tr_hit_streak := hits, tr_time_since_update := 0,
           tr_state := (if tr_state t = Tentative \<and> tp_min_hits params \<le> hits then Confirmed else tr_state t)\<rparr>)"

definition stage_step :: "'f f32_ops \<Rightarrow> 'f tracker_params \<Rightarrow> 'f detection list \<Rightarrow> bool \<Rightarrow> 'f track list \<times> bool list \<Rightarrow> 'f track list \<times> bool list" where
  "stage_step fo params detections strong = (\<lambda>(tracks, matched).
     let det_idx = filter (\<lambda>i. \<not> matched ! i \<and> strong = fo_le fo (tp_high_confidence params) (dt_confidence (detections ! i))) [0..<length detections]
     in if det_idx = [] then (tracks, matched)
        else
          let live = filter (\<lambda>i. tr_state (tracks ! i) \<noteq> Deleted) [0..<length tracks];
              costs = map (\<lambda>ti. map (\<lambda>di. iou fo (predicted_bbox fo (tr_kf (tracks ! ti))) (f32_bbox fo (dt_bbox (detections ! di)))) det_idx) live
          in fold (\<lambda>(ti, di) (tracks, matched).
               (tracks[live ! ti := match_track fo params (detections ! (det_idx ! di)) (tracks ! (live ! ti))],
                matched[det_idx ! di := True]))
               (greedy_assign fo costs (tp_min_iou params)) (tracks, matched))"

definition retire :: "'f tracker_params \<Rightarrow> 'f track \<Rightarrow> 'f track" where
  "retire params t =
     (let t = (if tr_state t = Tentative \<and> 1 < tr_time_since_update t then t\<lparr>tr_state := Deleted\<rparr> else t)
      in if tr_state t = Confirmed \<and> tp_max_age params < tr_time_since_update t then t\<lparr>tr_state := Deleted\<rparr> else t)"

definition spawn_track :: "'f f32_ops \<Rightarrow> 'f detection \<Rightarrow> 'f track list \<times> u64 \<Rightarrow> 'f track list \<times> u64" where
  "spawn_track fo det = (\<lambda>(tracks, next_id).
     let bbox = f32_bbox fo (dt_bbox det)
     in (tracks @ [\<lparr>tr_id = next_id, tr_label = dt_label det, tr_bbox = bbox, tr_confidence = dt_confidence det, tr_state = Tentative,
           tr_hit_streak = 1, tr_age = 1, tr_time_since_update = 0, tr_kf = kf_from_bbox fo bbox\<rparr>], next_id + 1))"

definition live_now :: "'f track \<Rightarrow> bool" where
  "live_now t \<longleftrightarrow> tr_state t \<noteq> Deleted \<and> tr_time_since_update t = 0"

definition tracker_update :: "'f f32_ops \<Rightarrow> 'f detection list \<Rightarrow> 'f tracker \<Rightarrow> 'f track list \<times> 'f tracker" where
  "tracker_update fo detections tk =
     (let params = tk_params tk;
          tracks = map (age_track fo) (tk_tracks tk);
          (tracks, matched) = stage_step fo params detections False (stage_step fo params detections True (tracks, replicate (length detections) False));
          tracks = map (retire params) tracks;
          (tracks, next_id) = fold (\<lambda>i. if matched ! i then id else spawn_track fo (detections ! i)) [0..<length detections] (tracks, tk_next_id tk);
          tracks = filter (\<lambda>t. tr_state t \<noteq> Deleted \<or> tr_time_since_update t \<le> tp_max_age params + 5) tracks
      in (filter live_now tracks, tk\<lparr>tk_tracks := tracks, tk_next_id := next_id\<rparr>))"

definition confirmed :: "'f tracker \<Rightarrow> 'f track list" where
  "confirmed tk = filter (\<lambda>t. tr_state t = Confirmed) (tk_tracks tk)"

text \<open>The trackers of all cameras.\<close>

type_synonym 'f trackers = "(string, 'f tracker) hmap"

definition trackers_update :: "'f f32_ops \<Rightarrow> string \<Rightarrow> 'f detection list \<Rightarrow> 'f trackers \<Rightarrow> 'f track list \<times> 'f trackers" where
  "trackers_update fo camera_id detections m =
     (let tk = (case hm_get m camera_id of Some tk \<Rightarrow> tk | None \<Rightarrow> tracker_new (tracker_params_default fo));
          (live, tk) = tracker_update fo detections tk
      in (live, hm_insert camera_id tk m))"

definition trackers_remove :: "string \<Rightarrow> 'f trackers \<Rightarrow> 'f trackers" where
  "trackers_remove camera_id m = hm_remove camera_id m"

section \<open>The assignment is stable\<close>

text \<open>
  The order laws of the floats at and above the threshold, where no value is a NaN: the comparison is irreflexive and
  \<^emph>\<open>not below\<close> is transitive.
\<close>

definition order_above :: "'f f32_ops \<Rightarrow> 'f \<Rightarrow> bool" where
  "order_above fo threshold \<longleftrightarrow>
     (\<forall>a. fo_le fo threshold a \<longrightarrow> \<not> fo_lt fo a a)
     \<and> (\<forall>a b. fo_le fo threshold a \<and> fo_le fo threshold b \<and> fo_lt fo a b \<longrightarrow> \<not> fo_lt fo b a)
     \<and> (\<forall>a b c. fo_le fo threshold a \<and> fo_le fo threshold b \<and> fo_le fo threshold c
          \<and> \<not> fo_lt fo a b \<and> \<not> fo_lt fo b c \<longrightarrow> \<not> fo_lt fo a c)"

lemma order_above_irrefl: "order_above fo th \<Longrightarrow> fo_le fo th a \<Longrightarrow> \<not> fo_lt fo a a"
  by (simp add: order_above_def)

lemma order_above_asym: "order_above fo th \<Longrightarrow> fo_le fo th a \<Longrightarrow> fo_le fo th b \<Longrightarrow> fo_lt fo a b \<Longrightarrow> \<not> fo_lt fo b a"
  unfolding order_above_def by blast

lemma order_above_trans:
  "order_above fo th \<Longrightarrow> fo_le fo th a \<Longrightarrow> fo_le fo th b \<Longrightarrow> fo_le fo th c \<Longrightarrow> \<not> fo_lt fo a b \<Longrightarrow> \<not> fo_lt fo b c \<Longrightarrow> \<not> fo_lt fo a c"
  unfolding order_above_def by blast

lemma set_insert_desc [simp]: "set (insert_desc fo x ys) = insert x (set ys)"
  by (induction ys) auto

lemma set_sort_desc [simp]: "set (sort_desc fo xs) = set xs"
  by (induction xs) auto

lemma sorted_insert_desc:
  assumes "order_above fo th" and "\<forall>y \<in> insert x (set ys). fo_le fo th (fst y)"
    and "sorted_wrt (\<lambda>a b. \<not> fo_lt fo (fst a) (fst b)) ys"
  shows "sorted_wrt (\<lambda>a b. \<not> fo_lt fo (fst a) (fst b)) (insert_desc fo x ys)"
  using assms(2,3)
proof (induction ys)
  case (Cons y ys)
  have le: "fo_le fo th (fst x)" "fo_le fo th (fst y)" "\<And>z. z \<in> set ys \<Longrightarrow> fo_le fo th (fst z)" using Cons.prems(1) by auto
  show ?case
  proof (cases "fo_lt fo (fst x) (fst y)")
    case True
    then have "\<not> fo_lt fo (fst y) (fst x)" by (rule order_above_asym [OF assms(1) le(1,2)])
    then show ?thesis using Cons True by simp
  next
    case False
    then have "\<not> fo_lt fo (fst x) (fst z)" if "z \<in> set ys" for z
      using order_above_trans [OF assms(1) le(1,2) le(3) [OF that] False] Cons.prems(2) that by simp
    then show ?thesis using False Cons.prems by simp
  qed
qed simp

lemma sorted_sort_desc:
  assumes "order_above fo th" and "\<forall>y \<in> set xs. fo_le fo th (fst y)"
  shows "sorted_wrt (\<lambda>a b. \<not> fo_lt fo (fst a) (fst b)) (sort_desc fo xs)"
  using assms(2) by (induction xs) (simp_all add: sorted_insert_desc [OF assms(1)])

lemma candidate_pairs_iff:
  "p \<in> set (candidate_pairs fo costs th) \<longleftrightarrow>
     fst (snd p) < length costs \<and> snd (snd p) < length (costs ! fst (snd p)) \<and> fst p = costs ! fst (snd p) ! snd (snd p) \<and> fo_le fo th (fst p)"
  by (cases p) (auto simp: candidate_pairs_def)

lemma candidate_pairs_le: "p \<in> set (candidate_pairs fo costs th) \<Longrightarrow> fo_le fo th (fst p)"
  by (auto simp: candidate_pairs_def)

text \<open>The loop, from a state whose marks are the pairs chosen so far.\<close>

definition competes :: "('f \<Rightarrow> 'f \<Rightarrow> bool) \<Rightarrow> (nat \<times> nat \<Rightarrow> 'f) \<Rightarrow> (nat \<times> nat) list \<Rightarrow> 'f pair \<Rightarrow> bool" where
  "competes lt K out p \<longleftrightarrow> (\<exists>q \<in> set out. (fst q = fst (snd p) \<or> snd q = snd (snd p)) \<and> \<not> lt (K q) (fst p))"

definition marked :: "bool list \<Rightarrow> nat set \<Rightarrow> bool" where
  "marked used S \<longleftrightarrow> (\<forall>i < length used. used ! i \<longleftrightarrow> i \<in> S)"

lemma marked_update: "marked used S \<Longrightarrow> marked (used[i := True]) (insert i S)"
  by (cases "i < length used") (auto simp: marked_def nth_list_update)

lemma assign_loop_spec:
  assumes "sorted_wrt (\<lambda>a b. \<not> lt (fst a) (fst b)) pairs"
    and "\<And>p. p \<in> set pairs \<Longrightarrow> fst p = K (snd p) \<and> fst (snd p) < length used_t \<and> snd (snd p) < length used_d \<and> \<not> lt (fst p) (fst p)"
    and "marked used_t (fst ` set out)" and "marked used_d (snd ` set out)"
    and "distinct (map fst out)" and "distinct (map snd out)"
    and "\<And>p q. q \<in> set out \<Longrightarrow> p \<in> set pairs \<Longrightarrow> \<not> lt (K q) (fst p)"
  shows "set out \<subseteq> set (assign_loop pairs used_t used_d out)
    \<and> distinct (map fst (assign_loop pairs used_t used_d out)) \<and> distinct (map snd (assign_loop pairs used_t used_d out))
    \<and> set (assign_loop pairs used_t used_d out) \<subseteq> set out \<union> snd ` set pairs
    \<and> (\<forall>p \<in> set pairs. competes lt K (assign_loop pairs used_t used_d out) p)"
  using assms
proof (induction pairs arbitrary: used_t used_d out)
  case (Cons p pairs)
  obtain c t d where p: "p = (c, t, d)" by (metis prod_cases3)
  have c: "c = K (t, d)" "t < length used_t" "d < length used_d" "\<not> lt c c" using Cons.prems(2) [of p] by (auto simp: p)
  have later: "\<not> lt c (fst q)" if "q \<in> set pairs" for q using Cons.prems(1) that by (simp add: p)
  show ?case
  proof (cases "\<not> used_t ! t \<and> \<not> used_d ! d")
    case True
    have fresh: "t \<notin> fst ` set out" "d \<notin> snd ` set out" using True Cons.prems(3,4) c by (auto simp: marked_def)
    have step: "assign_loop (p # pairs) used_t used_d out = assign_loop pairs (used_t[t := True]) (used_d[d := True]) (out @ [(t, d)])"
      using True by (simp add: p)
    have IH': "set (out @ [(t, d)]) \<subseteq> set (assign_loop (p # pairs) used_t used_d out)
      \<and> distinct (map fst (assign_loop (p # pairs) used_t used_d out)) \<and> distinct (map snd (assign_loop (p # pairs) used_t used_d out))
      \<and> set (assign_loop (p # pairs) used_t used_d out) \<subseteq> set (out @ [(t, d)]) \<union> snd ` set pairs
      \<and> (\<forall>p' \<in> set pairs. competes lt K (assign_loop (p # pairs) used_t used_d out) p')"
      unfolding step
    proof (rule Cons.IH)
      show "marked (used_t[t := True]) (fst ` set (out @ [(t, d)]))" "marked (used_d[d := True]) (snd ` set (out @ [(t, d)]))"
        using marked_update [OF Cons.prems(3), of t] marked_update [OF Cons.prems(4), of d] by simp_all
      show "distinct (map fst (out @ [(t, d)]))" "distinct (map snd (out @ [(t, d)]))" using Cons.prems(5,6) fresh by simp_all
      show "\<not> lt (K q) (fst p')" if "q \<in> set (out @ [(t, d)])" "p' \<in> set pairs" for p' q
        using that Cons.prems(7) [of q p'] later [of p'] c(1) by auto
      show "sorted_wrt (\<lambda>a b. \<not> lt (fst a) (fst b)) pairs" using Cons.prems(1) by simp
      show "fst p' = K (snd p') \<and> fst (snd p') < length (used_t[t := True]) \<and> snd (snd p') < length (used_d[d := True]) \<and> \<not> lt (fst p') (fst p')"
        if "p' \<in> set pairs" for p' unfolding length_list_update by (rule Cons.prems(2)) (use that in simp)
    qed
    moreover have "competes lt K (assign_loop (p # pairs) used_t used_d out) p"
      unfolding competes_def using IH' c by (intro bexI [of _ "(t, d)"]) (auto simp: p)
    ultimately show ?thesis by (auto simp: p)
  next
    case False
    have step: "assign_loop (p # pairs) used_t used_d out = assign_loop pairs used_t used_d out" using False by (auto simp: p)
    have IH: "set out \<subseteq> set (assign_loop pairs used_t used_d out)
      \<and> distinct (map fst (assign_loop pairs used_t used_d out)) \<and> distinct (map snd (assign_loop pairs used_t used_d out))
      \<and> set (assign_loop pairs used_t used_d out) \<subseteq> set out \<union> snd ` set pairs
      \<and> (\<forall>p' \<in> set pairs. competes lt K (assign_loop pairs used_t used_d out) p')"
    proof (rule Cons.IH)
      show "sorted_wrt (\<lambda>a b. \<not> lt (fst a) (fst b)) pairs" using Cons.prems(1) by simp
      show "fst p' = K (snd p') \<and> fst (snd p') < length used_t \<and> snd (snd p') < length used_d \<and> \<not> lt (fst p') (fst p')"
        if "p' \<in> set pairs" for p' by (rule Cons.prems(2)) (use that in simp)
      show "\<not> lt (K q) (fst p')" if "q \<in> set out" "p' \<in> set pairs" for p' q by (rule Cons.prems(7)) (use that in simp_all)
    qed (fact Cons.prems(3-6))+
    have "t \<in> fst ` set out \<or> d \<in> snd ` set out" using False Cons.prems(3,4) c by (auto simp: marked_def)
    then obtain q where q: "q \<in> set out" "fst q = t \<or> snd q = d" by auto
    then have "competes lt K (assign_loop pairs used_t used_d out) p"
      unfolding competes_def using IH Cons.prems(7) [OF q(1), of p] by (intro bexI [of _ q]) (auto simp: p)
    then show ?thesis unfolding step using IH by auto
  qed
qed simp

text \<open>The association of tracks and detections is a stable matching: no track and no detection is used twice, every pair
  overlaps at least by the threshold, and an overlapping pair that is not chosen competes with a chosen pair of the same track
  or the same detection that overlaps no less.\<close>

theorem greedy_assign_stable:
  assumes "order_above fo th" and "\<forall>row \<in> set costs. length row = n"
  shows "distinct (map fst (greedy_assign fo costs th)) \<and> distinct (map snd (greedy_assign fo costs th))
    \<and> (\<forall>(t, d) \<in> set (greedy_assign fo costs th). t < length costs \<and> d < n \<and> fo_le fo th (costs ! t ! d))
    \<and> (\<forall>t < length costs. \<forall>d < n. fo_le fo th (costs ! t ! d) \<longrightarrow>
         (\<exists>(t', d') \<in> set (greedy_assign fo costs th). (t' = t \<or> d' = d) \<and> \<not> fo_lt fo (costs ! t' ! d') (costs ! t ! d)))"
proof -
  define ps where "ps = sort_desc fo (candidate_pairs fo costs th)"
  define ut ud where "ut = replicate (length costs) False" and "ud = replicate (case costs of [] \<Rightarrow> 0 | r # _ \<Rightarrow> length r) False"
  let ?K = "\<lambda>q. costs ! fst q ! snd q"
  have row: "length (costs ! t) = n" if "t < length costs" for t using assms(2) that by simp
  have n: "length ud = n" if "costs \<noteq> []" using assms(2) that by (cases costs) (auto simp: ud_def)
  have cand: "p \<in> set ps \<longleftrightarrow> fst (snd p) < length costs \<and> snd (snd p) < n \<and> fst p = ?K (snd p) \<and> fo_le fo th (fst p)" for p
    using row by (auto simp: ps_def candidate_pairs_iff)
  have sorted: "sorted_wrt (\<lambda>a b. \<not> fo_lt fo (fst a) (fst b)) ps"
    unfolding ps_def by (rule sorted_sort_desc [OF assms(1)]) (simp add: candidate_pairs_le)
  have "set [] \<subseteq> set (assign_loop ps ut ud []) \<and> distinct (map fst (assign_loop ps ut ud []))
    \<and> distinct (map snd (assign_loop ps ut ud [])) \<and> set (assign_loop ps ut ud []) \<subseteq> set [] \<union> snd ` set ps
    \<and> (\<forall>p \<in> set ps. competes (fo_lt fo) ?K (assign_loop ps ut ud []) p)"
  proof (rule assign_loop_spec [OF sorted])
    fix p
    assume "p \<in> set ps"
    note c = iffD1 [OF cand this]
    have "costs \<noteq> []" using c [THEN conjunct1] by auto
    then have "length ud = n" by (rule n)
    then have d: "snd (snd p) < length ud" using c [THEN conjunct2, THEN conjunct1] by (simp only:)
    have t: "fst (snd p) < length ut" using c unfolding ut_def length_replicate by (rule conjunct1)
    have i: "\<not> fo_lt fo (fst p) (fst p)" by (rule order_above_irrefl [OF assms(1)]) (rule c [THEN conjunct2, THEN conjunct2, THEN conjunct2])
    show "fst p = ?K (snd p) \<and> fst (snd p) < length ut \<and> snd (snd p) < length ud \<and> \<not> fo_lt fo (fst p) (fst p)"
      by (rule conjI [OF c [THEN conjunct2, THEN conjunct2, THEN conjunct1] conjI [OF t conjI [OF d i]]])
  qed (simp_all add: marked_def ut_def ud_def)
  moreover have g: "greedy_assign fo costs th = assign_loop ps ut ud []" by (simp add: greedy_assign_def ps_def ut_def ud_def)
  ultimately have spec: "distinct (map fst (greedy_assign fo costs th))" "distinct (map snd (greedy_assign fo costs th))"
    "set (greedy_assign fo costs th) \<subseteq> snd ` set ps" "\<forall>p \<in> set ps. competes (fo_lt fo) ?K (greedy_assign fo costs th) p"
    by simp_all
  have "t < length costs \<and> d < n \<and> fo_le fo th (costs ! t ! d)" if "(t, d) \<in> set (greedy_assign fo costs th)" for t d
    using spec(3) that cand by fastforce
  moreover have "\<exists>(t', d') \<in> set (greedy_assign fo costs th). (t' = t \<or> d' = d) \<and> \<not> fo_lt fo (costs ! t' ! d') (costs ! t ! d)"
    if "t < length costs" "d < n" "fo_le fo th (costs ! t ! d)" for t d
    using spec(4) cand [of "(costs ! t ! d, t, d)"] that by (fastforce simp: competes_def)
  ultimately show ?thesis using spec(1,2) by blast
qed

section \<open>Identity of the tracks\<close>

lemma set_assign_loop_subset: "set (assign_loop ps ut ud out) \<subseteq> set out \<union> snd ` set ps"
proof (induction ps ut ud out rule: assign_loop.induct)
  case (2 c t d pairs used_t used_d out)
  then show ?case by (cases "\<not> used_t ! t \<and> \<not> used_d ! d") auto
qed simp

lemma greedy_assign_bounds:
  "(t, d) \<in> set (greedy_assign fo costs th) \<Longrightarrow> t < length costs \<and> d < length (costs ! t)"
  using set_assign_loop_subset [of "sort_desc fo (candidate_pairs fo costs th)"]
  by (fastforce simp: greedy_assign_def candidate_pairs_def)

text \<open>What a frame may do to a track: keep it, or feed it a detection.\<close>

definition fed_by :: "'f detection list \<Rightarrow> 'f track \<Rightarrow> bool" where
  "fed_by dets t \<longleftrightarrow> tr_time_since_update t = 0 \<and> (\<exists>d \<in> set dets. tr_label t = dt_label d \<and> tr_confidence t = dt_confidence d)"

definition tracked :: "'f detection list \<Rightarrow> 'f track \<Rightarrow> 'f track \<Rightarrow> bool" where
  "tracked dets t t' \<longleftrightarrow> tr_id t' = tr_id t \<and> (t' = t \<or> fed_by dets t')"

lemma tracked_refl [simp]: "tracked dets t t"
  by (simp add: tracked_def)

lemma tracked_trans: "tracked dets t t' \<Longrightarrow> tracked dets t' t'' \<Longrightarrow> tracked dets t t''"
  by (auto simp: tracked_def)

lemma tracked_match: "d \<in> set dets \<Longrightarrow> tracked dets t (match_track fo params d t)"
  by (auto simp: tracked_def fed_by_def match_track_def Let_def)

lemma tracked_all_refl: "list_all2 (tracked dets) ts ts"
  by (simp add: list_all2_refl)

lemmas tracked_all_trans = list_all2_trans [OF tracked_trans]

lemma list_all2_update_step:
  "list_all2 (tracked dets) ts ts' \<Longrightarrow> (i < length ts' \<Longrightarrow> tracked dets (ts' ! i) x) \<Longrightarrow> list_all2 (tracked dets) ts (ts'[i := x])"
  by (cases "i < length ts'") (auto simp: list_all2_conv_all_nth nth_list_update intro: tracked_trans)

lemma stage_fold:
  assumes "\<forall>(ti, di) \<in> set as. di < length det_idx" and "\<forall>i \<in> set det_idx. i < length dets"
    and "list_all2 (tracked dets) ts ts'"
  shows "case fold (\<lambda>(ti, di) (tracks, matched).
      (tracks[live ! ti := match_track fo params (dets ! (det_idx ! di)) (tracks ! (live ! ti))], matched[det_idx ! di := True]))
      as (ts', m) of (ts'', m') \<Rightarrow> list_all2 (tracked dets) ts ts'' \<and> length m' = length m"
  using assms(1,3)
proof (induction as arbitrary: ts' m)
  case (Cons a as)
  obtain ti di where a: "a = (ti, di)" by (cases a)
  have "dets ! (det_idx ! di) \<in> set dets" using Cons.prems(1) assms(2) by (simp add: a)
  then have "list_all2 (tracked dets) ts (ts'[live ! ti := match_track fo params (dets ! (det_idx ! di)) (ts' ! (live ! ti))])"
    by (intro list_all2_update_step Cons.prems(2)) (rule tracked_match)
  from Cons.IH [OF _ this, of "m[det_idx ! di := True]"] Cons.prems(1) show ?case by (simp add: a)
qed simp

lemma stage_step_tracked:
  "case stage_step fo params dets strong (ts, m) of (ts', m') \<Rightarrow> list_all2 (tracked dets) ts ts' \<and> length m' = length m"
proof -
  define det_idx where "det_idx = filter (\<lambda>i. \<not> m ! i \<and> strong = fo_le fo (tp_high_confidence params) (dt_confidence (dets ! i))) [0..<length dets]"
  define live where "live = filter (\<lambda>i. tr_state (ts ! i) \<noteq> Deleted) [0..<length ts]"
  define costs where "costs = map (\<lambda>ti. map (\<lambda>di. iou fo (predicted_bbox fo (tr_kf (ts ! ti))) (f32_bbox fo (dt_bbox (dets ! di)))) det_idx) live"
  have b: "\<forall>(ti, di) \<in> set (greedy_assign fo costs (tp_min_iou params)). di < length det_idx"
    using greedy_assign_bounds [of _ _ fo costs] by (fastforce simp: costs_def)
  have d: "\<forall>i \<in> set det_idx. i < length dets" by (simp add: det_idx_def)
  show ?thesis
    using stage_fold [OF b d tracked_all_refl [of dets ts], where live = live and fo = fo and params = params and m = m]
    by (simp add: stage_step_def Let_def tracked_all_refl flip: det_idx_def live_def costs_def)
qed

text \<open>The identifiers are handed out in order, none twice.\<close>

definition ids_below :: "'f track list \<Rightarrow> u64 \<Rightarrow> bool" where
  "ids_below ts n \<longleftrightarrow> sorted_wrt (<) (map tr_id ts) \<and> (\<forall>t \<in> set ts. tr_id t < n)"

definition tracker_wf :: "'f tracker \<Rightarrow> bool" where
  "tracker_wf tk \<longleftrightarrow> ids_below (tk_tracks tk) (tk_next_id tk)
     \<and> (\<forall>t \<in> set (tk_tracks tk). unat (tr_time_since_update t) \<le> unat (tp_max_age (tk_params tk)) + 5)
     \<and> unat (tp_max_age (tk_params tk)) + 6 < 2 ^ 32"

lemma ids_below_ids: "map tr_id ts = map tr_id ts' \<Longrightarrow> ids_below ts n \<longleftrightarrow> ids_below ts' n"
proof -
  assume a: "map tr_id ts = map tr_id ts'"
  then have "tr_id ` set ts = tr_id ` set ts'" by (metis list.set_map)
  then show ?thesis unfolding ids_below_def a by (metis (no_types, lifting) image_iff)
qed

lemma ids_below_filter: "ids_below ts n \<Longrightarrow> ids_below (filter P ts) n"
  unfolding ids_below_def by (induction ts) auto

lemma tracked_ids: "list_all2 (tracked dets) ts ts' \<Longrightarrow> map tr_id ts' = map tr_id ts"
  by (auto simp: list_all2_conv_all_nth tracked_def intro: nth_equalityI)

lemma word_less_succ: "unat (n::u64) + 1 < 2 ^ 64 \<Longrightarrow> n < n + 1 \<and> unat (n + 1) = unat n + 1"
  by (simp add: word_less_nat_alt unat_word_ariths)

lemma ids_below_spawn:
  assumes "ids_below ts n" "unat n + 1 < 2 ^ 64"
  shows "ids_below (fst (spawn_track fo det (ts, n))) (n + 1)"
  using assms word_less_succ [OF assms(2)]
  by (auto simp: ids_below_def spawn_track_def Let_def sorted_wrt_append intro: less_trans)

lemma tsu_retire [simp]: "tr_time_since_update (retire params t) = tr_time_since_update t" "tr_id (retire params t) = tr_id t"
  "tr_label (retire params t) = tr_label t" "tr_confidence (retire params t) = tr_confidence t"
  by (simp_all add: retire_def Let_def)

text \<open>The frame: ageing, the two stages and retirement keep the identifiers; the spawned tracks get the next ones.\<close>

lemma spawn_fold:
  assumes "ids_below ts n" "unat n + length is < 2 ^ 64" "\<forall>i \<in> set is. i < length dets"
  shows "case fold (\<lambda>i. if matched ! i then id else spawn_track fo (dets ! i)) is (ts, n) of
    (ts', n') \<Rightarrow> ids_below ts' n' \<and> n \<le> n' \<and> (\<exists>new. ts' = ts @ new \<and> (\<forall>t \<in> set new. n \<le> tr_id t \<and> fed_by dets t))"
  using assms
proof (induction "is" arbitrary: ts n)
  case (Cons i "is")
  show ?case
  proof (cases "matched ! i")
    case True
    then show ?thesis using Cons.IH [OF Cons.prems(1)] Cons.prems(2,3) by simp
  next
    case False
    have "dets ! i \<in> set dets" using Cons.prems(3) by simp
    then obtain t where s: "spawn_track fo (dets ! i) (ts, n) = (ts @ [t], n + 1)" and t: "tr_id t = n" "fed_by dets t"
      by (auto simp: spawn_track_def Let_def fed_by_def)
    have n: "n < n + 1" "unat (n + 1) = unat n + 1" using word_less_succ [of n] Cons.prems(2) by simp_all
    have "ids_below (ts @ [t]) (n + 1)" using ids_below_spawn [OF Cons.prems(1), of fo "dets ! i"] Cons.prems(2) by (simp add: s)
    from Cons.IH [OF this] Cons.prems(2,3) n(2) obtain ts' n' new where
      f: "fold (\<lambda>i. if matched ! i then id else spawn_track fo (dets ! i)) is (ts @ [t], n + 1) = (ts', n')"
      "ids_below ts' n'" "n + 1 \<le> n'" "ts' = (ts @ [t]) @ new" "\<forall>t \<in> set new. n + 1 \<le> tr_id t \<and> fed_by dets t"
      by (auto split: prod.splits)
    have "n \<le> n'" using n(1) f(3) by simp
    moreover have "\<forall>x \<in> set (t # new). n \<le> tr_id x \<and> fed_by dets x" using f(5) t n(1) by (auto intro: order_trans)
    moreover have "ts' = ts @ (t # new)" using f(4) by simp
    ultimately show ?thesis using f(1,2) False by (auto simp: s)
  qed
qed simp

lemma retire_bound:
  assumes "tr_state (retire params t) \<noteq> Deleted"
  shows "unat (tr_time_since_update t) \<le> unat (tp_max_age params) + 5"
proof (cases "tr_state t")
  case Tentative
  then have "\<not> 1 < tr_time_since_update t" using assms by (auto simp: retire_def Let_def)
  then show ?thesis by (simp add: word_less_nat_alt)
next
  case Confirmed
  then have "\<not> tp_max_age params < tr_time_since_update t" using assms by (auto simp: retire_def Let_def)
  then show ?thesis by (simp add: word_less_nat_alt)
next
  case Deleted
  then show ?thesis using assms by (simp add: retire_def)
qed

lemma kept_bound:
  assumes "tr_state (retire params t) \<noteq> Deleted \<or> tr_time_since_update t \<le> tp_max_age params + 5"
    and "unat (tp_max_age params) + 6 < 2 ^ 32"
  shows "unat (tr_time_since_update t) \<le> unat (tp_max_age params) + 5"
proof -
  have "unat (tp_max_age params + 5) = unat (tp_max_age params) + 5" using assms(2) by (simp add: unat_word_ariths)
  then show ?thesis using assms(1) retire_bound by (auto simp: word_le_nat_alt)
qed

lemma aged_not_zero:
  assumes "unat (tr_time_since_update t) \<le> unat (m::u32) + 5" "unat m + 6 < 2 ^ 32"
  shows "tr_time_since_update (age_track fo t) \<noteq> 0"
proof -
  have "unat (tr_time_since_update t + 1) = unat (tr_time_since_update t) + 1" using assms by (simp add: unat_word_ariths)
  then show ?thesis by (auto simp: age_track_def)
qed

lemma stages_tracked:
  "\<exists>ts' m'. stage_step fo params dets False (stage_step fo params dets True (ts, m)) = (ts', m') \<and> list_all2 (tracked dets) ts ts'"
proof -
  obtain ts1 m1 where 1: "stage_step fo params dets True (ts, m) = (ts1, m1)" by (cases "stage_step fo params dets True (ts, m)")
  obtain ts2 m2 where 2: "stage_step fo params dets False (ts1, m1) = (ts2, m2)" by (cases "stage_step fo params dets False (ts1, m1)")
  have "list_all2 (tracked dets) ts ts1" "list_all2 (tracked dets) ts1 ts2"
    using stage_step_tracked [where fo = fo and params = params and dets = dets and strong = True and ts = ts and m = m]
      stage_step_tracked [where fo = fo and params = params and dets = dets and strong = False and ts = ts1 and m = m1] by (simp_all add: 1 2)
  then have "list_all2 (tracked dets) ts ts2" by (rule list_all2_trans [rotated]) (rule tracked_trans)
  then show ?thesis using 1 2 by simp
qed

lemma tracker_update_shape:
  assumes "tracker_wf tk" and "unat (tk_next_id tk) + length dets < 2 ^ 64"
  obtains ts n new where
    "tracker_update fo dets tk = (filter live_now ts, tk\<lparr>tk_tracks := ts, tk_next_id := n\<rparr>)"
    and "ids_below ts n" and "tk_next_id tk \<le> n"
    and "\<And>t. t \<in> set ts \<Longrightarrow> tk_next_id tk \<le> tr_id t \<and> fed_by dets t
      \<or> (\<exists>t0 \<in> set (tk_tracks tk). tr_id t = tr_id t0 \<and> (\<exists>t1. tracked dets (age_track fo t0) t1 \<and> t = retire (tk_params tk) t1))"
    and "\<And>t. t \<in> set ts \<Longrightarrow> tr_state t \<noteq> Deleted \<or> tr_time_since_update t \<le> tp_max_age (tk_params tk) + 5"
proof -
  let ?p = "tk_params tk"
  let ?aged = "map (age_track fo) (tk_tracks tk)"
  obtain ts1 m1 where st: "stage_step fo ?p dets False (stage_step fo ?p dets True (?aged, replicate (length dets) False)) = (ts1, m1)"
    and tr: "list_all2 (tracked dets) ?aged ts1" using stages_tracked by blast
  have id_age: "tr_id (age_track fo t) = tr_id t" for t by (simp add: age_track_def)
  have ids1: "map tr_id (map (retire ?p) ts1) = map tr_id (tk_tracks tk)"
    using tracked_ids [OF tr] by (simp add: o_def id_age)
  have ids: "ids_below (map (retire ?p) ts1) (tk_next_id tk)"
    using assms(1) ids_below_ids [OF ids1] by (simp add: tracker_wf_def)
  obtain ts2 n new where sp: "fold (\<lambda>i. if m1 ! i then id else spawn_track fo (dets ! i)) [0..<length dets] (map (retire ?p) ts1, tk_next_id tk) = (ts2, n)"
    and s2: "ids_below ts2 n" "tk_next_id tk \<le> n" "ts2 = map (retire ?p) ts1 @ new" "\<forall>t \<in> set new. tk_next_id tk \<le> tr_id t \<and> fed_by dets t"
    using spawn_fold [OF ids, of "[0..<length dets]" dets m1 fo] assms(2) by (fastforce split: prod.splits)
  define ts where "ts = filter (\<lambda>t. tr_state t \<noteq> Deleted \<or> tr_time_since_update t \<le> tp_max_age ?p + 5) ts2"
  show ?thesis
  proof (rule that)
    show "tracker_update fo dets tk = (filter live_now ts, tk\<lparr>tk_tracks := ts, tk_next_id := n\<rparr>)"
      by (simp add: tracker_update_def Let_def st sp ts_def)
    show "ids_below ts n" unfolding ts_def by (rule ids_below_filter) (rule s2(1))
    show "tk_next_id tk \<le> n" by (rule s2(2))
    show "tr_state t \<noteq> Deleted \<or> tr_time_since_update t \<le> tp_max_age ?p + 5" if "t \<in> set ts" for t
      using that by (simp add: ts_def)
    have src: "\<exists>t0 \<in> set (tk_tracks tk). tracked dets (age_track fo t0) t1" if m: "t1 \<in> set ts1" for t1
    proof -
      obtain i where i: "i < length ts1" "t1 = ts1 ! i" using m by (auto simp: in_set_conv_nth)
      then have "tracked dets (age_track fo (tk_tracks tk ! i)) t1" "i < length (tk_tracks tk)" using tr by (auto simp: list_all2_conv_all_nth)
      then show ?thesis by (auto intro: bexI [of _ "tk_tracks tk ! i"])
    qed
    show "tk_next_id tk \<le> tr_id t \<and> fed_by dets t
      \<or> (\<exists>t0 \<in> set (tk_tracks tk). tr_id t = tr_id t0 \<and> (\<exists>t1. tracked dets (age_track fo t0) t1 \<and> t = retire ?p t1))" if m: "t \<in> set ts" for t
    proof (cases "t \<in> set new")
      case True
      then show ?thesis using s2(4) by blast
    next
      case False
      then obtain t1 where "t1 \<in> set ts1" "t = retire ?p t1" using m by (auto simp: ts_def s2(3))
      moreover from this(1) obtain t0 where "t0 \<in> set (tk_tracks tk)" "tracked dets (age_track fo t0) t1" using src by blast
      moreover from this(2) have "tr_id t1 = tr_id t0" by (simp add: tracked_def id_age)
      ultimately show ?thesis by auto
    qed
  qed
qed

text \<open>C29. A track identifier names one object for ever: identifiers are handed out in increasing order and none is used again, and
  every track reported for a frame was fed by a detection of that frame, whose label and confidence it carries.\<close>

theorem track_ids_never_reused:
  assumes "tracker_wf tk" and "unat (tk_next_id tk) + length dets < 2 ^ 64"
  shows "case tracker_update fo dets tk of (live, tk') \<Rightarrow>
    tracker_wf tk' \<and> tk_next_id tk \<le> tk_next_id tk' \<and> sorted_wrt (<) (map tr_id live)
    \<and> (\<forall>t \<in> set live. tr_id t \<in> tr_id ` set (tk_tracks tk) \<or> tk_next_id tk \<le> tr_id t)
    \<and> (\<forall>t \<in> set live. \<exists>d \<in> set dets. tr_label t = dt_label d \<and> tr_confidence t = dt_confidence d)"
proof -
  obtain ts n where u: "tracker_update fo dets tk = (filter live_now ts, tk\<lparr>tk_tracks := ts, tk_next_id := n\<rparr>)"
    and ids: "ids_below ts n" "tk_next_id tk \<le> n"
    and src: "\<And>t. t \<in> set ts \<Longrightarrow> tk_next_id tk \<le> tr_id t \<and> fed_by dets t
      \<or> (\<exists>t0 \<in> set (tk_tracks tk). tr_id t = tr_id t0 \<and> (\<exists>t1. tracked dets (age_track fo t0) t1 \<and> t = retire (tk_params tk) t1))"
    and kept: "\<And>t. t \<in> set ts \<Longrightarrow> tr_state t \<noteq> Deleted \<or> tr_time_since_update t \<le> tp_max_age (tk_params tk) + 5"
    by (rule tracker_update_shape [OF assms]) blast
  have age: "unat (tp_max_age (tk_params tk)) + 6 < 2 ^ 32" using assms(1) by (simp add: tracker_wf_def)
  have tsu: "unat (tr_time_since_update t) \<le> unat (tp_max_age (tk_params tk)) + 5" if "t \<in> set ts" for t
    using src [OF that] kept [OF that] kept_bound [OF _ age] by (auto simp: fed_by_def)
  have fed: "fed_by dets t" if "t \<in> set ts" "live_now t" for t
  proof (rule ccontr)
    assume "\<not> fed_by dets t"
    with src [OF that(1)] obtain t0 t1 where t: "t0 \<in> set (tk_tracks tk)" "tracked dets (age_track fo t0) t1" "t = retire (tk_params tk) t1" by blast
    with \<open>\<not> fed_by dets t\<close> have "t1 = age_track fo t0" by (auto simp: tracked_def fed_by_def)
    moreover have "tr_time_since_update (age_track fo t0) \<noteq> 0"
      using assms(1) t(1) by (intro aged_not_zero [OF _ age]) (simp add: tracker_wf_def)
    ultimately show False using that(2) t(3) by (simp add: live_now_def)
  qed
  have "tracker_wf (tk\<lparr>tk_tracks := ts, tk_next_id := n\<rparr>)" using ids tsu age by (simp add: tracker_wf_def)
  moreover have "sorted_wrt (<) (map tr_id (filter live_now ts))" using ids_below_filter [OF ids(1)] by (simp add: ids_below_def)
  ultimately show ?thesis using ids(2) src fed by (fastforce simp: u fed_by_def)
qed

text \<open>Fixed-point numbers with three decimals instantiate the parameter.\<close>

definition fixed_ops :: "int f32_ops" where
  "fixed_ops = \<lparr>fo_add = (+), fo_sub = (-), fo_mul = (\<lambda>a b. a * b div 1000), fo_div = (\<lambda>a b. a * 1000 div b), fo_lt = (<), fo_le = (\<le>),
     fo_max = max, fo_min = min, fo_lit = (\<lambda>p q. p * 1000 div q), fo_of_u32 = (\<lambda>x. uint x * 1000)\<rparr>"

definition strong_det :: "int detection" where
  "strong_det = \<lparr>dt_label = ''person'', dt_confidence = 900, dt_bbox = (100, 100, 40, 40)\<rparr>"

definition weak_det :: "int detection" where
  "weak_det = \<lparr>dt_label = ''person'', dt_confidence = 200, dt_bbox = (104, 100, 40, 40)\<rparr>"

definition fixed_tracker :: "int tracker" where
  "fixed_tracker = tracker_new (tracker_params_default fixed_ops)"

lemma order_above_fixed: "order_above fixed_ops th"
  by (auto simp: order_above_def fixed_ops_def)

lemma tracker_wf_fixed: "tracker_wf fixed_tracker"
  by (simp add: tracker_wf_def ids_below_def fixed_tracker_def tracker_new_def tracker_params_default_def)

theorem greedy_assign_stable_witness:
  "order_above fixed_ops 300 \<and> greedy_assign fixed_ops [[500, 900], [800, 700]] 300 = [(0, 1), (1, 0)]
   \<and> distinct (map fst (greedy_assign fixed_ops [[500, 900], [800, 700]] 300))"
proof -
  have "greedy_assign fixed_ops [[500, 900], [800, 700]] 300 = [(0, 1), (1, 0)]" by code_simp
  then show ?thesis using greedy_assign_stable [OF order_above_fixed [of 300], of "[[500, 900], [800, 700]]" 2] order_above_fixed by simp
qed

theorem track_ids_never_reused_witness:
  "tracker_wf fixed_tracker \<and> map tr_id (fst (tracker_update fixed_ops [strong_det, strong_det] fixed_tracker)) = [1, 2]
   \<and> tracker_wf (snd (tracker_update fixed_ops [strong_det, strong_det] fixed_tracker))"
proof -
  have "map tr_id (fst (tracker_update fixed_ops [strong_det, strong_det] fixed_tracker)) = [1, 2]" by code_simp
  moreover have "unat (tk_next_id fixed_tracker) + length [strong_det, strong_det] < 2 ^ 64"
    by (simp add: fixed_tracker_def tracker_new_def)
  ultimately show ?thesis
    using track_ids_never_reused [OF tracker_wf_fixed, of "[strong_det, strong_det]" fixed_ops] tracker_wf_fixed by (auto split: prod.splits)
qed

text \<open>The second stage offers the weak detections to every live track, also to those the first stage has just matched: one frame
  can raise the hit streak of a track by two.\<close>

lemma second_stage_rematches:
  "map (\<lambda>t. (tr_id t, tr_hit_streak t, tr_confidence t)) (fst (tracker_update fixed_ops [strong_det, weak_det] (snd (tracker_update fixed_ops [strong_det] fixed_tracker))))
     = [(1, 3, 200)]"
  by code_simp

text \<open>The hit streak survives a miss, and a tentative track survives its first one: seen, missed, seen is a confirmed track.\<close>

lemma hits_need_not_be_consecutive:
  "map (\<lambda>t. (tr_id t, tr_hit_streak t, tr_state t))
     (fst (tracker_update fixed_ops [strong_det] (snd (tracker_update fixed_ops [] (snd (tracker_update fixed_ops [strong_det] fixed_tracker))))))
     = [(1, 2, Confirmed)]"
  by code_simp

end
