(* ===== verification/ZoneEngine.thy ===== *)
theory ZoneEngine
  imports Tracking
begin

text \<open>
  The geometry event engine of \<^verbatim>\<open>crates/streaming/src/ai/zones.rs\<close> over the float operations of \<open>Tracking\<close>, and the
  per-camera engines of the bridge task (\<^verbatim>\<open>src/runtime/zone_bridge.rs\<close>). The events of a frame are shown to be
  those of one independent monitor per zone and track.
\<close>

section \<open>Geometry\<close>

type_synonym 'f point = "'f \<times> 'f"

datatype zone_kind = ZIntrusion | ZLineCross

record 'f zone =
  zn_name :: string
  zn_kind :: zone_kind
  zn_points :: "'f point list"
  zn_dwell_secs :: u32

datatype zone_event_kind = EIntrusion | ELoiter | ELineCross bool

record zone_event =
  zv_camera_id :: string
  zv_zone :: string
  zv_event :: zone_event_kind
  zv_track_id :: u64
  zv_label :: string
  zv_timestamp_ms :: u64

definition point_in_polygon :: "'f f32_ops \<Rightarrow> 'f point \<Rightarrow> 'f point list \<Rightarrow> bool" where
  "point_in_polygon fo pt poly =
     (if length poly < 3 then False
      else fst (fold (\<lambda>i (inside, j).
        let (xi, yi) = poly ! i; (xj, yj) = poly ! j
        in (if fo_lt fo (snd pt) yi \<noteq> fo_lt fo (snd pt) yj
            then
              let x_at = fo_add fo (fo_div fo (fo_mul fo (fo_sub fo xj xi) (fo_sub fo (snd pt) yi)) (fo_sub fo yj yi)) xi
              in if fo_lt fo (fst pt) x_at then \<not> inside else inside
            else inside, i))
        [0..<length poly] (False, length poly - 1)))"

definition orient :: "'f f32_ops \<Rightarrow> 'f point \<Rightarrow> 'f point \<Rightarrow> 'f point \<Rightarrow> 'f" where
  "orient fo p q r =
     fo_sub fo (fo_mul fo (fo_sub fo (fst q) (fst p)) (fo_sub fo (snd r) (snd p)))
       (fo_mul fo (fo_sub fo (snd q) (snd p)) (fo_sub fo (fst r) (fst p)))"

definition eps_sign :: "'f f32_ops \<Rightarrow> 'f \<Rightarrow> int" where
  "eps_sign fo v = (if fo_lt fo (fo_lit fo 1 1000000) v then 1 else if fo_lt fo v (fo_lit fo (-1) 1000000) then -1 else 0)"

definition on_segment :: "'f f32_ops \<Rightarrow> 'f point \<Rightarrow> 'f point \<Rightarrow> 'f point \<Rightarrow> bool" where
  "on_segment fo p q r =
     (let eps = fo_lit fo 1 1000000;
          min_x = fo_sub fo (fo_min fo (fst p) (fst r)) eps; max_x = fo_add fo (fo_max fo (fst p) (fst r)) eps;
          min_y = fo_sub fo (fo_min fo (snd p) (snd r)) eps; max_y = fo_add fo (fo_max fo (snd p) (snd r)) eps
      in fo_le fo min_x (fst q) \<and> fo_le fo (fst q) max_x \<and> fo_le fo min_y (snd q) \<and> fo_le fo (snd q) max_y)"

definition segments_intersect :: "'f f32_ops \<Rightarrow> 'f point \<Rightarrow> 'f point \<Rightarrow> 'f point \<Rightarrow> 'f point \<Rightarrow> bool" where
  "segments_intersect fo a b c d =
     (let o1 = eps_sign fo (orient fo a b c); o2 = eps_sign fo (orient fo a b d);
          o3 = eps_sign fo (orient fo c d a); o4 = eps_sign fo (orient fo c d b)
      in if o1 \<noteq> o2 \<and> o3 \<noteq> o4 \<and> \<not> (o1 = 0 \<and> o2 = 0) then True
         else if o1 = 0 \<and> on_segment fo a c b then True
         else if o2 = 0 \<and> on_segment fo a d b then True
         else if o3 = 0 \<and> on_segment fo c a d then True
         else if o4 = 0 \<and> on_segment fo c b d then True
         else False)"

definition side_of :: "'f f32_ops \<Rightarrow> 'f point \<Rightarrow> 'f point \<Rightarrow> 'f point \<Rightarrow> 'f" where
  "side_of fo p c d =
     fo_sub fo (fo_mul fo (fo_sub fo (fst d) (fst c)) (fo_sub fo (snd p) (snd c)))
       (fo_mul fo (fo_sub fo (snd d) (snd c)) (fo_sub fo (fst p) (fst c)))"

section \<open>The engine\<close>

record 'f zone_engine =
  ze_inside_since :: "(nat \<times> u64, u64) hmap"
  ze_last_pos :: "(u64, 'f point) hmap"
  ze_loiter_fired :: "(nat \<times> u64, bool) hmap"

definition zone_engine_new :: "'f zone_engine" where
  "zone_engine_new = \<lparr>ze_inside_since = [], ze_last_pos = [], ze_loiter_fired = []\<rparr>"

definition mk_event :: "string \<Rightarrow> 'f zone \<Rightarrow> zone_event_kind \<Rightarrow> 'f track \<Rightarrow> u64 \<Rightarrow> zone_event" where
  "mk_event camera_id zone event t now_ms =
     \<lparr>zv_camera_id = camera_id, zv_zone = zn_name zone, zv_event = event, zv_track_id = tr_id t, zv_label = tr_label t, zv_timestamp_ms = now_ms\<rparr>"

definition feet_point :: "'f f32_ops \<Rightarrow> 'f bbox \<Rightarrow> 'f point" where
  "feet_point fo = (\<lambda>(x, y, w, h). (fo_add fo x (fo_div fo w (fo_lit fo 2 1)), fo_add fo y h))"

definition next_positions :: "'f f32_ops \<Rightarrow> 'f track list \<Rightarrow> (u64, 'f point) hmap" where
  "next_positions fo tracks = fold (\<lambda>t. hm_insert (tr_id t) (feet_point fo (tr_bbox t))) tracks []"

text \<open>\<^verbatim>\<open>next_pos[&t.id]\<close> panics for a missing key; the map has the identifier of every track of the frame
  (\<open>hm_get_next_positions\<close>).\<close>

definition intrusion_step ::
  "'f f32_ops \<Rightarrow> string \<Rightarrow> (u64, 'f point) hmap \<Rightarrow> nat \<Rightarrow> 'f zone \<Rightarrow> u64 \<Rightarrow> 'f track \<Rightarrow> 'f zone_engine \<times> zone_event list \<Rightarrow> 'f zone_engine \<times> zone_event list" where
  "intrusion_step fo camera_id next_pos zi zone now_ms t = (\<lambda>(s, events).
     let center = the (hm_get next_pos (tr_id t)); key = (zi, tr_id t)
     in if point_in_polygon fo center (zn_points zone)
        then
          let since = (case hm_get (ze_inside_since s) key of Some v \<Rightarrow> v | None \<Rightarrow> now_ms);
              s = (case hm_get (ze_inside_since s) key of Some _ \<Rightarrow> s
                   | None \<Rightarrow> s\<lparr>ze_inside_since := hm_insert key now_ms (ze_inside_since s)\<rparr>);
              dwell_ms = (if since \<le> now_ms then now_ms - since else 0)
          in if hm_get (ze_loiter_fired s) key \<noteq> Some True
             then
               let events = (if dwell_ms = 0 then events @ [mk_event camera_id zone EIntrusion t now_ms] else events);
                   dwell_need = ucast (zn_dwell_secs zone) * 1000
               in if 0 < zn_dwell_secs zone \<and> dwell_need \<le> dwell_ms
                  then (s\<lparr>ze_loiter_fired := hm_insert key True (ze_loiter_fired s)\<rparr>, events @ [mk_event camera_id zone ELoiter t now_ms])
                  else (s, events)
             else (s, events)
        else if hm_get (ze_inside_since s) key \<noteq> None
        then (s\<lparr>ze_inside_since := hm_remove key (ze_inside_since s), ze_loiter_fired := hm_remove key (ze_loiter_fired s)\<rparr>, events)
        else (s, events))"

definition line_cross_step ::
  "'f f32_ops \<Rightarrow> string \<Rightarrow> (u64, 'f point) hmap \<Rightarrow> 'f zone \<Rightarrow> 'f point \<Rightarrow> 'f point \<Rightarrow> u64 \<Rightarrow> 'f track \<Rightarrow> 'f zone_engine \<times> zone_event list \<Rightarrow> 'f zone_engine \<times> zone_event list" where
  "line_cross_step fo camera_id next_pos zone c d now_ms t = (\<lambda>(s, events).
     case hm_get (ze_last_pos s) (tr_id t) of
       None \<Rightarrow> (s, events)
     | Some prev \<Rightarrow>
         let cur = the (hm_get next_pos (tr_id t))
         in if segments_intersect fo prev cur c d
            then (s, events @ [mk_event camera_id zone (ELineCross (fo_lt fo (side_of fo cur c d) (fo_lit fo 0 1))) t now_ms])
            else (s, events))"

definition zone_step ::
  "'f f32_ops \<Rightarrow> string \<Rightarrow> (u64, 'f point) hmap \<Rightarrow> 'f track list \<Rightarrow> u64 \<Rightarrow> nat \<times> 'f zone \<Rightarrow> 'f zone_engine \<times> zone_event list \<Rightarrow> 'f zone_engine \<times> zone_event list" where
  "zone_step fo camera_id next_pos tracks now_ms = (\<lambda>(zi, zone) acc.
     case zn_kind zone of
       ZIntrusion \<Rightarrow> fold (intrusion_step fo camera_id next_pos zi zone now_ms) tracks acc
     | ZLineCross \<Rightarrow>
         if length (zn_points zone) < 2 then acc
         else fold (line_cross_step fo camera_id next_pos zone (zn_points zone ! 0) (zn_points zone ! 1) now_ms) tracks acc)"

definition zone_update :: "'f f32_ops \<Rightarrow> string \<Rightarrow> 'f zone list \<Rightarrow> 'f track list \<Rightarrow> u64 \<Rightarrow> 'f zone_engine \<Rightarrow> zone_event list \<times> 'f zone_engine" where
  "zone_update fo camera_id zones tracks now_ms s =
     (let live = map tr_id tracks;
          next_pos = next_positions fo tracks;
          (s, events) = fold (zone_step fo camera_id next_pos tracks now_ms) (enumerate 0 zones) (s, []);
          s = s\<lparr>ze_last_pos := next_pos\<rparr>;
          s = s\<lparr>ze_inside_since := hm_retain (\<lambda>_ _. True) (ze_inside_since s)\<rparr>;
          s = s\<lparr>ze_inside_since := hm_retain (\<lambda>(_, tid) _. tid \<in> set live) (ze_inside_since s)\<rparr>;
          s = s\<lparr>ze_loiter_fired := hm_retain (\<lambda>(_, tid) _. tid \<in> set live) (ze_loiter_fired s)\<rparr>;
          s = s\<lparr>ze_last_pos := hm_retain (\<lambda>tid _. tid \<in> set live) (ze_last_pos s)\<rparr>
      in (events, s))"

section \<open>The bridge\<close>

type_synonym 'f zone_engines = "(string, 'f zone_engine) hmap"

definition on_track_event ::
  "'f f32_ops \<Rightarrow> (string, 'f zone list) hmap \<Rightarrow> string \<Rightarrow> 'f track list \<Rightarrow> u64 \<Rightarrow> 'f zone_engines \<Rightarrow> zone_event list \<times> 'f zone_engines" where
  "on_track_event fo zones camera_id tracks now_ms engines =
     (if zones = [] then ([], engines)
      else
        let engine = (case hm_get engines camera_id of Some e \<Rightarrow> e | None \<Rightarrow> zone_engine_new);
            (events, engine) = zone_update fo camera_id (case hm_get zones camera_id of Some zs \<Rightarrow> zs | None \<Rightarrow> []) tracks now_ms engine
        in (events, hm_insert camera_id engine engines))"

definition zone_event_name :: "zone_event_kind \<Rightarrow> string" where
  "zone_event_name k = (case k of
     EIntrusion \<Rightarrow> ''intrusion'' | ELoiter \<Rightarrow> ''loiter'' | ELineCross forward \<Rightarrow> if forward then ''line_cross_forward'' else ''line_cross_backward'')"

section \<open>One monitor per zone and track\<close>

type_synonym occupancy = "(u64 \<times> bool) option"

definition occ :: "'f zone_engine \<Rightarrow> nat \<times> u64 \<Rightarrow> occupancy" where
  "occ s key = map_option (\<lambda>since. (since, hm_get (ze_loiter_fired s) key = Some True)) (hm_get (ze_inside_since s) key)"

definition engine_wf :: "'f zone_engine \<Rightarrow> bool" where
  "engine_wf s \<longleftrightarrow> hm_wf (ze_inside_since s) \<and> hm_wf (ze_loiter_fired s)
     \<and> (\<forall>k. hm_get (ze_inside_since s) k = None \<longrightarrow> hm_get (ze_loiter_fired s) k = None)"

definition monitor_step :: "u32 \<Rightarrow> bool \<Rightarrow> u64 \<Rightarrow> occupancy \<Rightarrow> occupancy \<times> zone_event_kind list" where
  "monitor_step dwell_secs inside now_ms o' =
     (if \<not> inside then (None, [])
      else
        let (since, fired) = (case o' of None \<Rightarrow> (now_ms, False) | Some x \<Rightarrow> x);
            dwell_ms = (if since \<le> now_ms then now_ms - since else 0);
            loiter = (\<not> fired \<and> 0 < dwell_secs \<and> ucast dwell_secs * 1000 \<le> dwell_ms)
        in (Some (since, fired \<or> loiter),
            (if \<not> fired \<and> dwell_ms = 0 then [EIntrusion] else []) @ (if loiter then [ELoiter] else [])))"

definition zone_inside :: "'f f32_ops \<Rightarrow> (u64, 'f point) hmap \<Rightarrow> 'f zone \<Rightarrow> u64 \<Rightarrow> bool" where
  "zone_inside fo next_pos zone tid = point_in_polygon fo (the (hm_get next_pos tid)) (zn_points zone)"

lemma occ_fired_None: "engine_wf s \<Longrightarrow> hm_get (ze_inside_since s) k = None \<Longrightarrow> hm_get (ze_loiter_fired s) k = None"
  unfolding engine_wf_def by blast

lemma engine_wf_new [simp]: "engine_wf zone_engine_new" "occ zone_engine_new k = None"
  by (simp_all add: engine_wf_def occ_def zone_engine_new_def)

lemma intrusion_step_last_pos: "ze_last_pos (fst (intrusion_step fo cam np zi zone now t (s, events))) = ze_last_pos s"
  by (simp add: intrusion_step_def Let_def split: option.splits)

lemma intrusion_step_wf: "engine_wf s \<Longrightarrow> engine_wf (fst (intrusion_step fo cam np zi zone now t (s, events)))"
  by (auto simp: intrusion_step_def Let_def engine_wf_def split: option.splits)

lemma intrusion_step_events:
  assumes "engine_wf s"
  shows "snd (intrusion_step fo cam np zi zone now t (s, events)) =
    events @ map (\<lambda>k. mk_event cam zone k t now) (snd (monitor_step (zn_dwell_secs zone) (zone_inside fo np zone (tr_id t)) now (occ s (zi, tr_id t))))"
proof (cases "hm_get (ze_inside_since s) (zi, tr_id t)")
  case None
  then show ?thesis using occ_fired_None [OF assms None]
    by (simp add: intrusion_step_def Let_def monitor_step_def occ_def zone_inside_def)
next
  case (Some since)
  then show ?thesis by (simp add: intrusion_step_def Let_def monitor_step_def occ_def zone_inside_def)
qed

lemma intrusion_step_occ:
  assumes "engine_wf s"
  shows "occ (fst (intrusion_step fo cam np zi zone now t (s, events))) =
    (occ s)((zi, tr_id t) := fst (monitor_step (zn_dwell_secs zone) (zone_inside fo np zone (tr_id t)) now (occ s (zi, tr_id t))))"
proof (cases "hm_get (ze_inside_since s) (zi, tr_id t)")
  case None
  then show ?thesis using occ_fired_None [OF assms None]
    by (simp add: intrusion_step_def Let_def monitor_step_def occ_def zone_inside_def fun_eq_iff)
next
  case (Some since)
  then show ?thesis by (simp add: intrusion_step_def Let_def monitor_step_def occ_def zone_inside_def fun_eq_iff)
qed

lemma intrusion_step_refines:
  assumes "engine_wf s"
  shows "\<exists>s'. intrusion_step fo cam np zi zone now t (s, events) =
      (s', events @ map (\<lambda>k. mk_event cam zone k t now) (snd (monitor_step (zn_dwell_secs zone) (zone_inside fo np zone (tr_id t)) now (occ s (zi, tr_id t)))))
    \<and> occ s' = (occ s)((zi, tr_id t) := fst (monitor_step (zn_dwell_secs zone) (zone_inside fo np zone (tr_id t)) now (occ s (zi, tr_id t))))
    \<and> engine_wf s' \<and> ze_last_pos s' = ze_last_pos s"
  using intrusion_step_events [OF assms, of fo cam np zi zone now t events] intrusion_step_occ [OF assms, of fo cam np zi zone now t events]
    intrusion_step_wf [OF assms, of fo cam np zi zone now t events] intrusion_step_last_pos [of fo cam np zi zone now t s events]
  by (metis prod.collapse)

text \<open>The monitor of a zone and a track for one frame.\<close>

definition pair_step :: "'f f32_ops \<Rightarrow> (u64, 'f point) hmap \<Rightarrow> 'f zone \<Rightarrow> u64 \<Rightarrow> u64 \<Rightarrow> occupancy \<Rightarrow> occupancy \<times> zone_event_kind list" where
  "pair_step fo np zone now tid = monitor_step (zn_dwell_secs zone) (zone_inside fo np zone tid) now"

definition pair_events :: "'f f32_ops \<Rightarrow> string \<Rightarrow> (u64, 'f point) hmap \<Rightarrow> 'f zone \<Rightarrow> u64 \<Rightarrow> (u64 \<Rightarrow> occupancy) \<Rightarrow> 'f track \<Rightarrow> zone_event list" where
  "pair_events fo cam np zone now oc t = map (\<lambda>k. mk_event cam zone k t now) (snd (pair_step fo np zone now (tr_id t) (oc (tr_id t))))"

lemma intrusion_fold:
  assumes "engine_wf s" "distinct (map tr_id tracks)"
  shows "\<exists>s'. fold (intrusion_step fo cam np zi zone now) tracks (s, events) =
      (s', events @ concat (map (pair_events fo cam np zone now (\<lambda>tid. occ s (zi, tid))) tracks))
    \<and> (\<forall>zi' tid. occ s' (zi', tid) = (if zi' = zi \<and> tid \<in> tr_id ` set tracks
         then fst (pair_step fo np zone now tid (occ s (zi, tid))) else occ s (zi', tid)))
    \<and> engine_wf s' \<and> ze_last_pos s' = ze_last_pos s"
  using assms
proof (induction tracks arbitrary: s events)
  case (Cons t tracks)
  let ?e = "pair_events fo cam np zone now (\<lambda>tid. occ s (zi, tid))"
  from intrusion_step_refines [OF Cons.prems(1), of fo cam np zi zone now t events] obtain s1 where
    s1: "intrusion_step fo cam np zi zone now t (s, events) = (s1, events @ ?e t)"
    "occ s1 = (occ s)((zi, tr_id t) := fst (pair_step fo np zone now (tr_id t) (occ s (zi, tr_id t))))"
    "engine_wf s1" "ze_last_pos s1 = ze_last_pos s" unfolding pair_events_def pair_step_def by blast
  have d: "tr_id t \<notin> tr_id ` set tracks" "distinct (map tr_id tracks)" using Cons.prems(2) by simp_all
  obtain s' where s': "fold (intrusion_step fo cam np zi zone now) tracks (s1, events @ ?e t) =
      (s', (events @ ?e t) @ concat (map (pair_events fo cam np zone now (\<lambda>tid. occ s1 (zi, tid))) tracks))"
    "\<forall>zi' tid. occ s' (zi', tid) = (if zi' = zi \<and> tid \<in> tr_id ` set tracks
         then fst (pair_step fo np zone now tid (occ s1 (zi, tid))) else occ s1 (zi', tid))"
    "engine_wf s'" "ze_last_pos s' = ze_last_pos s1" using Cons.IH [OF s1(3) d(2)] by blast
  have e: "map (pair_events fo cam np zone now (\<lambda>tid. occ s1 (zi, tid))) tracks = map ?e tracks"
  proof (intro map_cong refl)
    fix u
    assume "u \<in> set tracks"
    then have "tr_id u \<noteq> tr_id t" using d(1) by (metis imageI)
    then show "pair_events fo cam np zone now (\<lambda>tid. occ s1 (zi, tid)) u = ?e u" by (simp add: pair_events_def s1(2))
  qed
  have "occ s' (zi', tid) = (if zi' = zi \<and> tid \<in> tr_id ` set (t # tracks)
      then fst (pair_step fo np zone now tid (occ s (zi, tid))) else occ s (zi', tid))" for zi' tid
    using s'(2) d(1) by (cases "tid = tr_id t") (auto simp: s1(2))
  then show ?case using s'(1,3,4) s1(1,4) e by simp
qed simp

definition cross_events :: "'f f32_ops \<Rightarrow> string \<Rightarrow> (u64, 'f point) hmap \<Rightarrow> 'f zone \<Rightarrow> u64 \<Rightarrow> (u64, 'f point) hmap \<Rightarrow> 'f track \<Rightarrow> zone_event list" where
  "cross_events fo cam np zone now before t = (case hm_get before (tr_id t) of
     None \<Rightarrow> []
   | Some prev \<Rightarrow>
       if segments_intersect fo prev (the (hm_get np (tr_id t))) (zn_points zone ! 0) (zn_points zone ! 1)
       then [mk_event cam zone (ELineCross (fo_lt fo (side_of fo (the (hm_get np (tr_id t))) (zn_points zone ! 0) (zn_points zone ! 1)) (fo_lit fo 0 1))) t now]
       else [])"

lemma line_cross_fold:
  "fold (line_cross_step fo cam np zone (zn_points zone ! 0) (zn_points zone ! 1) now) tracks (s, events) =
     (s, events @ concat (map (cross_events fo cam np zone now (ze_last_pos s)) tracks))"
  by (induction tracks arbitrary: events) (simp_all add: line_cross_step_def cross_events_def Let_def split: option.splits)

definition zone_spec :: "'f f32_ops \<Rightarrow> string \<Rightarrow> (u64, 'f point) hmap \<Rightarrow> 'f track list \<Rightarrow> u64 \<Rightarrow> 'f zone_engine \<Rightarrow> nat \<times> 'f zone \<Rightarrow> zone_event list" where
  "zone_spec fo cam np tracks now s = (\<lambda>(zi, zone). case zn_kind zone of
     ZIntrusion \<Rightarrow> concat (map (pair_events fo cam np zone now (\<lambda>tid. occ s (zi, tid))) tracks)
   | ZLineCross \<Rightarrow> if length (zn_points zone) < 2 then [] else concat (map (cross_events fo cam np zone now (ze_last_pos s)) tracks))"

definition occ_after :: "'f f32_ops \<Rightarrow> (u64, 'f point) hmap \<Rightarrow> u64 set \<Rightarrow> u64 \<Rightarrow> 'f zone_engine \<Rightarrow> 'f zone \<Rightarrow> nat \<times> u64 \<Rightarrow> occupancy" where
  "occ_after fo np live now s zone key =
     (if zn_kind zone = ZIntrusion \<and> snd key \<in> live then fst (pair_step fo np zone now (snd key) (occ s key)) else occ s key)"

lemma zone_step_refines:
  assumes "engine_wf s" "distinct (map tr_id tracks)"
  shows "\<exists>s'. zone_step fo cam np tracks now (zi, zone) (s, events) = (s', events @ zone_spec fo cam np tracks now s (zi, zone))
    \<and> (\<forall>key. occ s' key = (if fst key = zi then occ_after fo np (tr_id ` set tracks) now s zone key else occ s key))
    \<and> engine_wf s' \<and> ze_last_pos s' = ze_last_pos s"
proof (cases "zn_kind zone")
  case ZIntrusion
  then show ?thesis using intrusion_fold [OF assms, of fo cam np zi zone now events]
    by (auto simp: zone_step_def zone_spec_def occ_after_def)
next
  case ZLineCross
  then show ?thesis using assms(1) line_cross_fold [of fo cam np zone now tracks s events]
    by (auto simp: zone_step_def zone_spec_def occ_after_def)
qed

lemma zone_spec_cong:
  "(\<And>tid. occ s (fst z, tid) = occ s' (fst z, tid)) \<Longrightarrow> ze_last_pos s = ze_last_pos s' \<Longrightarrow> zone_spec fo cam np tracks now s z = zone_spec fo cam np tracks now s' z"
  by (cases z) (simp add: zone_spec_def split: zone_kind.splits)

lemma zones_fold:
  assumes "engine_wf s" "distinct (map tr_id tracks)"
  shows "\<exists>s'. fold (zone_step fo cam np tracks now) (enumerate k zones) (s, events) =
      (s', events @ concat (map (zone_spec fo cam np tracks now s) (enumerate k zones)))
    \<and> (\<forall>key. occ s' key = (if k \<le> fst key \<and> fst key < k + length zones
         then occ_after fo np (tr_id ` set tracks) now s (zones ! (fst key - k)) key else occ s key))
    \<and> engine_wf s' \<and> ze_last_pos s' = ze_last_pos s"
  using assms(1)
proof (induction zones arbitrary: k s events)
  case (Cons z zones)
  obtain s1 where s1: "zone_step fo cam np tracks now (k, z) (s, events) = (s1, events @ zone_spec fo cam np tracks now s (k, z))"
    "\<forall>key. occ s1 key = (if fst key = k then occ_after fo np (tr_id ` set tracks) now s z key else occ s key)"
    "engine_wf s1" "ze_last_pos s1 = ze_last_pos s" using zone_step_refines [OF Cons.prems assms(2)] by blast
  obtain s' where s': "fold (zone_step fo cam np tracks now) (enumerate (Suc k) zones) (s1, events @ zone_spec fo cam np tracks now s (k, z)) =
      (s', (events @ zone_spec fo cam np tracks now s (k, z)) @ concat (map (zone_spec fo cam np tracks now s1) (enumerate (Suc k) zones)))"
    "\<forall>key. occ s' key = (if Suc k \<le> fst key \<and> fst key < Suc k + length zones
         then occ_after fo np (tr_id ` set tracks) now s1 (zones ! (fst key - Suc k)) key else occ s1 key)"
    "engine_wf s'" "ze_last_pos s' = ze_last_pos s1" using Cons.IH [OF s1(3)] by blast
  have e: "map (zone_spec fo cam np tracks now s1) (enumerate (Suc k) zones) = map (zone_spec fo cam np tracks now s) (enumerate (Suc k) zones)"
    by (intro map_cong refl zone_spec_cong) (auto simp: s1(2,4) in_set_enumerate_eq)
  have "occ s' key = (if k \<le> fst key \<and> fst key < k + length (z # zones)
      then occ_after fo np (tr_id ` set tracks) now s ((z # zones) ! (fst key - k)) key else occ s key)" for key
  proof (cases "fst key = k")
    case True
    then show ?thesis using s'(2) [rule_format, of key] s1(2) [rule_format, of key] by simp
  next
    case False
    then have "occ s1 key = occ s key" using s1(2) [rule_format, of key] by simp
    moreover have "k \<le> fst key \<longleftrightarrow> Suc k \<le> fst key" using False by auto
    moreover have "(z # zones) ! (fst key - k) = zones ! (fst key - Suc k)" if "Suc k \<le> fst key" using that by (simp add: nth_Cons')
    ultimately show ?thesis using s'(2) [rule_format, of key] by (auto simp: occ_after_def)
  qed
  then show ?case using s'(1,3,4) s1(1,4) e by simp
qed auto

lemma hm_get_next_positions_aux:
  "distinct (map tr_id tracks) \<Longrightarrow> hm_get (fold (\<lambda>t. hm_insert (tr_id t) (feet_point fo (tr_bbox t))) tracks m) tid =
     (case find (\<lambda>t. tr_id t = tid) tracks of Some t \<Rightarrow> Some (feet_point fo (tr_bbox t)) | None \<Rightarrow> hm_get m tid)"
proof (induction tracks arbitrary: m)
  case (Cons t tracks)
  have "tr_id u \<noteq> tr_id t" if "u \<in> set tracks" for u by (rule distinct_map_neq [OF Cons.prems that])
  then have "find (\<lambda>u. tr_id u = tr_id t) tracks = None" by (simp add: find_None_iff)
  moreover have "distinct (map tr_id tracks)" using Cons.prems by simp
  ultimately show ?case using Cons.IH [of "hm_insert (tr_id t) (feet_point fo (tr_bbox t)) m"]
    by (cases "tr_id t = tid") (simp_all split: option.splits)
qed simp

lemma hm_get_next_positions:
  assumes "distinct (map tr_id tracks)" "t \<in> set tracks"
  shows "hm_get (next_positions fo tracks) (tr_id t) = Some (feet_point fo (tr_bbox t))"
proof -
  obtain u where u: "find (\<lambda>u. tr_id u = tr_id t) tracks = Some u"
    using assms(2) by (cases "find (\<lambda>u. tr_id u = tr_id t) tracks") (auto simp: find_None_iff)
  then have "u \<in> set tracks" "tr_id u = tr_id t" by (auto simp: find_Some_iff)
  then have "u = t" using assms by (auto simp: distinct_map inj_on_def)
  then show ?thesis using u hm_get_next_positions_aux [OF assms(1), of fo "[]" "tr_id t"] by (simp add: next_positions_def)
qed

lemma zone_update_refines:
  assumes "engine_wf s" "distinct (map tr_id tracks)"
  shows "\<exists>s'. zone_update fo cam zones tracks now s =
      (concat (map (zone_spec fo cam (next_positions fo tracks) tracks now s) (enumerate 0 zones)), s')
    \<and> engine_wf s'
    \<and> (\<forall>zi tid. occ s' (zi, tid) = (if tid \<notin> tr_id ` set tracks then None
         else if zi < length zones then occ_after fo (next_positions fo tracks) (tr_id ` set tracks) now s (zones ! zi) (zi, tid)
         else occ s (zi, tid)))"
proof -
  obtain s1 where s1: "fold (zone_step fo cam (next_positions fo tracks) tracks now) (enumerate 0 zones) (s, []) =
      (s1, concat (map (zone_spec fo cam (next_positions fo tracks) tracks now s) (enumerate 0 zones)))"
    "\<forall>key. occ s1 key = (if fst key < length zones
         then occ_after fo (next_positions fo tracks) (tr_id ` set tracks) now s (zones ! fst key) key else occ s key)"
    "engine_wf s1" using zones_fold [OF assms, of fo cam "next_positions fo tracks" now 0 zones "[]"] by auto
  define s2 where "s2 = snd (zone_update fo cam zones tracks now s)"
  have wf: "hm_wf (ze_inside_since s1)" "hm_wf (ze_loiter_fired s1)" using s1(3) by (simp_all add: engine_wf_def)
  have s2: "ze_inside_since s2 = hm_retain (\<lambda>(_, tid) _. tid \<in> set (map tr_id tracks)) (hm_retain (\<lambda>_ _. True) (ze_inside_since s1))"
    "ze_loiter_fired s2 = hm_retain (\<lambda>(_, tid) _. tid \<in> set (map tr_id tracks)) (ze_loiter_fired s1)"
    by (simp_all add: s2_def zone_update_def Let_def s1(1))
  have g: "hm_get (ze_inside_since s2) (zi, tid) = (if tid \<in> tr_id ` set tracks then hm_get (ze_inside_since s1) (zi, tid) else None)"
    "hm_get (ze_loiter_fired s2) (zi, tid) = (if tid \<in> tr_id ` set tracks then hm_get (ze_loiter_fired s1) (zi, tid) else None)" for zi tid
    unfolding s2 by (simp_all add: hm_get_retain wf split: option.splits)
  have "occ s2 (zi, tid) = (if tid \<notin> tr_id ` set tracks then None else occ s1 (zi, tid))" for zi tid
    by (simp add: occ_def g)
  moreover have "engine_wf s2"
  proof -
    have "hm_wf (ze_inside_since s2)" "hm_wf (ze_loiter_fired s2)" by (simp_all add: s2 wf)
    moreover have "hm_get (ze_loiter_fired s2) (zi, tid) = None" if "hm_get (ze_inside_since s2) (zi, tid) = None" for zi tid
      using that occ_fired_None [OF s1(3), of "(zi, tid)"] by (simp add: g split: if_splits)
    ultimately show ?thesis unfolding engine_wf_def by (metis surj_pair)
  qed
  moreover have "zone_update fo cam zones tracks now s =
      (concat (map (zone_spec fo cam (next_positions fo tracks) tracks now s) (enumerate 0 zones)), s2)"
    by (simp add: s2_def zone_update_def Let_def s1(1))
  ultimately show ?thesis using s1(2) by simp
qed

section \<open>A stay\<close>

text \<open>The events of one zone and one track.\<close>

lemma pair_events_fields:
  "e \<in> set (pair_events fo cam np zone now oc t) \<Longrightarrow> zv_zone e = zn_name zone \<and> zv_track_id e = tr_id t"
  by (auto simp: pair_events_def mk_event_def)

lemma zone_spec_name: "e \<in> set (zone_spec fo cam np tracks now s (zi, zone)) \<Longrightarrow> zv_zone e = zn_name zone"
  by (auto simp: zone_spec_def pair_events_def cross_events_def mk_event_def split: zone_kind.splits if_splits option.splits)

definition of_pair :: "string \<Rightarrow> u64 \<Rightarrow> zone_event list \<Rightarrow> zone_event_kind list" where
  "of_pair name tid events = map zv_event (filter (\<lambda>e. zv_track_id e = tid) (filter (\<lambda>e. zv_zone e = name) events))"

lemma of_pair_append: "of_pair name tid (xs @ ys) = of_pair name tid xs @ of_pair name tid ys"
  by (simp add: of_pair_def)

lemma of_pair_zone_update:
  assumes "engine_wf s" "distinct (map tr_id tracks)" "distinct (map zn_name zones)"
    and "zi < length zones" "zn_kind (zones ! zi) = ZIntrusion" "t \<in> set tracks"
  shows "\<exists>events s'. zone_update fo cam zones tracks now s = (events, s') \<and> engine_wf s'
    \<and> (occ s' (zi, tr_id t), of_pair (zn_name (zones ! zi)) (tr_id t) events) =
        monitor_step (zn_dwell_secs (zones ! zi)) (point_in_polygon fo (feet_point fo (tr_bbox t)) (zn_points (zones ! zi))) now (occ s (zi, tr_id t))"
proof -
  let ?np = "next_positions fo tracks" and ?z = "zones ! zi"
  let ?m = "monitor_step (zn_dwell_secs ?z) (point_in_polygon fo (feet_point fo (tr_bbox t)) (zn_points ?z)) now (occ s (zi, tr_id t))"
  obtain s' where s': "zone_update fo cam zones tracks now s = (concat (map (zone_spec fo cam ?np tracks now s) (enumerate 0 zones)), s')"
    "engine_wf s'" "occ s' (zi, tr_id t) = occ_after fo ?np (tr_id ` set tracks) now s ?z (zi, tr_id t)"
    using zone_update_refines [OF assms(1,2), of fo cam zones now] assms(4,6) by auto
  have m: "pair_step fo ?np ?z now (tr_id t) (occ s (zi, tr_id t)) = ?m"
    by (simp add: pair_step_def zone_inside_def hm_get_next_positions [OF assms(2,6)])
  have "filter (\<lambda>e. zv_zone e = zn_name ?z) (concat (map (zone_spec fo cam ?np tracks now s) (enumerate 0 zones))) = zone_spec fo cam ?np tracks now s (zi, ?z)"
  proof (rule filter_concat_unique [where f = "\<lambda>z. zn_name (snd z)"])
    show "distinct (map (\<lambda>z. zn_name (snd z)) (enumerate 0 zones))"
      using assms(3) by (simp flip: map_map [where f = zn_name and g = snd, unfolded comp_def])
    show "(zi, ?z) \<in> set (enumerate 0 zones)" using assms(4) by (simp add: in_set_enumerate_eq)
  qed (auto dest: zone_spec_name)
  moreover have "filter (\<lambda>e. zv_track_id e = tr_id t) (zone_spec fo cam ?np tracks now s (zi, ?z)) =
      pair_events fo cam ?np ?z now (\<lambda>tid. occ s (zi, tid)) t"
    unfolding zone_spec_def by (simp add: assms(5)) (rule filter_concat_unique [OF assms(2,6)], use pair_events_fields in fastforce)
  ultimately have "of_pair (zn_name ?z) (tr_id t) (concat (map (zone_spec fo cam ?np tracks now s) (enumerate 0 zones))) = snd ?m"
    by (simp add: of_pair_def pair_events_def m mk_event_def o_def del: filter_filter)
  moreover have "occ s' (zi, tr_id t) = fst ?m" using s'(3) assms(5,6) m by (simp add: occ_after_def)
  ultimately show ?thesis using s'(1,2) by (metis prod.collapse)
qed

text \<open>The events of a camera over its frames, each a list of tracks and the clock.\<close>

fun zone_run :: "'f f32_ops \<Rightarrow> string \<Rightarrow> 'f zone list \<Rightarrow> ('f track list \<times> u64) list \<Rightarrow> 'f zone_engine \<Rightarrow> zone_event list" where
  "zone_run fo cam zones [] s = []"
| "zone_run fo cam zones ((tracks, now) # frames) s =
     (let (events, s') = zone_update fo cam zones tracks now s in events @ zone_run fo cam zones frames s')"

text \<open>In every frame the track is in the zone.\<close>

definition stays_inside :: "'f f32_ops \<Rightarrow> 'f zone \<Rightarrow> u64 \<Rightarrow> ('f track list \<times> u64) list \<Rightarrow> bool" where
  "stays_inside fo zone tid frames \<longleftrightarrow> (\<forall>(tracks, now) \<in> set frames. distinct (map tr_id tracks)
     \<and> (\<exists>t \<in> set tracks. tr_id t = tid \<and> point_in_polygon fo (feet_point fo (tr_bbox t)) (zn_points zone)))"

lemma zone_run_step:
  assumes "engine_wf s" "distinct (map zn_name zones)" "zi < length zones" "zn_kind (zones ! zi) = ZIntrusion"
    and "stays_inside fo (zones ! zi) tid ((tracks, now) # frames)"
  shows "\<exists>s'. engine_wf s' \<and> occ s' (zi, tid) = fst (monitor_step (zn_dwell_secs (zones ! zi)) True now (occ s (zi, tid)))
    \<and> of_pair (zn_name (zones ! zi)) tid (zone_run fo cam zones ((tracks, now) # frames) s) =
        snd (monitor_step (zn_dwell_secs (zones ! zi)) True now (occ s (zi, tid)))
        @ of_pair (zn_name (zones ! zi)) tid (zone_run fo cam zones frames s')"
proof -
  obtain t where t: "t \<in> set tracks" "tr_id t = tid" "point_in_polygon fo (feet_point fo (tr_bbox t)) (zn_points (zones ! zi))"
    "distinct (map tr_id tracks)" using assms(5) by (auto simp: stays_inside_def)
  show ?thesis using of_pair_zone_update [OF assms(1) t(4) assms(2-4) t(1), of fo cam now] t(2,3)
    by (cases "monitor_step (zn_dwell_secs (zones ! zi)) True now (occ s (zi, tid))") (auto simp: of_pair_append)
qed

lemma monitor_entry: "monitor_step dwell True now None = (Some (now, False), [EIntrusion])"
proof -
  have "\<not> (0 < dwell \<and> ucast dwell * 1000 \<le> (0::u64))"
  proof
    assume a: "0 < dwell \<and> ucast dwell * 1000 \<le> (0::u64)"
    have "uint dwell < 2 ^ 32" using uint_lt2p [of dwell] by simp
    then have "uint (ucast dwell * 1000 :: u64) = uint dwell * 1000" by (simp add: uint_word_ariths unsigned_ucast_eq take_bit_int_eq_self)
    then show False using a by (auto simp: word_le_def word_less_def)
  qed
  then show ?thesis by (auto simp: monitor_step_def Let_def)
qed

lemma monitor_inside:
  assumes "since < now"
  shows "monitor_step dwell True now (Some (since, fired)) =
    (let loiter = (\<not> fired \<and> 0 < dwell \<and> ucast dwell * 1000 \<le> now - since) in (Some (since, fired \<or> loiter), if loiter then [ELoiter] else []))"
  using assms by (auto simp: monitor_step_def Let_def)

lemma stay_after_entry:
  assumes "engine_wf s" "distinct (map zn_name zones)" "zi < length zones" "zn_kind (zones ! zi) = ZIntrusion"
    and "stays_inside fo (zones ! zi) tid frames" "\<forall>f \<in> set frames. since < snd f" "occ s (zi, tid) = Some (since, fired)"
  shows "of_pair (zn_name (zones ! zi)) tid (zone_run fo cam zones frames s) =
    (if \<not> fired \<and> 0 < zn_dwell_secs (zones ! zi) \<and> (\<exists>f \<in> set frames. ucast (zn_dwell_secs (zones ! zi)) * 1000 \<le> snd f - since)
     then [ELoiter] else [])"
  using assms(1,5-7)
proof (induction frames arbitrary: s fired)
  case Nil
  then show ?case by (simp add: of_pair_def)
next
  case (Cons f frames)
  obtain tracks now where f: "f = (tracks, now)" by (cases f)
  define loiter where "loiter = (\<not> fired \<and> 0 < zn_dwell_secs (zones ! zi) \<and> ucast (zn_dwell_secs (zones ! zi)) * 1000 \<le> now - since)"
  have m: "monitor_step (zn_dwell_secs (zones ! zi)) True now (occ s (zi, tid)) = (Some (since, fired \<or> loiter), if loiter then [ELoiter] else [])"
    using monitor_inside [of since now] Cons.prems(3,4) by (simp add: f Let_def loiter_def)
  obtain s' where s': "engine_wf s'" "occ s' (zi, tid) = Some (since, fired \<or> loiter)"
    "of_pair (zn_name (zones ! zi)) tid (zone_run fo cam zones (f # frames) s) =
       (if loiter then [ELoiter] else []) @ of_pair (zn_name (zones ! zi)) tid (zone_run fo cam zones frames s')"
    using zone_run_step [OF Cons.prems(1) assms(2-4) Cons.prems(2) [unfolded f], of cam] by (auto simp: m f)
  have "stays_inside fo (zones ! zi) tid frames" using Cons.prems(2) by (simp add: stays_inside_def)
  from Cons.IH [OF s'(1) this _ s'(2)] Cons.prems(3) show ?case unfolding s'(3) by (auto simp: loiter_def f)
qed

text \<open>C30. A stay in a zone raises one alarm: when a track that was not in the zone stays in it over the frames, the zone and the
  track get one intrusion event, at the entry, and one loiter event exactly when the dwell time is positive and a later frame
  reaches it; whatever the other zones and tracks do.\<close>

theorem one_alarm_per_stay:
  assumes "engine_wf s" "distinct (map zn_name zones)" "zi < length zones" "zn_kind (zones ! zi) = ZIntrusion"
    and "occ s (zi, tid) = None" "stays_inside fo (zones ! zi) tid ((tracks, t0) # frames)" "sorted_wrt (<) (t0 # map snd frames)"
  shows "of_pair (zn_name (zones ! zi)) tid (zone_run fo cam zones ((tracks, t0) # frames) s) =
    EIntrusion # (if 0 < zn_dwell_secs (zones ! zi) \<and> (\<exists>f \<in> set frames. ucast (zn_dwell_secs (zones ! zi)) * 1000 \<le> snd f - t0)
      then [ELoiter] else [])"
proof -
  obtain s' where s': "engine_wf s'" "occ s' (zi, tid) = Some (t0, False)"
    "of_pair (zn_name (zones ! zi)) tid (zone_run fo cam zones ((tracks, t0) # frames) s) =
       EIntrusion # of_pair (zn_name (zones ! zi)) tid (zone_run fo cam zones frames s')"
    using zone_run_step [OF assms(1-4,6), of cam] by (auto simp: assms(5) monitor_entry)
  have "stays_inside fo (zones ! zi) tid frames" "\<forall>f \<in> set frames. t0 < snd f"
    using assms(6,7) by (simp_all add: stays_inside_def)
  from stay_after_entry [OF s'(1) assms(2-4) this s'(2)] show ?thesis unfolding s'(3) by simp
qed

text \<open>The yard of the tests, in fixed-point numbers.\<close>

definition yard :: "int zone" where
  "yard = \<lparr>zn_name = ''yard'', zn_kind = ZIntrusion, zn_points = [(100000, 100000), (300000, 100000), (300000, 300000), (100000, 300000)], zn_dwell_secs = 3\<rparr>"

definition visitor :: "int track" where
  "visitor = \<lparr>tr_id = 1, tr_label = ''person'', tr_bbox = (100000, 280000, 10000, 10000), tr_confidence = 900, tr_state = Confirmed,
     tr_hit_streak = 3, tr_age = 5, tr_time_since_update = 0, tr_kf = kf_from_bbox fixed_ops (100000, 280000, 10000, 10000)\<rparr>"

lemma visitor_inside: "point_in_polygon fixed_ops (feet_point fixed_ops (tr_bbox visitor)) (zn_points yard)"
  by code_simp

theorem one_alarm_per_stay_witness:
  "stays_inside fixed_ops yard 1 [([visitor], 1000), ([visitor], 2500), ([visitor], 4000), ([visitor], 10000)]
   \<and> of_pair ''yard'' 1 (zone_run fixed_ops ''0'' [yard] [([visitor], 1000), ([visitor], 2500), ([visitor], 4000), ([visitor], 10000)] zone_engine_new)
     = [EIntrusion, ELoiter]"
proof -
  have s: "stays_inside fixed_ops ([yard] ! 0) 1 [([visitor], 1000), ([visitor], 2500), ([visitor], 4000), ([visitor], 10000)]"
    using visitor_inside by (simp add: stays_inside_def visitor_def)
  have "of_pair (zn_name ([yard] ! 0)) 1 (zone_run fixed_ops ''0'' [yard] [([visitor], 1000), ([visitor], 2500), ([visitor], 4000), ([visitor], 10000)] zone_engine_new)
    = EIntrusion # (if 0 < zn_dwell_secs ([yard] ! 0) \<and> (\<exists>f \<in> set [([visitor], 2500), ([visitor], 4000), ([visitor], 10000)].
        ucast (zn_dwell_secs ([yard] ! 0)) * 1000 \<le> snd f - 1000) then [ELoiter] else [])"
    using one_alarm_per_stay [of zone_engine_new "[yard]" 0 1, OF _ _ _ _ _ s] by (simp add: yard_def)
  then show ?thesis using s by (simp add: yard_def)
qed

text \<open>The dwell clock is the wall clock of the bridge: when it is set back, every frame until it has caught up reports the
  intrusion again.\<close>

lemma clock_set_back_repeats_intrusion:
  "of_pair ''yard'' 1 (zone_run fixed_ops ''0'' [yard] [([visitor], 90000), ([visitor], 50000), ([visitor], 51000), ([visitor], 52000)] zone_engine_new)
     = [EIntrusion, EIntrusion, EIntrusion, EIntrusion]"
  by code_simp

end
