(* ===== verification/DescGate.thy ===== *)
theory DescGate
  imports Prelude
begin

text \<open>
  The admission gate for frame descriptions, \<^verbatim>\<open>src/desc_gate.rs\<close>. The gate is shared by
  threads and consists of atomics, so the model is a step relation in which every atomic access
  of \<^verbatim>\<open>try_admit\<close> and of the lease's drop is a step of its own, interleaved
  with those of any number of other threads. A thread is idle, has won the swap, has
  passed the interval test, has stored the start time, runs with its lease, or is about to undo its acquisition.
\<close>

datatype desc_decision = Admitted | Busy | Throttled

fun decision_as_str :: "desc_decision \<Rightarrow> string" where
  "decision_as_str Admitted = ''admitted''"
| "decision_as_str Busy = ''busy''"
| "decision_as_str Throttled = ''throttled''"

record desc_gate =
  dg_in_flight :: bool
  dg_last_start_ms :: u64
  dg_has_started :: bool
  dg_min_interval_ms :: u64

definition desc_gate_new :: "u64 \<Rightarrow> desc_gate" where
  "desc_gate_new min_interval_ms =
     \<lparr>dg_in_flight = False, dg_last_start_ms = 0, dg_has_started = False, dg_min_interval_ms = min_interval_ms\<rparr>"

definition is_busy :: "desc_gate \<Rightarrow> bool" where
  "is_busy g = dg_in_flight g"

definition saturating_sub :: "u64 \<Rightarrow> u64 \<Rightarrow> u64" where
  "saturating_sub a b = (if b \<le> a then a - b else 0)"

definition throttled :: "desc_gate \<Rightarrow> u64 \<Rightarrow> bool" where
  "throttled g now_ms \<longleftrightarrow> dg_has_started g \<and> saturating_sub now_ms (dg_last_start_ms g) < dg_min_interval_ms g"

text \<open>One call without interference: the decision, whether a lease is returned, and the gate.\<close>

definition try_admit :: "u64 \<Rightarrow> desc_gate \<Rightarrow> desc_decision \<times> bool \<times> desc_gate" where
  "try_admit now_ms g =
     (if dg_in_flight g then (Busy, False, g)
      else
        let g = g\<lparr>dg_in_flight := True\<rparr>
        in if throttled g now_ms then (Throttled, False, g\<lparr>dg_in_flight := False\<rparr>)
           else (Admitted, True, g\<lparr>dg_last_start_ms := now_ms, dg_has_started := True\<rparr>))"

definition drop_lease :: "desc_gate \<Rightarrow> desc_gate" where
  "drop_lease g = g\<lparr>dg_in_flight := False\<rparr>"

section \<open>Interleaved steps\<close>

datatype pc =
    Idle
  | Won u64             \<comment> \<open>the swap returned false\<close>
  | Undo                \<comment> \<open>throttled, about to clear the flag\<close>
  | Passed u64          \<comment> \<open>the interval test passed\<close>
  | Stored              \<comment> \<open>the start time is stored\<close>
  | Leased              \<comment> \<open>admitted, holding the lease\<close>

record system =
  sy_gate :: desc_gate
  sy_pcs :: "nat \<Rightarrow> pc"
  sy_starts :: "u64 list"   \<comment> \<open>the admitted start times, latest first\<close>

inductive gate_step :: "system \<Rightarrow> system \<Rightarrow> bool" where
  swap_busy: "sy_pcs s i = Idle \<Longrightarrow> dg_in_flight (sy_gate s) \<Longrightarrow>
     gate_step s (s\<lparr>sy_gate := (sy_gate s)\<lparr>dg_in_flight := True\<rparr>\<rparr>)"
| swap_won: "sy_pcs s i = Idle \<Longrightarrow> \<not> dg_in_flight (sy_gate s) \<Longrightarrow>
     gate_step s (s\<lparr>sy_gate := (sy_gate s)\<lparr>dg_in_flight := True\<rparr>, sy_pcs := (sy_pcs s)(i := Won now)\<rparr>)"
| test_throttled: "sy_pcs s i = Won now \<Longrightarrow> throttled (sy_gate s) now \<Longrightarrow>
     gate_step s (s\<lparr>sy_pcs := (sy_pcs s)(i := Undo)\<rparr>)"
| undo: "sy_pcs s i = Undo \<Longrightarrow>
     gate_step s (s\<lparr>sy_gate := (sy_gate s)\<lparr>dg_in_flight := False\<rparr>, sy_pcs := (sy_pcs s)(i := Idle)\<rparr>)"
| test_passed: "sy_pcs s i = Won now \<Longrightarrow> \<not> throttled (sy_gate s) now \<Longrightarrow>
     gate_step s (s\<lparr>sy_pcs := (sy_pcs s)(i := Passed now)\<rparr>)"
| store_start: "sy_pcs s i = Passed now \<Longrightarrow>
     gate_step s (s\<lparr>sy_gate := (sy_gate s)\<lparr>dg_last_start_ms := now\<rparr>, sy_pcs := (sy_pcs s)(i := Stored),
                    sy_starts := now # sy_starts s\<rparr>)"
| store_started: "sy_pcs s i = Stored \<Longrightarrow>
     gate_step s (s\<lparr>sy_gate := (sy_gate s)\<lparr>dg_has_started := True\<rparr>, sy_pcs := (sy_pcs s)(i := Leased)\<rparr>)"
| release: "sy_pcs s i = Leased \<Longrightarrow>
     gate_step s (s\<lparr>sy_gate := drop_lease (sy_gate s), sy_pcs := (sy_pcs s)(i := Idle)\<rparr>)"

definition gate_init :: "u64 \<Rightarrow> system" where
  "gate_init min_interval_ms = \<lparr>sy_gate = desc_gate_new min_interval_ms, sy_pcs = (\<lambda>_. Idle), sy_starts = []\<rparr>"

inductive gate_reach :: "u64 \<Rightarrow> system \<Rightarrow> bool" where
  start: "gate_reach m (gate_init m)"
| more: "gate_reach m s \<Longrightarrow> gate_step s s' \<Longrightarrow> gate_reach m s'"

inductive_cases gate_stepE: "gate_step s s'"

text \<open>The start times are apart by the interval (an earlier clock reading counts as no time passed).\<close>

fun apart :: "u64 \<Rightarrow> u64 list \<Rightarrow> bool" where
  "apart m (t # t' # ts) \<longleftrightarrow> m \<le> saturating_sub t t' \<and> apart m (t' # ts)"
| "apart m _ \<longleftrightarrow> True"

definition passed_ok :: "system \<Rightarrow> nat \<Rightarrow> bool" where
  "passed_ok s i \<longleftrightarrow> (\<forall>now. sy_pcs s i = Passed now \<longrightarrow> apart (dg_min_interval_ms (sy_gate s)) (now # sy_starts s))"

text \<open>
  The invariant: at most one thread is past the swap, and exactly then the flag is set; the gate
  remembers the latest start, unless the thread that stored it has not yet set the other flag.
\<close>

definition gate_inv :: "system \<Rightarrow> bool" where
  "gate_inv s \<longleftrightarrow>
     (\<forall>i j. sy_pcs s i \<noteq> Idle \<and> sy_pcs s j \<noteq> Idle \<longrightarrow> i = j) \<and>
     (dg_in_flight (sy_gate s) \<longleftrightarrow> (\<exists>i. sy_pcs s i \<noteq> Idle)) \<and>
     (sy_starts s \<noteq> [] \<longrightarrow> dg_last_start_ms (sy_gate s) = hd (sy_starts s) \<and>
        (dg_has_started (sy_gate s) \<or> (\<exists>i. sy_pcs s i = Stored))) \<and>
     apart (dg_min_interval_ms (sy_gate s)) (sy_starts s) \<and> (\<forall>i. passed_ok s i)"

lemma gate_inv_init: "gate_inv (gate_init m)"
  by (simp add: gate_inv_def gate_init_def desc_gate_new_def passed_ok_def)

lemma not_throttled_apart:
  "\<not> throttled g now \<Longrightarrow> (starts \<noteq> [] \<Longrightarrow> dg_last_start_ms g = hd starts \<and> dg_has_started g) \<Longrightarrow>
   apart (dg_min_interval_ms g) starts \<Longrightarrow> apart (dg_min_interval_ms g) (now # starts)"
  by (cases starts) (auto simp: throttled_def)

lemma alone: "gate_inv s \<Longrightarrow> sy_pcs s i \<noteq> Idle \<Longrightarrow> j \<noteq> i \<Longrightarrow> sy_pcs s j = Idle"
  unfolding gate_inv_def by blast

lemma only_stored: "gate_inv s \<Longrightarrow> sy_pcs s i \<noteq> Idle \<Longrightarrow> sy_pcs s i \<noteq> Stored \<Longrightarrow> sy_pcs s j \<noteq> Stored"
  using alone [of s i j] by (cases "j = i") auto

lemma gate_inv_step:
  assumes "gate_inv s" and "gate_step s s'"
  shows "gate_inv s'"
  using assms(2)
proof cases
  case (swap_busy i)
  then show ?thesis using assms(1) by (simp add: gate_inv_def passed_ok_def)
next
  case (swap_won i now)
  then have "\<forall>j. sy_pcs s j = Idle" using assms(1) by (simp add: gate_inv_def)
  then show ?thesis using swap_won assms(1) by (auto simp: gate_inv_def passed_ok_def)
next
  case (test_throttled i now)
  then show ?thesis using assms(1) alone [OF assms(1), of i] only_stored [OF assms(1), of i]
    by (auto simp: gate_inv_def passed_ok_def)
next
  case (undo i)
  then show ?thesis using assms(1) alone [OF assms(1), of i] only_stored [OF assms(1), of i]
    by (auto simp: gate_inv_def passed_ok_def)
next
  case (test_passed i now)
  then have "apart (dg_min_interval_ms (sy_gate s)) (now # sy_starts s)"
    using assms(1) only_stored [OF assms(1), of i] by (intro not_throttled_apart) (auto simp: gate_inv_def)
  then show ?thesis using test_passed assms(1) alone [OF assms(1), of i] only_stored [OF assms(1), of i]
    by (auto simp: gate_inv_def passed_ok_def)
next
  case (store_start i now)
  have "apart (dg_min_interval_ms (sy_gate s)) (now # sy_starts s)"
    using assms(1) store_start by (auto simp: gate_inv_def passed_ok_def)
  then show ?thesis using store_start assms(1) alone [OF assms(1), of i] by (auto simp: gate_inv_def passed_ok_def)
next
  case (store_started i)
  then show ?thesis using assms(1) alone [OF assms(1), of i] by (auto simp: gate_inv_def passed_ok_def)
next
  case (release i)
  then show ?thesis using assms(1) alone [OF assms(1), of i] only_stored [OF assms(1), of i]
    by (auto simp: gate_inv_def passed_ok_def drop_lease_def)
qed

lemma gate_min_interval: "gate_step s s' \<Longrightarrow> dg_min_interval_ms (sy_gate s') = dg_min_interval_ms (sy_gate s)"
  by (cases rule: gate_step.cases) (auto simp: drop_lease_def)

lemma gate_reach_inv: "gate_reach m s \<Longrightarrow> gate_inv s \<and> dg_min_interval_ms (sy_gate s) = m"
proof (induction rule: gate_reach.induct)
  case (start m)
  show ?case using gate_inv_init by (simp add: gate_init_def desc_gate_new_def)
next
  case (more m s s')
  then show ?case using gate_inv_step gate_min_interval by auto
qed

text \<open>A call without interference takes the steps of its branch to the gate that \<open>try_admit\<close> computes.\<close>

lemma try_admit_steps:
  assumes "sy_pcs s i = Idle" and "try_admit now (sy_gate s) = (dec, lease, g')"
  shows "gate_step\<^sup>*\<^sup>* s (s\<lparr>sy_gate := g', sy_pcs := (sy_pcs s)(i := (if dec = Admitted then Leased else Idle)),
      sy_starts := (if dec = Admitted then now # sy_starts s else sy_starts s)\<rparr>)"
proof (cases "dg_in_flight (sy_gate s)")
  case True
  then have "dec = Busy" "g' = sy_gate s" using assms(2) by (simp_all add: try_admit_def)
  then show ?thesis using assms(1) by (simp add: fun_upd_idem)
next
  case False
  let ?s1 = "s\<lparr>sy_gate := (sy_gate s)\<lparr>dg_in_flight := True\<rparr>, sy_pcs := (sy_pcs s)(i := Won now)\<rparr>"
  have s1: "gate_step s ?s1" by (rule swap_won [OF assms(1) False])
  show ?thesis
  proof (cases "throttled (sy_gate ?s1) now")
    case True
    have "gate_step ?s1 (?s1\<lparr>sy_pcs := (sy_pcs ?s1)(i := Undo)\<rparr>)" by (rule test_throttled [OF _ True]) simp
    moreover note undo [of "?s1\<lparr>sy_pcs := (sy_pcs ?s1)(i := Undo)\<rparr>" i]
    ultimately have "gate_step\<^sup>*\<^sup>* s (s\<lparr>sy_gate := (sy_gate s)\<lparr>dg_in_flight := False\<rparr>, sy_pcs := (sy_pcs s)(i := Idle)\<rparr>)"
      using s1 by (simp add: converse_rtranclp_into_rtranclp r_into_rtranclp)
    moreover have "dec = Throttled" "g' = (sy_gate s)\<lparr>dg_in_flight := False\<rparr>"
      using assms(2) False True by (simp_all add: try_admit_def Let_def)
    ultimately show ?thesis by simp
  next
    case nt: False
    let ?s2 = "?s1\<lparr>sy_pcs := (sy_pcs ?s1)(i := Passed now)\<rparr>"
    let ?s3 = "?s2\<lparr>sy_gate := (sy_gate ?s2)\<lparr>dg_last_start_ms := now\<rparr>, sy_pcs := (sy_pcs ?s2)(i := Stored), sy_starts := now # sy_starts ?s2\<rparr>"
    let ?s4 = "?s3\<lparr>sy_gate := (sy_gate ?s3)\<lparr>dg_has_started := True\<rparr>, sy_pcs := (sy_pcs ?s3)(i := Leased)\<rparr>"
    have "gate_step ?s1 ?s2" by (rule test_passed [OF _ nt]) simp
    moreover have "gate_step ?s2 ?s3" by (rule store_start) simp
    moreover have "gate_step ?s3 ?s4" by (rule store_started) simp
    ultimately have "gate_step\<^sup>*\<^sup>* s ?s4" using s1 by (meson converse_rtranclp_into_rtranclp r_into_rtranclp)
    moreover have "?s4 = s\<lparr>sy_gate := (sy_gate s)\<lparr>dg_in_flight := True, dg_last_start_ms := now, dg_has_started := True\<rparr>,
        sy_pcs := (sy_pcs s)(i := Leased), sy_starts := now # sy_starts s\<rparr>" by simp
    moreover have "dec = Admitted" "g' = (sy_gate s)\<lparr>dg_in_flight := True, dg_last_start_ms := now, dg_has_started := True\<rparr>"
      using assms(2) False nt by (simp_all add: try_admit_def Let_def)
    ultimately show ?thesis by (simp only: simp_thms if_True)
  qed
qed

text \<open>C18. Descriptions never stack: in every interleaving of any number of threads at most one holds a lease, the gate is busy exactly while
  some thread is between winning the swap and its release, so no lease leaks, and consecutive admitted starts are at least the minimum interval apart.\<close>

theorem gate_single_flight:
  assumes "gate_reach m s"
  shows "(\<forall>i j. sy_pcs s i = Leased \<and> sy_pcs s j = Leased \<longrightarrow> i = j) \<and>
    (is_busy (sy_gate s) \<longleftrightarrow> (\<exists>i. sy_pcs s i \<noteq> Idle)) \<and> apart m (sy_starts s)"
  using gate_reach_inv [OF assms] unfolding gate_inv_def is_busy_def by (metis pc.distinct(9))

lemma gate_reach_steps: "gate_step\<^sup>*\<^sup>* s s' \<Longrightarrow> gate_reach m s \<Longrightarrow> gate_reach m s'"
  by (induction rule: rtranclp_induct) (auto intro: more)

theorem gate_single_flight_witness:
  "\<exists>s. gate_reach 1000 s \<and> sy_pcs s 1 = Leased \<and> is_busy (sy_gate s) \<and> apart 1000 (sy_starts s)"
proof -
  let ?s = "gate_init 1000"
  have "try_admit 5 (sy_gate ?s) = (Admitted, True, \<lparr>dg_in_flight = True, dg_last_start_ms = 5, dg_has_started = True, dg_min_interval_ms = 1000\<rparr>)"
    by (simp add: try_admit_def gate_init_def desc_gate_new_def throttled_def)
  from try_admit_steps [of ?s 1, OF _ this] obtain s where s: "gate_step\<^sup>*\<^sup>* ?s s" "sy_pcs s 1 = Leased"
    by (auto simp: gate_init_def)
  then have "gate_reach 1000 s" using gate_reach_steps gate_reach.start by blast
  then show ?thesis using gate_single_flight [of 1000 s] s(2) by (metis pc.distinct(9))
qed

end
