(* ===== verification/Elastic.thy ===== *)
theory Elastic
  imports Prelude
begin

text \<open>
  The hardware elasticity controller, \<^verbatim>\<open>src/runtime/elastic.rs\<close>: policy, state and the pure
  decision core \<^verbatim>\<open>decide\<close>, run over the samples of the tick. Counters are 32-bit and
  times 64-bit words as in the source. Persisting a decision and swapping the model are effects of
  the surrounding task.
\<close>

record elastic_config =
  ec_enabled :: bool
  ec_enter_low_mib :: u64
  ec_exit_low_mib :: u64
  ec_critical_mib :: u64
  ec_cooldown_secs :: u64
  ec_sustain_samples :: u32

record elastic_policy =
  ep_enter_low_mib :: u64
  ep_exit_low_mib :: u64
  ep_critical_mib :: u64
  ep_cooldown_secs :: u64
  ep_sustain_samples :: u32

definition elastic_config_default :: elastic_config where
  "elastic_config_default = \<lparr>ec_enabled = True, ec_enter_low_mib = 1024, ec_exit_low_mib = 2560, ec_critical_mib = 320,
     ec_cooldown_secs = 180, ec_sustain_samples = 3\<rparr>"

definition elastic_policy_default :: elastic_policy where
  "elastic_policy_default = \<lparr>ep_enter_low_mib = 1024, ep_exit_low_mib = 2560, ep_critical_mib = 320,
     ep_cooldown_secs = 180, ep_sustain_samples = 3\<rparr>"

definition policy_from_config :: "elastic_config \<Rightarrow> elastic_policy" where
  "policy_from_config cfg =
     \<lparr>ep_enter_low_mib = ec_enter_low_mib cfg, ep_exit_low_mib = ec_exit_low_mib cfg,
      ep_critical_mib = ec_critical_mib cfg, ep_cooldown_secs = ec_cooldown_secs cfg,
      ep_sustain_samples = max (ec_sustain_samples cfg) 1\<rparr>"

record elastic_signals =
  es_mem_available_mib :: u64
  es_battery :: bool

datatype elastic_action =
    TierDown string string
  | TierUp string string
  | BatteryPin string string
  | RecommendMinimalForm
  | Noop

fun wire_name :: "elastic_action \<Rightarrow> string" where
  "wire_name (TierDown a b) = ''tier_down''"
| "wire_name (TierUp a b) = ''tier_up''"
| "wire_name (BatteryPin a b) = ''battery_pin''"
| "wire_name RecommendMinimalForm = ''recommend_minimal_form''"
| "wire_name Noop = ''noop''"

record elastic_state =
  el_tier :: string
  el_low_streak :: u32
  el_high_streak :: u32
  el_critical_streak :: u32
  el_battery_latched :: bool
  el_last_action_at_ms :: u64

definition elastic_state_new :: "string \<Rightarrow> elastic_state" where
  "elastic_state_new initial_tier =
     \<lparr>el_tier = initial_tier, el_low_streak = 0, el_high_streak = 0, el_critical_streak = 0,
      el_battery_latched = False, el_last_action_at_ms = 0\<rparr>"

definition step_down :: "string \<Rightarrow> string option" where
  "step_down tier = (if tier = ''full'' then Some ''mid'' else if tier = ''mid'' then Some ''lite'' else None)"

definition step_up :: "string \<Rightarrow> string option" where
  "step_up tier = (if tier = ''lite'' then Some ''mid'' else if tier = ''mid'' then Some ''full'' else None)"

definition saturating_since :: "u64 \<Rightarrow> u64 \<Rightarrow> u64" where
  "saturating_since now t = (if t \<le> now then now - t else 0)"

definition cooldown_open :: "elastic_policy \<Rightarrow> u64 \<Rightarrow> elastic_state \<Rightarrow> bool" where
  "cooldown_open policy now_ms st \<longleftrightarrow>
     el_last_action_at_ms st = 0 \<or>
     ep_cooldown_secs policy * 1000 \<le> saturating_since now_ms (el_last_action_at_ms st)"

text \<open>The low band and the high band of the decision core.\<close>

definition decide_low :: "elastic_policy \<Rightarrow> u64 \<Rightarrow> elastic_state \<Rightarrow> elastic_action \<times> elastic_state" where
  "decide_low policy now_ms st =
     (let st1 = st\<lparr>el_low_streak := el_low_streak st + 1, el_high_streak := 0\<rparr>
      in if ep_sustain_samples policy \<le> el_low_streak st1 \<and> cooldown_open policy now_ms st1
         then case step_down (el_tier st1) of
                Some to \<Rightarrow>
                  (TierDown (el_tier st1) to,
                   st1\<lparr>el_tier := to, el_last_action_at_ms := now_ms, el_low_streak := 0\<rparr>)
              | None \<Rightarrow> (Noop, st1)
         else (Noop, st1))"

definition decide_high :: "elastic_policy \<Rightarrow> u64 \<Rightarrow> elastic_state \<Rightarrow> elastic_action \<times> elastic_state" where
  "decide_high policy now_ms st =
     (let st1 = st\<lparr>el_high_streak := el_high_streak st + 1\<rparr>
      in if ep_sustain_samples policy \<le> el_high_streak st1 \<and> cooldown_open policy now_ms st1
         then case step_up (el_tier st1) of
                Some to \<Rightarrow>
                  (TierUp (el_tier st1) to,
                   st1\<lparr>el_tier := to, el_last_action_at_ms := now_ms, el_high_streak := 0\<rparr>)
              | None \<Rightarrow> (Noop, st1)
         else (Noop, st1))"

definition decide ::
  "elastic_signals \<Rightarrow> elastic_policy \<Rightarrow> u64 \<Rightarrow> elastic_state \<Rightarrow> elastic_action \<times> elastic_state" where
  "decide signals policy now_ms st =
     (if es_battery signals \<and> \<not> el_battery_latched st then
        (let st1 = st\<lparr>el_battery_latched := True, el_high_streak := 0, el_low_streak := 0\<rparr>
         in if el_tier st1 \<noteq> ''lite''
            then (BatteryPin (el_tier st1) ''lite'', st1\<lparr>el_tier := ''lite'', el_last_action_at_ms := now_ms\<rparr>)
            else (Noop, st1))
      else if es_battery signals then (Noop, st)
      else
        (let st0 = st\<lparr>el_battery_latched := False\<rparr>
         in if es_mem_available_mib signals < ep_critical_mib policy then
              (let st1 = st0\<lparr>el_critical_streak := el_critical_streak st0 + 1, el_low_streak := 0, el_high_streak := 0\<rparr>
               in (if ep_sustain_samples policy \<le> el_critical_streak st1 then RecommendMinimalForm else Noop, st1))
            else
              (let st1 = st0\<lparr>el_critical_streak := 0\<rparr>
               in if es_mem_available_mib signals < ep_enter_low_mib policy then decide_low policy now_ms st1
                  else
                    (let st2 = st1\<lparr>el_low_streak := 0\<rparr>
                     in if ep_exit_low_mib policy < es_mem_available_mib signals then decide_high policy now_ms st2
                        else (Noop, st2\<lparr>el_high_streak := 0\<rparr>)))))"

definition signals_from :: "u64 \<times> u64 \<Rightarrow> bool \<Rightarrow> elastic_signals" where
  "signals_from = (\<lambda>(total, avail) battery. \<lparr>es_mem_available_mib = avail, es_battery = battery\<rparr>)"

section \<open>Runs\<close>

text \<open>A run keeps the samples with the decision taken on each, latest first.\<close>

type_synonym elastic_trace = "(elastic_signals \<times> u64 \<times> elastic_action) list"

definition tick :: "elastic_policy \<Rightarrow> elastic_signals \<times> u64 \<Rightarrow> elastic_state \<times> elastic_trace \<Rightarrow> elastic_state \<times> elastic_trace" where
  "tick policy = (\<lambda>(signals, now) (st, tr).
     let (a, st') = decide signals policy now st in (st', (signals, now, a) # tr))"

definition low_band :: "elastic_policy \<Rightarrow> elastic_signals \<Rightarrow> bool" where
  "low_band p s \<longleftrightarrow> \<not> es_battery s \<and> ep_critical_mib p \<le> es_mem_available_mib s \<and> es_mem_available_mib s < ep_enter_low_mib p"

definition high_band :: "elastic_policy \<Rightarrow> elastic_signals \<Rightarrow> bool" where
  "high_band p s \<longleftrightarrow> \<not> es_battery s \<and> ep_critical_mib p \<le> es_mem_available_mib s \<and>
     ep_enter_low_mib p \<le> es_mem_available_mib s \<and> ep_exit_low_mib p < es_mem_available_mib s"

fun applied :: "elastic_action \<Rightarrow> bool" where
  "applied (TierDown a b) = True"
| "applied (TierUp a b) = True"
| "applied (BatteryPin a b) = True"
| "applied _ = False"

fun last_applied :: "elastic_trace \<Rightarrow> u64" where
  "last_applied [] = 0"
| "last_applied ((s, now, a) # tr) = (if applied a then now else last_applied tr)"

text \<open>At least \<open>n\<close> samples on record, the latest \<open>n\<close> of them (but those before the last battery session) in a band.\<close>

definition streak :: "(elastic_signals \<Rightarrow> bool) \<Rightarrow> u32 \<Rightarrow> elastic_trace \<Rightarrow> bool" where
  "streak band n tr \<longleftrightarrow> unat n \<le> length tr \<and> (\<forall>e \<in> set (take (unat n) tr). band (fst e))"

definition ladder :: "string set" where
  "ladder = {''full'', ''mid'', ''lite''}"

definition elastic_inv :: "elastic_policy \<Rightarrow> elastic_state \<times> elastic_trace \<Rightarrow> bool" where
  "elastic_inv p = (\<lambda>(st, tr). el_tier st \<in> ladder \<and> el_last_action_at_ms st = last_applied tr \<and>
     (\<not> el_battery_latched st \<longrightarrow> streak (low_band p) (el_low_streak st) tr \<and> streak (high_band p) (el_high_streak st) tr) \<and>
     (el_battery_latched st \<longrightarrow> el_low_streak st = 0 \<and> el_high_streak st = 0))"

lemma streak_0 [simp]: "streak band 0 tr"
  by (simp add: streak_def)

lemma streak_Suc:
  assumes "streak band n tr" and "band (fst e)"
  shows "streak band (n + 1) (e # tr)"
proof (cases "n + 1 = 0")
  case False
  then have "unat (n + 1) = Suc (unat n)" using u32_less [of n]
    by (auto simp: word_unat_eq_iff unat_word_ariths mod_Suc split: if_splits)
  then show ?thesis using assms by (simp add: streak_def)
qed simp

lemma step_ladder: "step_down t = Some t' \<Longrightarrow> t' \<in> ladder" "step_up t = Some t' \<Longrightarrow> t' \<in> ladder"
  by (auto simp: step_down_def step_up_def ladder_def split: if_splits)

text \<open>What a decision may be, given the state before it.\<close>

definition decision_ok :: "elastic_policy \<Rightarrow> elastic_signals \<times> u64 \<times> elastic_action \<Rightarrow> elastic_trace \<Rightarrow> bool" where
  "decision_ok p e tr \<longleftrightarrow>
     (case e of
        (s, now, TierDown f t) \<Rightarrow>
          step_down f = Some t \<and> (\<exists>n. ep_sustain_samples p \<le> n \<and> streak (low_band p) n (e # tr)) \<and>
          (last_applied tr = 0 \<or> ep_cooldown_secs p * 1000 \<le> saturating_since now (last_applied tr))
      | (s, now, TierUp f t) \<Rightarrow>
          step_up f = Some t \<and> (\<exists>n. ep_sustain_samples p \<le> n \<and> streak (high_band p) n (e # tr)) \<and>
          (last_applied tr = 0 \<or> ep_cooldown_secs p * 1000 \<le> saturating_since now (last_applied tr))
      | (s, now, BatteryPin f t) \<Rightarrow> es_battery s \<and> t = ''lite''
      | (s, now, RecommendMinimalForm) \<Rightarrow> \<not> es_battery s \<and> es_mem_available_mib s < ep_critical_mib p
      | (s, now, Noop) \<Rightarrow> True)"

lemma decide_low_ok:
  assumes "elastic_inv p (st, tr)" and "\<not> el_battery_latched st" and "low_band p s" and "decide_low p now st = (a, st')"
  shows "elastic_inv p (st', (s, now, a) # tr) \<and> decision_ok p (s, now, a) tr"
proof -
  have low: "streak (low_band p) (el_low_streak st + 1) ((s, now, b) # tr)" for b
    using assms(1-3) by (intro streak_Suc) (simp_all add: elastic_inv_def)
  consider "a = Noop" "st' = st\<lparr>el_low_streak := el_low_streak st + 1, el_high_streak := 0\<rparr>"
    | t where "a = TierDown (el_tier st) t" "step_down (el_tier st) = Some t"
        "ep_sustain_samples p \<le> el_low_streak st + 1" "cooldown_open p now (st\<lparr>el_low_streak := el_low_streak st + 1, el_high_streak := 0\<rparr>)"
        "st' = st\<lparr>el_low_streak := 0, el_high_streak := 0, el_tier := t, el_last_action_at_ms := now\<rparr>"
    using assms(4) by (auto simp: decide_low_def Let_def split: if_splits option.splits)
  then show ?thesis
  proof cases
    case 1
    then show ?thesis using assms(1,2) low by (simp add: elastic_inv_def decision_ok_def)
  next
    case (2 t)
    then have "decision_ok p (s, now, a) tr" using assms(1) low by (auto simp: elastic_inv_def decision_ok_def cooldown_open_def)
    then show ?thesis using 2 assms(1,2) step_ladder(1) by (simp add: elastic_inv_def)
  qed
qed

lemma decide_high_ok:
  assumes "elastic_inv p (st, tr)" and "\<not> el_battery_latched st" and "el_low_streak st = 0" and "high_band p s"
    and "decide_high p now st = (a, st')"
  shows "elastic_inv p (st', (s, now, a) # tr) \<and> decision_ok p (s, now, a) tr"
proof -
  have high: "streak (high_band p) (el_high_streak st + 1) ((s, now, b) # tr)" for b
    using assms(1,2,4) by (intro streak_Suc) (simp_all add: elastic_inv_def)
  consider "a = Noop" "st' = st\<lparr>el_high_streak := el_high_streak st + 1\<rparr>"
    | t where "a = TierUp (el_tier st) t" "step_up (el_tier st) = Some t"
        "ep_sustain_samples p \<le> el_high_streak st + 1" "cooldown_open p now (st\<lparr>el_high_streak := el_high_streak st + 1\<rparr>)"
        "st' = st\<lparr>el_high_streak := 0, el_tier := t, el_last_action_at_ms := now\<rparr>"
    using assms(5) by (auto simp: decide_high_def Let_def split: if_splits option.splits)
  then show ?thesis
  proof cases
    case 1
    then show ?thesis using assms(1-3) high by (simp add: elastic_inv_def decision_ok_def)
  next
    case (2 t)
    then have "decision_ok p (s, now, a) tr" using assms(1) high by (auto simp: elastic_inv_def decision_ok_def cooldown_open_def)
    then show ?thesis using 2 assms(1-3) step_ladder(2) by (simp add: elastic_inv_def)
  qed
qed

lemma decide_ok:
  assumes inv: "elastic_inv p (st, tr)" and d: "decide s p now st = (a, st')"
  shows "elastic_inv p (st', (s, now, a) # tr) \<and> decision_ok p (s, now, a) tr"
proof -
  let ?st0 = "st\<lparr>el_battery_latched := False, el_critical_streak := 0\<rparr>"
  have inv0: "elastic_inv p (?st0, tr)" "elastic_inv p (?st0\<lparr>el_low_streak := 0\<rparr>, tr)"
    using inv by (cases "el_battery_latched st"; simp add: elastic_inv_def)+
  show ?thesis
  proof (cases "es_battery s")
    case True
    then show ?thesis using inv d
      by (cases "el_battery_latched st")
        (auto simp: decide_def elastic_inv_def decision_ok_def Let_def ladder_def split: if_splits)
  next
    case b: False
    show ?thesis
    proof (cases "es_mem_available_mib s < ep_critical_mib p")
      case True
      then show ?thesis using inv d b
        by (auto simp: decide_def elastic_inv_def decision_ok_def Let_def split: if_splits)
    next
      case c: False
      show ?thesis
      proof (cases "es_mem_available_mib s < ep_enter_low_mib p")
        case True
        then have "decide_low p now ?st0 = (a, st')" using d b c by (simp add: decide_def Let_def)
        then show ?thesis using decide_low_ok [OF inv0(1)] b c True by (simp add: low_band_def not_less)
      next
        case l: False
        show ?thesis
        proof (cases "ep_exit_low_mib p < es_mem_available_mib s")
          case True
          then have "decide_high p now (?st0\<lparr>el_low_streak := 0\<rparr>) = (a, st')" using d b c l by (simp add: decide_def Let_def)
          then show ?thesis using decide_high_ok [OF inv0(2)] b c l True by (simp add: high_band_def not_less)
        next
          case False
          then show ?thesis using inv d b c l
            by (auto simp: decide_def elastic_inv_def decision_ok_def Let_def)
        qed
      qed
    qed
  qed
qed

text \<open>Every decision of a trace was justified when it was taken.\<close>

fun trace_ok :: "elastic_policy \<Rightarrow> elastic_trace \<Rightarrow> bool" where
  "trace_ok p [] = True"
| "trace_ok p (e # tr) = (decision_ok p e tr \<and> trace_ok p tr)"

interpretation elastic: inv_system "\<lambda>s. \<exists>tier \<in> ladder. s = (elastic_state_new tier, [])" "tick p"
  "\<lambda>s. elastic_inv p s \<and> trace_ok p (snd s)"
proof
  fix s op assume "elastic_inv p s \<and> trace_ok p (snd s)"
  then show "elastic_inv p (tick p op s) \<and> trace_ok p (snd (tick p op s))"
    using decide_ok [of p "fst s" "snd s" "fst op" "snd op"] by (auto simp: tick_def split: prod.splits)
qed (auto simp: elastic_inv_def elastic_state_new_def)

text \<open>C21. Tier changes are deliberate: over any sequence of samples, every downgrade (upgrade) moves one rung of the ladder, comes after at least the
  required number of consecutive samples in the low (high) band, and, unless no action was taken yet, at least the cooldown after the last applied action; the
  pin to the lowest tier happens only on battery, the advice only in the critical band; and the tier always is one of the ladder.\<close>

theorem elastic_decisions_justified:
  assumes "tier \<in> ladder" and "fold (tick policy) samples (elastic_state_new tier, []) = (st, tr)"
  shows "el_tier st \<in> ladder \<and> (\<forall>newer e older. tr = newer @ e # older \<longrightarrow> decision_ok policy e older)"
proof -
  have "elastic_inv policy (st, tr) \<and> trace_ok policy tr"
    using elastic.inv_reachable [of "(elastic_state_new tier, [])" policy samples] assms by auto
  moreover have "trace_ok policy (newer @ e # older) \<Longrightarrow> decision_ok policy e older" for newer e older
    by (induction newer) auto
  ultimately show ?thesis by (auto simp: elastic_inv_def)
qed

definition demo_low :: elastic_signals where
  "demo_low = \<lparr>es_mem_available_mib = 500, es_battery = False\<rparr>"

theorem elastic_decisions_justified_witness:
  "decision_ok elastic_policy_default (demo_low, 90000, TierDown ''full'' ''mid'') [(demo_low, 60000, Noop), (demo_low, 30000, Noop)]"
proof -
  have "snd (fold (tick elastic_policy_default) [(demo_low, 30000), (demo_low, 60000), (demo_low, 90000)] (elastic_state_new ''full'', []))
    = [(demo_low, 90000, TierDown ''full'' ''mid''), (demo_low, 60000, Noop), (demo_low, 30000, Noop)]"
    by (simp add: tick_def decide_def decide_low_def demo_low_def elastic_policy_default_def elastic_state_new_def Let_def step_down_def
        cooldown_open_def word_le_nat_alt)
  moreover obtain st tr where "fold (tick elastic_policy_default) [(demo_low, 30000), (demo_low, 60000), (demo_low, 90000)]
      (elastic_state_new ''full'', []) = (st, tr)" by fastforce
  ultimately show ?thesis
    using elastic_decisions_justified [of "''full''" elastic_policy_default "[(demo_low, 30000), (demo_low, 60000), (demo_low, 90000)]" st tr]
    by (auto simp: ladder_def)
qed

text \<open>
  In the critical band the tier never moves: a host that falls straight below the critical threshold is advised but not downgraded.
\<close>

lemma critical_never_downgrades:
  assumes "\<not> es_battery s" and "es_mem_available_mib s < ep_critical_mib p"
  shows "el_tier (snd (decide s p now st)) = el_tier st"
  using assms by (simp add: decide_def Let_def)

end
