(* ===== verification/LogRing.thy ===== *)
theory LogRing
  imports Text
begin

text \<open>
  The in-process log ring, \<^verbatim>\<open>crates/observability/src/log_ring.rs\<close>: the bounded queue,
  the filtered snapshot and the rendering of an event's fields into a message. The subscriber registration is
  the tracing crate's; an event is its level, target and the fields it records in order.
\<close>

record ring_entry =
  re_ts :: int
  re_level :: bytes
  re_target :: bytes
  re_message :: bytes

definition RING_CAPACITY :: nat where
  "RING_CAPACITY = 1000"

definition push :: "ring_entry \<Rightarrow> ring_entry list \<Rightarrow> ring_entry list" where
  "push entry entries =
     (let entries = (if length entries = RING_CAPACITY then drop 1 entries else entries)
      in entries @ [entry])"

definition level_rank :: "bytes \<Rightarrow> nat" where
  "level_rank level =
     (if level = ascii ''info'' then 1
      else if level = ascii ''warn'' \<or> level = ascii ''warning'' then 2
      else if level = ascii ''error'' then 3 else 0)"

definition newest_first :: "nat \<Rightarrow> nat \<Rightarrow> ring_entry list \<Rightarrow> ring_entry list" where
  "newest_first limit min_level entries =
     take limit (filter (\<lambda>e. min_level \<le> level_rank (re_level e)) (rev entries))"

text \<open>The field visitor: the last field named \<^verbatim>\<open>message\<close> is the message, the others are kept in order.\<close>

definition visit_field :: "bytes \<times> bytes \<Rightarrow> bytes option \<times> (bytes \<times> bytes) list \<Rightarrow> bytes option \<times> (bytes \<times> bytes) list" where
  "visit_field = (\<lambda>(name, val) (message, extras).
     if name = ascii ''message'' then (Some val, extras) else (message, extras @ [(name, val)]))"

definition append_extra :: "bytes \<times> bytes \<Rightarrow> bytes \<Rightarrow> bytes" where
  "append_extra = (\<lambda>(k, v) message. (if message \<noteq> [] then message @ [32] else message) @ k @ [61] @ v)"

definition render_message :: "(bytes \<times> bytes) list \<Rightarrow> bytes" where
  "render_message fs =
     (let (message, extras) = fold visit_field fs (None, [])
      in fold append_extra extras (case message of Some m \<Rightarrow> m | None \<Rightarrow> []))"

definition on_log_event :: "int \<Rightarrow> bytes \<Rightarrow> bytes \<Rightarrow> (bytes \<times> bytes) list \<Rightarrow> ring_entry list \<Rightarrow> ring_entry list" where
  "on_log_event now level target fs entries =
     push \<lparr>re_ts = now, re_level = map ascii_lower level, re_target = target, re_message = render_message fs\<rparr> entries"

text \<open>The last \<open>n\<close> elements.\<close>

definition last_n :: "nat \<Rightarrow> 'a list \<Rightarrow> 'a list" where
  "last_n n xs = drop (length xs - n) xs"

lemma length_last_n: "length (last_n n xs) = min n (length xs)"
  by (simp add: last_n_def)

lemma push_last_n: "push e (last_n RING_CAPACITY xs) = last_n RING_CAPACITY (xs @ [e])"
proof (cases "length xs < RING_CAPACITY")
  case False
  then have "length (last_n RING_CAPACITY xs) = RING_CAPACITY" "Suc (length xs) - RING_CAPACITY = Suc (length xs - RING_CAPACITY)"
    by (simp_all add: length_last_n)
  moreover have "Suc 0 - RING_CAPACITY = 0" by (simp add: RING_CAPACITY_def)
  ultimately show ?thesis using False by (simp add: push_def last_n_def drop_Suc drop_tl)
qed (auto simp: push_def last_n_def RING_CAPACITY_def)

lemma fold_push: "fold push es (last_n RING_CAPACITY xs) = last_n RING_CAPACITY (xs @ es)"
  by (induction es arbitrary: xs) (simp_all add: push_last_n)

text \<open>The ring is a window on the log: after any number of entries it holds the last thousand in order, and a snapshot returns the newest of them
  that reach the level, newest first, no more than asked for.\<close>

theorem ring_serves_latest_entries:
  "fold push es [] = last_n 1000 es \<and> length (fold push es []) \<le> 1000 \<and>
   newest_first limit lvl (fold push es []) = take limit (filter (\<lambda>e. lvl \<le> level_rank (re_level e)) (take 1000 (rev es)))"
proof -
  have e: "fold push es [] = last_n 1000 es" using fold_push [of es "[]"] by (simp add: last_n_def RING_CAPACITY_def)
  have "rev (last_n 1000 es) = take 1000 (rev es)" by (cases "length es \<le> 1000") (simp_all add: last_n_def rev_drop)
  then show ?thesis by (simp add: e newest_first_def length_last_n)
qed

end
