(* ===== verification/Loops.thy ===== *)
theory Loops
  imports Prelude
begin

text \<open>
  Loops over arrays: checked reads and writes (a Rust index out of range panics), \<^verbatim>\<open>for\<close> loops
  that thread an array and stop at the first panic, and the effect of a loop whose body only
  stores values: the array afterwards is given pointwise, whatever the nesting of the loops.
\<close>

definition idx :: "'a list \<Rightarrow> nat \<Rightarrow> 'a result" where
  "idx xs i = (if i < length xs then Inr (xs ! i) else Inl (Panic ''index out of bounds''))"

definition upd :: "nat \<Rightarrow> 'a \<Rightarrow> 'a list \<Rightarrow> 'a list result" where
  "upd i v xs = (if i < length xs then Inr (xs[i := v]) else Inl (Panic ''index out of bounds''))"

primrec for_each :: "('a \<Rightarrow> 's \<Rightarrow> 's result) \<Rightarrow> 'a list \<Rightarrow> 's \<Rightarrow> 's result" where
  "for_each f [] s = Inr s"
| "for_each f (x # xs) s = and_then (f x s) (for_each f xs)"

lemma idx_ok [simp]: "i < length xs \<Longrightarrow> idx xs i = Inr (xs ! i)"
  by (simp add: idx_def)

lemma upd_ok [simp]: "i < length xs \<Longrightarrow> upd i v xs = Inr (xs[i := v])"
  by (simp add: upd_def)

section \<open>Loops that only store\<close>

definition store :: "(nat \<times> 'a) list \<Rightarrow> 'a list \<Rightarrow> 'a list" where
  "store ws xs = fold (\<lambda>(k, v) xs. xs[k := v]) ws xs"

lemma store_Nil [simp]: "store [] xs = xs"
  by (simp add: store_def)

lemma store_Cons [simp]: "store ((k, v) # ws) xs = store ws (xs[k := v])"
  by (simp add: store_def)

lemma store_append: "store (ws @ ws') xs = store ws' (store ws xs)"
  by (simp add: store_def)

lemma length_store [simp]: "length (store ws xs) = length xs"
  by (induction ws arbitrary: xs) (auto simp: store_def)

lemma for_each_store:
  assumes "\<And>x st. x \<in> set xs \<Longrightarrow> length st = n \<Longrightarrow> g x st = Inr (store (ws x) st)" and "length st = n"
  shows "for_each g xs st = Inr (store (concat (map ws xs)) st)"
  using assms by (induction xs arbitrary: st) (simp_all add: store_append)

text \<open>When the stored values are those of a function of the position, the array is known at every position.\<close>

lemma store_pointwise:
  assumes "\<forall>(k, v) \<in> set ws. v = f k" and "k < length xs"
  shows "store ws xs ! k = (if k \<in> fst ` set ws then f k else xs ! k)"
  using assms
proof (induction ws arbitrary: xs)
  case (Cons a ws)
  obtain j v where a: "a = (j, v)" by (cases a)
  have "store ws (xs[j := f j]) ! k = (if k \<in> fst ` set ws then f k else xs[j := f j] ! k)"
    using Cons by (intro Cons.IH) auto
  with Cons.prems show ?case by (simp add: a nth_list_update)
qed simp

lemma store_all:
  assumes "\<forall>(k, v) \<in> set ws. v = f k" and "\<forall>k < length xs. k \<in> fst ` set ws"
  shows "store ws xs = map f [0..<length xs]"
  using assms by (intro nth_equalityI) (simp_all add: store_pointwise [OF assms(1)])

section \<open>Loops over a grid\<close>

lemma for_each_map: "for_each g (map f xs) = for_each (\<lambda>x. g (f x)) xs"
proof (induction xs)
  case (Cons x xs)
  show ?case by (rule ext) (simp add: Cons.IH)
qed (simp add: fun_eq_iff)

lemma for_each_eq: "(\<And>x st. x \<in> set xs \<Longrightarrow> f x st = g x st) \<Longrightarrow> for_each f xs = for_each g xs"
proof (induction xs)
  case (Cons x xs)
  then have "for_each f xs = for_each g xs" by simp
  then show ?case using Cons.prems by (intro ext) simp
qed (simp add: fun_eq_iff)

lemma for_each_same: "(\<And>x st. x \<in> set xs \<Longrightarrow> f x st = g x st) \<Longrightarrow> for_each f xs st = for_each g xs st"
  using for_each_eq [of xs f g] by simp

lemma enumerate_upt: "enumerate 0 xs = map (\<lambda>i. (i, xs ! i)) [0..<length xs]"
  by (intro nth_equalityI) (simp_all add: nth_enumerate_eq)

lemma for_each_enumerate: "for_each g (enumerate 0 xs) st = for_each (\<lambda>i. g (i, xs ! i)) [0..<length xs] st"
  by (simp add: enumerate_upt for_each_map)

lemma grid_store:
  assumes "\<And>y x st. y < h \<Longrightarrow> x < w \<Longrightarrow> length st = n \<Longrightarrow> g y x st = Inr (store (ws y x) st)"
    and "\<And>y x k v. y < h \<Longrightarrow> x < w \<Longrightarrow> (k, v) \<in> set (ws y x) \<Longrightarrow> v = f k"
    and "length st = n"
  shows "for_each (\<lambda>y. for_each (g y) [0..<w]) [0..<h] st =
    Inr (map (\<lambda>k. if \<exists>y<h. \<exists>x<w. k \<in> fst ` set (ws y x) then f k else st ! k) [0..<n])"
proof -
  define all where "all = concat (map (\<lambda>y. concat (map (ws y) [0..<w])) [0..<h])"
  have inner: "for_each (g y) [0..<w] st = Inr (store (concat (map (ws y) [0..<w])) st)" if "y < h" "length st = n" for y st
    using that assms(1) by (intro for_each_store) auto
  have "for_each (\<lambda>y. for_each (g y) [0..<w]) [0..<h] st = Inr (store all st)"
    unfolding all_def by (rule for_each_store [OF _ assms(3)]) (simp add: inner)
  moreover have "\<forall>(k, v) \<in> set all. v = f k" using assms(2) by (fastforce simp: all_def)
  moreover have "k \<in> fst ` set all \<longleftrightarrow> (\<exists>y<h. \<exists>x<w. k \<in> fst ` set (ws y x))" for k
    by (auto simp: all_def image_UN) (force simp: image_iff)+
  ultimately show ?thesis
    using assms(3) by (simp add: list_eq_iff_nth_eq store_pointwise [where f = f]) blast
qed

section \<open>Rows\<close>

definition overwrite :: "nat \<Rightarrow> 'a list \<Rightarrow> 'a list \<Rightarrow> 'a list" where
  "overwrite k row xs = take k xs @ row @ drop (k + length row) xs"

definition rows :: "nat \<Rightarrow> nat \<Rightarrow> 'a list \<Rightarrow> 'a list list" where
  "rows w h xs = map (\<lambda>i. take w (drop (i * w) xs)) [0..<h]"

lemma concat_rows: "concat (rows w h xs) = take (h * w) xs"
  unfolding rows_def by (induction h) (simp_all add: take_add add.commute [of w])

lemma length_rows [simp]: "length (rows w h xs) = h"
  by (simp add: rows_def)

lemma rows_lengths: "h * w \<le> length xs \<Longrightarrow> r \<in> set (rows w h xs) \<Longrightarrow> length r = w"
proof -
  assume "h * w \<le> length xs" and "r \<in> set (rows w h xs)"
  then obtain i where "i < h" and r: "r = take w (drop (i * w) xs)" by (auto simp: rows_def)
  then have "Suc i * w \<le> h * w" by (intro mult_le_mono1) simp
  with \<open>h * w \<le> length xs\<close> show ?thesis by (simp add: r)
qed

lemma length_concat_rows: "\<forall>r \<in> set rs. length r = w \<Longrightarrow> length (concat rs) = length rs * w"
  by (induction rs) auto

lemma rows_concat:
  "\<forall>r \<in> set rs. length r = w \<Longrightarrow> rows w (length rs) (concat rs) = rs"
proof (induction rs)
  case (Cons r rs)
  have "rows w (Suc (length rs)) (r @ concat rs) = r # rows w (length rs) (concat rs)"
    using Cons.prems by (simp add: rows_def map_upt_Suc del: upt_Suc)
  with Cons show ?case by simp
qed (simp add: rows_def)

lemma row_of_concat:
  assumes "\<forall>r \<in> set (A @ r # B). length r = w"
  shows "subslice (length A * w) (length A * w + w) (concat (A @ r # B)) = r"
  using assms length_concat_rows [of A w] by (simp add: subslice_def)

lemma overwrite_row:
  assumes "\<forall>r \<in> set (A @ r # B). length r = w" and "length r' = w"
  shows "overwrite (length A * w) r' (concat (A @ r # B)) = concat (A @ r' # B)"
  using assms length_concat_rows [of A w] by (simp add: overwrite_def)

lemma rows_nth:
  assumes "x < w" and "y < h" and "h * w \<le> length xs"
  shows "rows w h xs ! y ! x = xs ! (y * w + x)"
proof -
  have "Suc y * w \<le> h * w" using assms(2) by (intro mult_le_mono1) simp
  then show ?thesis using assms by (simp add: rows_def)
qed

text \<open>Positions of a pixel in a packed plane.\<close>

lemma pixel_less: "x < w \<Longrightarrow> y < h \<Longrightarrow> y * w + x < w * (h :: nat)"
proof -
  assume "x < w" and "y < h"
  then have "Suc y * w \<le> h * w" by (intro mult_le_mono1) simp
  with \<open>x < w\<close> show ?thesis by (simp add: mult.commute)
qed

lemma pixel_div [simp]: "x < w \<Longrightarrow> (y * w + x) div w = (y :: nat)"
  by simp

lemma pixel_mod [simp]: "x < w \<Longrightarrow> (y * w + x) mod w = (x :: nat)"
  by simp

lemma pixel_split: "k < w * (h :: nat) \<Longrightarrow> k div w < h \<and> k mod w < w \<and> k div w * w + k mod w = k"
  by (metis div_mult_mod_eq gr_implies_not0 less_mult_imp_div_less mod_less_divisor mult.commute mult_is_0 neq0_conv)

section \<open>Loops that fill a plane\<close>

lemma line_fill:
  assumes "\<And>i st. i < n \<Longrightarrow> length st = n \<Longrightarrow> g i st = Inr (st[i := a i])" and "length st = n"
  shows "for_each g [0..<n] st = Inr (map a [0..<n])"
proof -
  have "for_each g [0..<n] st = Inr (store (concat (map (\<lambda>i. [(i, a i)]) [0..<n])) st)"
    using assms by (intro for_each_store) simp_all
  moreover have "store (concat (map (\<lambda>i. [(i, a i)]) [0..<n])) st = map a [0..<length st]"
    using assms(2) by (intro store_all) (auto simp: image_iff)
  ultimately show ?thesis using assms(2) by simp
qed

lemma grid_fill:
  assumes "\<And>y x st. y < h \<Longrightarrow> x < w \<Longrightarrow> length st = w * h \<Longrightarrow> g y x st = Inr (st[y * w + x := a y x])"
    and "length st = w * h"
  shows "for_each (\<lambda>y. for_each (g y) [0..<w]) [0..<h] st = Inr (map (\<lambda>k. a (k div w) (k mod w)) [0..<w * h])"
proof -
  have "for_each (\<lambda>y. for_each (g y) [0..<w]) [0..<h] st =
    Inr (map (\<lambda>k. if \<exists>y<h. \<exists>x<w. k \<in> fst ` set [(y * w + x, a y x)] then a (k div w) (k mod w) else st ! k) [0..<w * h])"
    by (rule grid_store [OF _ _ assms(2)]) (simp add: assms(1), auto)
  moreover have "\<exists>y<h. \<exists>x<w. k = y * w + x" if "k < w * h" for k
    using pixel_split [OF that] by (intro exI [of _ "k div w"] conjI exI [of _ "k mod w"]) simp_all
  ultimately show ?thesis by (simp cong: map_cong)
qed

text \<open>A loop over a pair of arrays whose body works on each of them separately.\<close>

lemma for_each_pair:
  assumes "\<And>x u v. x \<in> set xs \<Longrightarrow> P u \<Longrightarrow> Q v \<Longrightarrow>
      \<exists>u' v'. g1 x u = Inr u' \<and> P u' \<and> g2 x v = Inr v' \<and> Q v' \<and> g x (u, v) = Inr (u', v')"
    and "P u" and "Q v"
  shows "\<exists>u' v'. for_each g1 xs u = Inr u' \<and> P u' \<and> for_each g2 xs v = Inr v' \<and> Q v' \<and> for_each g xs (u, v) = Inr (u', v')"
  using assms
proof (induction xs arbitrary: u v)
  case (Cons x xs)
  obtain u1 v1 where "g1 x u = Inr u1" "P u1" "g2 x v = Inr v1" "Q v1" "g x (u, v) = Inr (u1, v1)"
    using Cons.prems(1) [OF _ Cons.prems(2,3), of x] by auto
  moreover have "\<exists>u' v'. for_each g1 xs u1 = Inr u' \<and> P u' \<and> for_each g2 xs v1 = Inr v' \<and> Q v' \<and> for_each g xs (u1, v1) = Inr (u', v')"
    using Cons.prems(1) \<open>P u1\<close> \<open>Q v1\<close> by (intro Cons.IH) auto
  ultimately show ?case by simp
qed simp

lemma grid_fill_pair:
  fixes u :: "'a list" and v :: "'b list"
  assumes "\<And>y x u v. y < h \<Longrightarrow> x < w \<Longrightarrow> length u = w * h \<Longrightarrow> length v = w * h \<Longrightarrow>
      g y x (u, v) = Inr (u[y * w + x := a y x], v[y * w + x := b y x])"
    and "length u = w * h" and "length v = w * h"
  shows "for_each (\<lambda>y. for_each (g y) [0..<w]) [0..<h] (u, v) =
    Inr (map (\<lambda>k. a (k div w) (k mod w)) [0..<w * h], map (\<lambda>k. b (k div w) (k mod w)) [0..<w * h])"
proof -
  let ?L = "\<lambda>u. length u = w * h"
  define g1 where "g1 y x u = (Inr (u[y * w + x := a y x]) :: 'a list result)" for y x u
  define g2 where "g2 y x v = (Inr (v[y * w + x := b y x]) :: 'b list result)" for y x v
  have "\<exists>u' v'. for_each (\<lambda>y. for_each (g1 y) [0..<w]) [0..<h] u = Inr u' \<and> ?L u'
      \<and> for_each (\<lambda>y. for_each (g2 y) [0..<w]) [0..<h] v = Inr v' \<and> ?L v'
      \<and> for_each (\<lambda>y. for_each (g y) [0..<w]) [0..<h] (u, v) = Inr (u', v')"
  proof (rule for_each_pair [where P = ?L and Q = ?L])
    fix y and u :: "'a list" and v :: "'b list"
    assume "y \<in> set [0..<h]" "?L u" "?L v"
    then show "\<exists>u' v'. for_each (g1 y) [0..<w] u = Inr u' \<and> ?L u' \<and> for_each (g2 y) [0..<w] v = Inr v' \<and> ?L v' \<and> for_each (g y) [0..<w] (u, v) = Inr (u', v')"
      by (intro for_each_pair [where P = ?L and Q = ?L]) (auto simp: g1_def g2_def assms(1))
  qed (use assms(2,3) in auto)
  moreover have "for_each (\<lambda>y. for_each (g1 y) [0..<w]) [0..<h] u = Inr (map (\<lambda>k. a (k div w) (k mod w)) [0..<w * h])"
    by (rule grid_fill [OF _ assms(2)]) (simp add: g1_def)
  moreover have "for_each (\<lambda>y. for_each (g2 y) [0..<w]) [0..<h] v = Inr (map (\<lambda>k. b (k div w) (k mod w)) [0..<w * h])"
    by (rule grid_fill [OF _ assms(3)]) (simp add: g2_def)
  ultimately show ?thesis by auto
qed

end
