(* ===== verification/AudioCodec.thy ===== *)
theory AudioCodec
  imports Rtp Loops
begin

text \<open>
  G.711 and the audio packetizer, \<^verbatim>\<open>crates/protocols/src/audio_codec.rs\<close>. A 16-bit sample is
  an \<open>int\<close> in the range of \<^verbatim>\<open>i16\<close>; the intermediate \<^verbatim>\<open>i32\<close> values stay far
  below their bounds, so integer arithmetic is exact.
\<close>

definition BIAS :: int where "BIAS = 0x84"
definition CLIP :: int where "CLIP = 32635"

definition mulaw_segment :: "int \<Rightarrow> nat" where
  "mulaw_segment mag =
     (if mag \<ge> 0x4000 then 7 else if mag \<ge> 0x2000 then 6 else if mag \<ge> 0x1000 then 5
      else if mag \<ge> 0x0800 then 4 else if mag \<ge> 0x0400 then 3 else if mag \<ge> 0x0200 then 2
      else if mag \<ge> 0x0100 then 1 else 0)"

definition pcm_to_mulaw :: "int \<Rightarrow> u8" where
  "pcm_to_mulaw sample =
     (let sign = (if sample < 0 then 0x80 else 0 :: u8);
          mag = min (abs sample) CLIP + BIAS;
          segment = mulaw_segment mag;
          mantissa = of_int (drop_bit (segment + 3) mag AND 0x0F) :: u8;
          encoded = sign OR push_bit 4 (of_nat segment) OR mantissa
      in NOT encoded)"

definition mulaw_to_pcm :: "u8 \<Rightarrow> int" where
  "mulaw_to_pcm encoded =
     (let u = NOT (uint encoded) AND 0xFF;
          sign = u AND 0x80;
          segment = nat (drop_bit 4 u AND 0x07);
          mantissa = u AND 0x0F;
          mag = push_bit segment (push_bit 3 mantissa + BIAS) - BIAS
      in if sign \<noteq> 0 then - mag else mag)"

definition alaw_segment :: "int \<Rightarrow> nat" where
  "alaw_segment mag =
     (if mag \<ge> 0x0800 then 7 else if mag \<ge> 0x0400 then 6 else if mag \<ge> 0x0200 then 5
      else if mag \<ge> 0x0100 then 4 else if mag \<ge> 0x0080 then 3 else if mag \<ge> 0x0040 then 2
      else if mag \<ge> 0x0020 then 1 else 0)"

definition pcm_to_alaw :: "int \<Rightarrow> u8" where
  "pcm_to_alaw sample =
     (let pcm = drop_bit 3 sample;
          mask = (if pcm \<ge> 0 then 0xD5 else 0x55 :: u8);
          mag = (if pcm \<ge> 0 then pcm else - pcm - 1);
          segment = alaw_segment mag;
          aval = (if segment \<ge> 8 then 0x7F
                  else let step = (if segment < 2 then drop_bit 1 mag AND 0x0F else drop_bit segment mag AND 0x0F)
                       in push_bit 4 (of_nat segment) OR of_int step)
      in aval XOR mask)"

definition alaw_to_pcm :: "u8 \<Rightarrow> int" where
  "alaw_to_pcm encoded =
     (let a = uint (encoded XOR 0x55);
          sign = a AND 0x80;
          segment = nat (drop_bit 4 a AND 0x07);
          step = a AND 0x0F;
          t = push_bit 4 step;
          t = (if segment = 0 then t + 8 else push_bit (segment - 1) (t + 0x108))
      in if sign \<noteq> 0 then t else - t)"

section \<open>The audio packetizer\<close>

record audio_header =
  ah_version :: u8
  ah_padding :: bool
  ah_extension :: bool
  ah_csrc_count :: u8
  ah_marker :: bool
  ah_payload_type :: u8
  ah_sequence_number :: u16
  ah_timestamp :: u32
  ah_ssrc :: u32

definition audio_header_new :: "u8 \<Rightarrow> u16 \<Rightarrow> u32 \<Rightarrow> u32 \<Rightarrow> audio_header" where
  "audio_header_new pt seq ts ssrc =
     \<lparr>ah_version = 2, ah_padding = False, ah_extension = False, ah_csrc_count = 0, ah_marker = False,
      ah_payload_type = pt, ah_sequence_number = seq, ah_timestamp = ts, ah_ssrc = ssrc\<rparr>"

definition audio_header_to_bytes :: "audio_header \<Rightarrow> bytes" where
  "audio_header_to_bytes h =
     [push_bit 6 (ah_version h) OR push_bit 5 (of_bool (ah_padding h)) OR push_bit 4 (of_bool (ah_extension h))
        OR ah_csrc_count h,
      push_bit 7 (of_bool (ah_marker h)) OR ah_payload_type h]
     @ u16_be (ah_sequence_number h) @ u32_be (ah_timestamp h) @ u32_be (ah_ssrc h)"

record audio_packetizer = ap_sequence_number :: u16

definition audio_packetizer_new :: audio_packetizer where
  "audio_packetizer_new = \<lparr>ap_sequence_number = 0\<rparr>"

definition audio_packetizer_reset :: "audio_packetizer \<Rightarrow> audio_packetizer" where
  "audio_packetizer_reset p = p\<lparr>ap_sequence_number := 0\<rparr>"

definition samples_per_packet :: "u32 \<Rightarrow> nat" where
  "samples_per_packet sample_rate = unat (max (sample_rate div 50) 1)"

definition u32_saturating_mul :: "u32 \<Rightarrow> u32 \<Rightarrow> u32" where
  "u32_saturating_mul a b = (if unat a * unat b < 2 ^ 32 then a * b else - 1)"

lemma samples_per_packet_pos [simp]: "0 < samples_per_packet r"
proof -
  have "1 \<le> max (r div 50) (1 :: u32)" by simp
  then show ?thesis by (simp only: samples_per_packet_def word_le_nat_alt unat_1 Suc_le_eq One_nat_def)
qed

definition encode_chunk :: "u8 \<Rightarrow> int list \<Rightarrow> bytes" where
  "encode_chunk payload_type chunk = map (if payload_type = 0 then pcm_to_mulaw else pcm_to_alaw) chunk"

definition current_timestamp :: "u32 \<Rightarrow> u32 \<Rightarrow> nat \<Rightarrow> u32" where
  "current_timestamp timestamp sample_rate sample_offset =
     timestamp + u32_saturating_mul (of_nat sample_offset) 8000 div max sample_rate 1"

function packetize_loop :: "int list \<Rightarrow> u32 \<Rightarrow> u32 \<Rightarrow> u32 \<Rightarrow> u8 \<Rightarrow> nat \<Rightarrow> audio_packetizer \<Rightarrow> bytes list \<times> audio_packetizer" where
  "packetize_loop pcm sample_rate timestamp ssrc pt sample_offset p =
     (if sample_offset < length pcm then
        let end_offset = min (sample_offset + samples_per_packet sample_rate) (length pcm);
            encoded = encode_chunk pt (subslice sample_offset end_offset pcm);
            header = audio_header_new pt (ap_sequence_number p) (current_timestamp timestamp sample_rate sample_offset) ssrc;
            packet = audio_header_to_bytes header @ encoded;
            (packets, p') = packetize_loop pcm sample_rate timestamp ssrc pt end_offset
                              (p\<lparr>ap_sequence_number := ap_sequence_number p + 1\<rparr>)
        in (packet # packets, p')
      else ([], p))"
  by pat_completeness auto
termination
  by (relation "measure (\<lambda>(pcm, _, _, _, _, off, _). length pcm - off)") (auto simp: min_def intro!: diff_less_mono2)

declare packetize_loop.simps [simp del]

definition packetize_pcm :: "int list \<Rightarrow> u32 \<Rightarrow> u32 \<Rightarrow> u32 \<Rightarrow> u8 \<Rightarrow> audio_packetizer \<Rightarrow> bytes list \<times> audio_packetizer" where
  "packetize_pcm pcm sample_rate timestamp ssrc pt p = packetize_loop pcm sample_rate timestamp ssrc pt 0 p"

definition packetize_pcm_ulaw :: "int list \<Rightarrow> u32 \<Rightarrow> u32 \<Rightarrow> u32 \<Rightarrow> audio_packetizer \<Rightarrow> bytes list \<times> audio_packetizer" where
  "packetize_pcm_ulaw pcm sample_rate timestamp ssrc p = packetize_pcm pcm sample_rate timestamp ssrc 0 p"

definition packetize_pcm_alaw :: "int list \<Rightarrow> u32 \<Rightarrow> u32 \<Rightarrow> u32 \<Rightarrow> audio_packetizer \<Rightarrow> bytes list \<times> audio_packetizer" where
  "packetize_pcm_alaw pcm sample_rate timestamp ssrc p = packetize_pcm pcm sample_rate timestamp ssrc 8 p"

section \<open>The \<open>\<mu>\<close>-law code word\<close>

definition code_word :: "bool \<Rightarrow> nat \<Rightarrow> nat \<Rightarrow> u8" where
  "code_word neg s m = NOT ((if neg then 0x80 else 0) OR push_bit 4 (of_nat s) OR of_nat m)"

lemma int_masks:
  "x AND 0x0F = x mod 16" "x AND 0x07 = x mod 8" "x AND 0xFF = take_bit 8 x" for x :: int
  by (simp_all add: take_bit_eq_mask mask_eq_exp_minus_1 flip: take_bit_eq_mod [of 4, simplified] take_bit_eq_mod [of 3, simplified])

lemma not_byte: "NOT (uint (NOT w)) AND 0xFF = uint (w :: u8)"
  unfolding int_masks by (rule bit_eqI) (auto simp: bit_simps dest: bit_imp_le_length)

lemma uint_fields:
  assumes "s < 8" and "m < 16"
  shows "uint ((if neg then 0x80 else 0) OR push_bit 4 (of_nat s) OR of_nat m :: u8) = (if neg then 128 else 0) + 16 * int s + int m"
proof -
  let ?y = "push_bit 4 (of_nat s) OR of_nat m :: u8" and ?b = "of_bool neg :: u8"
  have y: "unat ?y = s * 16 + m" using assms by (subst unat_pack) (simp_all add: unat_of_nat)
  have "unat (push_bit 7 ?b OR ?y) = unat ?b * 128 + unat ?y" using assms y by (subst unat_pack) (simp_all add: of_bool_byte)
  moreover have "push_bit 7 ?b = (if neg then 0x80 else 0)" by simp
  ultimately have "unat ((if neg then 0x80 else 0) OR ?y) = (if neg then 128 else 0) + (s * 16 + m)" using y by (cases neg) simp_all
  then show ?thesis by (cases neg) (simp_all add: uint_nat)
qed

lemma read_fields:
  fixes neg :: bool and s m :: nat
  defines "u \<equiv> (if neg then 128 else 0) + 16 * int s + int m"
  assumes "s < 8" and "m < 16"
  shows "u AND 0x80 = 0 \<longleftrightarrow> \<not> neg" "drop_bit 4 u AND 0x07 = int s" "u AND 0x0F = int m"
proof -
  have d: "u div 16 = (if neg then 8 else 0) + int s" "u mod 16 = int m" using assms(2,3) unfolding u_def by (cases neg; simp; presburger)+
  have "u div 128 = (if neg then 1 else 0)"
    using assms(2,3) div_pos_pos_trivial [of "16 * int s + int m" 128] by (auto simp: u_def add.assoc)
  then have "bit u 7 \<longleftrightarrow> neg" by (simp add: bit_iff_odd)
  then show "u AND 0x80 = 0 \<longleftrightarrow> \<not> neg" using and_exp_eq_0_iff_not_bit [of u 7] by simp
  show "drop_bit 4 u AND 0x07 = int s" using d(1) assms(2) by (simp add: int_masks drop_bit_eq_div)
  show "u AND 0x0F = int m" using d(2) by (simp add: int_masks)
qed

lemma mulaw_decode:
  assumes "s < 8" and "m < 16"
  shows "mulaw_to_pcm (code_word neg s m) = (if neg then -1 else 1) * ((8 * int m + 132) * 2 ^ s - 132)"
proof -
  have "NOT (uint (code_word neg s m)) AND 0xFF = (if neg then 128 else 0) + 16 * int s + int m"
    unfolding code_word_def not_byte uint_fields [OF assms] ..
  then show ?thesis
    unfolding mulaw_to_pcm_def Let_def by (simp only: read_fields [OF assms]) (simp add: push_bit_eq_mult BIAS_def)
qed

lemma mulaw_segment_bounds:
  assumes "128 \<le> mag" and "mag < 32768"
  shows "128 * 2 ^ mulaw_segment mag \<le> mag \<and> mag < 256 * 2 ^ mulaw_segment mag \<and> mulaw_segment mag < 8"
  using assms by (auto simp: mulaw_segment_def)

lemma mulaw_segment_unique:
  assumes "128 * 2 ^ s \<le> mag" and "mag < 256 * 2 ^ s" and "s < 8"
  shows "mulaw_segment mag = s"
proof -
  have "s \<in> set [0..<8]" using assms(3) by simp
  then show ?thesis using assms(1,2) by (auto simp: upt_rec mulaw_segment_def)
qed

lemma mulaw_mantissa:
  assumes "128 * 2 ^ s \<le> mag" and "mag < 256 * 2 ^ s"
  shows "\<exists>m < 16. drop_bit (s + 3) mag AND 0x0F = int m \<and> (128 + 8 * int m) * 2 ^ s \<le> mag \<and> mag < (136 + 8 * int m) * 2 ^ s"
proof -
  let ?p = "8 * 2 ^ s :: int"
  define q where "q = mag div ?p"
  have p: "0 < ?p" by simp
  have "16 * ?p \<le> mag" "mag < 32 * ?p" using assms by simp_all
  moreover have bounds: "q * ?p \<le> mag" "mag < (q + 1) * ?p"
  proof -
    define r where "r = mag mod ?p"
    have "mag = q * ?p + r" "0 \<le> r" "r < ?p" by (simp_all only: q_def r_def div_mult_mod_eq pos_mod_sign [OF p] pos_mod_bound [OF p])
    then show "q * ?p \<le> mag" "mag < (q + 1) * ?p" by (simp_all add: distrib_right)
  qed
  ultimately have "16 * ?p < (q + 1) * ?p" "q * ?p < 32 * ?p" by linarith+
  then have q: "16 \<le> q" "q < 32" using p by (simp_all only: mult_less_cancel_right_pos) 
  have "drop_bit (s + 3) mag = q" by (simp add: q_def drop_bit_eq_div power_add mult.commute)
  then have "drop_bit (s + 3) mag AND 0x0F = int (nat (q - 16))" using q unfolding int_masks by (simp; presburger)
  then show ?thesis using q bounds by (intro exI [of _ "nat (q - 16)"]) (auto simp: algebra_simps)
qed


lemma mulaw_encode:
  assumes "128 * 2 ^ s \<le> min (abs x) CLIP + BIAS" and "min (abs x) CLIP + BIAS < 256 * 2 ^ s" and "s < 8"
  shows "\<exists>m < 16. pcm_to_mulaw x = code_word (x < 0) s m
    \<and> (128 + 8 * int m) * 2 ^ s \<le> min (abs x) CLIP + BIAS \<and> min (abs x) CLIP + BIAS < (136 + 8 * int m) * 2 ^ s"
proof -
  obtain m where "m < 16" and m: "drop_bit (s + 3) (min (abs x) CLIP + BIAS) AND 0x0F = int m"
    and b: "(128 + 8 * int m) * 2 ^ s \<le> min (abs x) CLIP + BIAS" "min (abs x) CLIP + BIAS < (136 + 8 * int m) * 2 ^ s"
    using mulaw_mantissa [OF assms(1,2)] by blast
  have "pcm_to_mulaw x = code_word (x < 0) s m"
    unfolding pcm_to_mulaw_def Let_def mulaw_segment_unique [OF assms] m code_word_def by simp
  with \<open>m < 16\<close> b show ?thesis by blast
qed

lemma mulaw_magnitude: "128 \<le> min (abs x) CLIP + BIAS" "min (abs x) CLIP + BIAS < 32768"
  by (auto simp: CLIP_def BIAS_def)

lemma pow_below_8: "s < 8 \<Longrightarrow> (2 :: int) ^ s \<in> {1, 2, 4, 8, 16, 32, 64, 128}"
proof -
  assume "s < 8"
  then have "s \<in> set [0..<8]" by simp
  then show ?thesis by (auto simp: upt_rec)
qed

lemma mulaw_reencode:
  assumes "s < 8" and "m < 16" and "\<not> (neg \<and> s = 0 \<and> m = 0)"
  shows "pcm_to_mulaw (mulaw_to_pcm (code_word neg s m)) = code_word neg s m"
proof -
  let ?x = "mulaw_to_pcm (code_word neg s m)" and ?p = "2 ^ s :: int"
  have x: "?x = (if neg then - 1 else 1) * ((8 * int m + 132) * ?p - 132)" by (rule mulaw_decode [OF assms(1,2)])
  have p: "?p \<in> {1, 2, 4, 8, 16, 32, 64, 128}" using pow_below_8 [OF assms(1)] .
  have nonneg: "0 \<le> (8 * int m + 132) * ?p - 132" "(8 * int m + 132) * ?p - 132 \<le> CLIP"
    using p assms(2) by (auto simp: CLIP_def)
  have mag: "min (abs ?x) CLIP + BIAS = (8 * int m + 132) * ?p"
    using nonneg unfolding x by (cases neg) (simp_all add: BIAS_def min_def)
  have "0 < (8 * int m + 132) * ?p - 132" if neg
  proof (cases s)
    case 0
    then show ?thesis using that assms(3) by simp
  next
    case (Suc k)
    then have "2 \<le> ?p" by simp
    then show ?thesis using p by auto
  qed
  then have sgn: "?x < 0 \<longleftrightarrow> neg" using nonneg(1) unfolding x by (cases neg) simp_all
  have "128 * ?p \<le> (8 * int m + 132) * ?p" "(8 * int m + 132) * ?p < 256 * ?p" using assms(2) p by auto
  from mulaw_encode [of s ?x, unfolded mag, OF this assms(1)] obtain k where k: "k < 16"
    "pcm_to_mulaw ?x = code_word neg s k" "(128 + 8 * int k) * ?p \<le> (8 * int m + 132) * ?p" "(8 * int m + 132) * ?p < (136 + 8 * int k) * ?p"
    unfolding sgn by blast
  have "128 + 8 * int k \<le> 8 * int m + 132" "8 * int m + 132 < 136 + 8 * int k"
    using k(3,4) p by (auto simp: mult_le_cancel_right mult_less_cancel_right)
  then have "k = m" by linarith
  with k(2) show ?thesis by simp
qed


lemma byte_fields:
  assumes "u < 256"
  shows "(if 128 \<le> u then 128 else 0) + 16 * int (u div 16 mod 8) + int (u mod 16) = int u"
proof (cases "128 \<le> u")
  case True
  with assms have "u div 16 mod 8 = u div 16 - 8" "8 \<le> u div 16" by (simp_all add: le_mod_geq)
  then have "128 + 16 * (u div 16 mod 8) + u mod 16 = u" using div_mult_mod_eq [of u 16] by linarith
  then have "int u = int (128 + 16 * (u div 16 mod 8) + u mod 16)" by simp
  with True show ?thesis by simp
next
  case False
  then have "u div 16 mod 8 = u div 16" by simp
  then show ?thesis using False div_mult_mod_eq [of "int u" 16] by (simp add: zdiv_int zmod_int)
qed

lemma code_word_fields: "\<exists>neg s m. s < 8 \<and> m < 16 \<and> w = code_word neg s m"
proof -
  let ?u = "unat (NOT w)"
  have u: "?u < 256" using unsigned_less [of "NOT w", where 'a = nat] by simp
  let ?neg = "128 \<le> ?u" and ?s = "?u div 16 mod 8" and ?m = "?u mod 16"
  have "uint ((if ?neg then 0x80 else 0) OR push_bit 4 (of_nat ?s) OR of_nat ?m :: u8) = int ?u"
    by (rule trans [OF uint_fields byte_fields [OF u]]) simp_all
  then have "(if ?neg then 0x80 else 0) OR push_bit 4 (of_nat ?s) OR of_nat ?m = NOT w"
    by (simp only: uint_nat word_uint_eq_iff)
  then have "w = code_word ?neg ?s ?m" by (simp add: code_word_def)
  moreover have "?s < 8" "?m < 16" by simp_all
  ultimately show ?thesis by blast
qed

text \<open>The value the encoder works with: the sample clipped to the range of the code.\<close>
definition clip :: "int \<Rightarrow> int" where "clip x = (if x < 0 then - min (abs x) CLIP else min (abs x) CLIP)"

lemma mulaw_error:
  "32 * abs (mulaw_to_pcm (pcm_to_mulaw x) - clip x) \<le> abs (clip x) + BIAS"
proof -
  let ?mag = "min (abs x) CLIP + BIAS"
  define s where "s = mulaw_segment ?mag"
  have b: "128 * 2 ^ s \<le> ?mag" "?mag < 256 * 2 ^ s" "s < 8"
    using mulaw_segment_bounds [OF mulaw_magnitude [of x]] by (simp_all add: s_def)
  obtain m where m: "m < 16" "pcm_to_mulaw x = code_word (x < 0) s m"
    "(128 + 8 * int m) * 2 ^ s \<le> ?mag" "?mag < (136 + 8 * int m) * 2 ^ s"
    using mulaw_encode [OF b] by blast
  let ?d = "(8 * int m + 132) * 2 ^ s :: int"
  have "abs (?d - ?mag) \<le> 4 * 2 ^ s" using m(3,4) by (simp add: algebra_simps abs_le_iff)
  then have "32 * abs (?d - ?mag) \<le> ?mag" using b(1) by linarith
  moreover have "abs (mulaw_to_pcm (pcm_to_mulaw x) - clip x) = abs (?d - ?mag)"
    unfolding m(2) mulaw_decode [OF b(3) m(1)] clip_def BIAS_def by (cases "x < 0") simp_all
  moreover have "abs (clip x) + BIAS = ?mag" by (auto simp: clip_def CLIP_def)
  ultimately show ?thesis by simp
qed


section \<open>The A-law code word\<close>

definition alaw_word :: "bool \<Rightarrow> nat \<Rightarrow> nat \<Rightarrow> u8" where
  "alaw_word pos s m = ((if pos then 0x80 else 0) OR push_bit 4 (of_nat s) OR of_nat m) XOR 0x55"

text \<open>The folded 13-bit magnitude of the encoder.\<close>
definition fold13 :: "int \<Rightarrow> int" where
  "fold13 x = (if 0 \<le> x then x div 8 else - (x div 8) - 1)"

lemma fold13_bounds:
  "0 \<le> x \<Longrightarrow> 8 * fold13 x \<le> x \<and> x < 8 * fold13 x + 8"
  "x < 0 \<Longrightarrow> 8 * fold13 x < - x \<and> - x \<le> 8 * fold13 x + 8"
  by (auto simp: fold13_def)

lemma alaw_decode:
  assumes "s < 8" and "m < 16"
  shows "alaw_to_pcm (alaw_word pos s m) = (if pos then 1 else -1) * (if s = 0 then 16 * int m + 8 else (8 * int m + 132) * 2 ^ s)"
proof -
  have "uint (alaw_word pos s m XOR 0x55) = (if pos then 128 else 0) + 16 * int s + int m"
    unfolding alaw_word_def xor.assoc xor_self_eq xor.right_neutral uint_fields [OF assms] ..
  moreover have "(16 * int m + 264) * 2 ^ (s - 1) = (8 * int m + 132) * 2 ^ s" if "s \<noteq> 0"
    using that by (cases s) simp_all
  ultimately show ?thesis
    unfolding alaw_to_pcm_def Let_def by (simp only: read_fields [OF assms]) (auto simp: push_bit_eq_mult mult.commute)
qed

lemma alaw_encode_word:
  assumes "alaw_segment (fold13 x) = s" and "drop_bit (if s < 2 then 1 else s) (fold13 x) AND 0x0F = int m"
    and "s < 8" and "m < 16"
  shows "pcm_to_alaw x = alaw_word (0 \<le> x) s m"
proof -
  have pcm: "0 \<le> drop_bit 3 x \<longleftrightarrow> 0 \<le> x" by simp
  have mag: "(if 0 \<le> x then drop_bit 3 x else - drop_bit 3 x - 1) = fold13 x" by (simp add: fold13_def drop_bit_eq_div)
  have top: "(push_bit 4 (of_nat s) OR of_nat m) XOR 0x80 = (0x80 OR push_bit 4 (of_nat s) OR of_nat m :: u8)"
  proof -
    have "\<not> bit (push_bit 4 (of_nat s) OR of_nat m :: u8) 7"
      using assms(3,4) by (simp add: bit_simps) (simp add: bit_iff_odd)
    then have "(push_bit 4 (of_nat s) OR of_nat m) AND (0x80 :: u8) = 0" using and_exp_eq_0_iff_not_bit [of "push_bit 4 (of_nat s) OR of_nat m :: u8" 7] by simp
    then show ?thesis by (simp add: disjunctive_xor_eq_or or.commute)
  qed
  have "(0xD5 :: u8) = 0x80 XOR 0x55" by simp
  then have "(push_bit 4 (of_nat s) OR of_nat m :: u8) XOR 0xD5 = (0x80 OR push_bit 4 (of_nat s) OR of_nat m) XOR 0x55"
    unfolding top [symmetric] by (simp only: xor.assoc)
  then show ?thesis
    unfolding pcm_to_alaw_def Let_def pcm mag assms(1) alaw_word_def using assms(2,3)
    by (cases "0 \<le> x"; cases "s < 2") simp_all
qed


lemma alaw_segment_bounds:
  assumes "0 \<le> mag" and "mag < 4096"
  shows "alaw_segment mag < 8"
    and "alaw_segment mag \<noteq> 0 \<Longrightarrow> 16 * 2 ^ alaw_segment mag \<le> mag \<and> mag < 32 * 2 ^ alaw_segment mag"
    and "alaw_segment mag = 0 \<Longrightarrow> mag < 32"
  using assms by (auto simp: alaw_segment_def split: if_splits)

lemma alaw_segment_unique:
  assumes "16 * 2 ^ s \<le> mag" and "mag < 32 * 2 ^ s" and "s < 8" and "s \<noteq> 0"
  shows "alaw_segment mag = s"
proof -
  have "s \<in> set [1..<8]" using assms(3,4) by simp
  then show ?thesis using assms(1,2) by (auto simp: upt_rec alaw_segment_def)
qed

lemma alaw_encode:
  assumes "16 * 2 ^ s \<le> fold13 x" and "fold13 x < 32 * 2 ^ s" and "s < 8" and "s \<noteq> 0"
  shows "\<exists>m < 16. pcm_to_alaw x = alaw_word (0 \<le> x) s m
    \<and> (128 + 8 * int m) * 2 ^ s \<le> 8 * fold13 x \<and> 8 * fold13 x + 8 \<le> (136 + 8 * int m) * 2 ^ s"
proof -
  have "128 * 2 ^ s \<le> 8 * fold13 x" "8 * fold13 x < 256 * 2 ^ s" using assms(1,2) by simp_all
  from mulaw_mantissa [OF this] obtain m where m: "m < 16" "drop_bit (s + 3) (8 * fold13 x) AND 0x0F = int m"
    "(128 + 8 * int m) * 2 ^ s \<le> 8 * fold13 x" "8 * fold13 x < (136 + 8 * int m) * 2 ^ s" by blast
  have "drop_bit (s + 3) (8 * fold13 x) = drop_bit s (fold13 x)"
    using div_mult_mult1 [of 8 "fold13 x" "2 ^ s"] by (simp add: drop_bit_eq_div power_add mult.commute)
  moreover have "(if s < 2 then 1 else s) = s" using assms(4) by simp
  ultimately have "pcm_to_alaw x = alaw_word (0 \<le> x) s m"
    using m(1,2) assms(3) by (intro alaw_encode_word alaw_segment_unique assms) simp_all
  moreover have "8 * fold13 x + 8 \<le> (136 + 8 * int m) * 2 ^ s"
  proof -
    have "8 * fold13 x < 8 * ((17 + int m) * 2 ^ s)" using m(4) by (simp add: algebra_simps)
    then have "8 * fold13 x + 8 \<le> 8 * ((17 + int m) * 2 ^ s)" by presburger
    then show ?thesis by (simp add: algebra_simps)
  qed
  ultimately show ?thesis using m(1,3) by blast
qed

lemma alaw_encode0:
  assumes "0 \<le> fold13 x" and "fold13 x < 32"
  shows "pcm_to_alaw x = alaw_word (0 \<le> x) 0 (nat (fold13 x div 2))"
  using assms by (intro alaw_encode_word) (simp_all add: alaw_segment_def int_masks drop_bit_eq_div)

lemma alaw_error:
  assumes "- 32768 \<le> x" and "x \<le> 32767"
  shows "abs (alaw_to_pcm (pcm_to_alaw x) - x) \<le> 8 \<or> 32 * abs (alaw_to_pcm (pcm_to_alaw x) - x) \<le> abs x"
proof -
  have f: "0 \<le> fold13 x" "fold13 x < 4096" using assms by (auto simp: fold13_def)
  define s where "s = alaw_segment (fold13 x)"
  have "s < 8" using alaw_segment_bounds(1) [OF f] by (simp add: s_def)
  show ?thesis
  proof (cases "s = 0")
    case True
    then have b: "fold13 x < 32" using alaw_segment_bounds(3) [OF f] by (simp add: s_def)
    then have "alaw_to_pcm (pcm_to_alaw x) = (if 0 \<le> x then 1 else - 1) * (16 * (fold13 x div 2) + 8)"
      using f(1) unfolding alaw_encode0 [OF f(1) b] by (subst alaw_decode) simp_all
    moreover have "2 * (fold13 x div 2) \<le> fold13 x" "fold13 x \<le> 2 * (fold13 x div 2) + 1" by linarith+
    ultimately show ?thesis using fold13_bounds [of x] by (cases "0 \<le> x") auto
  next
    case False
    then obtain m where m: "m < 16" "pcm_to_alaw x = alaw_word (0 \<le> x) s m"
      "(128 + 8 * int m) * 2 ^ s \<le> 8 * fold13 x" "8 * fold13 x + 8 \<le> (136 + 8 * int m) * 2 ^ s"
      using alaw_encode [of s x] alaw_segment_bounds(2) [OF f] \<open>s < 8\<close> unfolding s_def by blast
    let ?d = "(8 * int m + 132) * 2 ^ s :: int"
    have "(128 + 8 * int m) * 2 ^ s \<le> abs x" "abs x \<le> (136 + 8 * int m) * 2 ^ s"
      using m(3,4) fold13_bounds [of x] by (cases "0 \<le> x"; simp)+
    then have "abs (?d - abs x) \<le> 4 * 2 ^ s" by (simp add: algebra_simps abs_le_iff)
    moreover have "128 * 2 ^ s \<le> abs x"
      using \<open>(128 + 8 * int m) * 2 ^ s \<le> abs x\<close> by (simp add: distrib_right) (smt (verit) zero_le_mult_iff zero_le_power of_nat_0_le_iff)
    moreover have "abs (alaw_to_pcm (pcm_to_alaw x) - x) = abs (?d - abs x)"
      using False unfolding m(2) alaw_decode [OF \<open>s < 8\<close> m(1)] by (cases "0 \<le> x") simp_all
    ultimately have "32 * abs (alaw_to_pcm (pcm_to_alaw x) - x) \<le> 32 * (4 * 2 ^ s)" "128 * 2 ^ s \<le> abs x" by simp_all
    then have "32 * abs (alaw_to_pcm (pcm_to_alaw x) - x) \<le> abs x" by simp
    then show ?thesis ..
  qed
qed


lemma alaw_reencode0:
  assumes "m < 16"
  shows "pcm_to_alaw (alaw_to_pcm (alaw_word pos 0 m)) = alaw_word pos 0 m"
proof -
  let ?x = "(if pos then 1 else - 1) * (16 * int m + 8)"
  have "- (16 * int m + 8) div 8 = - (2 * int m + 1)" by presburger
  then have f: "fold13 ?x = (if pos then 2 * int m + 1 else 2 * int m)" by (auto simp: fold13_def)
  then have "pcm_to_alaw ?x = alaw_word (0 \<le> ?x) 0 (nat (fold13 ?x div 2))" using assms by (intro alaw_encode0) auto
  moreover have "0 \<le> ?x \<longleftrightarrow> pos" "nat (fold13 ?x div 2) = m" by (auto simp: f)
  ultimately show ?thesis using assms by (simp add: alaw_decode)
qed

lemma alaw_reencode:
  assumes "s < 8" and "m < 16"
  shows "pcm_to_alaw (alaw_to_pcm (alaw_word pos s m)) = alaw_word pos s m"
proof (cases "s = 0")
  case True
  then show ?thesis using alaw_reencode0 [OF assms(2)] by simp
next
  case False
  let ?p = "2 ^ s :: int" and ?x = "alaw_to_pcm (alaw_word pos s m)"
  define y where "y = (8 * int m + 132) * ?p"
  have x: "?x = (if pos then y else - y)" using False by (simp add: alaw_decode [OF assms] y_def)
  have p: "?p \<in> {2, 4, 8, 16, 32, 64, 128}" 
  proof -
    have "2 \<le> ?p" using False by (cases s) simp_all
    then show ?thesis using pow_below_8 [OF assms(1)] by auto
  qed
  have y: "132 * ?p \<le> y" "y \<le> 252 * ?p" using p assms(2) by (auto simp: y_def)
  then have sgn: "0 \<le> ?x \<longleftrightarrow> pos" using p by (auto simp: x)
  have f: "8 * fold13 ?x \<le> y" "y \<le> 8 * fold13 ?x + 8"
    using fold13_bounds [of ?x] sgn by (auto simp: x split: if_splits)
  have "16 * ?p \<le> fold13 ?x" "fold13 ?x < 32 * ?p" using f(1,2) y p by auto
  then obtain k where k: "k < 16" "pcm_to_alaw ?x = alaw_word pos s k"
    "(128 + 8 * int k) * ?p \<le> 8 * fold13 ?x" "8 * fold13 ?x + 8 \<le> (136 + 8 * int k) * ?p"
    using alaw_encode [OF _ _ assms(1) False, of ?x] sgn by auto
  have "(128 + 8 * int k) * ?p \<le> (8 * int m + 132) * ?p" "(8 * int m + 132) * ?p \<le> (136 + 8 * int k) * ?p"
    using k(3,4) f(1,2) unfolding y_def by linarith+
  then have "128 + 8 * int k \<le> 8 * int m + 132" "8 * int m + 132 \<le> 136 + 8 * int k" using p by (auto simp: mult_le_cancel_right)
  then have "k = m" by linarith
  with k(2) show ?thesis by simp
qed

lemma alaw_word_fields: "\<exists>pos s m. s < 8 \<and> m < 16 \<and> w = alaw_word pos s m"
proof -
  obtain pos s m where "s < 8" "m < 16" and w: "NOT (w XOR 0x55) = code_word pos s m" using code_word_fields by blast
  from w have "w XOR 0x55 = (if pos then 0x80 else 0) OR push_bit 4 (of_nat s) OR of_nat m" by (simp only: code_word_def bit.compl_eq_compl_iff)
  then have "w = alaw_word pos s m" unfolding alaw_word_def by (metis xor.assoc xor_self_eq xor.right_neutral)
  with \<open>s < 8\<close> \<open>m < 16\<close> show ?thesis by blast
qed


section \<open>Packets\<close>

definition audio_rtp_packet :: "u8 \<Rightarrow> u16 \<Rightarrow> u32 \<Rightarrow> u32 \<Rightarrow> bytes \<Rightarrow> rtp_packet" where
  "audio_rtp_packet pt seq ts ssrc payload =
     \<lparr>rp_flags = \<lparr>rf_version = 2, rf_padding = False, rf_extension = False, rf_csrc_count = 0, rf_marker = False, rf_payload_type = pt\<rparr>,
      rp_sequence_number = seq, rp_timestamp = ts, rp_ssrc = ssrc, rp_csrc_list = [],
      rp_extension_profile = None, rp_extension_data = [], rp_payload = payload\<rparr>"

lemma audio_packet_parses:
  assumes "unat pt < 128"
  shows "rtp_parse (audio_header_to_bytes (audio_header_new pt seq ts ssrc) @ payload) = Inr (audio_rtp_packet pt seq ts ssrc payload)"
proof -
  let ?p = "audio_rtp_packet pt seq ts ssrc payload"
  have wf: "rtp_wf ?p" using assms by (simp add: rtp_wf_def audio_rtp_packet_def RTP_VERSION_def)
  have "audio_header_to_bytes (audio_header_new pt seq ts ssrc) @ payload = rtp_to_bytes ?p"
    unfolding rtp_to_bytes_split [OF wf] by (simp add: audio_rtp_packet_def audio_header_to_bytes_def audio_header_new_def ext_bytes_def)
  moreover have "4 dvd length (rp_extension_data ?p)" by (simp add: audio_rtp_packet_def)
  ultimately show ?thesis using wf by (simp add: rtp_roundtrip_lemma rtp_canonical_aligned)
qed

definition packet_count :: "nat \<Rightarrow> nat \<Rightarrow> nat" where
  "packet_count spp k = (k + spp - 1) div spp"

lemma packet_count_zero [simp]: "0 < spp \<Longrightarrow> packet_count spp 0 = 0"
  by (simp add: packet_count_def)

lemma packet_count_step: "0 < spp \<Longrightarrow> 0 < k \<Longrightarrow> packet_count spp k = Suc (packet_count spp (k - spp))"
proof (cases "spp \<le> k")
  case True
  assume "0 < spp"
  with True have "k + spp - 1 = (k - spp + spp - 1) + spp" by simp
  then show ?thesis using \<open>0 < spp\<close> unfolding packet_count_def by (simp only: div_add_self2 neq0_conv Suc_eq_plus1)
next
  case False
  assume "0 < spp" "0 < k"
  with False have "(k + spp - 1) div spp = ((k - 1) + spp) div spp" "(k - 1) div spp = 0" by simp_all
  moreover have "((k - 1) + spp) div spp = (k - 1) div spp + 1" using \<open>0 < spp\<close> by (intro div_add_self2) simp
  moreover have "packet_count spp (k - spp) = 0" using False \<open>0 < spp\<close> by (simp add: packet_count_def)
  ultimately show ?thesis by (simp only: packet_count_def)
qed

lemma packet_count_covers: "0 < spp \<Longrightarrow> k \<le> packet_count spp k * spp"
proof -
  assume "0 < spp"
  then have "(k + spp - 1) mod spp < spp" by simp
  then show ?thesis using div_mult_mod_eq [of "k + spp - 1" spp] unfolding packet_count_def by linarith
qed

lemma packetize_loop_packets:
  fixes rate :: u32
  defines "spp \<equiv> samples_per_packet rate"
  assumes "off \<le> length pcm"
  shows "packetize_loop pcm rate ts ssrc pt off p =
    (map (\<lambda>i. audio_header_to_bytes (audio_header_new pt (ap_sequence_number p + of_nat i) (current_timestamp ts rate (off + i * spp)) ssrc)
              @ encode_chunk pt (take spp (drop (off + i * spp) pcm))) [0..<packet_count spp (length pcm - off)],
     p\<lparr>ap_sequence_number := ap_sequence_number p + of_nat (packet_count spp (length pcm - off))\<rparr>)"
  using assms(2)
proof (induction "length pcm - off" arbitrary: off p rule: less_induct)
  case less
  have spp: "0 < spp" by (simp add: spp_def)
  show ?case
  proof (cases "off < length pcm")
    case False
    then show ?thesis using less.prems spp by (simp add: packetize_loop.simps)
  next
    case True
    let ?e = "min (off + spp) (length pcm)"
    have n: "packet_count spp (length pcm - off) = Suc (packet_count spp (length pcm - ?e))"
      using True spp packet_count_step [of spp "length pcm - off"] by (simp add: min_def)
    have chunk: "subslice off ?e pcm = take spp (drop off pcm)" using True by (auto simp: subslice_def min_def)
    have shift: "[0..<packet_count spp (length pcm - ?e)] = [] \<or> ?e = off + spp" using spp by (auto simp: min_def)
    let ?p = "p\<lparr>ap_sequence_number := ap_sequence_number p + 1\<rparr>"
    have "length pcm - ?e < length pcm - off" using True spp by auto
    note IH = less.hyps [OF this, of ?p]
    show ?thesis
      unfolding n map_upt_Suc
      using True IH shift
      by (subst packetize_loop.simps) (auto simp: Let_def chunk add.assoc simp flip: spp_def)
  qed
qed

section \<open>Properties\<close>

text \<open>Companding loses at most one part in 32: for every 16-bit sample, the decoded
  \<open>\<mu>\<close>-law code differs from the clipped sample by at most \<open>1/32\<close> of its biased magnitude, and the
  decoded A-law code by at most eight, or \<open>1/32\<close> of the magnitude.\<close>

theorem g711_quantisation:
  assumes "- 32768 \<le> x" and "x \<le> 32767"
  shows "32 * abs (mulaw_to_pcm (pcm_to_mulaw x) - clip x) \<le> abs (clip x) + 132
    \<and> (abs x \<le> 32635 \<longrightarrow> clip x = x)
    \<and> (abs (alaw_to_pcm (pcm_to_alaw x) - x) \<le> 8 \<or> 32 * abs (alaw_to_pcm (pcm_to_alaw x) - x) \<le> abs x)"
proof (intro conjI impI)
  show "32 * abs (mulaw_to_pcm (pcm_to_mulaw x) - clip x) \<le> abs (clip x) + 132" using mulaw_error [of x] by (simp add: BIAS_def)
  show "clip x = x" if "abs x \<le> 32635" using that by (auto simp: clip_def CLIP_def)
  show "abs (alaw_to_pcm (pcm_to_alaw x) - x) \<le> 8 \<or> 32 * abs (alaw_to_pcm (pcm_to_alaw x) - x) \<le> abs x" by (rule alaw_error [OF assms])
qed

theorem g711_quantisation_witness:
  "32 * abs (mulaw_to_pcm (pcm_to_mulaw (- 20000)) - clip (- 20000)) \<le> abs (clip (- 20000)) + 132 \<and> clip (- 20000) = - 20000
   \<and> (abs (alaw_to_pcm (pcm_to_alaw (- 20000)) - (- 20000)) \<le> 8 \<or> 32 * abs (alaw_to_pcm (pcm_to_alaw (- 20000)) - (- 20000)) \<le> abs (- 20000))"
  using g711_quantisation [of "- 20000"] by (simp add: clip_def CLIP_def)

text \<open>Code words are stable under decoding and encoding: every A-law code, and every \<open>\<mu>\<close>-law code
  but negative zero (which decodes to zero, like \<open>0xFF\<close>), is the encoding of the sample it decodes to.\<close>

theorem g711_codes_stable:
  "pcm_to_alaw (alaw_to_pcm w) = w \<and> pcm_to_mulaw (mulaw_to_pcm w) = (if w = 0x7F then 0xFF else w)"
proof
  show "pcm_to_alaw (alaw_to_pcm w) = w" using alaw_word_fields [of w] alaw_reencode by blast
  obtain neg s m where sm: "s < 8" "m < 16" and w: "w = code_word neg s m" using code_word_fields by blast
  have z: "code_word True 0 0 = 0x7F" "pcm_to_mulaw (mulaw_to_pcm 0x7F) = 0xFF" by code_simp+
  show "pcm_to_mulaw (mulaw_to_pcm w) = (if w = 0x7F then 0xFF else w)"
  proof (cases "neg \<and> s = 0 \<and> m = 0")
    case True
    then show ?thesis by (simp add: w z)
  next
    case False
    then have r: "pcm_to_mulaw (mulaw_to_pcm w) = w" using sm by (simp add: w mulaw_reencode)
    then have "w \<noteq> 0x7F" using z(2) by auto
    with r show ?thesis by simp
  qed
qed



end
