(* ===== verification/Convert.thy ===== *)
theory Convert
  imports Loops
begin

text \<open>
  Pixel formats, \<^verbatim>\<open>crates/streaming/src/encoder/convert.rs\<close>: planar 4:2:0 frames with their
  geometric transforms (flip in place, quarter turn, nearest-neighbour downscaling) and the
  conversions from packed YUYV and RGB and back to RGB. The loops of the source are loops of the
  model with checked indices, so that every lemma that gives a value also says that nothing panics.
  Intermediate \<^verbatim>\<open>i32\<close> values stay below \<open>2 ^ 25\<close> and are integers.
\<close>

section \<open>Frames\<close>

record yuv420p =
  yf_width :: u32
  yf_height :: u32
  yf_data :: bytes

definition yuv_new :: "u32 \<Rightarrow> u32 \<Rightarrow> yuv420p" where
  "yuv_new width height =
     (let y = unat width * unat height; uv = (unat width div 2) * (unat height div 2)
      in \<lparr>yf_width = width, yf_height = height, yf_data = replicate (y + 2 * uv) 0\<rparr>)"

abbreviation y_len :: "yuv420p \<Rightarrow> nat" where
  "y_len f \<equiv> unat (yf_width f) * unat (yf_height f)"

abbreviation uv_len :: "yuv420p \<Rightarrow> nat" where
  "uv_len f \<equiv> (unat (yf_width f) div 2) * (unat (yf_height f) div 2)"

definition y_plane :: "yuv420p \<Rightarrow> bytes" where
  "y_plane f = take (y_len f) (yf_data f)"

definition u_plane :: "yuv420p \<Rightarrow> bytes" where
  "u_plane f = take (uv_len f) (drop (y_len f) (yf_data f))"

definition v_plane :: "yuv420p \<Rightarrow> bytes" where
  "v_plane f = drop (y_len f + uv_len f) (yf_data f)"

section \<open>Geometric transforms\<close>

text \<open>\<^verbatim>\<open>copy_row\<close> between rows of equal length.\<close>

definition copy_row :: "bytes \<Rightarrow> bool \<Rightarrow> bytes" where
  "copy_row src mirror = (if mirror then rev src else src)"

text \<open>
  The \<^verbatim>\<open>while top < bottom\<close> loop that swaps rows from the outside in, and the middle row of an
  odd height. A row is at least one pixel wide when the loop is entered.
\<close>

function flip_rows :: "nat \<Rightarrow> bool \<Rightarrow> nat \<Rightarrow> nat \<Rightarrow> bytes \<Rightarrow> bytes result" where
  "flip_rows w hflip top_off bottom_off plane =
     (if top_off < bottom_off \<and> 0 < w then
        if top_off + w \<le> bottom_off \<and> bottom_off + w \<le> length plane then
          let scratch = subslice top_off (top_off + w) plane;
              bottom_row = subslice bottom_off (bottom_off + w) plane;
              plane = overwrite top_off (copy_row bottom_row hflip) plane;
              plane = overwrite bottom_off (copy_row scratch hflip) plane
          in flip_rows w hflip (top_off + w) (bottom_off - w) plane
        else Inl (Panic ''range end out of bounds'')
      else if top_off = bottom_off \<and> hflip then
        if top_off + w \<le> length plane then Inr (overwrite top_off (rev (subslice top_off (top_off + w) plane)) plane)
        else Inl (Panic ''range end out of bounds'')
      else Inr plane)"
  by pat_completeness auto
termination
  by (relation "measure (\<lambda>(w, _, top_off, bottom_off, _). bottom_off - top_off)") auto

declare flip_rows.simps [simp del]

text \<open>\<^verbatim>\<open>chunks_mut(w)\<close>, for \<open>0 < w\<close>.\<close>

function chunks :: "nat \<Rightarrow> 'a list \<Rightarrow> 'a list list" where
  "chunks w xs = (if xs = [] \<or> w = 0 then [] else take w xs # chunks w (drop w xs))"
  by pat_completeness auto
termination
  by (relation "measure (\<lambda>(w, xs). length xs)") auto

declare chunks.simps [simp del]

definition flip_plane :: "bytes \<Rightarrow> nat \<Rightarrow> nat \<Rightarrow> bool \<Rightarrow> bool \<Rightarrow> bytes result" where
  "flip_plane plane w h hflip vflip =
     (if vflip then
        if h = 0 \<and> w \<noteq> 0 then Inl (Panic ''range end out of bounds'')
        else flip_rows w hflip 0 ((h - 1) * w) plane
      else if hflip then
        if w = 0 then Inl (Panic ''chunk size must be non-zero'')
        else Inr (concat (map rev (chunks w plane)))
      else Inr plane)"

definition flip :: "bool \<Rightarrow> bool \<Rightarrow> yuv420p \<Rightarrow> yuv420p result" where
  "flip hflip vflip f =
     (if \<not> hflip \<and> \<not> vflip then Inr f
      else
        let w = unat (yf_width f); h = unat (yf_height f); cw = w div 2; ch = h div 2
        in if length (yf_data f) < w * h + 2 * (cw * ch) then Inr f
           else
             let yp = take (w * h) (yf_data f); rest = drop (w * h) (yf_data f);
                 up = take (cw * ch) rest; vp = drop (cw * ch) rest
             in and_then (flip_plane yp w h hflip vflip) (\<lambda>yp.
                if cw > 0 \<and> ch > 0 then
                  and_then (flip_plane up cw ch hflip vflip) (\<lambda>up.
                  and_then (flip_plane vp cw ch hflip vflip) (\<lambda>vp.
                  Inr (f\<lparr>yf_data := yp @ up @ vp\<rparr>)))
                else Inr (f\<lparr>yf_data := yp @ up @ vp\<rparr>)))"

definition transpose_plane :: "bytes \<Rightarrow> nat \<Rightarrow> nat \<Rightarrow> bool \<Rightarrow> bytes \<Rightarrow> bytes result" where
  "transpose_plane src pw ph clockwise dst =
     for_each (\<lambda>sy dst.
       if (sy + 1) * pw \<le> length src then
         let row = subslice (sy * pw) ((sy + 1) * pw) src
         in if clockwise
            then for_each (\<lambda>(sx, v) dst. upd (sx * ph + (ph - 1 - sy)) v dst) (enumerate 0 row) dst
            else for_each (\<lambda>(sx, v) dst. upd ((pw - 1 - sx) * ph + sy) v dst) (enumerate 0 row) dst
       else Inl (Panic ''range end out of bounds'')) [0..<ph] dst"

definition rotated :: "bool \<Rightarrow> yuv420p \<Rightarrow> yuv420p result" where
  "rotated clockwise f =
     (let w = unat (yf_width f); h = unat (yf_height f); cw = w div 2; ch = h div 2;
          out = yuv_new (yf_height f) (yf_width f)
      in if w = 0 \<or> h = 0 \<or> length (yf_data f) < w * h + 2 * (cw * ch) then Inr out
         else
           and_then (transpose_plane (y_plane f) w h clockwise (y_plane out)) (\<lambda>yp.
           if cw > 0 \<and> ch > 0 then
             and_then (transpose_plane (u_plane f) cw ch clockwise (u_plane out)) (\<lambda>up.
             and_then (transpose_plane (v_plane f) cw ch clockwise (v_plane out)) (\<lambda>vp.
             Inr (out\<lparr>yf_data := yp @ up @ vp\<rparr>)))
           else Inr (out\<lparr>yf_data := yp @ u_plane out @ v_plane out\<rparr>)))"

definition rotated_dims :: "u32 \<Rightarrow> u32 \<Rightarrow> u32 \<Rightarrow> u32 \<times> u32" where
  "rotated_dims width height rotation =
     (if rotation = 90 \<or> rotation = 270 then (height, width) else (width, height))"

definition map_axis :: "u32 \<Rightarrow> u32 \<Rightarrow> nat list" where
  "map_axis dst src = map (\<lambda>d. d * unat src div unat dst) [0..<unat dst]"

definition downscale_luma :: "bytes \<Rightarrow> nat \<Rightarrow> nat \<Rightarrow> nat list \<Rightarrow> nat list \<Rightarrow> bytes \<Rightarrow> bytes result" where
  "downscale_luma src src_w dst_w xmap ymap out =
     for_each (\<lambda>(dy, sy) out.
       let s_row = sy * src_w; d_row = dy * dst_w
       in for_each (\<lambda>(dx, sx) out. and_then (idx src (s_row + sx)) (\<lambda>v. upd (d_row + dx) v out))
            (enumerate 0 xmap) out) (enumerate 0 ymap) out"

definition chroma_px :: "bytes \<Rightarrow> nat list \<Rightarrow> nat \<Rightarrow> nat \<Rightarrow> nat \<Rightarrow> nat \<Rightarrow> nat \<Rightarrow> bytes \<Rightarrow> bytes result" where
  "chroma_px src xmap s_row_u s_row_v u_pos v_pos dcx out =
     and_then (idx xmap (min (dcx * 2) (length xmap - 1))) (\<lambda>sx.
     and_then (idx src (s_row_u + sx div 2)) (\<lambda>u.
     and_then (upd u_pos u out) (\<lambda>out.
     and_then (idx src (s_row_v + sx div 2)) (\<lambda>v. upd v_pos v out))))"

definition downscale_chroma ::
  "bytes \<Rightarrow> nat \<Rightarrow> nat \<Rightarrow> nat \<Rightarrow> nat \<Rightarrow> nat \<Rightarrow> nat \<Rightarrow> nat list \<Rightarrow> nat list \<Rightarrow> bytes \<Rightarrow> bytes result" where
  "downscale_chroma src src_y src_c src_cw dst_y dst_ch dst_cw xmap ymap out =
     for_each (\<lambda>dcy out.
       and_then (idx ymap (min (dcy * 2) (length ymap - 1))) (\<lambda>sy.
       let s_row_u = src_y + sy div 2 * src_cw; s_row_v = s_row_u + src_c
       in for_each (\<lambda>dcx. chroma_px src xmap s_row_u s_row_v (dst_y + dcy * dst_cw + dcx)
                            (dst_y + dst_ch * dst_cw + dcy * dst_cw + dcx) dcx) [0..<dst_cw] out)) [0..<dst_ch] out"

definition downscaled :: "u32 \<Rightarrow> u32 \<Rightarrow> yuv420p \<Rightarrow> yuv420p result" where
  "downscaled dst_w dst_h f =
     (let src_w = unat (yf_width f); src_h = unat (yf_height f);
          src_y = src_w * src_h; src_c = src_w div 2 * (src_h div 2)
      in if yf_width f = 0 \<or> yf_height f = 0 \<or> dst_w = 0 \<or> dst_h = 0 \<or> dst_w > yf_width f \<or> dst_h > yf_height f
            \<or> length (yf_data f) < src_y + 2 * src_c \<or> (dst_w, dst_h) = (yf_width f, yf_height f)
         then Inr f
         else
           let xmap = map_axis dst_w (yf_width f); ymap = map_axis dst_h (yf_height f);
               dst_ch = max (unat dst_h div 2) 1; dst_cw = max (unat dst_w div 2) 1;
               dst_y = unat dst_w * unat dst_h; dst_c = dst_ch * dst_cw
           in and_then (downscale_luma (yf_data f) src_w (unat dst_w) xmap ymap (replicate (dst_y + 2 * dst_c) 0)) (\<lambda>out.
              and_then (downscale_chroma (yf_data f) src_y src_c (src_w div 2) dst_y dst_ch dst_cw xmap ymap out) (\<lambda>out.
              Inr \<lparr>yf_width = dst_w, yf_height = dst_h, yf_data = out\<rparr>)))"

section \<open>Conversions\<close>

definition yuyv_to_yuv420p :: "bytes \<Rightarrow> u32 \<Rightarrow> u32 \<Rightarrow> yuv420p result" where
  "yuyv_to_yuv420p yuyv width height =
     (if unat width mod 2 \<noteq> 0 \<or> unat height mod 2 \<noteq> 0 then Inl (Bail ''YUYV requires even dimensions'')
      else if length yuyv < unat width * unat height * 2 then Inl (Bail ''YUYV buffer too short'')
      else
        let frame = yuv_new width height; w = unat width; h = unat height; half_w = w div 2; half_h = h div 2
        in and_then (for_each (\<lambda>row yp. for_each (\<lambda>col yp.
             and_then (idx yuyv (row * w * 2 + col * 2)) (\<lambda>v. upd (row * w + col) v yp)) [0..<w] yp)
             [0..<h] (y_plane frame)) (\<lambda>yp.
           and_then (for_each (\<lambda>cy uv. for_each (\<lambda>cx (up, vp).
             let r0 = (cy * 2) * w * 2 + cx * 4; r1 = (cy * 2 + 1) * w * 2 + cx * 4
             in and_then (idx yuyv (r0 + 1)) (\<lambda>u0.
                and_then (idx yuyv (r1 + 1)) (\<lambda>u1.
                and_then (idx yuyv (r0 + 3)) (\<lambda>v0.
                and_then (idx yuyv (r1 + 3)) (\<lambda>v1.
                and_then (upd (cy * half_w + cx) (of_nat ((unat u0 + unat u1) div 2)) up) (\<lambda>up.
                and_then (upd (cy * half_w + cx) (of_nat ((unat v0 + unat v1) div 2)) vp) (\<lambda>vp.
                Inr (up, vp)))))))) [0..<half_w] uv) [0..<half_h] (u_plane frame, v_plane frame)) (\<lambda>(up, vp).
           Inr (frame\<lparr>yf_data := yp @ up @ vp\<rparr>))))"

definition clamp :: "int \<Rightarrow> int \<Rightarrow> int \<Rightarrow> int" where
  "clamp lo hi x = (if x < lo then lo else if hi < x then hi else x)"

definition luma_of_rgb :: "int \<Rightarrow> int \<Rightarrow> int \<Rightarrow> int" where
  "luma_of_rgb r g b = 16 + drop_bit 16 (16829 * r + 33038 * g + 6416 * b + 32768)"

definition cb_of_rgb :: "int \<Rightarrow> int \<Rightarrow> int \<Rightarrow> int" where
  "cb_of_rgb sr sg sb = 128 + drop_bit 16 (- 9719 * sr - 19026 * sg + 28736 * sb + 32768)"

definition cr_of_rgb :: "int \<Rightarrow> int \<Rightarrow> int \<Rightarrow> int" where
  "cr_of_rgb sr sg sb = 128 + drop_bit 16 (28736 * sr - 24070 * sg - 4642 * sb + 32768)"

definition rgb_at :: "bytes \<Rightarrow> nat \<Rightarrow> (int \<times> int \<times> int) result" where
  "rgb_at rgb px =
     and_then (idx rgb (px * 3)) (\<lambda>r. and_then (idx rgb (px * 3 + 1)) (\<lambda>g. and_then (idx rgb (px * 3 + 2)) (\<lambda>b.
     Inr (uint r, uint g, uint b))))"

text \<open>The sums over the two by two block of a chroma sample.\<close>

definition block_sums :: "bytes \<Rightarrow> nat \<Rightarrow> nat \<Rightarrow> nat \<Rightarrow> (int \<times> int \<times> int) result" where
  "block_sums rgb w cy cx =
     for_each (\<lambda>dy s. for_each (\<lambda>dx (sr, sg, sb).
       and_then (rgb_at rgb ((cy * 2 + dy) * w + (cx * 2 + dx))) (\<lambda>(r, g, b).
       Inr (sr + r, sg + g, sb + b))) [0..<2] s) [0..<2] (0, 0, 0)"

definition rgb8_to_yuv420p :: "bytes \<Rightarrow> u32 \<Rightarrow> u32 \<Rightarrow> yuv420p result" where
  "rgb8_to_yuv420p rgb width height =
     (if length rgb < unat width * unat height * 3 then Inl (Bail ''RGB buffer too short'')
      else
        let frame = yuv_new width height; w = unat width; h = unat height; half_w = w div 2; half_h = h div 2
        in and_then (for_each (\<lambda>i yp.
             and_then (rgb_at rgb i) (\<lambda>(r, g, b).
             upd i (of_int (clamp 16 235 (luma_of_rgb r g b))) yp)) [0..<w * h] (y_plane frame)) (\<lambda>yp.
           and_then (for_each (\<lambda>cy uv. for_each (\<lambda>cx (up, vp).
             and_then (block_sums rgb w cy cx) (\<lambda>(sr, sg, sb).
             let sr = sr div 4; sg = sg div 4; sb = sb div 4; i = cy * half_w + cx
             in and_then (upd i (of_int (clamp 16 240 (cb_of_rgb sr sg sb))) up) (\<lambda>up.
                and_then (upd i (of_int (clamp 16 240 (cr_of_rgb sr sg sb))) vp) (\<lambda>vp.
                Inr (up, vp))))) [0..<half_w] uv) [0..<half_h] (u_plane frame, v_plane frame)) (\<lambda>(up, vp).
           Inr (frame\<lparr>yf_data := yp @ up @ vp\<rparr>))))"

text \<open>Rust's integer division truncates towards zero.\<close>

definition tdiv :: "int \<Rightarrow> int \<Rightarrow> int" where
  "tdiv a b = sgn a * sgn b * (abs a div abs b)"

definition rgb_of_yuv :: "int \<Rightarrow> int \<Rightarrow> int \<Rightarrow> bytes" where
  "rgb_of_yuv y cu cv =
     [of_int (clamp 0 255 (y + tdiv (143 * cv) 100)),
      of_int (clamp 0 255 (y - tdiv (34 * cu + 71 * cv) 100)),
      of_int (clamp 0 255 (y + tdiv (177 * cu) 100))]"

definition yuv420p_to_rgb8 :: "yuv420p \<Rightarrow> bytes result" where
  "yuv420p_to_rgb8 f =
     (if length (yf_data f) < y_len f + uv_len f then Inl (Panic ''range end out of bounds'')
      else
        let w = unat (yf_width f); h = unat (yf_height f); half_w = w div 2
        in for_each (\<lambda>j rgb. for_each (\<lambda>i rgb.
             and_then (idx (y_plane f) (j * w + i)) (\<lambda>y.
             and_then (idx (u_plane f) (j div 2 * half_w + i div 2)) (\<lambda>u.
             and_then (idx (v_plane f) (j div 2 * half_w + i div 2)) (\<lambda>v.
             let px = rgb_of_yuv (uint y) (uint u - 128) (uint v - 128); off = (j * w + i) * 3
             in and_then (upd off (px ! 0) rgb) (\<lambda>rgb. and_then (upd (off + 1) (px ! 1) rgb) (upd (off + 2) (px ! 2)))))))
             [0..<w] rgb) [0..<h] (replicate (w * h * 3) 0))"

text \<open>
  Decoding a JPEG picture. The decoder is the \<^verbatim>\<open>jpeg_decoder\<close> crate: a parameter that returns the
  pixels, the size and the pixel format, or fails. \<open>turbo\<close> is the optional \<^verbatim>\<open>libjpeg-turbo\<close> path.
\<close>

datatype pixel_format = L8 | RGB24 | OtherFormat

definition mjpeg_to_yuv420p ::
  "(bytes \<Rightarrow> yuv420p result) option \<Rightarrow> (bytes \<Rightarrow> (bytes \<times> u16 \<times> u16 \<times> pixel_format) result) \<Rightarrow> bytes \<Rightarrow> yuv420p result" where
  "mjpeg_to_yuv420p turbo decode mjpeg_bytes =
     (case (case turbo of None \<Rightarrow> None | Some t \<Rightarrow> ok_opt (t mjpeg_bytes)) of
        Some frame \<Rightarrow> Inr frame
      | None \<Rightarrow>
          and_then (decode mjpeg_bytes) (\<lambda>(pixels, info_w, info_h, fmt).
          let width = ucast info_w; height = ucast info_h
          in case fmt of
               RGB24 \<Rightarrow> rgb8_to_yuv420p pixels width height
             | L8 \<Rightarrow>
                 let frame = yuv_new width height
                 in if length pixels \<le> length (yf_data frame)
                    then Inr (frame\<lparr>yf_data := overwrite 0 pixels (yf_data frame)\<rparr>)
                    else Inl (Panic ''range end out of bounds'')
             | OtherFormat \<Rightarrow> Inl (Bail ''unsupported MJPEG pixel format'')))"

end
