(* ===== verification/FrameGeometry.thy ===== *)
theory FrameGeometry
  imports Convert
begin

text \<open>
  The geometric transforms of \<^verbatim>\<open>convert.rs\<close> against their pixel-level references: flipping in place,
  quarter turns and nearest-neighbour downscaling, their compositions (two flips are one, two quarter turns are a
  flip in both directions, three are a turn the other way), and that none of them panics on a well-formed frame.
\<close>

section \<open>Flipping\<close>

lemma length_copy_row [simp]: "length (copy_row r m) = length r"
  by (simp add: copy_row_def)

lemma copy_row_twice [simp]: "copy_row (copy_row r m) m = r"
  by (simp add: copy_row_def)

lemma flip_rows_step:
  "t < b \<Longrightarrow> 0 < w \<Longrightarrow> t + w \<le> b \<Longrightarrow> b + w \<le> length p \<Longrightarrow> flip_rows w hf t b p =
     flip_rows w hf (t + w) (b - w)
       (overwrite b (copy_row (subslice t (t + w) p) hf) (overwrite t (copy_row (subslice b (b + w) p) hf) p))"
  by (subst flip_rows.simps) (simp add: Let_def)

lemma flip_rows_rev:
  assumes "0 < w" and "\<forall>r \<in> set (A @ M @ B). length r = w" and "A \<noteq> [] \<or> M \<noteq> []"
  shows "flip_rows w hf (length A * w) ((length A + length M - 1) * w) (concat (A @ M @ B)) =
    Inr (concat (A @ map (\<lambda>r. copy_row r hf) (rev M) @ B))"
  using assms(2,3)
proof (induction "length M" arbitrary: A M B rule: less_induct)
  case less
  consider (none) "M = []" | (one) r where "M = [r]" | (more) r1 N r2 where "M = r1 # N @ [r2]"
    by (metis list.exhaust rev_exhaust)
  then show ?case
  proof cases
    case none
    with less.prems(2) have "(length A - 1) * w < length A * w" using assms(1) by (cases A) simp_all
    then show ?thesis using none by (simp add: flip_rows.simps)
  next
    case one
    have "length (concat A) + w \<le> length (concat (A @ [r] @ B))" using less.prems(1) one by simp
    moreover have "length (concat A) = length A * w" using less.prems(1) by (intro length_concat_rows) simp
    moreover have "overwrite (length A * w) (rev (subslice (length A * w) (length A * w + w) (concat (A @ r # B)))) (concat (A @ r # B)) = concat (A @ rev r # B)"
      using less.prems(1) one row_of_concat [of A r B w] overwrite_row [of A r B w "rev r"] by simp
    ultimately show ?thesis unfolding one by (subst flip_rows.simps) (simp add: copy_row_def)
  next
    case more
    let ?m = "\<lambda>r. copy_row r hf" and ?a = "length A * w" and ?b = "(length A + length M - 1) * w"
    have lens: "\<forall>r \<in> set (A @ M @ B). length r = w" by (rule less.prems(1))
    have top_row: "subslice ?a (?a + w) (concat (A @ M @ B)) = r1"
      using row_of_concat [of A r1 "N @ r2 # B" w] lens by (simp add: more)
    have b: "?b = length (A @ r1 # N) * w" by (simp add: more)
    have bottom_row: "subslice ?b (?b + w) (concat (A @ M @ B)) = r2"
      using row_of_concat [of "A @ r1 # N" r2 B w] lens unfolding b by (simp add: more)
    have s1: "overwrite ?a (?m r2) (concat (A @ M @ B)) = concat (A @ ?m r2 # N @ r2 # B)"
      using overwrite_row [of A r1 "N @ r2 # B" w "?m r2"] lens by (simp add: more)
    have s2: "overwrite ?b (?m r1) (concat (A @ ?m r2 # N @ r2 # B)) = concat ((A @ [?m r2]) @ N @ (?m r1 # B))"
      using overwrite_row [of "A @ ?m r2 # N" r2 B w "?m r1"] lens unfolding b by (simp add: more)
    have step: "?a + w \<le> ?b" unfolding b by simp
    have fits: "?b + w \<le> length (concat (A @ M @ B))"
      using length_concat_rows [OF lens] by (simp add: more algebra_simps)
    have lt: "?a < ?b" using step assms(1) by linarith
    have moved: "?a + w = length (A @ [?m r2]) * w" "?b - w = (length (A @ [?m r2]) + length N - 1) * w"
      by (simp_all add: more algebra_simps)
    have "flip_rows w hf (length (A @ [?m r2]) * w) ((length (A @ [?m r2]) + length N - 1) * w) (concat ((A @ [?m r2]) @ N @ (?m r1 # B)))
        = Inr (concat ((A @ [?m r2]) @ map ?m (rev N) @ (?m r1 # B)))"
      using lens by (intro less.hyps) (auto simp: more)
    then show ?thesis
      unfolding flip_rows_step [OF lt assms(1) step fits] top_row bottom_row s1 s2 unfolding moved by (simp add: more)
  qed
qed

lemma chunks_rows: "0 < w \<Longrightarrow> length xs = h * w \<Longrightarrow> chunks w xs = rows w h xs"
proof (induction h arbitrary: xs)
  case 0
  then show ?case by (simp add: chunks.simps rows_def)
next
  case (Suc h)
  then have "xs \<noteq> []" "w \<noteq> 0" by auto
  moreover have "chunks w (drop w xs) = rows w h (drop w xs)" using Suc by simp
  moreover have "rows w (Suc h) xs = take w xs # rows w h (drop w xs)"
    unfolding rows_def map_upt_Suc by (simp add: add.commute)
  ultimately show ?case by (subst chunks.simps) simp
qed

definition flip_ref :: "nat \<Rightarrow> nat \<Rightarrow> bool \<Rightarrow> bool \<Rightarrow> bytes \<Rightarrow> bytes" where
  "flip_ref w h hf vf p = concat (map (\<lambda>r. copy_row r hf) ((if vf then rev else id) (rows w h p)))"

lemma flip_plane_ref:
  assumes "0 < w" and "0 < h" and "length p = w * h"
  shows "flip_plane p w h hf vf = Inr (flip_ref w h hf vf p)"
proof -
  have c: "concat (rows w h p) = p" using assms by (simp add: concat_rows mult.commute)
  have lens: "\<forall>r \<in> set (rows w h p). length r = w" using assms rows_lengths [of h w p] by (simp add: mult.commute)
  have ne: "rows w h p \<noteq> []" using assms(2) by (simp add: rows_def)
  show ?thesis
  proof (cases vf)
    case True
    have "flip_rows w hf 0 ((h - 1) * w) p = Inr (flip_ref w h hf True p)"
      using flip_rows_rev [OF assms(1), of "[]" "rows w h p" "[]" hf] lens ne c by (simp add: flip_ref_def)
    then show ?thesis using True assms by (simp add: flip_plane_def)
  next
    case False
    then show ?thesis using assms c chunks_rows [of w p h]
      by (cases hf) (simp_all add: flip_plane_def flip_ref_def mult.commute copy_row_def fun_eq_iff)
  qed
qed

lemma flip_ref_rows:
  assumes "length p = w * h"
  shows "rows w h (flip_ref w h hf vf p) = map (\<lambda>r. copy_row r hf) ((if vf then rev else id) (rows w h p))"
    and "length (flip_ref w h hf vf p) = w * h"
proof -
  let ?rs = "map (\<lambda>r. copy_row r hf) ((if vf then rev else id) (rows w h p))"
  have "\<forall>r \<in> set ?rs. length r = w" using assms rows_lengths [of h w p] by (auto simp: mult.commute)
  from rows_concat [OF this] length_concat_rows [OF this]
  show "rows w h (flip_ref w h hf vf p) = ?rs" "length (flip_ref w h hf vf p) = w * h"
    by (cases vf; simp add: flip_ref_def mult.commute)+
qed

lemma flip_ref_twice:
  assumes "length p = w * h"
  shows "flip_ref w h hf vf (flip_ref w h hf vf p) = p"
proof -
  have "flip_ref w h hf vf (flip_ref w h hf vf p) = concat (rows w h p)"
    unfolding flip_ref_def [of w h hf vf "flip_ref w h hf vf p"] flip_ref_rows(1) [OF assms]
    by (cases vf) (simp_all add: rev_map comp_def)
  then show ?thesis using assms by (simp add: concat_rows mult.commute)
qed

lemma flip_ref_pixel:
  assumes "length p = w * h" and "x < w" and "y < h"
  shows "flip_ref w h hf vf p ! (y * w + x) = p ! ((if vf then h - 1 - y else y) * w + (if hf then w - 1 - x else x))"
proof -
  let ?y = "if vf then h - 1 - y else y"
  have y: "?y < h" using assms(3) by auto
  have len: "length (rows w h p ! ?y) = w" using rows_lengths [of h w p "rows w h p ! ?y"] y assms(1) by (simp add: mult.commute)
  have "flip_ref w h hf vf p ! (y * w + x) = rows w h (flip_ref w h hf vf p) ! y ! x"
    using assms flip_ref_rows(2) [OF assms(1)] by (intro rows_nth [symmetric]) (simp_all add: mult.commute)
  also have "\<dots> = copy_row (rows w h p ! ?y) hf ! x"
    unfolding flip_ref_rows(1) [OF assms(1)] using assms(3) by (simp add: rev_nth)
  also have "\<dots> = rows w h p ! ?y ! (if hf then w - 1 - x else x)"
    using assms(2) len by (simp add: copy_row_def rev_nth)
  also have "\<dots> = p ! (?y * w + (if hf then w - 1 - x else x))"
    using assms y by (intro rows_nth) (auto simp: mult.commute)
  finally show ?thesis .
qed

section \<open>Frames and their planes\<close>

definition yuv_wf :: "yuv420p \<Rightarrow> bool" where
  "yuv_wf f \<longleftrightarrow> 0 < yf_width f \<and> 0 < yf_height f \<and> length (yf_data f) = y_len f + 2 * uv_len f"

lemma yuv_wf_dims: "yuv_wf f \<Longrightarrow> 0 < unat (yf_width f) \<and> 0 < unat (yf_height f)"
  by (simp add: yuv_wf_def unat_gt_0 word_neq_0_conv)

lemma plane_lengths:
  assumes "yuv_wf f"
  shows "length (y_plane f) = y_len f" "length (u_plane f) = uv_len f" "length (v_plane f) = uv_len f"
  using assms by (simp_all add: yuv_wf_def y_plane_def u_plane_def v_plane_def)

lemma planes_concat: "yf_data f = y_plane f @ u_plane f @ v_plane f"
proof -
  have "v_plane f = drop (uv_len f) (drop (y_len f) (yf_data f))" by (simp add: v_plane_def add.commute)
  then show ?thesis by (simp only: y_plane_def u_plane_def append_take_drop_id)
qed

lemma planes_of_data:
  assumes "length yp = y_len f" and "length up = uv_len f"
  shows "y_plane (f\<lparr>yf_data := yp @ up @ vp\<rparr>) = yp" "u_plane (f\<lparr>yf_data := yp @ up @ vp\<rparr>) = up"
    "v_plane (f\<lparr>yf_data := yp @ up @ vp\<rparr>) = vp"
  using assms by (simp_all add: y_plane_def u_plane_def v_plane_def)

lemma yuv_wf_planes:
  assumes "yuv_wf f" and "length yp = y_len f" and "length up = uv_len f" and "length vp = uv_len f"
  shows "yuv_wf (f\<lparr>yf_data := yp @ up @ vp\<rparr>)"
  using assms by (simp add: yuv_wf_def)

lemma flip_ref_none [simp]: "length p = w * h \<Longrightarrow> flip_ref w h False False p = p"
  by (simp add: flip_ref_def copy_row_def concat_rows mult.commute)

lemma flip_ref_empty [simp]: "flip_ref w h hf vf [] = []"
  by (auto simp: flip_ref_def rows_def copy_row_def rev_map)

definition flipped :: "bool \<Rightarrow> bool \<Rightarrow> yuv420p \<Rightarrow> yuv420p" where
  "flipped hf vf f =
     (let w = unat (yf_width f); h = unat (yf_height f)
      in f\<lparr>yf_data := flip_ref w h hf vf (y_plane f) @ flip_ref (w div 2) (h div 2) hf vf (u_plane f)
             @ flip_ref (w div 2) (h div 2) hf vf (v_plane f)\<rparr>)"

lemma flip_flipped:
  assumes "yuv_wf f"
  shows "flip hf vf f = Inr (flipped hf vf f)"
proof (cases "\<not> hf \<and> \<not> vf")
  case True
  then show ?thesis using plane_lengths [OF assms] by (simp add: flip_def flipped_def flip: planes_concat)
next
  case False
  let ?w = "unat (yf_width f)" and ?h = "unat (yf_height f)"
  note lens = plane_lengths [OF assms]
  have y: "flip_plane (y_plane f) ?w ?h hf vf = Inr (flip_ref ?w ?h hf vf (y_plane f))"
    using yuv_wf_dims [OF assms] lens by (intro flip_plane_ref) simp_all
  have c: "flip_plane p (?w div 2) (?h div 2) hf vf = Inr (flip_ref (?w div 2) (?h div 2) hf vf p)"
    if "0 < ?w div 2" "0 < ?h div 2" "length p = uv_len f" for p
    using that by (intro flip_plane_ref) simp_all
  have parts: "take (y_len f) (yf_data f) = y_plane f" "take (uv_len f) (drop (y_len f) (yf_data f)) = u_plane f"
    "drop (uv_len f) (drop (y_len f) (yf_data f)) = v_plane f"
    by (simp_all add: y_plane_def u_plane_def v_plane_def add.commute)
  have long: "\<not> length (yf_data f) < y_len f + 2 * uv_len f" using assms by (simp add: yuv_wf_def)
  show ?thesis
  proof (cases "0 < ?w div 2 \<and> 0 < ?h div 2")
    case True
    then show ?thesis using False long lens unfolding flip_def flipped_def Let_def parts by (auto simp: y c)
  next
    case none: False
    then have "u_plane f = []" "v_plane f = []" using lens by auto
    then show ?thesis using False long none unfolding flip_def flipped_def Let_def parts by (auto simp: y)
  qed
qed

lemma flipped_planes:
  assumes "yuv_wf f"
  shows "yf_width (flipped hf vf f) = yf_width f" "yf_height (flipped hf vf f) = yf_height f" "yuv_wf (flipped hf vf f)"
    "y_plane (flipped hf vf f) = flip_ref (unat (yf_width f)) (unat (yf_height f)) hf vf (y_plane f)"
    "u_plane (flipped hf vf f) = flip_ref (unat (yf_width f) div 2) (unat (yf_height f) div 2) hf vf (u_plane f)"
    "v_plane (flipped hf vf f) = flip_ref (unat (yf_width f) div 2) (unat (yf_height f) div 2) hf vf (v_plane f)"
  using assms plane_lengths [OF assms] unfolding flipped_def Let_def
  by (simp_all add: planes_of_data yuv_wf_planes flip_ref_rows(2))

lemma flipped_twice: "yuv_wf f \<Longrightarrow> flipped hf vf (flipped hf vf f) = f"
proof -
  assume wf: "yuv_wf f"
  have "yf_data (flipped hf vf (flipped hf vf f)) = yf_data f"
    unfolding flipped_def [of hf vf "flipped hf vf f"] Let_def flipped_planes [OF wf]
    using plane_lengths [OF wf] by (simp add: flip_ref_twice flip: planes_concat)
  then show ?thesis by (simp add: flipped_def Let_def)
qed

section \<open>Quarter turns\<close>

definition turn_ref :: "nat \<Rightarrow> nat \<Rightarrow> bool \<Rightarrow> bytes \<Rightarrow> bytes" where
  "turn_ref pw ph clockwise src =
     map (\<lambda>k. src ! (if clockwise then (ph - 1 - k mod ph) * pw + k div ph else (k mod ph) * pw + (pw - 1 - k div ph))) [0..<pw * ph]"

lemma turn_position:
  assumes "sx < pw" and "sy < (ph :: nat)"
  shows "sx * ph + (ph - 1 - sy) < pw * ph" "(pw - 1 - sx) * ph + sy < pw * ph"
  using pixel_less [of "ph - 1 - sy" ph sx pw] pixel_less [of sy ph "pw - 1 - sx" pw] assms by (simp_all add: mult.commute)

lemma transpose_plane_ref:
  assumes "length src = pw * ph" and "length dst = pw * ph"
  shows "transpose_plane src pw ph clockwise dst = Inr (turn_ref pw ph clockwise src)"
proof -
  define pos where "pos sx sy = (if clockwise then sx * ph + (ph - 1 - sy) else (pw - 1 - sx) * ph + sy)" for sx sy :: nat
  define f where "f k = src ! (if clockwise then (ph - 1 - k mod ph) * pw + k div ph else (k mod ph) * pw + (pw - 1 - k div ph))" for k
  define g where "g sy sx dst = upd (pos sx sy) (src ! (sy * pw + sx)) dst" for sy sx and dst :: bytes
  have loop: "transpose_plane src pw ph clockwise dst = for_each (\<lambda>sy. for_each (g sy) [0..<pw]) [0..<ph] dst"
    unfolding transpose_plane_def
  proof (rule for_each_same)
    fix sy st
    assume "sy \<in> set [0..<ph]"
    then have fits: "(sy + 1) * pw \<le> length src" using assms(1) mult_le_mono1 [of "sy + 1" ph pw] by (simp add: mult.commute)
    have len: "length (subslice (sy * pw) ((sy + 1) * pw) src) = pw" using fits by simp
    show "(if (sy + 1) * pw \<le> length src then
         let row = subslice (sy * pw) ((sy + 1) * pw) src
         in if clockwise
            then for_each (\<lambda>(sx, v) dst. upd (sx * ph + (ph - 1 - sy)) v dst) (enumerate 0 row) st
            else for_each (\<lambda>(sx, v) dst. upd ((pw - 1 - sx) * ph + sy) v dst) (enumerate 0 row) st
       else Inl (Panic ''range end out of bounds'')) = for_each (g sy) [0..<pw] st"
      using fits unfolding Let_def for_each_enumerate len
      by (cases clockwise; simp; intro for_each_same) (simp_all add: subslice_def g_def pos_def)
  qed
  have small: "pos sx sy < pw * ph" if "sy < ph" "sx < pw" for sx sy
    using turn_position [OF that(2,1)] by (simp add: pos_def)
  have inv: "src ! (sy * pw + sx) = f (pos sx sy)" if "sy < ph" "sx < pw" for sx sy
  proof -
    have "ph - 1 - sy < ph" using that by simp
    note d = pixel_div [OF this, of sx] pixel_mod [OF this, of sx]
    have undo: "ph - 1 - (ph - 1 - sy) = sy" "pw - 1 - (pw - 1 - sx) = sx" using that by simp_all
    show ?thesis
      unfolding pos_def f_def using that by (cases clockwise) (simp_all only: if_True if_False d undo pixel_div pixel_mod)
  qed
  have cover: "\<exists>sy<ph. \<exists>sx<pw. k = pos sx sy" if "k < pw * ph" for k
  proof -
    have k: "k div ph < pw" "k mod ph < ph" "k div ph * ph + k mod ph = k"
      using pixel_split [of k ph pw] that by (simp_all add: mult.commute)
    show ?thesis
    proof (cases clockwise)
      case True
      then have "k = pos (k div ph) (ph - 1 - k mod ph)" using k by (simp add: pos_def)
      then show ?thesis using k by (intro exI [of _ "ph - 1 - k mod ph"] conjI exI [of _ "k div ph"]) simp_all
    next
      case False
      then have "k = pos (pw - 1 - k div ph) (k mod ph)" using k by (simp add: pos_def)
      then show ?thesis using k by (intro exI [of _ "k mod ph"] conjI exI [of _ "pw - 1 - k div ph"]) simp_all
    qed
  qed
  have "for_each (\<lambda>sy. for_each (g sy) [0..<pw]) [0..<ph] dst =
    Inr (map (\<lambda>k. if \<exists>sy<ph. \<exists>sx<pw. k \<in> fst ` set [(pos sx sy, src ! (sy * pw + sx))] then f k else dst ! k) [0..<pw * ph])"
    using assms(2) by (intro grid_store) (auto simp: g_def small inv)
  also have "map (\<lambda>k. if \<exists>sy<ph. \<exists>sx<pw. k \<in> fst ` set [(pos sx sy, src ! (sy * pw + sx))] then f k else dst ! k) [0..<pw * ph] = turn_ref pw ph clockwise src"
    unfolding turn_ref_def using cover by (intro map_cong) (auto simp: f_def)
  finally show ?thesis by (simp add: loop)
qed


lemma turn_ref_pixel:
  assumes "x < ph" and "y < pw"
  shows "turn_ref pw ph clockwise src ! (y * ph + x) = src ! (if clockwise then (ph - 1 - x) * pw + y else x * pw + (pw - 1 - y))"
  using assms pixel_less [of x ph y pw] by (simp add: turn_ref_def mult.commute)

lemma length_turn_ref [simp]: "length (turn_ref pw ph clockwise src) = pw * ph"
  by (simp add: turn_ref_def)

lemma turn_ref_back:
  assumes "length src = pw * ph"
  shows "turn_ref ph pw (\<not> clockwise) (turn_ref pw ph clockwise src) = src"
proof (rule nth_equalityI)
  show "length (turn_ref ph pw (\<not> clockwise) (turn_ref pw ph clockwise src)) = length src" using assms by simp
  fix k
  assume "k < length (turn_ref ph pw (\<not> clockwise) (turn_ref pw ph clockwise src))"
  then obtain x y where xy: "x < pw" "y < ph" and k: "k = y * pw + x"
    using pixel_split [of k pw ph] by (metis length_turn_ref mult.commute)
  have "turn_ref ph pw (\<not> clockwise) (turn_ref pw ph clockwise src) ! k
      = turn_ref pw ph clockwise src ! (if clockwise then x * ph + (ph - 1 - y) else (pw - 1 - x) * ph + y)"
    unfolding k using turn_ref_pixel [OF xy] by simp
  also have "\<dots> = src ! (y * pw + x)"
    using xy turn_ref_pixel [of "ph - 1 - y" ph x pw clockwise src] turn_ref_pixel [of y ph "pw - 1 - x" pw clockwise src]
    by (cases clockwise) simp_all
  finally show "turn_ref ph pw (\<not> clockwise) (turn_ref pw ph clockwise src) ! k = src ! k" by (simp add: k)
qed

definition turned :: "bool \<Rightarrow> yuv420p \<Rightarrow> yuv420p" where
  "turned clockwise f =
     (let w = unat (yf_width f); h = unat (yf_height f)
      in \<lparr>yf_width = yf_height f, yf_height = yf_width f,
          yf_data = turn_ref w h clockwise (y_plane f) @ turn_ref (w div 2) (h div 2) clockwise (u_plane f)
                    @ turn_ref (w div 2) (h div 2) clockwise (v_plane f)\<rparr>)"

lemma yuv_new_wf:
  assumes "yuv_wf f"
  shows "yuv_wf (yuv_new (yf_height f) (yf_width f))"
  using assms by (simp add: yuv_wf_def yuv_new_def)

lemma rotated_turned:
  assumes "yuv_wf f"
  shows "rotated clockwise f = Inr (turned clockwise f)"
proof -
  let ?w = "unat (yf_width f)" and ?h = "unat (yf_height f)" and ?out = "yuv_new (yf_height f) (yf_width f)"
  note lens = plane_lengths [OF assms] and outs = plane_lengths [OF yuv_new_wf [OF assms]]
  have out: "yf_width ?out = yf_height f" "yf_height ?out = yf_width f" by (simp_all add: yuv_new_def)
  have y: "transpose_plane (y_plane f) ?w ?h clockwise (y_plane ?out) = Inr (turn_ref ?w ?h clockwise (y_plane f))"
    using lens outs by (intro transpose_plane_ref) (simp_all add: out mult.commute)
  have u: "transpose_plane (u_plane f) (?w div 2) (?h div 2) clockwise (u_plane ?out) = Inr (turn_ref (?w div 2) (?h div 2) clockwise (u_plane f))"
    using lens outs by (intro transpose_plane_ref) (simp_all add: out mult.commute)
  have v: "transpose_plane (v_plane f) (?w div 2) (?h div 2) clockwise (v_plane ?out) = Inr (turn_ref (?w div 2) (?h div 2) clockwise (v_plane f))"
    using lens outs by (intro transpose_plane_ref) (simp_all add: out mult.commute)
  have dims: "\<not> (?w = 0 \<or> ?h = 0 \<or> length (yf_data f) < ?w * ?h + 2 * (?w div 2 * (?h div 2)))"
    using assms yuv_wf_dims [OF assms] by (simp add: yuv_wf_def)
  have rec: "?out\<lparr>yf_data := d\<rparr> = \<lparr>yf_width = yf_height f, yf_height = yf_width f, yf_data = d\<rparr>" for d
    by (simp add: yuv_new_def)
  show ?thesis
  proof (cases "0 < ?w div 2 \<and> 0 < ?h div 2")
    case True
    then show ?thesis unfolding rotated_def Let_def if_not_P [OF dims] by (simp add: y u v rec turned_def Let_def)
  next
    case False
    then have "uv_len f = 0" by auto
    then have "u_plane ?out = []" "v_plane ?out = []" "u_plane f = []" "v_plane f = []"
      "turn_ref (?w div 2) (?h div 2) clockwise [] = []"
      using lens(2,3) outs(2,3) by (auto simp: out turn_ref_def)
    then show ?thesis using False unfolding rotated_def Let_def if_not_P [OF dims] if_not_P [OF False] by (simp add: y rec turned_def Let_def)
  qed
qed

lemma turned_planes:
  assumes "yuv_wf f"
  shows "yf_width (turned c f) = yf_height f" "yf_height (turned c f) = yf_width f" "yuv_wf (turned c f)"
    "y_plane (turned c f) = turn_ref (unat (yf_width f)) (unat (yf_height f)) c (y_plane f)"
    "u_plane (turned c f) = turn_ref (unat (yf_width f) div 2) (unat (yf_height f) div 2) c (u_plane f)"
    "v_plane (turned c f) = turn_ref (unat (yf_width f) div 2) (unat (yf_height f) div 2) c (v_plane f)"
  using assms by (simp_all add: turned_def Let_def yuv_wf_def y_plane_def u_plane_def v_plane_def mult.commute)

lemma turned_back: "yuv_wf f \<Longrightarrow> turned (\<not> c) (turned c f) = f"
proof -
  assume wf: "yuv_wf f"
  have "yf_data (turned (\<not> c) (turned c f)) = yf_data f"
    unfolding turned_def [of "\<not> c" "turned c f"] Let_def turned_planes [OF wf]
    using plane_lengths [OF wf] by (simp add: turn_ref_back flip: planes_concat)
  then show ?thesis by (simp add: turned_def Let_def)
qed

section \<open>Downscaling\<close>

definition axis :: "nat \<Rightarrow> nat \<Rightarrow> nat \<Rightarrow> nat" where
  "axis d s i = i * s div d"

lemma map_axis_nth [simp]: "i < unat dst \<Longrightarrow> map_axis dst src ! i = axis (unat dst) (unat src) i"
  by (simp add: map_axis_def axis_def)

lemma length_map_axis [simp]: "length (map_axis dst src) = unat dst"
  by (simp add: map_axis_def)

lemma axis_less: "i < d \<Longrightarrow> 0 < s \<Longrightarrow> axis d s i < s"
  by (simp add: axis_def div_less_iff_less_mult mult.commute)

lemma axis_chroma:
  assumes "c < max (d div 2) 1" and "0 < d" and "d \<le> s" and "2 \<le> s"
  shows "axis d s (min (c * 2) (d - 1)) div 2 < s div 2"
proof (cases "d = 1")
  case True
  then show ?thesis using assms by (simp add: axis_def)
next
  case False
  then have "c * 2 + 2 \<le> d" using assms(1,2) by auto
  then have "(c * 2 + 2) * s \<le> d * s" by (rule mult_le_mono1)
  then have "c * 2 * s + 2 * d \<le> d * s" using assms(3) by (simp add: algebra_simps)
  then have "(c * 2 * s + 2 * d) div d \<le> d * s div d" by (rule div_le_mono)
  then have "c * 2 * s div d + 2 \<le> s" using assms(2) by simp
  moreover have "min (c * 2) (d - 1) = c * 2" using \<open>c * 2 + 2 \<le> d\<close> by simp
  ultimately show ?thesis by (simp add: axis_def)
qed

definition luma_src :: "nat \<Rightarrow> nat \<Rightarrow> nat \<Rightarrow> nat \<Rightarrow> nat \<Rightarrow> nat \<Rightarrow> nat" where
  "luma_src dw dh sw sh x y = axis dh sh y * sw + axis dw sw x"

definition chroma_src :: "nat \<Rightarrow> nat \<Rightarrow> nat \<Rightarrow> nat \<Rightarrow> nat \<Rightarrow> nat \<Rightarrow> nat" where
  "chroma_src dw dh sw sh cx cy =
     axis dh sh (min (cy * 2) (dh - 1)) div 2 * (sw div 2) + axis dw sw (min (cx * 2) (dw - 1)) div 2"

lemma luma_src_less:
  "x < dw \<Longrightarrow> y < dh \<Longrightarrow> 0 < sw \<Longrightarrow> 0 < sh \<Longrightarrow> luma_src dw dh sw sh x y < sw * sh"
  using pixel_less [of "axis dw sw x" sw "axis dh sh y" sh] by (simp add: luma_src_def axis_less)

lemma chroma_src_less:
  assumes "x < max (dw div 2) 1" and "y < max (dh div 2) 1" and "0 < dw" "0 < dh" "dw \<le> sw" "dh \<le> sh" "2 \<le> sw" "2 \<le> sh"
  shows "chroma_src dw dh sw sh x y < sw div 2 * (sh div 2)"
  unfolding chroma_src_def by (intro pixel_less axis_chroma) (use assms in simp_all)

lemma downscale_luma_ref:
  assumes "0 < unat sw" and "0 < unat sh" and "unat sw * unat sh \<le> length src"
    and "length out = n" and "unat dw * unat dh \<le> n"
  shows "downscale_luma src (unat sw) (unat dw) (map_axis dw sw) (map_axis dh sh) out =
    Inr (map (\<lambda>k. if k < unat dw * unat dh
                  then src ! luma_src (unat dw) (unat dh) (unat sw) (unat sh) (k mod unat dw) (k div unat dw)
                  else out ! k) [0..<n])"
proof -
  let ?dw = "unat dw" and ?dh = "unat dh" and ?sw = "unat sw" and ?sh = "unat sh"
  define f where "f k = src ! luma_src ?dw ?dh ?sw ?sh (k mod ?dw) (k div ?dw)" for k
  define v where "v y x = src ! luma_src ?dw ?dh ?sw ?sh x y" for x y
  have "downscale_luma src ?sw ?dw (map_axis dw sw) (map_axis dh sh) out =
    for_each (\<lambda>y. for_each (\<lambda>x. upd (y * ?dw + x) (v y x)) [0..<?dw]) [0..<?dh] out"
    unfolding downscale_luma_def for_each_enumerate Let_def length_map_axis prod.case
  proof (intro for_each_same)
    fix y st x st'
    assume "y \<in> set [0..<?dh]" and "x \<in> set [0..<?dw]"
    then have xy: "y < ?dh" "x < ?dw" by simp_all
    then have "luma_src ?dw ?dh ?sw ?sh x y < length src"
      using luma_src_less [OF xy(2,1) assms(1,2)] assms(3) by simp
    then show "and_then (idx src (map_axis dh sh ! y * ?sw + map_axis dw sw ! x)) (\<lambda>v. upd (y * ?dw + x) v st') = upd (y * ?dw + x) (v y x) st'"
      using xy by (simp add: v_def luma_src_def)
  qed
  also have "\<dots> = Inr (map (\<lambda>k. if \<exists>y<?dh. \<exists>x<?dw. k \<in> fst ` set [(y * ?dw + x, v y x)] then f k else out ! k) [0..<n])"
  proof (rule grid_store)
    fix y x and st :: bytes
    assume "y < ?dh" "x < ?dw" "length st = n"
    then show "upd (y * ?dw + x) (v y x) st = Inr (store [(y * ?dw + x, v y x)] st)"
      using pixel_less [of x ?dw y ?dh] assms(5) by simp
  qed (auto simp: f_def v_def assms(4))
  also have "map (\<lambda>k. if \<exists>y<?dh. \<exists>x<?dw. k \<in> fst ` set [(y * ?dw + x, v y x)] then f k else out ! k) [0..<n]
    = map (\<lambda>k. if k < ?dw * ?dh then f k else out ! k) [0..<n]"
  proof -
    have "(\<exists>y<?dh. \<exists>x<?dw. k \<in> fst ` set [(y * ?dw + x, v y x)]) \<longleftrightarrow> k < ?dw * ?dh" for k
      using pixel_less [of _ ?dw _ ?dh] pixel_split [of k ?dw ?dh] by (auto; metis)
    then show ?thesis by simp
  qed
  finally show ?thesis by (simp add: f_def)
qed


text \<open>The two positions a chroma sample is stored at, and which positions the loop reaches.\<close>

lemma chroma_cover:
  assumes "k < dy + 2 * (cw * ch :: nat)"
  shows "(\<exists>y<ch. \<exists>x<cw. k = dy + y * cw + x \<or> k = dy + ch * cw + y * cw + x) \<longleftrightarrow> dy \<le> k"
proof
  assume "dy \<le> k"
  define j where "j = (if k < dy + cw * ch then k - dy else k - dy - cw * ch)"
  have "j < cw * ch" using assms \<open>dy \<le> k\<close> by (auto simp: j_def)
  from pixel_split [OF this] have j: "j div cw < ch" "j mod cw < cw" "j div cw * cw + j mod cw = j" by simp_all
  have "k = dy + j \<or> k = dy + ch * cw + j" using \<open>dy \<le> k\<close> by (auto simp: j_def mult.commute)
  then show "\<exists>y<ch. \<exists>x<cw. k = dy + y * cw + x \<or> k = dy + ch * cw + y * cw + x"
    using j by (intro exI [of _ "j div cw"] conjI exI [of _ "j mod cw"]) auto
qed auto

lemma downscale_chroma_ref:
  fixes sw sh dw dh :: u32
  defines "dcw \<equiv> max (unat dw div 2) 1" and "dch \<equiv> max (unat dh div 2) 1"
    and "sy \<equiv> unat sw * unat sh" and "sc \<equiv> unat sw div 2 * (unat sh div 2)" and "dy \<equiv> unat dw * unat dh"
    and "c \<equiv> chroma_src (unat dw) (unat dh) (unat sw) (unat sh)"
  assumes "2 \<le> unat sw" and "2 \<le> unat sh" and "0 < unat dw" and "0 < unat dh" and "dw \<le> sw" and "dh \<le> sh"
    and "sy + 2 * sc \<le> length src" and "length out = dy + 2 * (dcw * dch)"
  shows "downscale_chroma src sy sc (unat sw div 2) dy dch dcw (map_axis dw sw) (map_axis dh sh) out =
    Inr (map (\<lambda>k. if k < dy then out ! k
                  else if k < dy + dcw * dch then src ! (sy + c ((k - dy) mod dcw) ((k - dy) div dcw))
                  else src ! (sy + sc + c ((k - dy - dcw * dch) mod dcw) ((k - dy - dcw * dch) div dcw)))
           [0..<dy + 2 * (dcw * dch)])"
proof -
  let ?n = "dy + 2 * (dcw * dch)"
  define f where "f k = (if k < dy + dcw * dch then src ! (sy + c ((k - dy) mod dcw) ((k - dy) div dcw))
                         else src ! (sy + sc + c ((k - dy - dcw * dch) mod dcw) ((k - dy - dcw * dch) div dcw)))" for k
  define ws where "ws y x = [(dy + y * dcw + x, src ! (sy + c x y)), (dy + dch * dcw + y * dcw + x, src ! (sy + sc + c x y))]" for x y
  have small: "c x y < sc" if "x < dcw" "y < dch" for x y
    unfolding c_def sc_def using that assms(7-12) by (intro chroma_src_less) (simp_all add: dcw_def dch_def word_le_nat_alt)
  have "downscale_chroma src sy sc (unat sw div 2) dy dch dcw (map_axis dw sw) (map_axis dh sh) out =
    for_each (\<lambda>y. for_each (\<lambda>x st. and_then (upd (dy + y * dcw + x) (src ! (sy + c x y)) st)
      (upd (dy + dch * dcw + y * dcw + x) (src ! (sy + sc + c x y)))) [0..<dcw]) [0..<dch] out"
    unfolding downscale_chroma_def
  proof (rule for_each_same)
    fix y and st :: bytes
    assume "y \<in> set [0..<dch]"
    then have y: "y < dch" by simp
    let ?r = "sy + axis (unat dh) (unat sh) (min (y * 2) (unat dh - 1)) div 2 * (unat sw div 2)"
    have my: "min (y * 2) (unat dh - 1) < unat dh" using assms(10) by simp
    have row: "for_each (\<lambda>dcx. chroma_px src (map_axis dw sw) ?r (?r + sc) (dy + y * dcw + dcx) (dy + dch * dcw + y * dcw + dcx) dcx) [0..<dcw] st =
        for_each (\<lambda>x st. and_then (upd (dy + y * dcw + x) (src ! (sy + c x y)) st)
         (upd (dy + dch * dcw + y * dcw + x) (src ! (sy + sc + c x y)))) [0..<dcw] st"
    proof (rule for_each_same)
      fix x and st' :: bytes
      assume "x \<in> set [0..<dcw]"
      then have "sy + sc + c x y < length src" using small [OF _ y, of x] assms(13) by simp
      moreover have "min (x * 2) (unat dw - 1) < unat dw" using assms(9) by simp
      ultimately show "chroma_px src (map_axis dw sw) ?r (?r + sc) (dy + y * dcw + x) (dy + dch * dcw + y * dcw + x) x st' =
          and_then (upd (dy + y * dcw + x) (src ! (sy + c x y)) st') (upd (dy + dch * dcw + y * dcw + x) (src ! (sy + sc + c x y)))"
        by (simp add: chroma_px_def c_def chroma_src_def ac_simps)
    qed
    show "and_then (idx (map_axis dh sh) (min (y * 2) (length (map_axis dh sh) - 1))) (\<lambda>sya.
       let s_row_u = sy + sya div 2 * (unat sw div 2); s_row_v = s_row_u + sc
       in for_each (\<lambda>dcx. chroma_px src (map_axis dw sw) s_row_u s_row_v (dy + y * dcw + dcx) (dy + dch * dcw + y * dcw + dcx) dcx) [0..<dcw] st) =
        for_each (\<lambda>x st. and_then (upd (dy + y * dcw + x) (src ! (sy + c x y)) st)
         (upd (dy + dch * dcw + y * dcw + x) (src ! (sy + sc + c x y)))) [0..<dcw] st"
      using my row by (simp add: Let_def)
  qed
  also have "\<dots> = Inr (map (\<lambda>k. if \<exists>y<dch. \<exists>x<dcw. k \<in> fst ` set (ws y x) then f k else out ! k) [0..<?n])"
  proof (rule grid_store)
    fix y x and st :: bytes
    assume "y < dch" "x < dcw" "length st = ?n"
    then show "and_then (upd (dy + y * dcw + x) (src ! (sy + c x y)) st) (upd (dy + dch * dcw + y * dcw + x) (src ! (sy + sc + c x y)))
        = Inr (store (ws y x) st)"
      using pixel_less [of x dcw y dch] by (simp add: ws_def mult.commute [of dch])
  next
    fix y x k v
    assume xy: "y < dch" "x < dcw" and "(k, v) \<in> set (ws y x)"
    then consider "k = dy + (y * dcw + x)" "v = src ! (sy + c x y)" | "k = dy + (dcw * dch + (y * dcw + x))" "v = src ! (sy + sc + c x y)"
      by (auto simp: ws_def mult.commute [of dch])
    then show "v = f k"
    proof cases
      case 2
      have "k - dy - dcw * dch = y * dcw + x" using 2(1) by simp
      then show ?thesis using 2 xy(2) by (simp add: f_def)
    qed (use pixel_less [OF xy(2,1)] xy(2) in \<open>simp add: f_def\<close>)
  qed (rule assms(14))
  also have "map (\<lambda>k. if \<exists>y<dch. \<exists>x<dcw. k \<in> fst ` set (ws y x) then f k else out ! k) [0..<?n] = map (\<lambda>k. if k < dy then out ! k else f k) [0..<?n]"
    using chroma_cover [of _ dy dcw dch] by (intro map_cong) (auto simp: ws_def)
  finally show ?thesis by (simp add: f_def if_distrib cong: if_cong)
qed

lemma map_append_upt: "map f [0..<n] @ map g [0..<m] = map (\<lambda>k. if k < n then f k else g (k - n)) [0..<n + m]"
  by (intro nth_equalityI) (simp_all add: nth_append)

lemma downscaled_ref:
  fixes f :: yuv420p and dw dh :: u32
  defines "sw \<equiv> unat (yf_width f)" and "sh \<equiv> unat (yf_height f)" and "w \<equiv> unat dw" and "h \<equiv> unat dh"
  defines "cw \<equiv> max (w div 2) 1" and "ch \<equiv> max (h div 2) 1"
  assumes wf: "yuv_wf f" and dims: "2 \<le> sw" "2 \<le> sh" "0 < w" "0 < h" "dw \<le> yf_width f" "dh \<le> yf_height f"
    and ne: "(dw, dh) \<noteq> (yf_width f, yf_height f)"
  shows "downscaled dw dh f = Inr \<lparr>yf_width = dw, yf_height = dh, yf_data =
    map (\<lambda>k. y_plane f ! luma_src w h sw sh (k mod w) (k div w)) [0..<w * h]
    @ map (\<lambda>k. u_plane f ! chroma_src w h sw sh (k mod cw) (k div cw)) [0..<cw * ch]
    @ map (\<lambda>k. v_plane f ! chroma_src w h sw sh (k mod cw) (k div cw)) [0..<cw * ch]\<rparr>"
proof -
  let ?d = "yf_data f" and ?sy = "sw * sh" and ?sc = "sw div 2 * (sh div 2)"
  have len: "length ?d = ?sy + 2 * ?sc" using wf by (simp add: yuv_wf_def sw_def sh_def)
  define L where "L k = ?d ! luma_src w h sw sh (k mod w) (k div w)" for k
  define C where "C k = chroma_src w h sw sh (k mod cw) (k div cw)" for k
  have small: "C k < ?sc" if "k < cw * ch" for k
    unfolding C_def using pixel_split [OF that] dims
    by (intro chroma_src_less) (simp_all add: cw_def ch_def word_le_nat_alt w_def h_def sw_def sh_def)
  let ?out = "map (\<lambda>k. if k < w * h then L k else 0) [0..<w * h + 2 * (cw * ch)]"
  have luma: "downscale_luma ?d sw w (map_axis dw (yf_width f)) (map_axis dh (yf_height f)) (replicate (w * h + 2 * (ch * cw)) 0) = Inr ?out"
    unfolding sw_def w_def
    by (subst downscale_luma_ref [of _ _ _ _ "w * h + 2 * (ch * cw)"])
      (use dims len in \<open>auto simp: L_def w_def h_def sw_def sh_def mult.commute [of ch] intro!: map_cong\<close>)
  have chroma: "downscale_chroma ?d ?sy ?sc (sw div 2) (w * h) ch cw (map_axis dw (yf_width f)) (map_axis dh (yf_height f)) ?out =
    Inr (map (\<lambda>k. if k < w * h then ?out ! k else if k < w * h + cw * ch then ?d ! (?sy + C (k - w * h))
                  else ?d ! (?sy + ?sc + C (k - w * h - cw * ch))) [0..<w * h + 2 * (cw * ch)])"
    unfolding C_def sw_def sh_def w_def h_def cw_def ch_def
    by (rule downscale_chroma_ref) (use dims len in \<open>simp_all add: sw_def sh_def w_def h_def\<close>)
  have guard: "\<not> (yf_width f = 0 \<or> yf_height f = 0 \<or> dw = 0 \<or> dh = 0 \<or> dw > yf_width f \<or> dh > yf_height f
      \<or> length ?d < ?sy + 2 * ?sc \<or> (dw, dh) = (yf_width f, yf_height f))"
    using dims ne len by (auto simp: sw_def sh_def w_def h_def)
  have "downscaled dw dh f = Inr \<lparr>yf_width = dw, yf_height = dh, yf_data =
     map (\<lambda>k. if k < w * h then ?out ! k else if k < w * h + cw * ch then ?d ! (?sy + C (k - w * h))
                  else ?d ! (?sy + ?sc + C (k - w * h - cw * ch))) [0..<w * h + 2 * (cw * ch)]\<rparr>"
    unfolding downscaled_def Let_def
    unfolding sw_def [symmetric] sh_def [symmetric] w_def [symmetric] h_def [symmetric] cw_def [symmetric] ch_def [symmetric]
    by (subst if_not_P [OF guard]) (simp only: luma chroma and_then.simps)
  also have "map (\<lambda>k. if k < w * h then ?out ! k else if k < w * h + cw * ch then ?d ! (?sy + C (k - w * h))
                  else ?d ! (?sy + ?sc + C (k - w * h - cw * ch))) [0..<w * h + 2 * (cw * ch)]
    = map L [0..<w * h] @ map (\<lambda>k. ?d ! (?sy + C k)) [0..<cw * ch] @ map (\<lambda>k. ?d ! (?sy + ?sc + C k)) [0..<cw * ch]"
    unfolding map_append_upt by (intro map_cong) (auto simp: mult_2)
  also have "map L [0..<w * h] = map (\<lambda>k. y_plane f ! luma_src w h sw sh (k mod w) (k div w)) [0..<w * h]"
  proof (rule map_cong)
    fix k
    assume "k \<in> set [0..<w * h]"
    then have "luma_src w h sw sh (k mod w) (k div w) < sw * sh"
      using pixel_split [of k w h] dims by (intro luma_src_less) auto
    then show "L k = y_plane f ! luma_src w h sw sh (k mod w) (k div w)" by (simp add: L_def y_plane_def sw_def sh_def)
  qed simp
  also have "map (\<lambda>k. ?d ! (?sy + C k)) [0..<cw * ch] = map (\<lambda>k. u_plane f ! C k) [0..<cw * ch]"
    using small len by (intro map_cong) (simp_all add: u_plane_def sw_def sh_def)
  also have "map (\<lambda>k. ?d ! (?sy + ?sc + C k)) [0..<cw * ch] = map (\<lambda>k. v_plane f ! C k) [0..<cw * ch]"
    using small len by (intro map_cong) (simp_all add: v_plane_def sw_def sh_def)
  finally show ?thesis by (simp only: C_def)
qed

section \<open>Composition of transforms\<close>

lemma copy_row_xor: "copy_row (copy_row r a) b = copy_row r (a \<noteq> b)"
  by (auto simp: copy_row_def)

lemma flip_ref_compose:
  assumes "length p = w * h"
  shows "flip_ref w h hf' vf' (flip_ref w h hf vf p) = flip_ref w h (hf \<noteq> hf') (vf \<noteq> vf') p"
  unfolding flip_ref_def [of w h hf' vf'] flip_ref_rows(1) [OF assms] flip_ref_def [of w h "hf \<noteq> hf'"]
  by (cases vf; cases vf') (simp_all add: rev_map comp_def copy_row_xor)

lemma flipped_compose: "yuv_wf f \<Longrightarrow> flipped hf' vf' (flipped hf vf f) = flipped (hf \<noteq> hf') (vf \<noteq> vf') f"
proof -
  assume wf: "yuv_wf f"
  show ?thesis
    unfolding flipped_def [of hf' vf'] Let_def flipped_planes [OF wf]
    using plane_lengths [OF wf] by (simp add: flip_ref_compose flipped_def Let_def)
qed

lemma turn_ref_twice:
  assumes "length p = w * h"
  shows "turn_ref h w c (turn_ref w h c p) = flip_ref w h True True p"
proof (rule nth_equalityI)
  show "length (turn_ref h w c (turn_ref w h c p)) = length (flip_ref w h True True p)"
    using flip_ref_rows(2) [OF assms] by simp
  fix k
  assume "k < length (turn_ref h w c (turn_ref w h c p))"
  then obtain x y where xy: "x < w" "y < h" and k: "k = y * w + x"
    using pixel_split [of k w h] by (metis length_turn_ref mult.commute)
  have "turn_ref h w c (turn_ref w h c p) ! k
      = turn_ref w h c p ! (if c then (w - 1 - x) * h + y else x * h + (h - 1 - y))"
    unfolding k using turn_ref_pixel [OF xy] by simp
  also have "\<dots> = p ! ((h - 1 - y) * w + (w - 1 - x))"
    using xy turn_ref_pixel [of y h "w - 1 - x" w c p] turn_ref_pixel [of "h - 1 - y" h x w c p] by (cases c) simp_all
  also have "\<dots> = flip_ref w h True True p ! k"
    unfolding k using flip_ref_pixel [OF assms xy, of True True] by simp
  finally show "turn_ref h w c (turn_ref w h c p) ! k = flip_ref w h True True p ! k" .
qed

lemma half_turn: "yuv_wf f \<Longrightarrow> turned c (turned c f) = flipped True True f"
proof -
  assume wf: "yuv_wf f"
  show ?thesis
    unfolding turned_def [of c "turned c f"] Let_def turned_planes [OF wf]
    using plane_lengths [OF wf] by (simp add: turn_ref_twice flipped_def Let_def)
qed

lemma three_turns: "yuv_wf f \<Longrightarrow> turned c (turned c (turned c f)) = turned (\<not> c) f"
proof -
  assume wf: "yuv_wf f"
  let ?g = "turned c (turned c (turned c f))"
  have wfs: "yuv_wf (turned c f)" "yuv_wf (turned c (turned c f))" "yuv_wf ?g" using wf turned_planes(3) by simp_all
  have "turned c ?g = flipped True True (flipped True True f)" using wf wfs by (simp add: half_turn)
  then have "turned (\<not> c) f = turned (\<not> c) (turned c ?g)" using wf by (simp add: flipped_twice)
  then show ?thesis using wfs(3) by (simp add: turned_back)
qed

lemma three_parts:
  "k < n \<Longrightarrow> (map L [0..<n] @ map U [0..<m] @ map V [0..<m]) ! k = L k"
  "j < m \<Longrightarrow> (map L [0..<n] @ map U [0..<m] @ map V [0..<m]) ! (n + j) = U j"
  "j < m \<Longrightarrow> (map L [0..<n] @ map U [0..<m] @ map V [0..<m]) ! (n + m + j) = V j"
  by (simp_all add: nth_append)

section \<open>Properties\<close>

text \<open>Flipping in place moves every sample to its mirrored position: on a well-formed frame
  nothing panics, the size stays, the pixel at \<open>(x, y)\<close> of each plane is the one at the position mirrored in the requested
  directions, and flipping again restores the frame.\<close>

theorem flip_moves_pixels:
  assumes "yuv_wf f"
  shows "\<exists>g. flip hf vf f = Inr g \<and> yf_width g = yf_width f \<and> yf_height g = yf_height f \<and> flip hf vf g = Inr f
    \<and> (let w = unat (yf_width f); h = unat (yf_height f) in
       (\<forall>x<w. \<forall>y<h. y_plane g ! (y * w + x) = y_plane f ! ((if vf then h - 1 - y else y) * w + (if hf then w - 1 - x else x)))
       \<and> (\<forall>x<w div 2. \<forall>y<h div 2. \<forall>p \<in> {u_plane, v_plane}.
            p g ! (y * (w div 2) + x) = p f ! ((if vf then h div 2 - 1 - y else y) * (w div 2) + (if hf then w div 2 - 1 - x else x))))"
  using flip_flipped [OF assms, of hf vf] flip_flipped [OF flipped_planes(3) [OF assms, of hf vf], of hf vf]
    flipped_twice [OF assms, of hf vf] plane_lengths [OF assms]
  by (intro exI [of _ "flipped hf vf f"]) (simp add: flipped_planes [OF assms] flip_ref_pixel Let_def)

text \<open>A quarter turn moves the sample at \<open>(x, y)\<close> to the turned position, swaps the dimensions as
  \<^verbatim>\<open>rotated_dims\<close> announces, and is undone by the opposite turn.\<close>

theorem rotation_turns_pixels:
  assumes "yuv_wf f"
  shows "\<exists>g. rotated clockwise f = Inr g \<and> rotated (\<not> clockwise) g = Inr f
    \<and> (yf_width g, yf_height g) = rotated_dims (yf_width f) (yf_height f) (if clockwise then 90 else 270)
    \<and> (let w = unat (yf_width f); h = unat (yf_height f) in
       (\<forall>x<h. \<forall>y<w. y_plane g ! (y * h + x) = y_plane f ! (if clockwise then (h - 1 - x) * w + y else x * w + (w - 1 - y)))
       \<and> (\<forall>x<h div 2. \<forall>y<w div 2. \<forall>p \<in> {u_plane, v_plane}.
            p g ! (y * (h div 2) + x) = p f ! (if clockwise then (h div 2 - 1 - x) * (w div 2) + y else x * (w div 2) + (w div 2 - 1 - y))))"
  using rotated_turned [OF assms, of clockwise] rotated_turned [OF turned_planes(3) [OF assms, of clockwise], of "\<not> clockwise"]
    turned_back [OF assms, of clockwise]
  by (intro exI [of _ "turned clockwise f"]) (auto simp: turned_planes [OF assms] turn_ref_pixel Let_def rotated_dims_def)

text \<open>Downscaling takes the nearest source sample: for sources of at least two by two pixels no index is
  out of range, and luma and both chroma planes are sampled at the mapped positions.\<close>

theorem downscaled_samples_nearest:
  assumes "yuv_wf f" and "2 \<le> unat (yf_width f)" and "2 \<le> unat (yf_height f)" and "0 < dw" and "0 < dh"
    and "dw \<le> yf_width f" and "dh \<le> yf_height f" and "(dw, dh) \<noteq> (yf_width f, yf_height f)"
  shows "\<exists>g. downscaled dw dh f = Inr g \<and> yf_width g = dw \<and> yf_height g = dh
    \<and> (let w = unat dw; h = unat dh; sw = unat (yf_width f); sh = unat (yf_height f); cw = max (w div 2) 1; ch = max (h div 2) 1 in
       length (yf_data g) = w * h + 2 * (cw * ch)
       \<and> (\<forall>x<w. \<forall>y<h. yf_data g ! (y * w + x) = y_plane f ! (y * sh div h * sw + x * sw div w))
       \<and> (\<forall>x<cw. \<forall>y<ch. let p = min (y * 2) (h - 1) * sh div h div 2 * (sw div 2) + min (x * 2) (w - 1) * sw div w div 2 in
            yf_data g ! (w * h + (y * cw + x)) = u_plane f ! p \<and> yf_data g ! (w * h + cw * ch + (y * cw + x)) = v_plane f ! p))"
proof -
  define w h sw sh where "w = unat dw" and "h = unat dh" and "sw = unat (yf_width f)" and "sh = unat (yf_height f)"
  define cw ch where "cw = max (w div 2) 1" and "ch = max (h div 2) 1"
  define L where "L k = y_plane f ! luma_src w h sw sh (k mod w) (k div w)" for k
  define C where "C p k = p f ! chroma_src w h sw sh (k mod cw) (k div cw)" for p :: "yuv420p \<Rightarrow> bytes" and k
  let ?d = "map L [0..<w * h] @ map (C u_plane) [0..<cw * ch] @ map (C v_plane) [0..<cw * ch]"
  have pos: "0 < w" "0 < h" using assms(4,5) by (simp_all add: w_def h_def unat_gt_0 word_neq_0_conv)
  have r: "downscaled dw dh f = Inr \<lparr>yf_width = dw, yf_height = dh, yf_data = ?d\<rparr>"
    using downscaled_ref [OF assms(1-3) _ _ assms(6-8)] pos
    by (simp add: w_def h_def sw_def sh_def cw_def ch_def L_def [abs_def] C_def [abs_def])
  have luma: "?d ! (y * w + x) = y_plane f ! (y * sh div h * sw + x * sw div w)" if "x < w" "y < h" for x y
    unfolding three_parts(1) [OF pixel_less [OF that]] using that by (simp add: L_def luma_src_def axis_def)
  have chroma: "?d ! (w * h + (y * cw + x)) = u_plane f ! p \<and> ?d ! (w * h + cw * ch + (y * cw + x)) = v_plane f ! p"
    if "x < cw" "y < ch" and "p = min (y * 2) (h - 1) * sh div h div 2 * (sw div 2) + min (x * 2) (w - 1) * sw div w div 2" for x y p
    unfolding three_parts(2,3) [OF pixel_less [OF that(1,2)]] using that by (simp add: C_def chroma_src_def axis_def)
  have len: "length ?d = w * h + 2 * (cw * ch)" by simp
  show ?thesis
    unfolding Let_def r
    unfolding w_def [symmetric] h_def [symmetric] sw_def [symmetric] sh_def [symmetric] cw_def [symmetric] ch_def [symmetric]
    by (intro exI [of _ "\<lparr>yf_width = dw, yf_height = dh, yf_data = ?d\<rparr>"] conjI allI impI)
      (simp_all only: yuv420p.simps refl len luma chroma)
qed

definition demo_frame :: yuv420p where
  "demo_frame = \<lparr>yf_width = 4, yf_height = 2, yf_data = [1, 2, 3, 4, 5, 6, 7, 8, 9, 10, 11, 12]\<rparr>"

lemma demo_frame_wf: "yuv_wf demo_frame"
  by (simp add: yuv_wf_def demo_frame_def)

theorem flip_moves_pixels_witness:
  "\<exists>g. flip True False demo_frame = Inr g \<and> yf_width g = 4 \<and> yf_height g = 2 \<and> flip True False g = Inr demo_frame"
  using flip_moves_pixels [OF demo_frame_wf, of True False] by (auto simp: demo_frame_def)

theorem rotation_turns_pixels_witness:
  "\<exists>g. rotated True demo_frame = Inr g \<and> rotated False g = Inr demo_frame \<and> (yf_width g, yf_height g) = (2, 4)"
  using rotation_turns_pixels [OF demo_frame_wf, of True] by (auto simp: rotated_dims_def demo_frame_def)

theorem downscaled_samples_nearest_witness:
  "\<exists>g. downscaled 2 1 demo_frame = Inr g \<and> yf_width g = 2 \<and> yf_height g = 1 \<and> length (yf_data g) = 4"
  using downscaled_samples_nearest [OF demo_frame_wf, of 2 1] by (auto simp: demo_frame_def Let_def)

end
