(* ===== verification/FrameColour.thy ===== *)
theory FrameColour
  imports FrameGeometry
begin

text \<open>
  The colour conversions of \<^verbatim>\<open>convert.rs\<close> sample by sample: packed YUYV and RGB to planar frames and
  back to RGB, with the ranges of the fixed-point matrices.
\<close>

section \<open>Packed YUYV\<close>

lemma new_frame_planes:
  "length (y_plane (yuv_new w h)) = unat w * unat h" "length (u_plane (yuv_new w h)) = (unat w div 2) * (unat h div 2)"
  "length (v_plane (yuv_new w h)) = (unat w div 2) * (unat h div 2)"
  by (simp_all add: y_plane_def u_plane_def v_plane_def yuv_new_def)

definition yuyv_luma :: "bytes \<Rightarrow> nat \<Rightarrow> nat \<Rightarrow> nat \<Rightarrow> u8" where
  "yuyv_luma src w y x = src ! (y * w * 2 + x * 2)"

text \<open>The mean of the samples at offset \<open>o\<close> of the macropixels of two rows.\<close>
definition yuyv_chroma :: "bytes \<Rightarrow> nat \<Rightarrow> nat \<Rightarrow> nat \<Rightarrow> nat \<Rightarrow> u8" where
  "yuyv_chroma src w off cy cx =
     of_nat ((unat (src ! (cy * 2 * w * 2 + cx * 4 + off)) + unat (src ! ((cy * 2 + 1) * w * 2 + cx * 4 + off))) div 2)"

lemma yuyv_chroma_positions:
  assumes "w mod 2 = 0" and "h mod 2 = 0" and "cy < h div 2" and "cx < w div 2" and "off < 4"
  shows "cy * 2 * w * 2 + cx * 4 + off < w * h * 2" "(cy * 2 + 1) * w * 2 + cx * 4 + off < w * (h :: nat) * 2"
proof -
  obtain a b where ab: "w = 2 * a" "h = 2 * b" using assms(1,2) by (metis mod_0_imp_dvd dvdE)
  have "Suc cy * a \<le> b * a" "cx < a" using assms ab by (intro mult_le_mono1, simp_all)
  then show "(cy * 2 + 1) * w * 2 + cx * 4 + off < w * h * 2" using assms(5) by (simp add: ab algebra_simps)
  then show "cy * 2 * w * 2 + cx * 4 + off < w * h * 2" by (simp add: algebra_simps)
qed

lemma yuyv_ref:
  fixes w h :: u32
  assumes "unat w mod 2 = 0" and "unat h mod 2 = 0" and "unat w * unat h * 2 \<le> length src"
  shows "yuyv_to_yuv420p src w h = Inr \<lparr>yf_width = w, yf_height = h, yf_data =
    map (\<lambda>k. yuyv_luma src (unat w) (k div unat w) (k mod unat w)) [0..<unat w * unat h]
    @ map (\<lambda>k. yuyv_chroma src (unat w) 1 (k div (unat w div 2)) (k mod (unat w div 2))) [0..<(unat w div 2) * (unat h div 2)]
    @ map (\<lambda>k. yuyv_chroma src (unat w) 3 (k div (unat w div 2)) (k mod (unat w div 2))) [0..<(unat w div 2) * (unat h div 2)]\<rparr>"
proof -
  let ?w = "unat w" and ?h = "unat h" and ?f = "yuv_new w h"
  have luma: "for_each (\<lambda>row. for_each (\<lambda>col yp. and_then (idx src (row * ?w * 2 + col * 2)) (\<lambda>v. upd (row * ?w + col) v yp)) [0..<?w]) [0..<?h] (y_plane ?f)
      = Inr (map (\<lambda>k. yuyv_luma src ?w (k div ?w) (k mod ?w)) [0..<?w * ?h])"
  proof (rule grid_fill)
    fix y x and st :: bytes
    assume "y < ?h" "x < ?w" "length st = ?w * ?h"
    then show "and_then (idx src (y * ?w * 2 + x * 2)) (\<lambda>v. upd (y * ?w + x) v st) = Inr (st[y * ?w + x := yuyv_luma src ?w y x])"
      using pixel_less [of x ?w y ?h] assms(3) by (simp add: yuyv_luma_def)
  qed (simp add: new_frame_planes)
  define g where "g cy = (\<lambda>cx (up, vp).
             let r0 = (cy * 2) * ?w * 2 + cx * 4; r1 = (cy * 2 + 1) * ?w * 2 + cx * 4
             in and_then (idx src (r0 + 1)) (\<lambda>u0.
                and_then (idx src (r1 + 1)) (\<lambda>u1.
                and_then (idx src (r0 + 3)) (\<lambda>v0.
                and_then (idx src (r1 + 3)) (\<lambda>v1.
                and_then (upd (cy * (?w div 2) + cx) (of_nat ((unat u0 + unat u1) div 2)) up) (\<lambda>up.
                and_then (upd (cy * (?w div 2) + cx) (of_nat ((unat v0 + unat v1) div 2)) vp) (\<lambda>vp.
                Inr (up :: bytes, vp :: bytes))))))))" for cy
  have chroma: "for_each (\<lambda>cy. for_each (g cy) [0..<?w div 2]) [0..<?h div 2] (u_plane ?f, v_plane ?f) =
    Inr (map (\<lambda>k. yuyv_chroma src ?w 1 (k div (?w div 2)) (k mod (?w div 2))) [0..<(?w div 2) * (?h div 2)],
         map (\<lambda>k. yuyv_chroma src ?w 3 (k div (?w div 2)) (k mod (?w div 2))) [0..<(?w div 2) * (?h div 2)])"
  proof (rule grid_fill_pair)
    fix y x and u v :: bytes
    assume yx: "y < ?h div 2" "x < ?w div 2" and "length u = (?w div 2) * (?h div 2)" "length v = (?w div 2) * (?h div 2)"
    moreover note yuyv_chroma_positions [OF assms(1,2) yx, of 1] yuyv_chroma_positions [OF assms(1,2) yx, of 3]
    ultimately show "g y x (u, v) = Inr (u[y * (?w div 2) + x := yuyv_chroma src ?w 1 y x], v[y * (?w div 2) + x := yuyv_chroma src ?w 3 y x])"
      using pixel_less [OF yx(2,1)] assms(3) by (simp add: g_def Let_def yuyv_chroma_def)
  qed (simp_all add: new_frame_planes)
  have "yuyv_to_yuv420p src w h = and_then (for_each (\<lambda>row. for_each (\<lambda>col yp. and_then (idx src (row * ?w * 2 + col * 2)) (\<lambda>v. upd (row * ?w + col) v yp)) [0..<?w]) [0..<?h] (y_plane ?f))
     (\<lambda>yp. and_then (for_each (\<lambda>cy. for_each (g cy) [0..<?w div 2]) [0..<?h div 2] (u_plane ?f, v_plane ?f)) (\<lambda>(up, vp). Inr (?f\<lparr>yf_data := yp @ up @ vp\<rparr>)))"
    using assms by (simp add: yuyv_to_yuv420p_def Let_def g_def [abs_def])
  then show ?thesis unfolding luma chroma by (simp add: yuv_new_def)
qed

section \<open>RGB\<close>

definition rgb_px :: "bytes \<Rightarrow> nat \<Rightarrow> int \<times> int \<times> int" where
  "rgb_px rgb px = (uint (rgb ! (px * 3)), uint (rgb ! (px * 3 + 1)), uint (rgb ! (px * 3 + 2)))"

lemma rgb_at_ok: "px < n \<Longrightarrow> n * 3 \<le> length rgb \<Longrightarrow> rgb_at rgb px = Inr (rgb_px rgb px)"
  by (simp add: rgb_at_def rgb_px_def)

definition block_px :: "nat \<Rightarrow> nat \<Rightarrow> nat \<Rightarrow> nat list" where
  "block_px w cy cx = [cy * 2 * w + cx * 2, cy * 2 * w + (cx * 2 + 1), (cy * 2 + 1) * w + cx * 2, (cy * 2 + 1) * w + (cx * 2 + 1)]"

definition block_mean :: "bytes \<Rightarrow> nat \<Rightarrow> nat \<Rightarrow> nat \<Rightarrow> int \<times> int \<times> int" where
  "block_mean rgb w cy cx =
     (let ps = map (rgb_px rgb) (block_px w cy cx)
      in (sum_list (map fst ps) div 4, sum_list (map (fst \<circ> snd) ps) div 4, sum_list (map (snd \<circ> snd) ps) div 4))"

lemma block_px_less:
  assumes "cy < h div 2" and "cx < w div 2" and "p \<in> set (block_px w cy cx)"
  shows "p < w * h"
proof -
  have "cx * 2 + 1 < w" "cy * 2 + 1 < h" using assms(1,2) by auto
  then show ?thesis
    using assms(3) pixel_less [of "cx * 2" w "cy * 2" h] pixel_less [of "cx * 2 + 1" w "cy * 2" h]
      pixel_less [of "cx * 2" w "cy * 2 + 1" h] pixel_less [of "cx * 2 + 1" w "cy * 2 + 1" h]
    by (auto simp: block_px_def)
qed

lemma block_sums_ok:
  assumes "cy < h div 2" and "cx < w div 2" and "w * h * 3 \<le> length rgb"
  shows "\<exists>sr sg sb. block_sums rgb w cy cx = Inr (sr, sg, sb) \<and> block_mean rgb w cy cx = (sr div 4, sg div 4, sb div 4)"
proof -
  have ok: "rgb_at rgb p = Inr (rgb_px rgb p)" if "p \<in> set (block_px w cy cx)" for p
    using block_px_less [OF assms(1,2) that] assms(3) by (rule rgb_at_ok)
  have two: "[0..<2] = [0, 1 :: nat]" by (simp add: upt_rec)
  show ?thesis
    unfolding block_sums_def two
    using ok [of "cy * 2 * w + cx * 2"] ok [of "cy * 2 * w + (cx * 2 + 1)"] ok [of "(cy * 2 + 1) * w + cx * 2"] ok [of "(cy * 2 + 1) * w + (cx * 2 + 1)"]
    by (simp add: block_mean_def block_px_def split_def algebra_simps)
qed

lemma shifted_range: "65536 * lo \<le> x \<Longrightarrow> x < 65536 * (hi + 1) \<Longrightarrow> lo \<le> drop_bit 16 x \<and> drop_bit 16 x \<le> (hi :: int)"
  using zdiv_mono1 [of "65536 * lo" x 65536] zdiv_mono1 [of x "65536 * hi + 65535" 65536] by (simp add: drop_bit_eq_div)

lemma luma_range:
  "0 \<le> r \<Longrightarrow> r \<le> 255 \<Longrightarrow> 0 \<le> g \<Longrightarrow> g \<le> 255 \<Longrightarrow> 0 \<le> b \<Longrightarrow> b \<le> 255 \<Longrightarrow> 16 \<le> luma_of_rgb r g b \<and> luma_of_rgb r g b \<le> 235"
  using shifted_range [of 0 "16829 * r + 33038 * g + 6416 * b + 32768" 219] by (simp add: luma_of_rgb_def)

lemma chroma_range:
  assumes "0 \<le> r" "r \<le> 255" "0 \<le> g" "g \<le> 255" "0 \<le> b" "b \<le> 255"
  shows "16 \<le> cb_of_rgb r g b \<and> cb_of_rgb r g b \<le> 240" "16 \<le> cr_of_rgb r g b \<and> cr_of_rgb r g b \<le> 240"
  using assms shifted_range [of "- 112" "- 9719 * r - 19026 * g + 28736 * b + 32768" 112]
    shifted_range [of "- 112" "28736 * r - 24070 * g - 4642 * b + 32768" 112]
  by (simp_all add: cb_of_rgb_def cr_of_rgb_def)

lemma grey_neutral:
  assumes "0 \<le> v" "v \<le> 255"
  shows "cb_of_rgb v v v = 128" "cr_of_rgb v v v = 128"
  using assms by (simp_all add: cb_of_rgb_def cr_of_rgb_def drop_bit_eq_div)

lemma byte_range: "0 \<le> uint (b :: u8)" "uint b \<le> 255"
  using uint_bounded [of b] by simp_all

lemma rgb_px_range:
  "rgb_px rgb p = (r, g, b) \<Longrightarrow> 0 \<le> r \<and> r \<le> 255 \<and> 0 \<le> g \<and> g \<le> 255 \<and> 0 \<le> b \<and> b \<le> 255"
  by (auto simp: rgb_px_def byte_range)

lemma block_mean_range:
  assumes "block_mean rgb w cy cx = (r, g, b)"
  shows "0 \<le> r" "r \<le> 255" "0 \<le> g" "g \<le> 255" "0 \<le> b" "b \<le> 255"
proof -
  have four: "0 \<le> (a1 + (a2 + (a3 + a4))) div 4 \<and> (a1 + (a2 + (a3 + a4))) div 4 \<le> 255"
    if "0 \<le> a1" "a1 \<le> 255" "0 \<le> a2" "a2 \<le> 255" "0 \<le> a3" "a3 \<le> 255" "0 \<le> a4" "a4 \<le> 255" for a1 a2 a3 a4 :: int
    using that zdiv_mono1 [of "a1 + (a2 + (a3 + a4))" 1020 4] by (simp add: pos_imp_zdiv_nonneg_iff)
  show "0 \<le> r" "r \<le> 255" "0 \<le> g" "g \<le> 255" "0 \<le> b" "b \<le> 255"
    using assms by (auto simp: block_mean_def block_px_def rgb_px_def byte_range four)
qed

lemma clamp_id: "lo \<le> x \<and> x \<le> hi \<Longrightarrow> clamp lo hi x = x"
  by (simp add: clamp_def)

definition rgb_luma :: "bytes \<Rightarrow> nat \<Rightarrow> u8" where
  "rgb_luma rgb p = (case rgb_px rgb p of (r, g, b) \<Rightarrow> of_int (luma_of_rgb r g b))"

definition rgb_chroma :: "(int \<Rightarrow> int \<Rightarrow> int \<Rightarrow> int) \<Rightarrow> bytes \<Rightarrow> nat \<Rightarrow> nat \<Rightarrow> nat \<Rightarrow> u8" where
  "rgb_chroma c rgb w cy cx = (case block_mean rgb w cy cx of (r, g, b) \<Rightarrow> of_int (c r g b))"

lemma rgb_ref:
  fixes w h :: u32
  assumes "unat w * unat h * 3 \<le> length rgb"
  shows "rgb8_to_yuv420p rgb w h = Inr \<lparr>yf_width = w, yf_height = h, yf_data =
    map (rgb_luma rgb) [0..<unat w * unat h]
    @ map (\<lambda>k. rgb_chroma cb_of_rgb rgb (unat w) (k div (unat w div 2)) (k mod (unat w div 2))) [0..<(unat w div 2) * (unat h div 2)]
    @ map (\<lambda>k. rgb_chroma cr_of_rgb rgb (unat w) (k div (unat w div 2)) (k mod (unat w div 2))) [0..<(unat w div 2) * (unat h div 2)]\<rparr>"
proof -
  let ?w = "unat w" and ?h = "unat h" and ?f = "yuv_new w h"
  define l where "l i yp = and_then (rgb_at rgb i) (\<lambda>(r, g, b). upd i (of_int (clamp 16 235 (luma_of_rgb r g b))) yp)" for i and yp :: bytes
  have luma: "for_each l [0..<?w * ?h] (y_plane ?f) = Inr (map (rgb_luma rgb) [0..<?w * ?h])"
  proof (rule line_fill)
    fix i and st :: bytes
    assume "i < ?w * ?h" "length st = ?w * ?h"
    moreover obtain r g b where "rgb_px rgb i = (r, g, b)" by (cases "rgb_px rgb i")
    moreover note rgb_px_range [OF this]
    ultimately show "l i st = Inr (st[i := rgb_luma rgb i])"
      using rgb_at_ok [OF _ assms] by (simp add: l_def rgb_luma_def clamp_id luma_range)
  qed (simp add: new_frame_planes)
  define g where "g cy = (\<lambda>cx (up, vp). and_then (block_sums rgb ?w cy cx) (\<lambda>(sr, sg, sb).
             let sr = sr div 4; sg = sg div 4; sb = sb div 4; i = cy * (?w div 2) + cx
             in and_then (upd i (of_int (clamp 16 240 (cb_of_rgb sr sg sb))) up) (\<lambda>up.
                and_then (upd i (of_int (clamp 16 240 (cr_of_rgb sr sg sb))) vp) (\<lambda>vp.
                Inr (up :: bytes, vp :: bytes)))))" for cy
  have chroma: "for_each (\<lambda>cy. for_each (g cy) [0..<?w div 2]) [0..<?h div 2] (u_plane ?f, v_plane ?f) =
    Inr (map (\<lambda>k. rgb_chroma cb_of_rgb rgb ?w (k div (?w div 2)) (k mod (?w div 2))) [0..<(?w div 2) * (?h div 2)],
         map (\<lambda>k. rgb_chroma cr_of_rgb rgb ?w (k div (?w div 2)) (k mod (?w div 2))) [0..<(?w div 2) * (?h div 2)])"
  proof (rule grid_fill_pair)
    fix y x and u v :: bytes
    assume yx: "y < ?h div 2" "x < ?w div 2" and len: "length u = (?w div 2) * (?h div 2)" "length v = (?w div 2) * (?h div 2)"
    obtain sr sg sb where s: "block_sums rgb ?w y x = Inr (sr, sg, sb)" "block_mean rgb ?w y x = (sr div 4, sg div 4, sb div 4)"
      using block_sums_ok [OF yx assms] by blast
    note r = chroma_range [OF block_mean_range [OF s(2)]]
    show "g y x (u, v) = Inr (u[y * (?w div 2) + x := rgb_chroma cb_of_rgb rgb ?w y x], v[y * (?w div 2) + x := rgb_chroma cr_of_rgb rgb ?w y x])"
      using pixel_less [OF yx(2,1)] len by (simp add: g_def s rgb_chroma_def clamp_id [OF r(1)] clamp_id [OF r(2)] Let_def)
  qed (simp_all add: new_frame_planes)
  have "rgb8_to_yuv420p rgb w h = and_then (for_each l [0..<?w * ?h] (y_plane ?f))
     (\<lambda>yp. and_then (for_each (\<lambda>cy. for_each (g cy) [0..<?w div 2]) [0..<?h div 2] (u_plane ?f, v_plane ?f)) (\<lambda>(up, vp). Inr (?f\<lparr>yf_data := yp @ up @ vp\<rparr>)))"
    using assms by (simp add: rgb8_to_yuv420p_def Let_def g_def [abs_def] l_def [abs_def])
  then show ?thesis unfolding luma chroma by (simp add: yuv_new_def)
qed


section \<open>Back to RGB\<close>

definition pixel_rgb :: "yuv420p \<Rightarrow> nat \<Rightarrow> nat \<Rightarrow> bytes" where
  "pixel_rgb f y x =
     (let c = y div 2 * (unat (yf_width f) div 2) + x div 2
      in rgb_of_yuv (uint (y_plane f ! (y * unat (yf_width f) + x))) (uint (u_plane f ! c) - 128) (uint (v_plane f ! c) - 128))"

lemma to_rgb_ref:
  assumes wf: "yuv_wf f" and even: "unat (yf_width f) mod 2 = 0" "unat (yf_height f) mod 2 = 0"
  shows "yuv420p_to_rgb8 f = Inr (map (\<lambda>k. pixel_rgb f (k div 3 div unat (yf_width f)) (k div 3 mod unat (yf_width f)) ! (k mod 3)) [0..<y_len f * 3])"
proof -
  let ?w = "unat (yf_width f)" and ?h = "unat (yf_height f)"
  note lens = plane_lengths [OF wf]
  define p where "p k = pixel_rgb f (k div 3 div ?w) (k div 3 mod ?w) ! (k mod 3)" for k
  define ws where "ws y x = (let off = (y * ?w + x) * 3; px = pixel_rgb f y x in [(off, px ! 0), (off + 1, px ! 1), (off + 2, px ! 2)])" for x y
  define g where "g j = (\<lambda>i rgb. and_then (idx (y_plane f) (j * ?w + i)) (\<lambda>y.
             and_then (idx (u_plane f) (j div 2 * (?w div 2) + i div 2)) (\<lambda>u.
             and_then (idx (v_plane f) (j div 2 * (?w div 2) + i div 2)) (\<lambda>v.
             let px = rgb_of_yuv (uint y) (uint u - 128) (uint v - 128); off = (j * ?w + i) * 3
             in and_then (upd off (px ! 0) rgb) (\<lambda>rgb. and_then (upd (off + 1) (px ! 1) rgb) (upd (off + 2) (px ! 2)))))))" for j
  have "yuv420p_to_rgb8 f = for_each (\<lambda>j. for_each (g j) [0..<?w]) [0..<?h] (replicate (?w * ?h * 3) 0)"
    using wf by (simp add: yuv420p_to_rgb8_def yuv_wf_def Let_def g_def [abs_def])
  also have "\<dots> = Inr (map (\<lambda>k. if \<exists>y<?h. \<exists>x<?w. k \<in> fst ` set (ws y x) then p k else replicate (?w * ?h * 3) 0 ! k) [0..<?w * ?h * 3])"
  proof (rule grid_store)
    fix y x and st :: bytes
    assume yx: "y < ?h" "x < ?w" and len: "length st = ?w * ?h * 3"
    have "y * ?w + x < y_len f" by (rule pixel_less [OF yx(2,1)])
    moreover have "y div 2 * (?w div 2) + x div 2 < uv_len f" using yx even by (intro pixel_less) auto
    ultimately show "g y x st = Inr (store (ws y x) st)"
      using lens len by (simp add: g_def ws_def pixel_rgb_def Let_def)
  next
    fix y x k v
    assume yx: "y < ?h" "x < ?w" and "(k, v) \<in> set (ws y x)"
    then obtain j where "j < 3" "k = (y * ?w + x) * 3 + j" "v = pixel_rgb f y x ! j"
      unfolding ws_def Let_def by (fastforce simp: numeral_3_eq_3)
    moreover from this have "k div 3 = y * ?w + x" "k mod 3 = j" by (simp_all only: pixel_div pixel_mod)
    ultimately show "v = p k" using yx by (simp add: p_def)
  qed simp
  also have "map (\<lambda>k. if \<exists>y<?h. \<exists>x<?w. k \<in> fst ` set (ws y x) then p k else replicate (?w * ?h * 3) 0 ! k) [0..<?w * ?h * 3] = map p [0..<?w * ?h * 3]"
  proof (rule map_cong)
    fix k
    assume "k \<in> set [0..<?w * ?h * 3]"
    then have "k div 3 < ?w * ?h" by (simp add: less_mult_imp_div_less)
    from pixel_split [OF this] have b: "k div 3 div ?w < ?h" "k div 3 mod ?w < ?w" "k div 3 div ?w * ?w + k div 3 mod ?w = k div 3" by simp_all
    define q r where "q = k div 3" and "r = k mod 3"
    have "k = q * 3 + r" "r < 3" by (simp_all add: q_def r_def)
    then have "k \<in> {q * 3, q * 3 + 1, q * 3 + 2}" by auto
    moreover have "fst ` set (ws (k div 3 div ?w) (k div 3 mod ?w)) = {q * 3, q * 3 + 1, q * 3 + 2}"
      unfolding ws_def Let_def b(3) by (simp add: q_def)
    ultimately have "k \<in> fst ` set (ws (k div 3 div ?w) (k div 3 mod ?w))" by simp
    with b show "(if \<exists>y<?h. \<exists>x<?w. k \<in> fst ` set (ws y x) then p k else replicate (?w * ?h * 3) 0 ! k) = p k" by auto
  qed simp
  finally show ?thesis by (simp add: p_def)
qed

lemma mean_byte: "unat (of_nat ((unat a + unat b) div 2) :: u8) = (unat a + unat b) div 2" for a b :: u8
proof -
  have "(unat a + unat b) div 2 < 256" using u8_less [of a] u8_less [of b] by linarith
  then show ?thesis by (simp add: unat_of_nat)
qed

text \<open>Packed YUYV becomes planar without loss of luma: for even dimensions and a long enough
  buffer the conversion succeeds, luma is de-interleaved, and each chroma sample is the mean of the two rows it covers;
  odd dimensions and short buffers are errors, never panics.\<close>

theorem yuyv_conversion:
  "(unat w mod 2 = 0 \<and> unat h mod 2 = 0 \<and> unat w * unat h * 2 \<le> length src \<longrightarrow>
      (\<exists>f. yuyv_to_yuv420p src w h = Inr f \<and> yf_width f = w \<and> yf_height f = h
        \<and> (\<forall>x<unat w. \<forall>y<unat h. y_plane f ! (y * unat w + x) = src ! ((y * unat w + x) * 2))
        \<and> (\<forall>x<unat w div 2. \<forall>y<unat h div 2. \<forall>(p, off) \<in> {(u_plane, 1), (v_plane, 3)}.
             unat (p f ! (y * (unat w div 2) + x))
               = (unat (src ! (2 * y * unat w * 2 + 4 * x + off)) + unat (src ! ((2 * y + 1) * unat w * 2 + 4 * x + off))) div 2)))
   \<and> (\<not> (unat w mod 2 = 0 \<and> unat h mod 2 = 0 \<and> unat w * unat h * 2 \<le> length src) \<longrightarrow>
      (\<exists>m. yuyv_to_yuv420p src w h = Inl (Bail m)))"
proof (intro conjI impI)
  let ?w = "unat w" and ?h = "unat h"
  assume a: "?w mod 2 = 0 \<and> ?h mod 2 = 0 \<and> ?w * ?h * 2 \<le> length src"
  define f where "f = \<lparr>yf_width = w, yf_height = h, yf_data =
    map (\<lambda>k. yuyv_luma src ?w (k div ?w) (k mod ?w)) [0..<?w * ?h]
    @ map (\<lambda>k. yuyv_chroma src ?w 1 (k div (?w div 2)) (k mod (?w div 2))) [0..<(?w div 2) * (?h div 2)]
    @ map (\<lambda>k. yuyv_chroma src ?w 3 (k div (?w div 2)) (k mod (?w div 2))) [0..<(?w div 2) * (?h div 2)]\<rparr>"
  have eq: "yuyv_to_yuv420p src w h = Inr f" using yuyv_ref [of w h src] a by (simp add: f_def)
  have planes: "y_plane f = map (\<lambda>k. yuyv_luma src ?w (k div ?w) (k mod ?w)) [0..<?w * ?h]"
    "u_plane f = map (\<lambda>k. yuyv_chroma src ?w 1 (k div (?w div 2)) (k mod (?w div 2))) [0..<(?w div 2) * (?h div 2)]"
    "v_plane f = map (\<lambda>k. yuyv_chroma src ?w 3 (k div (?w div 2)) (k mod (?w div 2))) [0..<(?w div 2) * (?h div 2)]"
    by (simp_all add: f_def y_plane_def u_plane_def v_plane_def)
  have luma: "y_plane f ! (y * ?w + x) = src ! ((y * ?w + x) * 2)" if "x < ?w" "y < ?h" for x y
    using that pixel_less [OF that] by (simp add: planes yuyv_luma_def algebra_simps)
  have mean: "unat (yuyv_chroma src ?w off y x) = (unat (src ! (2 * y * ?w * 2 + 4 * x + off)) + unat (src ! ((2 * y + 1) * ?w * 2 + 4 * x + off))) div 2" for off x y
    by (simp add: yuyv_chroma_def mean_byte mult.commute)
  have chroma: "u_plane f ! (y * (?w div 2) + x) = yuyv_chroma src ?w 1 y x" "v_plane f ! (y * (?w div 2) + x) = yuyv_chroma src ?w 3 y x"
    if "x < ?w div 2" "y < ?h div 2" for x y
    using that pixel_less [OF that] by (simp_all add: planes)
  have "yf_width f = w" "yf_height f = h" by (simp_all add: f_def)
  with eq luma chroma mean show "\<exists>f. yuyv_to_yuv420p src w h = Inr f \<and> yf_width f = w \<and> yf_height f = h
        \<and> (\<forall>x<?w. \<forall>y<?h. y_plane f ! (y * ?w + x) = src ! ((y * ?w + x) * 2))
        \<and> (\<forall>x<?w div 2. \<forall>y<?h div 2. \<forall>(p, off) \<in> {(u_plane, 1), (v_plane, 3)}.
             unat (p f ! (y * (?w div 2) + x)) = (unat (src ! (2 * y * ?w * 2 + 4 * x + off)) + unat (src ! ((2 * y + 1) * ?w * 2 + 4 * x + off))) div 2)"
    by (intro exI [of _ f]) (simp only: split_def ball_simps fst_conv snd_conv simp_thms, simp)
qed (auto simp: yuyv_to_yuv420p_def)

theorem yuyv_conversion_witness:
  "\<exists>f. yuyv_to_yuv420p [10, 20, 30, 40, 50, 61, 70, 80] 2 2 = Inr f \<and> y_plane f ! 3 = 70 \<and> unat (u_plane f ! 0) = 40"
proof -
  obtain f where f: "yuyv_to_yuv420p [10, 20, 30, 40, 50, 61, 70, 80] 2 2 = Inr f"
    "\<forall>x<2. \<forall>y<2. y_plane f ! (y * 2 + x) = [10, 20, 30, 40, 50, 61, 70, 80 :: u8] ! ((y * 2 + x) * 2)"
    "\<forall>x<1. \<forall>y<1. unat (u_plane f ! (y * 1 + x)) = (unat ([10, 20, 30, 40, 50, 61, 70, 80 :: u8] ! (2 * y * 2 * 2 + 4 * x + 1))
        + unat ([10, 20, 30, 40, 50, 61, 70, 80 :: u8] ! ((2 * y + 1) * 2 * 2 + 4 * x + 1))) div 2"
    using yuyv_conversion [of 2 2 "[10, 20, 30, 40, 50, 61, 70, 80]"] by auto
  from f(2) have "y_plane f ! 3 = 70" by (auto dest!: spec [of _ 1])
  moreover from f(3) have "unat (u_plane f ! 0) = 40" by simp
  ultimately show ?thesis using f(1) by blast
qed

text \<open>The RGB conversion produces broadcast-range video: it never panics, luma stays in \<open>[16, 235]\<close> and chroma
  in \<open>[16, 240]\<close> before clamping, so that the clamps of the source never act; each sample is the matrix of its pixel, or of
  the mean of its two by two block, and grey blocks have neutral chroma.\<close>

theorem rgb_conversion_limited_range:
  assumes "unat w * unat h * 3 \<le> length rgb"
  shows "\<exists>f. rgb8_to_yuv420p rgb w h = Inr f \<and> yf_width f = w \<and> yf_height f = h
    \<and> (\<forall>p<unat w * unat h. case rgb_px rgb p of (r, g, b) \<Rightarrow>
         uint (y_plane f ! p) = luma_of_rgb r g b \<and> 16 \<le> luma_of_rgb r g b \<and> luma_of_rgb r g b \<le> 235)
    \<and> (\<forall>x<unat w div 2. \<forall>y<unat h div 2. case block_mean rgb (unat w) y x of (r, g, b) \<Rightarrow>
         uint (u_plane f ! (y * (unat w div 2) + x)) = cb_of_rgb r g b \<and> 16 \<le> cb_of_rgb r g b \<and> cb_of_rgb r g b \<le> 240
         \<and> uint (v_plane f ! (y * (unat w div 2) + x)) = cr_of_rgb r g b \<and> 16 \<le> cr_of_rgb r g b \<and> cr_of_rgb r g b \<le> 240
         \<and> (r = g \<and> g = b \<longrightarrow> cb_of_rgb r g b = 128 \<and> cr_of_rgb r g b = 128))"
proof -
  let ?w = "unat w" and ?h = "unat h"
  define f where "f = \<lparr>yf_width = w, yf_height = h, yf_data = map (rgb_luma rgb) [0..<?w * ?h]
    @ map (\<lambda>k. rgb_chroma cb_of_rgb rgb ?w (k div (?w div 2)) (k mod (?w div 2))) [0..<(?w div 2) * (?h div 2)]
    @ map (\<lambda>k. rgb_chroma cr_of_rgb rgb ?w (k div (?w div 2)) (k mod (?w div 2))) [0..<(?w div 2) * (?h div 2)]\<rparr>"
  have eq: "rgb8_to_yuv420p rgb w h = Inr f" using rgb_ref [OF assms] by (simp add: f_def)
  have small: "uint (of_int v :: u8) = v" if "16 \<le> v \<and> v \<le> 240" for v :: int using that by (simp add: uint_word_of_int)
  have luma: "case rgb_px rgb p of (r, g, b) \<Rightarrow> uint (y_plane f ! p) = luma_of_rgb r g b \<and> 16 \<le> luma_of_rgb r g b \<and> luma_of_rgb r g b \<le> 235"
    if p: "p < ?w * ?h" for p
  proof (cases "rgb_px rgb p")
    case (fields r g b)
    then have "16 \<le> luma_of_rgb r g b \<and> luma_of_rgb r g b \<le> 235" using rgb_px_range [OF fields] by (intro luma_range) auto
    then show ?thesis using p fields by (simp add: f_def y_plane_def rgb_luma_def small)
  qed
  have chroma: "case block_mean rgb ?w y x of (r, g, b) \<Rightarrow>
         uint (u_plane f ! (y * (?w div 2) + x)) = cb_of_rgb r g b \<and> 16 \<le> cb_of_rgb r g b \<and> cb_of_rgb r g b \<le> 240
         \<and> uint (v_plane f ! (y * (?w div 2) + x)) = cr_of_rgb r g b \<and> 16 \<le> cr_of_rgb r g b \<and> cr_of_rgb r g b \<le> 240
         \<and> (r = g \<and> g = b \<longrightarrow> cb_of_rgb r g b = 128 \<and> cr_of_rgb r g b = 128)" if xy: "x < ?w div 2" "y < ?h div 2" for x y
  proof (cases "block_mean rgb ?w y x")
    case (fields r g b)
    note range = block_mean_range [OF fields]
    have "u_plane f ! (y * (?w div 2) + x) = of_int (cb_of_rgb r g b)" "v_plane f ! (y * (?w div 2) + x) = of_int (cr_of_rgb r g b)"
      using pixel_less [OF xy] xy fields by (simp_all add: f_def u_plane_def v_plane_def rgb_chroma_def)
    then show ?thesis using chroma_range [OF range] grey_neutral [OF range(1,2)] fields by (auto simp: small)
  qed
  show ?thesis using eq luma chroma by (intro exI [of _ f]) (simp add: f_def)
qed

theorem rgb_conversion_limited_range_witness:
  "\<exists>f. rgb8_to_yuv420p (replicate 12 255) 2 2 = Inr f \<and> uint (y_plane f ! 0) = luma_of_rgb 255 255 255"
proof -
  obtain f where f: "rgb8_to_yuv420p (replicate 12 255) 2 2 = Inr f"
    "\<forall>p<4. case rgb_px (replicate 12 255) p of (r, g, b) \<Rightarrow> uint (y_plane f ! p) = luma_of_rgb r g b"
    using rgb_conversion_limited_range [of 2 2 "replicate 12 255"] by (auto simp: split_def)
  from f(2) [rule_format, of 0] f(1) show ?thesis by (auto simp: rgb_px_def)
qed

text \<open>Even frames convert back to RGB without a panic; frames with an odd side do not, although the RGB conversion accepts them.\<close>

lemma to_rgb_total:
  "yuv_wf f \<Longrightarrow> unat (yf_width f) mod 2 = 0 \<Longrightarrow> unat (yf_height f) mod 2 = 0 \<Longrightarrow>
     \<exists>rgb. yuv420p_to_rgb8 f = Inr rgb \<and> length rgb = unat (yf_width f) * unat (yf_height f) * 3"
  by (simp add: to_rgb_ref)

lemma odd_frame_panics:
  "and_then (rgb8_to_yuv420p (replicate 27 0) 3 3) yuv420p_to_rgb8 = Inl (Panic ''index out of bounds'')"
  by code_simp

text \<open>White loses brightness on the way through the planar format, because the inverse matrix is the one of full-range video.\<close>

lemma white_roundtrip:
  "and_then (rgb8_to_yuv420p (replicate 12 255) 2 2) yuv420p_to_rgb8 = Inr (replicate 12 235)"
  by code_simp

text \<open>A source one pixel wide has no chroma samples to take.\<close>

lemma thin_downscale_panics:
  "downscaled 1 2 \<lparr>yf_width = 1, yf_height = 4, yf_data = [1, 2, 3, 4]\<rparr> = Inl (Panic ''index out of bounds'')"
  by code_simp

end
