(* ===== verification/VideoEncoder.thy ===== *)
theory VideoEncoder
  imports H264 Convert
begin

text \<open>
  The software encoder wrapper, \<^verbatim>\<open>crates/streaming/src/encoder/h264.rs\<close>. The codec itself is the
  \<^verbatim>\<open>openh264\<close> crate: creating an encoder, encoding a picture and forcing an intra frame are parameters.
  The wrapper's own work is the mapping of presets and the splitting of the Annex B bitstream into NAL units, for
  which the theory proves that it returns exactly the units of the stream and agrees with the splitter of the
  protocol crate.
\<close>

datatype quality_preset = UltraFast | Medium | High | HardwareMax

datatype profile = ProfileBaseline | ProfileHigh
datatype complexity = ComplexityLow | ComplexityMedium | ComplexityHigh

record encoder_tuning =
  et_label :: string
  et_profile :: profile
  et_complexity :: complexity
  et_qp_min :: u8
  et_qp_max :: u8

text \<open>Every preset uses the quality rate control.\<close>

fun preset_to_tuning :: "quality_preset \<Rightarrow> encoder_tuning" where
  "preset_to_tuning UltraFast = \<lparr>et_label = ''ultra-fast'', et_profile = ProfileBaseline, et_complexity = ComplexityLow, et_qp_min = 18, et_qp_max = 45\<rparr>"
| "preset_to_tuning Medium = \<lparr>et_label = ''medium'', et_profile = ProfileHigh, et_complexity = ComplexityMedium, et_qp_min = 15, et_qp_max = 44\<rparr>"
| "preset_to_tuning High = \<lparr>et_label = ''high'', et_profile = ProfileHigh, et_complexity = ComplexityHigh, et_qp_min = 10, et_qp_max = 40\<rparr>"
| "preset_to_tuning HardwareMax = \<lparr>et_label = ''medium (hw-max fallback)'', et_profile = ProfileHigh, et_complexity = ComplexityMedium, et_qp_min = 15, et_qp_max = 44\<rparr>"

record nal_unit =
  nu_data :: bytes
  nu_is_keyframe :: bool

definition start_code_len_at :: "bytes \<Rightarrow> nat \<Rightarrow> nat option" where
  "start_code_len_at data i =
     (if i + 4 \<le> length data \<and> subslice i (i + 4) data = [0x00, 0x00, 0x00, 0x01] then Some 4
      else if i + 3 \<le> length data \<and> subslice i (i + 3) data = [0x00, 0x00, 0x01] then Some 3
      else None)"

text \<open>The inner loop: the next start code from \<open>j\<close> on, or the end.\<close>

function next_code :: "bytes \<Rightarrow> nat \<Rightarrow> nat" where
  "next_code data j =
     (if j < length data then if start_code_len_at data j \<noteq> None then j else next_code data (j + 1) else j)"
  by pat_completeness auto
termination
  by (relation "measure (\<lambda>(data, j). length data - j)") auto

declare next_code.simps [simp del]

lemma next_code_ge: "j \<le> next_code data j"
proof (induction data j rule: next_code.induct)
  case (1 data j)
  then show ?case by (subst next_code.simps) (auto intro: le_trans [of _ "j + 1"])
qed

function split_loop_from :: "bytes \<Rightarrow> bool \<Rightarrow> nat \<Rightarrow> nal_unit list result" where
  "split_loop_from annex_b keyframe i =
     (if i < length annex_b then
        case start_code_len_at annex_b i of
          None \<Rightarrow> split_loop_from annex_b keyframe (i + 1)
        | Some sc_len \<Rightarrow>
            let nal_start = i + sc_len; j = next_code annex_b (nal_start + 1)
            in if j \<le> length annex_b then
                 and_then (split_loop_from annex_b keyframe j) (\<lambda>nals.
                 Inr ((if nal_start < j then [\<lparr>nu_data = subslice nal_start j annex_b, nu_is_keyframe = keyframe\<rparr>] else []) @ nals))
               else Inl (Panic ''range end out of bounds'')
      else Inr [])"
  by pat_completeness auto
termination
proof (relation "measure (\<lambda>(data, _, i). length data - i)", goal_cases)
  case (3 annex_b k i sc_len s j)
  then show ?case using next_code_ge [of "s + 1" annex_b] by auto
qed auto

declare split_loop_from.simps [simp del]

definition split_annex_b_to_nals :: "bytes \<Rightarrow> bool \<Rightarrow> nal_unit list result" where
  "split_annex_b_to_nals annex_b keyframe = split_loop_from annex_b keyframe 0"

datatype frame_type = FrameIDR | FrameI | FrameP | FrameSkip | FrameOther

record 'e h264_encoder =
  he_encoder :: 'e
  he_width :: u32
  he_height :: u32

text \<open>
  \<open>encode_at\<close> is the codec: it returns the frame type and the Annex B bytes of the access unit, with the
  encoder's next state, or fails.
\<close>

definition encode :: "('e \<Rightarrow> yuv420p \<Rightarrow> u64 \<Rightarrow> (frame_type \<times> bytes \<times> 'e) result) \<Rightarrow> 'e h264_encoder \<Rightarrow> yuv420p \<Rightarrow> u64
    \<Rightarrow> (nal_unit list \<times> 'e h264_encoder) result" where
  "encode encode_at enc frame timestamp_ms =
     and_then (encode_at (he_encoder enc) frame timestamp_ms) (\<lambda>(frame_type, annex_b, e').
     let keyframe = (frame_type = FrameIDR \<or> frame_type = FrameI)
     in and_then (split_annex_b_to_nals annex_b keyframe) (\<lambda>nals.
        Inr (nals, enc\<lparr>he_encoder := e'\<rparr>)))"

definition force_keyframe :: "('e \<Rightarrow> 'e) \<Rightarrow> 'e h264_encoder \<Rightarrow> 'e h264_encoder" where
  "force_keyframe force_intra_frame enc = enc\<lparr>he_encoder := force_intra_frame (he_encoder enc)\<rparr>"

section \<open>Splitting\<close>

lemma start_code_len_at_code:
  "start_code_len_at (pre @ [0, 0, 0, 1] @ rest) (length pre) = Some 4"
  "start_code_len_at (pre @ [0, 0, 1] @ rest) (length pre) = Some 3"
  by (simp_all add: start_code_len_at_def subslice_def)

lemma start_code_len_at_None:
  assumes "\<not> start_code_at data i"
  shows "start_code_len_at data i = None"
proof -
  have "i + 4 \<le> length data \<Longrightarrow> subslice i (i + 4) data = [data ! i, data ! (i + 1), data ! (i + 2), data ! (i + 3)]"
    by (auto simp: subslice_def list_eq_iff_nth_eq less_Suc_eq eval_nat_numeral)
  moreover have "i + 3 \<le> length data \<Longrightarrow> subslice i (i + 3) data = [data ! i, data ! (i + 1), data ! (i + 2)]"
    by (auto simp: subslice_def list_eq_iff_nth_eq less_Suc_eq eval_nat_numeral)
  ultimately show ?thesis using assms by (auto simp: start_code_len_at_def start_code_at_def)
qed

lemma next_code_skip:
  assumes "j \<le> e" and "e \<le> length data" and "\<And>k. j \<le> k \<Longrightarrow> k < e \<Longrightarrow> start_code_len_at data k = None"
    and "e < length data \<Longrightarrow> start_code_len_at data e \<noteq> None"
  shows "next_code data j = e"
  using assms
proof (induction "e - j" arbitrary: j)
  case 0
  then show ?case by (subst next_code.simps) auto
next
  case (Suc n)
  then have "j < e" by simp
  have "next_code data (j + 1) = e" using Suc by (intro Suc.hyps(1)) auto
  then show ?case using Suc.prems(2) Suc.prems(3) [of j] \<open>j < e\<close> by (subst next_code.simps) simp
qed

lemma annexb_head_code: "\<forall>u \<in> set units. annexb_ok u \<Longrightarrow> units \<noteq> [] \<Longrightarrow> start_code_len_at (pre @ annexb units) (length pre) \<noteq> None"
proof (cases units)
  case (Cons u us)
  assume "\<forall>u \<in> set units. annexb_ok u"
  then obtain code nal where "u = (code, nal)" and "code = [0, 0, 0, 1] \<or> code = [0, 0, 1]" by (cases u) (auto simp: Cons annexb_ok_def)
  then show ?thesis
    using start_code_len_at_code [of pre "nal @ annexb us"] by (auto simp: Cons annexb_def annexb_unit_def)
qed simp

lemma split_loop_annexb:
  assumes "\<forall>u \<in> set units. annexb_ok u"
  shows "split_loop_from (pre @ annexb units) k (length pre) = Inr (map (\<lambda>(_, nal). \<lparr>nu_data = nal, nu_is_keyframe = k\<rparr>) units)"
  using assms
proof (induction units arbitrary: pre)
  case Nil
  then show ?case by (subst split_loop_from.simps) (simp add: annexb_def)
next
  case (Cons u units)
  obtain code nal where u: "u = (code, nal)" by (cases u)
  have code: "code = [0, 0, 0, 1] \<or> code = [0, 0, 1]" and ok: "nal_ok nal" and ne: "nal \<noteq> []"
    using Cons.prems by (auto simp: u annexb_ok_def nal_ok_def)
  let ?d = "pre @ code @ nal @ annexb units" and ?s = "length pre + length code"
  have d: "pre @ annexb (u # units) = ?d" by (simp add: annexb_def annexb_unit_def u)
  have sc: "start_code_len_at ?d (length pre) = Some (length code)"
    using code start_code_len_at_code [of pre "nal @ annexb units"] by auto
  have stop: "next_code ?d (?s + 1) = ?s + length nal"
  proof (rule next_code_skip)
    fix j
    assume j: "?s + 1 \<le> j" "j < ?s + length nal"
    then obtain i where "j = length (pre @ code) + i" "i < length nal"
      by (metis add_leD1 add_less_cancel_left le_Suc_ex length_append)
    then show "start_code_len_at ?d j = None"
      using nal_no_start_code [OF ok, of i "pre @ code" "annexb units"] by (intro start_code_len_at_None) simp
  next
    assume "?s + length nal < length ?d"
    then have "units \<noteq> []" by (auto simp: annexb_def)
    then show "start_code_len_at ?d (?s + length nal) \<noteq> None"
      using annexb_head_code [of units "pre @ code @ nal"] Cons.prems by (simp add: add.assoc)
  qed (use ne in \<open>cases nal; simp\<close>)+
  have rest: "split_loop_from ?d k (?s + length nal) = Inr (map (\<lambda>(_, nal). \<lparr>nu_data = nal, nu_is_keyframe = k\<rparr>) units)"
    using Cons.IH [of "pre @ code @ nal"] Cons.prems by (simp add: add.assoc)
  have "length pre < length ?d" using ne by (cases nal) simp_all
  moreover have "subslice ?s (?s + length nal) ?d = nal" by (simp add: subslice_def)
  ultimately show ?case
    unfolding d using ne by (subst split_loop_from.simps) (simp add: sc stop [simplified] rest u Let_def)
qed


section \<open>What a splitter of Annex B streams promises\<close>

locale annexb_splitter =
  fixes split :: "bytes \<Rightarrow> bytes list result"
  assumes split_units: "\<forall>u \<in> set units. annexb_ok u \<Longrightarrow> split (annexb units) = Inr (map snd units)"
begin

lemma split_append:
  "\<forall>u \<in> set (us @ vs). annexb_ok u \<Longrightarrow> split (annexb (us @ vs)) = Inr (map snd us @ map snd vs)"
  by (simp add: split_units)

lemma split_resplit:
  assumes "\<forall>u \<in> set units. annexb_ok u" and "split (annexb units) = Inr nals"
  shows "split (annexb (map (Pair [0, 0, 0, 1]) nals)) = Inr nals"
proof -
  have "nals = map snd units" using assms split_units by simp
  moreover have "\<forall>u \<in> set (map (Pair [0, 0, 0, 1]) (map snd units)). annexb_ok u"
    using assms(1) by (auto simp: annexb_ok_def)
  from split_units [OF this] have "split (annexb (map (Pair [0, 0, 0, 1]) (map snd units))) = Inr (map snd units)"
    by (simp add: comp_def)
  ultimately show ?thesis by simp
qed

end

interpretation encoder_split: annexb_splitter "\<lambda>d. and_then (split_annex_b_to_nals d False) (\<lambda>ns. Inr (map nu_data ns))"
  by unfold_locales
    (use split_loop_annexb [of _ "[]" False] in \<open>simp add: split_annex_b_to_nals_def comp_def split_def\<close>)

interpretation protocol_split: annexb_splitter "\<lambda>d. Inr (split_nal_units d)"
  by unfold_locales (simp add: split_annexb_lemma)

text \<open>A stream that ends in a start code makes the splitter slice past the end of its buffer.\<close>

lemma trailing_start_code_panics:
  "split_annex_b_to_nals [0, 0, 1, 0x65, 7, 0, 0, 1] True = Inl (Panic ''range end out of bounds'')"
  by code_simp

text \<open>The encoder wrapper emits exactly the NAL units the codec produced: when the codec returns an Annex B
  access unit, the result is its units in order, without start codes, every one marked as a key frame exactly for intra
  pictures; re-framing the units and splitting them with the protocol crate's splitter gives them back.\<close>

theorem encode_emits_units:
  assumes "encode_at (he_encoder enc) frame ts = Inr (ft, annexb units, e')" and "\<forall>u \<in> set units. annexb_ok u"
  shows "encode encode_at enc frame ts =
      Inr (map (\<lambda>(_, nal). \<lparr>nu_data = nal, nu_is_keyframe = (ft = FrameIDR \<or> ft = FrameI)\<rparr>) units, enc\<lparr>he_encoder := e'\<rparr>)
    \<and> split_nal_units (annexb (map (Pair [0, 0, 0, 1]) (map snd units))) = map snd units"
proof
  show "encode encode_at enc frame ts =
      Inr (map (\<lambda>(_, nal). \<lparr>nu_data = nal, nu_is_keyframe = (ft = FrameIDR \<or> ft = FrameI)\<rparr>) units, enc\<lparr>he_encoder := e'\<rparr>)"
    using assms(1) split_loop_annexb [OF assms(2), of "[]"] by (simp add: encode_def split_annex_b_to_nals_def)
  show "split_nal_units (annexb (map (Pair [0, 0, 0, 1]) (map snd units))) = map snd units"
    using protocol_split.split_resplit [OF assms(2)] protocol_split.split_units [OF assms(2)] by simp
qed

definition demo_codec :: "nat \<Rightarrow> yuv420p \<Rightarrow> u64 \<Rightarrow> (frame_type \<times> bytes \<times> nat) result" where
  "demo_codec n frame ts = Inr (if n = 0 then FrameIDR else FrameP, annexb [([0, 0, 0, 1], [0x67, 1]), ([0, 0, 1], [0x65, 2])], n + 1)"

theorem encode_emits_units_witness:
  "encode demo_codec \<lparr>he_encoder = 0, he_width = 2, he_height = 2\<rparr> (yuv_new 2 2) 40 =
     Inr ([\<lparr>nu_data = [0x67, 1], nu_is_keyframe = True\<rparr>, \<lparr>nu_data = [0x65, 2], nu_is_keyframe = True\<rparr>],
          \<lparr>he_encoder = 1, he_width = 2, he_height = 2\<rparr>)"
proof -
  have ok: "\<forall>u \<in> set [([0, 0, 0, 1], [0x67, 1]), ([0, 0, 1], [0x65, 2])]. annexb_ok u" by code_simp
  show ?thesis
    using encode_emits_units [OF _ ok, of demo_codec "\<lparr>he_encoder = 0, he_width = 2, he_height = 2\<rparr>" "yuv_new 2 2" 40 FrameIDR 1]
    by (simp add: demo_codec_def)
qed

lemma split_loop_nonempty:
  "split_loop_from annex_b keyframe i = Inr nals \<Longrightarrow> u \<in> set nals \<Longrightarrow> nu_data u \<noteq> []"
proof (induction annex_b keyframe i arbitrary: nals rule: split_loop_from.induct)
  case (1 annex_b keyframe i)
  show ?case
  proof (cases "i < length annex_b")
    case True
    show ?thesis
    proof (cases "start_code_len_at annex_b i")
      case None
      then show ?thesis using 1(1) [OF True None, of nals] 1(3,4) True by (simp add: split_loop_from.simps [of annex_b keyframe i])
    next
      case (Some sc)
      let ?j = "next_code annex_b (i + sc + 1)"
      have j: "?j \<le> length annex_b" using 1(3) True Some by (auto simp: split_loop_from.simps [of annex_b keyframe i] Let_def split: if_splits)
      then obtain rest where rest: "split_loop_from annex_b keyframe ?j = Inr rest"
        "nals = (if i + sc < ?j then [\<lparr>nu_data = subslice (i + sc) ?j annex_b, nu_is_keyframe = keyframe\<rparr>] else []) @ rest"
        using 1(3) True Some by (auto simp: split_loop_from.simps [of annex_b keyframe i] Let_def and_then_eq_Inr)
      have "length (subslice (i + sc) ?j annex_b) = ?j - (i + sc)" using j by simp
      then show ?thesis
        using 1(2) [OF True Some refl refl j, of rest] rest 1(4) by (auto split: if_splits)
    qed
  next
    case False
    then show ?thesis using 1(3,4) by (simp add: split_loop_from.simps [of annex_b keyframe i])
  qed
qed

lemma encode_nonempty: "encode encode_at enc frame ts = Inr (nals, enc') \<Longrightarrow> u \<in> set nals \<Longrightarrow> nu_data u \<noteq> []"
  by (auto simp: encode_def and_then_eq_Inr Let_def split_annex_b_to_nals_def dest: split_loop_nonempty)

end
