(* ===== verification/CaptureSource.thy ===== *)
theory CaptureSource
  imports FrameColour VideoEncoder Text
begin

text \<open>
  The camera source, \<^verbatim>\<open>crates/streaming/src/capture_source.rs\<close>: conversion of a camera frame, the device
  transform (rotation, static and platform flips), the substream, the JPEG tap and the queue of encoded NAL units that
  \<^verbatim>\<open>next_frame\<close> hands out one at a time. The codecs, the watermark renderer and the ratio of the frame rates (a
  floating-point quotient) are parameters; a camera frame comes with the clock reading of its processing.
\<close>

section \<open>Configuration\<close>

record flips =
  fl_hflip :: bool
  fl_vflip :: bool

definition flips_set :: "bool \<Rightarrow> bool \<Rightarrow> flips \<Rightarrow> flips" where
  "flips_set hflip vflip f = f\<lparr>fl_hflip := hflip, fl_vflip := vflip\<rparr>"

definition flips_load :: "flips \<Rightarrow> bool \<times> bool" where
  "flips_load f = (fl_hflip f, fl_vflip f)"

definition effective_flips :: "bool \<Rightarrow> bool \<Rightarrow> flips option \<Rightarrow> bool \<times> bool" where
  "effective_flips static_hflip static_vflip gb =
     (case gb of
        None \<Rightarrow> (static_hflip, static_vflip)
      | Some f \<Rightarrow> let (gh, gv) = flips_load f in (static_hflip \<noteq> gh, static_vflip \<noteq> gv))"

definition normalize_rotation :: "u32 \<Rightarrow> u32" where
  "normalize_rotation degrees = (if degrees = 90 \<or> degrees = 180 \<or> degrees = 270 then degrees else 0)"

definition mjpeg_passthrough :: "bool \<Rightarrow> u32 \<Rightarrow> bool \<Rightarrow> bool \<Rightarrow> bool \<Rightarrow> bool" where
  "mjpeg_passthrough mjpeg_native rotation hflip vflip watermark \<longleftrightarrow>
     mjpeg_native \<and> rotation = 0 \<and> \<not> hflip \<and> \<not> vflip \<and> \<not> watermark"

definition bitrate_for_dimensions :: "u32 \<Rightarrow> u32 \<Rightarrow> u32" where
  "bitrate_for_dimensions width height =
     (let pixels = (ucast width :: u64) * ucast height
      in if pixels \<ge> 1280 * 720 then 2500000 else if pixels \<ge> 640 * 480 then 1200000
         else if pixels \<ge> 320 * 240 then 400000 else 150000)"

definition JPEG_REENCODE_EVERY_N_FRAMES :: u64 where "JPEG_REENCODE_EVERY_N_FRAMES = 6"

record substream_settings =
  ss_width :: u32
  ss_height :: u32
  ss_bitrate_bps :: u32

record video_frame_in =
  vf_data :: bytes
  vf_width :: u32
  vf_height :: u32
  vf_format :: bytes

record 'e video_source =
  vs_running :: bool
  vs_encoder :: "'e h264_encoder option"
  vs_pending_nals :: "nal_unit list"
  vs_width :: u32
  vs_height :: u32
  vs_latest_jpeg :: "bytes option"
  vs_dimensions :: "(u32 \<times> u32) option"
  vs_substream :: "substream_settings option"
  vs_sub_encoder :: "'e h264_encoder option"
  vs_sub_frame_div :: u32
  vs_sub_frame_count :: u32
  vs_frame_count :: u64
  vs_hflip :: bool
  vs_vflip :: bool
  vs_rotation :: u32
  vs_gb_flips :: "flips option"
  vs_force_idr :: "bool option"

text \<open>The code outside the sources that the loop calls.\<close>

record 'e capture_env =
  ce_new :: "u32 \<Rightarrow> u32 \<Rightarrow> u32 \<Rightarrow> 'e h264_encoder result"
  ce_encode_at :: "'e \<Rightarrow> yuv420p \<Rightarrow> u64 \<Rightarrow> (frame_type \<times> bytes \<times> 'e) result"
  ce_force_intra :: "'e \<Rightarrow> 'e"
  ce_turbo :: "(bytes \<Rightarrow> yuv420p result) option"
  ce_decode_jpeg :: "bytes \<Rightarrow> (bytes \<times> u16 \<times> u16 \<times> pixel_format) result"
  ce_encode_jpeg :: "bytes \<Rightarrow> u16 \<Rightarrow> u16 \<Rightarrow> bytes option"
  ce_watermark :: "(yuv420p \<Rightarrow> yuv420p) option"
  ce_sub_ratio :: u32

section \<open>The steps of the frame loop\<close>

text \<open>Step 3: the encoder is created on the first frame, for the geometry after rotation.\<close>

definition init_encoder :: "'e capture_env \<Rightarrow> video_frame_in \<Rightarrow> 'e video_source \<Rightarrow> unit result \<times> 'e video_source" where
  "init_encoder env vf vs =
     (if vs_encoder vs = None then
        let vs = vs\<lparr>vs_width := vf_width vf, vs_height := vf_height vf\<rparr>;
            (eff_w, eff_h) = rotated_dims (vs_width vs) (vs_height vs) (vs_rotation vs)
        in (case ce_new env eff_w eff_h (bitrate_for_dimensions eff_w eff_h) of
              Inl e \<Rightarrow> (Inl e, vs)
            | Inr enc \<Rightarrow> (Inr (), vs\<lparr>vs_encoder := Some enc, vs_dimensions := Some (eff_w, eff_h)\<rparr>))
      else (Inr (), vs))"

text \<open>Step 3b: a pending key frame request is consumed.\<close>

definition consume_force_idr :: "'e capture_env \<Rightarrow> 'e video_source \<Rightarrow> 'e video_source" where
  "consume_force_idr env vs =
     (case vs_force_idr vs of
        None \<Rightarrow> vs
      | Some flag \<Rightarrow>
          let vs = vs\<lparr>vs_force_idr := Some False\<rparr>
          in if flag then vs\<lparr>vs_encoder := map_option (force_keyframe (ce_force_intra env)) (vs_encoder vs)\<rparr> else vs)"

text \<open>Step 4: conversion by format, then the device transform and the watermark.\<close>

definition convert_frame :: "'e capture_env \<Rightarrow> video_frame_in \<Rightarrow> yuv420p result" where
  "convert_frame env vf =
     (if contains (ascii ''MJPEG'') (vf_format vf) then mjpeg_to_yuv420p (ce_turbo env) (ce_decode_jpeg env) (vf_data vf)
      else if contains (ascii ''YUYV'') (vf_format vf) then yuyv_to_yuv420p (vf_data vf) (vf_width vf) (vf_height vf)
      else mjpeg_to_yuv420p (ce_turbo env) (ce_decode_jpeg env) (vf_data vf))"

definition final_flips :: "u32 \<Rightarrow> bool \<Rightarrow> bool \<Rightarrow> flips option \<Rightarrow> bool \<times> bool" where
  "final_flips rotation static_h static_v gb =
     (let (hflip, vflip) = effective_flips static_h static_v gb
      in if rotation = 180 then (\<not> hflip, \<not> vflip) else (hflip, vflip))"

definition device_transform :: "u32 \<Rightarrow> bool \<Rightarrow> bool \<Rightarrow> flips option \<Rightarrow> yuv420p \<Rightarrow> yuv420p result" where
  "device_transform rotation static_h static_v gb yuv =
     (let (hflip, vflip) = final_flips rotation static_h static_v gb
      in and_then (if rotation = 90 \<or> rotation = 270 then rotated (rotation = 90) yuv else Inr yuv) (\<lambda>yuv.
         if hflip \<or> vflip then flip hflip vflip yuv else Inr yuv))"

text \<open>Step 4b: the substream. A failing encoder disables it; a panic is one of the whole task.\<close>

definition substream_step :: "'e capture_env \<Rightarrow> yuv420p \<Rightarrow> u64 \<Rightarrow> 'e video_source \<Rightarrow> (nal_unit list \<times> 'e video_source) result" where
  "substream_step env yuv now vs =
     (case vs_substream vs of
        None \<Rightarrow> Inr ([], vs)
      | Some settings \<Rightarrow>
          let vs = (if vs_sub_encoder vs = None then
                      (case ce_new env (ss_width settings) (ss_height settings) (ss_bitrate_bps settings) of
                         Inr enc \<Rightarrow> vs\<lparr>vs_sub_frame_div := max (ce_sub_ratio env) 1, vs_sub_encoder := Some enc\<rparr>
                       | Inl _ \<Rightarrow> vs\<lparr>vs_substream := None\<rparr>)
                    else vs)
          in (case vs_sub_encoder vs of
                None \<Rightarrow> Inr ([], vs)
              | Some enc \<Rightarrow>
                  let vs = vs\<lparr>vs_sub_frame_count := vs_sub_frame_count vs + 1\<rparr>
                  in if vs_sub_frame_div vs \<le> 1 \<or> vs_sub_frame_count vs mod vs_sub_frame_div vs = 0 then
                       and_then (downscaled (ss_width settings) (ss_height settings) yuv) (\<lambda>sub_yuv.
                       (case encode (ce_encode_at env) enc sub_yuv now of
                          Inr (nals, enc') \<Rightarrow> Inr (nals, vs\<lparr>vs_sub_encoder := Some enc'\<rparr>)
                        | Inl (Bail _) \<Rightarrow> Inr ([], vs)
                        | Inl (Panic m) \<Rightarrow> Inl (Panic m)))
                     else Inr ([], vs)))"

definition jpeg_encode_yuv :: "'e capture_env \<Rightarrow> yuv420p \<Rightarrow> bytes option result" where
  "jpeg_encode_yuv env yuv =
     and_then (yuv420p_to_rgb8 yuv) (\<lambda>rgb.
     Inr (if unat (yf_width yuv) < 2 ^ 16 \<and> unat (yf_height yuv) < 2 ^ 16 then
            (case ce_encode_jpeg env rgb (ucast (yf_width yuv)) (ucast (yf_height yuv)) of
               Some out \<Rightarrow> if out = [] then None else Some out
             | None \<Rightarrow> None)
          else None))"

text \<open>Step 5: the JPEG tap.\<close>

definition jpeg_tap :: "'e capture_env \<Rightarrow> video_frame_in \<Rightarrow> yuv420p \<Rightarrow> 'e video_source \<Rightarrow> 'e video_source result" where
  "jpeg_tap env vf yuv vs =
     (let vs = vs\<lparr>vs_frame_count := vs_frame_count vs + 1\<rparr>;
          (hflip, vflip) = final_flips (vs_rotation vs) (vs_hflip vs) (vs_vflip vs) (vs_gb_flips vs)
      in and_then
           (if mjpeg_passthrough (contains (ascii ''MJPEG'') (vf_format vf)) (vs_rotation vs) hflip vflip (ce_watermark env \<noteq> None)
            then Inr (Some (vf_data vf))
            else if vs_frame_count vs mod JPEG_REENCODE_EVERY_N_FRAMES = 0 then jpeg_encode_yuv env yuv
            else Inr None)
           (\<lambda>jpeg. Inr (case jpeg of None \<Rightarrow> vs | Some j \<Rightarrow> vs\<lparr>vs_latest_jpeg := Some j\<rparr>)))"

text \<open>Steps 4b to 6 for a converted frame: substream, JPEG tap, encoding.\<close>

definition emit_frame :: "'e capture_env \<Rightarrow> video_frame_in \<Rightarrow> u64 \<Rightarrow> yuv420p \<Rightarrow> 'e video_source \<Rightarrow> (nal_unit list \<times> nal_unit list) result \<times> 'e video_source" where
  "emit_frame env vf now yuv vs =
     (case and_then (substream_step env yuv now vs) (\<lambda>(sub, vs). and_then (jpeg_tap env vf yuv vs) (\<lambda>vs. Inr (sub, vs))) of
        Inl e \<Rightarrow> (Inl e, vs)
      | Inr (sub, vs) \<Rightarrow>
          (case vs_encoder vs of
             None \<Rightarrow> (Inl (Bail ''encoder not initialized''), vs)
           | Some enc \<Rightarrow>
               (case encode (ce_encode_at env) enc yuv now of
                  Inl e \<Rightarrow> (Inl e, vs)
                | Inr (nals, enc') \<Rightarrow> (Inr (nals, sub), vs\<lparr>vs_encoder := Some enc'\<rparr>))))"

text \<open>Steps 3 to 6 for one camera frame: the NAL units it encodes to, those of the substream, and the source afterwards.\<close>

definition process_frame :: "'e capture_env \<Rightarrow> video_frame_in \<times> u64 \<Rightarrow> 'e video_source \<Rightarrow> (nal_unit list \<times> nal_unit list) result \<times> 'e video_source" where
  "process_frame env = (\<lambda>(vf, now) vs.
     (case init_encoder env vf vs of
        (Inl e, vs) \<Rightarrow> (Inl e, vs)
      | (Inr _, vs) \<Rightarrow>
          let vs = consume_force_idr env vs
          in (case and_then (convert_frame env vf)
                     (device_transform (vs_rotation vs) (vs_hflip vs) (vs_vflip vs) (vs_gb_flips vs)) of
                Inl e \<Rightarrow> (Inl e, vs)
              | Inr yuv \<Rightarrow> emit_frame env vf now (case ce_watermark env of None \<Rightarrow> yuv | Some render \<Rightarrow> render yuv) vs)))"

text \<open>
  \<^verbatim>\<open>next_frame\<close>: a queued NAL unit first; otherwise camera frames are processed until one yields a unit (the
  codec may skip frames). The frames still in the channel are returned, with the units sent to the substream.
\<close>

type_synonym camera_frames = "(video_frame_in \<times> u64) list"

fun read_loop :: "'e capture_env \<Rightarrow> camera_frames \<Rightarrow> 'e video_source \<Rightarrow> nal_unit result \<times> nal_unit list \<times> camera_frames \<times> 'e video_source" where
  "read_loop env [] vs = (Inl (Bail ''video frame channel closed''), [], [], vs)"
| "read_loop env (vf # frames) vs =
     (case process_frame env vf vs of
        (Inl e, vs) \<Rightarrow> (Inl e, [], frames, vs)
      | (Inr (nals, sub), vs) \<Rightarrow>
          (case vs_pending_nals vs @ nals of
             [] \<Rightarrow> (let (r, subs, frames', vs') = read_loop env frames (vs\<lparr>vs_pending_nals := []\<rparr>) in (r, sub @ subs, frames', vs'))
           | first # rest \<Rightarrow> (Inr first, sub, frames, vs\<lparr>vs_pending_nals := rest\<rparr>)))"

definition next_frame :: "'e capture_env \<Rightarrow> camera_frames \<Rightarrow> 'e video_source \<Rightarrow> nal_unit result \<times> nal_unit list \<times> camera_frames \<times> 'e video_source" where
  "next_frame env frames vs =
     (if \<not> vs_running vs then (Inl (Bail ''VideoCaptureSource not started''), [], frames, vs)
      else case vs_pending_nals vs of
             nal # rest \<Rightarrow> (Inr nal, [], frames, vs\<lparr>vs_pending_nals := rest\<rparr>)
           | [] \<Rightarrow> read_loop env frames vs)"

definition start_source :: "'e video_source \<Rightarrow> 'e video_source" where
  "start_source vs = vs\<lparr>vs_pending_nals := [], vs_frame_count := 0, vs_running := True\<rparr>"

definition stop_source :: "'e video_source \<Rightarrow> 'e video_source" where
  "stop_source vs = vs\<lparr>vs_encoder := None, vs_sub_encoder := None, vs_sub_frame_count := 0, vs_pending_nals := [],
     vs_latest_jpeg := None, vs_running := False\<rparr>"

section \<open>The device transform\<close>

fun quarter_turns :: "nat \<Rightarrow> yuv420p \<Rightarrow> yuv420p result" where
  "quarter_turns 0 f = Inr f"
| "quarter_turns (Suc n) f = and_then (rotated True f) (quarter_turns n)"

lemma quarter_turns_turned:
  assumes "yuv_wf f"
  shows "quarter_turns (Suc 0) f = Inr (turned True f)" "quarter_turns (Suc (Suc 0)) f = Inr (flipped True True f)"
    "quarter_turns (Suc (Suc (Suc 0))) f = Inr (turned False f)"
proof -
  note wf = turned_planes(3) [OF assms, of True] turned_planes(3) [OF turned_planes(3) [OF assms, of True], of True]
  show "quarter_turns (Suc 0) f = Inr (turned True f)" using assms by (simp add: rotated_turned)
  show "quarter_turns (Suc (Suc 0)) f = Inr (flipped True True f)" using assms wf by (simp add: rotated_turned half_turn)
  have "quarter_turns (Suc (Suc (Suc 0))) f = Inr (turned True (turned True (turned True f)))"
    using assms wf by (simp add: rotated_turned del: half_turn)
  then show "quarter_turns (Suc (Suc (Suc 0))) f = Inr (turned False f)"
    using three_turns [OF assms, of True] by simp
qed

lemmas quarter_turns_numeral [simp] =
  quarter_turns_turned(1) quarter_turns_turned(2) [folded numeral_2_eq_2] quarter_turns_turned(3) [folded numeral_3_eq_3]

lemma flip_if: "yuv_wf f \<Longrightarrow> (if a \<or> b then flip a b f else Inr f) = Inr (flipped a b f)"
  using flip_flipped [of f a b] by (auto simp: flip_def)

definition platform_flips :: "flips option \<Rightarrow> bool \<times> bool" where
  "platform_flips gb = (case gb of None \<Rightarrow> (False, False) | Some f \<Rightarrow> flips_load f)"

lemma effective_flips_xor:
  "effective_flips sh sv gb = (sh \<noteq> fst (platform_flips gb), sv \<noteq> snd (platform_flips gb))"
  by (auto simp: effective_flips_def platform_flips_def split: option.splits prod.splits)

lemma device_transform_flipped:
  assumes "yuv_wf f" and "rotation \<in> {0, 90, 180, 270}"
  shows "device_transform rotation sh sv gb f =
    and_then (quarter_turns (unat rotation div 90) f) (\<lambda>g. Inr (flipped (sh \<noteq> fst (platform_flips gb)) (sv \<noteq> snd (platform_flips gb)) g))"
proof -
  define h v where "h = (sh \<noteq> fst (platform_flips gb))" and "v = (sv \<noteq> snd (platform_flips gb))"
  have ff: "final_flips rotation sh sv gb = (if rotation = 180 then (\<not> h, \<not> v) else (h, v))"
    by (simp only: final_flips_def effective_flips_xor h_def v_def Let_def prod.case)
  note step = device_transform_def ff Let_def
  note wf = turned_planes(3) [OF assms(1)]
  have "device_transform rotation sh sv gb f = and_then (quarter_turns (unat rotation div 90) f) (\<lambda>g. Inr (flipped h v g))"
    using assms(2)
  proof (elim insertE emptyE)
    assume "rotation = 180"
    moreover have "flipped (\<not> h) (\<not> v) f = flipped h v (flipped True True f)"
      using flipped_compose [OF assms(1), of h v True True] by simp
    ultimately show ?thesis
      using flip_if [OF assms(1), of "\<not> h" "\<not> v"] unfolding step
      by (simp add: assms(1) del: quarter_turns.simps(2))
  next
    assume "rotation = 0"
    then show ?thesis using flip_if [OF assms(1), of h v] unfolding step by simp
  next
    assume "rotation = 90"
    then show ?thesis using flip_if [OF wf, of h v True] unfolding step
      by (simp add: rotated_turned assms(1) del: quarter_turns.simps(2))
  next
    assume "rotation = 270"
    then show ?thesis using flip_if [OF wf, of h v False] unfolding step
      by (simp add: rotated_turned assms(1) del: quarter_turns.simps(2))
  qed
  then show ?thesis by (simp only: h_def v_def)
qed

lemma quarter_turns_size:
  assumes "yuv_wf f" and "rotation \<in> {0, 90, 180, 270}"
  shows "\<exists>r. quarter_turns (unat rotation div 90) f = Inr r \<and> yuv_wf r
    \<and> (yf_width r, yf_height r) = rotated_dims (yf_width f) (yf_height f) rotation"
  using assms(2)
  by (elim insertE emptyE) (simp_all add: assms(1) turned_planes flipped_planes rotated_dims_def del: quarter_turns.simps(2))

text \<open>The device transform is rotation, then the mount's flips, then the platform's: for every setting the
  shortcut of the capture loop (180 degrees folded into the flips, both flips combined by exclusive or, 270 degrees as one
  turn back) gives the same picture as turning clockwise by quarter turns, flipping for the mount and flipping for the
  platform in sequence. It never panics on a well-formed frame and the size is the one announced to the encoder.\<close>

theorem device_transform_composes:
  assumes "yuv_wf f" and "rotation \<in> {0, 90, 180, 270}"
  shows "\<exists>g. device_transform rotation sh sv gb f = Inr g \<and> yuv_wf g
    \<and> (yf_width g, yf_height g) = rotated_dims (yf_width f) (yf_height f) rotation
    \<and> and_then (quarter_turns (unat rotation div 90) f) (\<lambda>r. and_then (flip sh sv r)
        (case gb of None \<Rightarrow> Inr | Some p \<Rightarrow> flip (fl_hflip p) (fl_vflip p))) = Inr g"
proof -
  obtain r where r: "quarter_turns (unat rotation div 90) f = Inr r" "yuv_wf r"
    "(yf_width r, yf_height r) = rotated_dims (yf_width f) (yf_height f) rotation"
    using quarter_turns_size [OF assms] by blast
  define g where "g = flipped (sh \<noteq> fst (platform_flips gb)) (sv \<noteq> snd (platform_flips gb)) r"
  have "device_transform rotation sh sv gb f = Inr g"
    using device_transform_flipped [OF assms] by (simp add: r(1) g_def)
  moreover have "and_then (flip sh sv r) (case gb of None \<Rightarrow> Inr | Some p \<Rightarrow> flip (fl_hflip p) (fl_vflip p)) = Inr g"
    using r(2) flip_flipped [OF flipped_planes(3) [OF r(2)]] flipped_compose [OF r(2)]
    by (auto simp: flip_flipped g_def platform_flips_def flips_load_def split: option.split)
  ultimately show ?thesis
    using r by (intro exI [of _ g]) (simp add: g_def flipped_planes)
qed

theorem device_transform_composes_witness:
  "\<exists>g. device_transform 270 True False (Some \<lparr>fl_hflip = True, fl_vflip = True\<rparr>) demo_frame = Inr g \<and> yuv_wf g
    \<and> (yf_width g, yf_height g) = (2, 4)"
  using device_transform_composes [OF demo_frame_wf, of 270 True False "Some \<lparr>fl_hflip = True, fl_vflip = True\<rparr>"]
  by (auto simp: rotated_dims_def demo_frame_def)

lemma and_then_case: "and_then r f = (case r of Inl e \<Rightarrow> Inl e | Inr x \<Rightarrow> f x)"
  by (cases r) auto

section \<open>The queue of encoded units\<close>

text \<open>Processing a camera frame neither reads nor changes the queue, and leaves the source running.\<close>

definition with_pending :: "nal_unit list \<Rightarrow> 'e video_source \<Rightarrow> 'e video_source" where
  "with_pending p vs = vs\<lparr>vs_pending_nals := p\<rparr>"

lemma with_pending_simps [simp]:
  "vs_running (with_pending p vs) = vs_running vs" "vs_encoder (with_pending p vs) = vs_encoder vs"
  "vs_pending_nals (with_pending p vs) = p" "vs_substream (with_pending p vs) = vs_substream vs"
  "vs_sub_encoder (with_pending p vs) = vs_sub_encoder vs" "vs_sub_frame_div (with_pending p vs) = vs_sub_frame_div vs"
  "vs_sub_frame_count (with_pending p vs) = vs_sub_frame_count vs" "vs_frame_count (with_pending p vs) = vs_frame_count vs"
  "vs_hflip (with_pending p vs) = vs_hflip vs" "vs_vflip (with_pending p vs) = vs_vflip vs"
  "vs_rotation (with_pending p vs) = vs_rotation vs" "vs_gb_flips (with_pending p vs) = vs_gb_flips vs"
  "vs_force_idr (with_pending p vs) = vs_force_idr vs" "vs_width (with_pending p vs) = vs_width vs" "vs_height (with_pending p vs) = vs_height vs"
  "with_pending p (with_pending q vs) = with_pending p vs"
  by (simp_all add: with_pending_def)

lemma with_pending_encoder: "(with_pending p s)\<lparr>vs_encoder := e\<rparr> = with_pending p (s\<lparr>vs_encoder := e\<rparr>)"
  by (simp add: with_pending_def)

lemma init_encoder_pending:
  "init_encoder env vf (with_pending p vs) = map_prod id (with_pending p) (init_encoder env vf vs)"
  "vs_running (snd (init_encoder env vf vs)) = vs_running vs"
  "vs_pending_nals (snd (init_encoder env vf vs)) = vs_pending_nals vs"
  by (simp_all add: init_encoder_def with_pending_def Let_def split: sum.split prod.split)

lemma consume_force_idr_pending:
  "consume_force_idr env (with_pending p vs) = with_pending p (consume_force_idr env vs)"
  "vs_running (consume_force_idr env vs) = vs_running vs"
  "vs_pending_nals (consume_force_idr env vs) = vs_pending_nals vs"
  by (simp_all add: consume_force_idr_def with_pending_def Let_def split: option.split)

lemma substream_step_pending:
  "substream_step env yuv now (with_pending p vs) = map_sum id (map_prod id (with_pending p)) (substream_step env yuv now vs)"
  by (auto simp: substream_step_def with_pending_def Let_def and_then_case split: option.split sum.split error.split prod.split)

lemma substream_step_keeps:
  "substream_step env yuv now vs = Inr (nals, vs') \<Longrightarrow>
   vs_running vs' = vs_running vs \<and> vs_pending_nals vs' = vs_pending_nals vs \<and> vs_encoder vs' = vs_encoder vs"
  by (auto simp: substream_step_def Let_def and_then_case split: option.splits sum.splits error.splits prod.splits if_splits)

lemma jpeg_tap_pending:
  "jpeg_tap env vf yuv (with_pending p vs) = map_sum id (with_pending p) (jpeg_tap env vf yuv vs)"
  by (auto simp: jpeg_tap_def with_pending_def Let_def and_then_case split: option.split sum.split prod.split)

lemma jpeg_tap_keeps:
  "jpeg_tap env vf yuv vs = Inr vs' \<Longrightarrow> vs_running vs' = vs_running vs \<and> vs_pending_nals vs' = vs_pending_nals vs"
  by (auto simp: jpeg_tap_def Let_def and_then_case split: option.splits sum.splits prod.splits if_splits)

lemma emit_frame_pending:
  "emit_frame env vf now yuv (with_pending p vs) = map_prod id (with_pending p) (emit_frame env vf now yuv vs)"
proof -
  define t where "t = and_then (substream_step env yuv now vs) (\<lambda>(sub, vs). and_then (jpeg_tap env vf yuv vs) (\<lambda>vs. Inr (sub, vs)))"
  have "and_then (substream_step env yuv now (with_pending p vs)) (\<lambda>(sub, vs). and_then (jpeg_tap env vf yuv vs) (\<lambda>vs. Inr (sub, vs)))
    = map_sum id (map_prod id (with_pending p)) t"
    by (auto simp: t_def substream_step_pending jpeg_tap_pending and_then_case split: sum.split)
  then show ?thesis
    unfolding emit_frame_def t_def [symmetric] by (simp add: with_pending_encoder split: sum.split prod.split option.split)
qed

lemma emit_frame_keeps:
  assumes "emit_frame env vf now yuv vs = (Inr out, vs')"
  shows "vs_running vs' = vs_running vs \<and> vs_pending_nals vs' = vs_pending_nals vs"
  using assms by (auto simp: emit_frame_def and_then_eq_Inr and_then_eq_Inl dest!: substream_step_keeps jpeg_tap_keeps
      split: sum.splits prod.splits option.splits)

lemma process_frame_pending:
  "process_frame env f (with_pending p vs) = map_prod id (with_pending p) (process_frame env f vs)"
  by (auto simp: process_frame_def init_encoder_pending consume_force_idr_pending emit_frame_pending Let_def split: prod.split sum.split)

lemma process_frame_keeps:
  assumes "process_frame env f vs = (Inr out, vs')"
  shows "vs_running vs' = vs_running vs \<and> vs_pending_nals vs' = vs_pending_nals vs"
proof -
  obtain vf now where f: "f = (vf, now)" by fastforce
  show ?thesis
    using assms init_encoder_pending(2,3) [of env vf vs]
    by (auto simp: process_frame_def f consume_force_idr_pending Let_def dest!: emit_frame_keeps split: sum.splits prod.splits)
qed

text \<open>
  The specification: the units of the camera frames in order, up to the first frame that fails; and a consumer that
  calls \<^verbatim>\<open>next_frame\<close> until it has \<open>n\<close> units or an error.
\<close>

fun encoded_units :: "'e capture_env \<Rightarrow> camera_frames \<Rightarrow> 'e video_source \<Rightarrow> nal_unit list" where
  "encoded_units env [] vs = []"
| "encoded_units env (f # fs) vs =
     (case process_frame env f vs of
        (Inl _, _) \<Rightarrow> []
      | (Inr (nals, _), vs') \<Rightarrow> nals @ encoded_units env fs vs')"

fun pull_units :: "'e capture_env \<Rightarrow> nat \<Rightarrow> camera_frames \<Rightarrow> 'e video_source \<Rightarrow> nal_unit list" where
  "pull_units env 0 frames vs = []"
| "pull_units env (Suc n) frames vs =
     (case next_frame env frames vs of
        (Inr nal, _, frames', vs') \<Rightarrow> nal # pull_units env n frames' vs'
      | (Inl _, _) \<Rightarrow> [])"

lemma encoded_units_pending: "encoded_units env fs (with_pending p vs) = encoded_units env fs vs"
proof (induction fs arbitrary: vs)
  case (Cons f fs)
  then show ?case by (simp add: process_frame_pending split: prod.split sum.split)
qed simp

lemma read_loop_units:
  assumes "vs_pending_nals vs = []"
  shows "case read_loop env fs vs of
      (Inl _, _) \<Rightarrow> encoded_units env fs vs = []
    | (Inr nal, _, fs', vs') \<Rightarrow> encoded_units env fs vs = nal # vs_pending_nals vs' @ encoded_units env fs' vs'
        \<and> vs_running vs' = vs_running vs"
  using assms
proof (induction fs arbitrary: vs)
  case (Cons f fs)
  obtain r vs1 where pf: "process_frame env f vs = (r, vs1)" by fastforce
  show ?case
  proof (cases r)
    case (Inr out)
    obtain nals sub where out: "out = (nals, sub)" by fastforce
    have vs1: "vs_running vs1 = vs_running vs" "vs_pending_nals vs1 = []"
      using process_frame_keeps pf Inr Cons.prems by fastforce+
    have wp: "vs1\<lparr>vs_pending_nals := ns\<rparr> = with_pending ns vs1" for ns by (simp add: with_pending_def)
    show ?thesis
    proof (cases nals)
      case Nil
      then show ?thesis
        using Cons.IH [of "with_pending [] vs1"] vs1
        by (cases "read_loop env fs (with_pending [] vs1)")
          (simp add: pf Inr out wp encoded_units_pending split: sum.split_asm sum.split)
    next
      case (Cons n ns)
      then show ?thesis using vs1 by (simp add: pf Inr out wp encoded_units_pending)
    qed
  qed (simp add: pf)
qed simp

lemma pull_units_take:
  assumes "vs_running vs"
  shows "pull_units env n frames vs = take n (vs_pending_nals vs @ encoded_units env frames vs)"
  using assms
proof (induction n arbitrary: frames vs)
  case (Suc n)
  show ?case
  proof (cases "vs_pending_nals vs")
    case (Cons nal rest)
    have wp: "vs\<lparr>vs_pending_nals := rest\<rparr> = with_pending rest vs" by (simp add: with_pending_def)
    show ?thesis
      using Cons Suc.IH [of "with_pending rest vs" frames] Suc.prems by (simp add: next_frame_def wp encoded_units_pending)
  next
    case Nil
    then show ?thesis
      using Suc.prems read_loop_units [OF Nil, of env frames] Suc.IH
      by (auto simp: next_frame_def split: prod.splits sum.splits)
  qed
qed simp

text \<open>C36. A running source hands out exactly the encoded units, in order: whatever number of times \<^verbatim>\<open>next_frame\<close> is
  called, the units it returns are a prefix of the queued units followed by the units of the camera frames, none lost,
  repeated or reordered, and a frame the codec skips is passed over without ending the stream; the calls stop at the
  first frame that cannot be processed or at the end of the capture channel, after all earlier units.\<close>

theorem next_frame_in_order:
  assumes "vs_running vs"
  shows "pull_units env n frames vs = take n (vs_pending_nals vs @ encoded_units env frames vs)"
  using assms by (rule pull_units_take)

definition demo_env :: "nat capture_env" where
  "demo_env = \<lparr>ce_new = \<lambda>w h _. Inr \<lparr>he_encoder = 0, he_width = w, he_height = h\<rparr>,
     ce_encode_at = \<lambda>n _ _. Inr (if n = 0 then FrameIDR else FrameP,
        if n = 1 then [] else annexb [([0, 0, 0, 1], [0x67, 1]), ([0, 0, 1], [0x65, 2])], n + 1),
     ce_force_intra = \<lambda>_. 0, ce_turbo = Some (\<lambda>_. Inr demo_frame), ce_decode_jpeg = \<lambda>_. Inl (Bail ''JPEG decode failed''),
     ce_encode_jpeg = \<lambda>_ _ _. None, ce_watermark = None, ce_sub_ratio = 1\<rparr>"

definition demo_source :: "nat video_source" where
  "demo_source = \<lparr>vs_running = True, vs_encoder = None, vs_pending_nals = [\<lparr>nu_data = [0x41], nu_is_keyframe = False\<rparr>],
     vs_width = 0, vs_height = 0, vs_latest_jpeg = None, vs_dimensions = None, vs_substream = None, vs_sub_encoder = None,
     vs_sub_frame_div = 1, vs_sub_frame_count = 0, vs_frame_count = 0, vs_hflip = False, vs_vflip = False, vs_rotation = 0,
     vs_gb_flips = None, vs_force_idr = Some False\<rparr>"

definition demo_camera :: camera_frames where
  "demo_camera = map (\<lambda>t. (\<lparr>vf_data = [0xFF, 0xD8], vf_width = 4, vf_height = 2, vf_format = ascii ''MJPEG''\<rparr>, t)) [0, 40, 80]"

theorem next_frame_in_order_witness:
  "vs_running demo_source \<and> map nu_data (pull_units demo_env 9 demo_camera demo_source) = [[0x41], [0x67, 1], [0x65, 2], [0x67, 1], [0x65, 2]]"
proof -
  have "map nu_data (encoded_units demo_env demo_camera demo_source) = [[0x67, 1], [0x65, 2], [0x67, 1], [0x65, 2]]"
    by code_simp
  moreover have "vs_running demo_source" by (simp add: demo_source_def)
  ultimately show ?thesis
    using next_frame_in_order [of demo_source demo_env 9 demo_camera] by (simp add: take_map [symmetric]) (simp add: demo_source_def)
qed

lemma process_frame_nonempty:
  "process_frame env f vs = (Inr (nals, sub), vs') \<Longrightarrow> u \<in> set nals \<Longrightarrow> nu_data u \<noteq> []"
  by (auto simp: process_frame_def emit_frame_def Let_def dest: encode_nonempty split: prod.splits sum.splits option.splits)

lemma encoded_units_nonempty: "u \<in> set (encoded_units env frames vs) \<Longrightarrow> nu_data u \<noteq> []"
proof (induction frames arbitrary: vs)
  case (Cons f fs)
  obtain r vs' where pf: "process_frame env f vs = (r, vs')" by fastforce
  show ?case using Cons process_frame_nonempty [of env f vs _ _ vs' u] by (cases r) (auto simp: pf)
qed simp

section \<open>Frames are well formed\<close>

text \<open>
  What the JPEG decoders document: they fail with an error, never a panic, and a decoded picture is not empty and has all
  its samples.
\<close>

definition decoders_ok :: "'e capture_env \<Rightarrow> bool" where
  "decoders_ok env \<longleftrightarrow>
     (\<forall>t b. ce_turbo env = Some t \<longrightarrow> (case t b of Inr f \<Rightarrow> yuv_wf f | Inl _ \<Rightarrow> True))
     \<and> (\<forall>b. case ce_decode_jpeg env b of
           Inr (pixels, w, h, fmt) \<Rightarrow> 0 < w \<and> 0 < h
             \<and> (fmt = L8 \<longrightarrow> length pixels = unat w * unat h) \<and> (fmt = RGB24 \<longrightarrow> length pixels = unat w * unat h * 3)
         | Inl (Bail _) \<Rightarrow> True
         | Inl (Panic _) \<Rightarrow> False)"

fun no_panic :: "yuv420p result \<Rightarrow> bool" where
  "no_panic (Inl (Panic m)) = False"
| "no_panic (Inl (Bail m)) = True"
| "no_panic (Inr f) = yuv_wf f"

lemma yuyv_no_panic: "0 < w \<Longrightarrow> 0 < h \<Longrightarrow> no_panic (yuyv_to_yuv420p src w h)"
  using yuyv_ref [of w h src] by (cases "unat w mod 2 = 0 \<and> unat h mod 2 = 0 \<and> unat w * unat h * 2 \<le> length src")
    (auto simp: yuv_wf_def yuyv_to_yuv420p_def)

lemma rgb_no_panic: "0 < w \<Longrightarrow> 0 < h \<Longrightarrow> no_panic (rgb8_to_yuv420p rgb w h)"
  using rgb_ref [of w h rgb] by (cases "unat w * unat h * 3 \<le> length rgb") (auto simp: yuv_wf_def rgb8_to_yuv420p_def)

lemma ucast_dims: "0 < (w :: u16) \<Longrightarrow> 0 < (ucast w :: u32) \<and> unat (ucast w :: u32) = unat w"
  proof -
  have "unat (ucast w :: u32) = unat w" using unsigned_less [where ?'a = nat, of w] by (simp add: unsigned_ucast_eq take_bit_nat_eq_self)
  then show "0 < w \<Longrightarrow> 0 < (ucast w :: u32) \<and> unat (ucast w :: u32) = unat w" by (simp add: word_less_nat_alt)
qed

lemma mjpeg_no_panic:
  assumes "decoders_ok env"
  shows "no_panic (mjpeg_to_yuv420p (ce_turbo env) (ce_decode_jpeg env) src)"
proof (cases "\<exists>t f. ce_turbo env = Some t \<and> t src = Inr f")
  case True
  then show ?thesis using assms by (auto simp: decoders_ok_def mjpeg_to_yuv420p_def split: sum.splits)
next
  case False
  then have slow: "(case ce_turbo env of None \<Rightarrow> None | Some t \<Rightarrow> ok_opt (t src)) = None"
    proof (cases "ce_turbo env")
    case (Some t)
    then show ?thesis using False by (cases "t src") auto
  qed simp
  have dec: "case ce_decode_jpeg env src of
           Inr (pixels, w, h, fmt) \<Rightarrow> 0 < w \<and> 0 < h
             \<and> (fmt = L8 \<longrightarrow> length pixels = unat w * unat h) \<and> (fmt = RGB24 \<longrightarrow> length pixels = unat w * unat h * 3)
         | Inl (Bail _) \<Rightarrow> True
         | Inl (Panic _) \<Rightarrow> False" using assms by (simp add: decoders_ok_def)
  show ?thesis
  proof (cases "ce_decode_jpeg env src")
    case (Inl e)
    then show ?thesis using dec by (cases e) (simp_all add: mjpeg_to_yuv420p_def slow)
  next
    case (Inr r)
    obtain pixels w h fmt where r: "r = (pixels, w, h, fmt)" by (metis prod_cases4)
    have d: "0 < (ucast w :: u32)" "unat (ucast w :: u32) = unat w" "0 < (ucast h :: u32)" "unat (ucast h :: u32) = unat h"
      using dec Inr r ucast_dims [of w] ucast_dims [of h] by auto
    show ?thesis
    proof (cases fmt)
      case L8
      then show ?thesis using dec Inr r d by (simp add: mjpeg_to_yuv420p_def slow Let_def yuv_new_def yuv_wf_def overwrite_def)
    next
      case RGB24
      then show ?thesis using rgb_no_panic [OF d(1,3), of pixels] Inr r by (simp add: mjpeg_to_yuv420p_def slow)
    next
      case OtherFormat
      then show ?thesis using Inr r by (simp add: mjpeg_to_yuv420p_def slow)
    qed
  qed
qed



end
