(* ===== verification/GbControl.thy ===== *)
theory GbControl
  imports CaptureSource
begin

text \<open>
  The platform's control handlers, \<^verbatim>\<open>crates/web/src/gb28181_control.rs\<close>, with the state they share with the camera
  sources: the pause gate of the recordings, the key frame request, the alarm gate and the mirror flags. The pan-tilt
  proxy is a network client and is left out.
\<close>

record gb_shared =
  gs_recording_paused :: bool
  gs_force_idr :: bool
  gs_alarm :: bool
  gs_flips :: flips

definition on_force_iframe :: "gb_shared \<Rightarrow> gb_shared" where
  "on_force_iframe gs = gs\<lparr>gs_force_idr := True\<rparr>"

definition on_record :: "bool \<Rightarrow> gb_shared \<Rightarrow> gb_shared" where
  "on_record start gs = gs\<lparr>gs_recording_paused := \<not> start\<rparr>"

definition on_alarm_report :: "u32 \<Rightarrow> u32 \<Rightarrow> gb_shared \<Rightarrow> gb_shared" where
  "on_alarm_report motion_detection field_detection gs = gs\<lparr>gs_alarm := motion_detection > 0 \<or> field_detection > 0\<rparr>"

definition mirror_mode_to_flips :: "u32 \<Rightarrow> bool \<times> bool" where
  "mirror_mode_to_flips mode =
     (if mode = 1 then (True, False) else if mode = 2 then (False, True) else if mode = 3 then (True, True) else (False, False))"

definition on_frame_mirror :: "u32 \<Rightarrow> gb_shared \<Rightarrow> gb_shared" where
  "on_frame_mirror mode gs =
     (let (hflip, vflip) = mirror_mode_to_flips mode
      in gs\<lparr>gs_flips := flips_set hflip vflip (gs_flips gs)\<rparr>)"

text \<open>
  A camera source processes a frame with the shared flags: it reads the mirror flags and swaps the key frame request
  away, as \<^verbatim>\<open>next_frame\<close> does through its \<^verbatim>\<open>Arc\<close>s.
\<close>

definition process_shared :: "'e capture_env \<Rightarrow> video_frame_in \<times> u64 \<Rightarrow> 'e video_source \<Rightarrow> gb_shared
    \<Rightarrow> (nal_unit list \<times> nal_unit list) result \<times> 'e video_source \<times> gb_shared" where
  "process_shared env f vs gs =
     (let (r, vs') = process_frame env f (vs\<lparr>vs_gb_flips := Some (gs_flips gs), vs_force_idr := Some (gs_force_idr gs)\<rparr>)
      in (r, vs', gs\<lparr>gs_force_idr := (case vs_force_idr vs' of Some b \<Rightarrow> b | None \<Rightarrow> False)\<rparr>))"

section \<open>Mirroring by the platform\<close>

lemma mirror_flips:
  "fl_hflip (gs_flips (on_frame_mirror mode gs)) = (mode = 1 \<or> mode = 3)"
  "fl_vflip (gs_flips (on_frame_mirror mode gs)) = (mode = 2 \<or> mode = 3)"
  by (simp_all add: on_frame_mirror_def mirror_mode_to_flips_def flips_set_def)

text \<open>C37. The platform's mirror command takes effect on the picture, over and above the mount's setting: after FrameMirror
  with a given mode, the device transform of a well-formed frame is the transform without platform flips followed by a
  horizontal flip for the modes 1 and 3 and a vertical flip for the modes 2 and 3; any other mode, 0 included, gives the
  mount's own picture again, so the commands do not accumulate.\<close>

theorem frame_mirror_takes_effect:
  assumes "yuv_wf f" and "rotation \<in> {0, 90, 180, 270}"
  shows "device_transform rotation sh sv (Some (gs_flips (on_frame_mirror mode gs))) f =
      and_then (device_transform rotation sh sv None f) (flip (mode = 1 \<or> mode = 3) (mode = 2 \<or> mode = 3))"
proof -
  obtain r where r: "quarter_turns (unat rotation div 90) f = Inr r" "yuv_wf r" using quarter_turns_size [OF assms] by blast
  show ?thesis
    by (simp add: device_transform_flipped [OF assms] r(1) flip_flipped flipped_planes(3) r(2) flipped_compose [OF r(2)]
        platform_flips_def flips_load_def mirror_flips)
qed

theorem frame_mirror_takes_effect_witness:
  "yuv_wf demo_frame \<and> device_transform 90 True False (Some (gs_flips (on_frame_mirror 2
       \<lparr>gs_recording_paused = False, gs_force_idr = False, gs_alarm = True, gs_flips = \<lparr>fl_hflip = True, fl_vflip = False\<rparr>\<rparr>))) demo_frame
     = and_then (device_transform 90 True False None demo_frame) (flip False True)"
  using frame_mirror_takes_effect [OF demo_frame_wf, of 90 True False 2] demo_frame_wf by simp

section \<open>Key frame requests\<close>

lemma consume_clears: "vs_force_idr (consume_force_idr env (vs\<lparr>vs_force_idr := Some b\<rparr>)) = Some False"
  by (simp add: consume_force_idr_def Let_def)

lemma substream_force: "substream_step env yuv now vs = Inr (nals, vs') \<Longrightarrow> vs_force_idr vs' = vs_force_idr vs"
  by (auto simp: substream_step_def Let_def and_then_case split: option.splits sum.splits error.splits prod.splits if_splits)

lemma jpeg_tap_force: "jpeg_tap env vf yuv vs = Inr vs' \<Longrightarrow> vs_force_idr vs' = vs_force_idr vs"
  by (auto simp: jpeg_tap_def Let_def and_then_case split: option.splits sum.splits prod.splits if_splits)

lemma emit_frame_force: "vs_force_idr (snd (emit_frame env vf now yuv vs)) = vs_force_idr vs"
  by (auto simp: emit_frame_def and_then_eq_Inr and_then_eq_Inl dest!: substream_force jpeg_tap_force
      split: sum.split prod.split option.split)

lemma process_frame_consumes:
  assumes "vs_encoder vs \<noteq> None"
  shows "vs_force_idr (snd (process_frame env f (vs\<lparr>vs_force_idr := Some b\<rparr>))) = Some False"
  using assms by (auto simp: process_frame_def init_encoder_def Let_def emit_frame_force consume_clears split: prod.split sum.split)

lemma process_frame_forced:
  assumes "vs_encoder vs = Some enc"
  shows "process_frame env f (vs\<lparr>vs_gb_flips := p, vs_force_idr := Some True\<rparr>) =
    process_frame env f (vs\<lparr>vs_encoder := Some (force_keyframe (ce_force_intra env) enc), vs_gb_flips := p, vs_force_idr := Some False\<rparr>)"
proof -
  let ?a = "vs\<lparr>vs_gb_flips := p, vs_force_idr := Some True\<rparr>"
  let ?b = "vs\<lparr>vs_encoder := Some (force_keyframe (ce_force_intra env) enc), vs_gb_flips := p, vs_force_idr := Some False\<rparr>"
  have "consume_force_idr env ?a = consume_force_idr env ?b" using assms by (simp add: consume_force_idr_def)
  moreover have "init_encoder env vf ?a = (Inr (), ?a)" "init_encoder env vf ?b = (Inr (), ?b)" for vf
    using assms by (simp_all add: init_encoder_def)
  ultimately show ?thesis by (simp only: process_frame_def split: prod.split) simp
qed

text \<open>A key frame request of the platform is served by the next camera frame, once: the frame is processed as if
  the encoder had been told to code an intra frame just before, the request is gone afterwards even when the frame
  fails, and the next frame of any camera sharing the flag is processed without it.\<close>

theorem keyframe_request_served_once:
  assumes "vs_encoder vs = Some enc" and "vs_encoder ws \<noteq> None"
  shows "process_shared env f vs (on_force_iframe gs) =
      process_shared env f (vs\<lparr>vs_encoder := Some (force_keyframe (ce_force_intra env) enc)\<rparr>) (gs\<lparr>gs_force_idr := False\<rparr>)
    \<and> (case process_shared env f vs (on_force_iframe gs) of (r, vs', gs') \<Rightarrow>
        \<not> gs_force_idr gs' \<and> gs_flips gs' = gs_flips gs
        \<and> process_shared env' f' ws gs' = process_shared env' f' ws (gs\<lparr>gs_force_idr := False\<rparr>))"
proof
  show eq: "process_shared env f vs (on_force_iframe gs) =
      process_shared env f (vs\<lparr>vs_encoder := Some (force_keyframe (ce_force_intra env) enc)\<rparr>) (gs\<lparr>gs_force_idr := False\<rparr>)"
    using process_frame_forced [OF assms(1), of env f "Some (gs_flips gs)"]
    by (simp add: process_shared_def on_force_iframe_def)
  obtain r vs' where p: "process_frame env f (vs\<lparr>vs_gb_flips := Some (gs_flips gs), vs_force_idr := Some True\<rparr>) = (r, vs')" by fastforce
  have "vs_force_idr vs' = Some False"
    using process_frame_consumes [of "vs\<lparr>vs_gb_flips := Some (gs_flips gs)\<rparr>" env f True] assms(1) p by simp
  then show "case process_shared env f vs (on_force_iframe gs) of (r, vs', gs') \<Rightarrow>
        \<not> gs_force_idr gs' \<and> gs_flips gs' = gs_flips gs
        \<and> process_shared env' f' ws gs' = process_shared env' f' ws (gs\<lparr>gs_force_idr := False\<rparr>)"
    by (simp add: process_shared_def on_force_iframe_def p)
qed

theorem keyframe_request_served_once_witness:
  "\<not> gs_force_idr (snd (snd (process_shared demo_env (hd demo_camera) (demo_source\<lparr>vs_encoder := Some \<lparr>he_encoder = 5, he_width = 4, he_height = 2\<rparr>\<rparr>)
     (on_force_iframe \<lparr>gs_recording_paused = False, gs_force_idr = False, gs_alarm = True, gs_flips = \<lparr>fl_hflip = False, fl_vflip = False\<rparr>\<rparr>))))"
proof -
  let ?vs = "demo_source\<lparr>vs_encoder := Some \<lparr>he_encoder = 5, he_width = 4, he_height = 2\<rparr>\<rparr>"
  have enc: "vs_encoder ?vs = Some \<lparr>he_encoder = 5, he_width = 4, he_height = 2\<rparr>" by simp
  then have "vs_encoder ?vs \<noteq> None" by simp
  from keyframe_request_served_once [OF enc this, of demo_env "hd demo_camera"
      "\<lparr>gs_recording_paused = False, gs_force_idr = False, gs_alarm = True, gs_flips = \<lparr>fl_hflip = False, fl_vflip = False\<rparr>\<rparr>"
      demo_env "hd demo_camera", THEN conjunct2]
  show ?thesis by (simp add: case_prod_beta)
qed

end
