(* ===== verification/FeatureGate.thy ===== *)
theory FeatureGate
  imports Text
begin

text \<open>
  The admission of features at boot: the hardware probe, the named tiers and the planner of
  \<^verbatim>\<open>crates/streaming/src/feature_gate.rs\<close>, and the tier of the language model and the memory reading of
  \<^verbatim>\<open>crates/streaming/src/tools.rs\<close>. File sizes are a parameter (\<open>fsize p\<close> is the length of the file, if it
  exists), the files of \<^verbatim>\<open>/proc\<close> and \<^verbatim>\<open>/sys\<close> are arguments.
\<close>

section \<open>Text of the probe files\<close>

text \<open>\<^verbatim>\<open>str::lines\<close>: lines end in a line feed, with an optional carriage return before it; a final empty line is dropped.\<close>

definition strip_cr :: "bytes \<Rightarrow> bytes" where
  "strip_cr l = (if l \<noteq> [] \<and> last l = 13 then butlast l else l)"

definition str_lines :: "bytes \<Rightarrow> bytes list" where
  "str_lines s =
     (let ls = split_on 10 s
      in map strip_cr (butlast ls) @ (if last ls = [] then [] else [last ls]))"

text \<open>\<^verbatim>\<open>str::split_whitespace\<close>.\<close>

fun next_word :: "bytes \<Rightarrow> bytes \<times> bytes" where
  "next_word [] = ([], [])"
| "next_word (b # bs) =
     (if 0 < ws_len (b # bs) then ([], b # bs)
      else let (w, r) = next_word bs in (b # w, r))"

lemma next_word_append: "next_word s = (w, r) \<Longrightarrow> s = w @ r"
  by (induction s arbitrary: w r) (auto split: if_splits prod.splits)

lemma next_word_shorter: "ws_len t = 0 \<Longrightarrow> t \<noteq> [] \<Longrightarrow> next_word t = (w, r) \<Longrightarrow> length r < length t"
proof (cases t)
  case (Cons b bs)
  moreover obtain w' r' where "next_word bs = (w', r')" by fastforce
  ultimately show "ws_len t = 0 \<Longrightarrow> next_word t = (w, r) \<Longrightarrow> length r < length t"
    using next_word_append [of bs w' r'] by auto
qed simp

lemma ws_len_trim_start: "ws_len (trim_start s) = 0 \<or> trim_start s = []"
  by (induction s rule: trim_start.induct) (metis trim_start.simps gr0I)

function split_whitespace :: "bytes \<Rightarrow> bytes list" where
  "split_whitespace s =
     (let t = trim_start s
      in if t = [] then [] else let (w, r) = next_word t in w # split_whitespace r)"
  by pat_completeness auto
termination
proof (relation "measure length", goal_cases)
  case (2 s t wr w r)
  then have "length r < length t" using ws_len_trim_start [of s] next_word_shorter [of t w r] by auto
  then show ?case using length_trim_start [of s] 2(1) by simp
qed simp

declare split_whitespace.simps [simp del]

text \<open>\<^verbatim>\<open>str::trim_end_matches\<close> for a string pattern.\<close>

function trim_end_matches :: "bytes \<Rightarrow> bytes \<Rightarrow> bytes" where
  "trim_end_matches p s =
     (if p \<noteq> [] \<and> s \<noteq> [] \<and> ends_with p s then trim_end_matches p (take (length s - length p) s) else s)"
  by pat_completeness auto
termination
  by (relation "measure (\<lambda>(p, s). length s)") auto

declare trim_end_matches.simps [simp del]

section \<open>Hardware\<close>

datatype simd_class = Baseline | Avx2 | Avx512Vnni

fun simd_rank :: "simd_class \<Rightarrow> nat" where
  "simd_rank Baseline = 0"
| "simd_rank Avx2 = 1"
| "simd_rank Avx512Vnni = 2"

instantiation simd_class :: linorder
begin

definition less_eq_simd_class :: "simd_class \<Rightarrow> simd_class \<Rightarrow> bool" where
  "less_eq_simd_class a b \<longleftrightarrow> simd_rank a \<le> simd_rank b"

definition less_simd_class :: "simd_class \<Rightarrow> simd_class \<Rightarrow> bool" where
  "less_simd_class a b \<longleftrightarrow> simd_rank a < simd_rank b"

instance
proof
  fix a b :: simd_class
  assume "a \<le> b" "b \<le> a"
  then show "a = b" by (cases a; cases b) (simp_all add: less_eq_simd_class_def)
qed (auto simp: less_eq_simd_class_def less_simd_class_def)

end

definition from_flags :: "bytes \<Rightarrow> simd_class" where
  "from_flags flags =
     (let has = (\<lambda>k. \<exists>f \<in> set (split_whitespace flags). f = k)
      in if has (ascii ''avx512_vnni'') then Avx512Vnni
         else if has (ascii ''avx2'') then Avx2
         else Baseline)"

record cpu_info =
  ci_physical_cores :: u32
  ci_simd :: simd_class

record cpu_scan =
  cs_pairs :: "(bytes \<times> bytes) list"
  cs_logical :: u32
  cs_saw_physical :: bool
  cs_phys :: bytes
  cs_simd :: simd_class
  cs_flags_seen :: bool

definition scan_line :: "bytes \<Rightarrow> cpu_scan \<Rightarrow> cpu_scan" where
  "scan_line line st =
     (case split_once 58 line of
        None \<Rightarrow> st
      | Some (k, v) \<Rightarrow>
          let k = trim k
          in if k = ascii ''processor'' then st\<lparr>cs_logical := cs_logical st + 1\<rparr>
             else if k = ascii ''physical id'' then st\<lparr>cs_phys := trim v, cs_saw_physical := True\<rparr>
             else if k = ascii ''core id'' then st\<lparr>cs_pairs := List.insert (cs_phys st, trim v) (cs_pairs st)\<rparr>
             else if k = ascii ''flags'' \<and> \<not> cs_flags_seen st then st\<lparr>cs_flags_seen := True, cs_simd := from_flags (trim v)\<rparr>
             else st)"

definition scan_init :: cpu_scan where
  "scan_init = \<lparr>cs_pairs = [], cs_logical = 0, cs_saw_physical = False, cs_phys = [], cs_simd = Baseline, cs_flags_seen = False\<rparr>"

definition parse_cpuinfo :: "bytes \<Rightarrow> cpu_info" where
  "parse_cpuinfo txt =
     (let st = fold scan_line (str_lines txt) scan_init
      in if cs_saw_physical st \<and> cs_pairs st \<noteq> []
         then \<lparr>ci_physical_cores = of_nat (length (cs_pairs st)), ci_simd = cs_simd st\<rparr>
         else \<lparr>ci_physical_cores = cs_logical st, ci_simd = cs_simd st\<rparr>)"

definition battery_powered :: "bytes list \<Rightarrow> bool" where
  "battery_powered supply_types \<longleftrightarrow> (\<exists>t \<in> set supply_types. eq_ignore_ascii_case t (ascii ''Battery''))"

record hardware_profile =
  hp_physical_cores :: u32
  hp_simd :: simd_class
  hp_battery :: bool

text \<open>\<open>cpuinfo\<close> is the contents of \<^verbatim>\<open>/proc/cpuinfo\<close>, if readable; \<open>supplies\<close> the contents of the \<^verbatim>\<open>type\<close> files of the
  power supplies that could be read, if the directory exists.\<close>

definition detect :: "bytes option \<Rightarrow> bytes list option \<Rightarrow> hardware_profile" where
  "detect cpuinfo supplies =
     (let ci = parse_cpuinfo (case cpuinfo of None \<Rightarrow> [] | Some t \<Rightarrow> t)
      in \<lparr>hp_physical_cores = ci_physical_cores ci, hp_simd = ci_simd ci,
          hp_battery = (case supplies of None \<Rightarrow> False | Some types \<Rightarrow> battery_powered types)\<rparr>)"

section \<open>Tiers\<close>

datatype tier = Minimal | Basic | Standard | Full

fun tier_rank :: "tier \<Rightarrow> nat" where
  "tier_rank Minimal = 0"
| "tier_rank Basic = 1"
| "tier_rank Standard = 2"
| "tier_rank Full = 3"

instantiation tier :: linorder
begin

definition less_eq_tier :: "tier \<Rightarrow> tier \<Rightarrow> bool" where
  "less_eq_tier a b \<longleftrightarrow> tier_rank a \<le> tier_rank b"

definition less_tier :: "tier \<Rightarrow> tier \<Rightarrow> bool" where
  "less_tier a b \<longleftrightarrow> tier_rank a < tier_rank b"

instance
proof
  fix a b :: tier
  assume "a \<le> b" "b \<le> a"
  then show "a = b" by (cases a; cases b) (simp_all add: less_eq_tier_def)
qed (auto simp: less_eq_tier_def less_tier_def)

end

fun tier_name :: "tier \<Rightarrow> string" where
  "tier_name Minimal = ''minimal''"
| "tier_name Basic = ''basic''"
| "tier_name Standard = ''standard''"
| "tier_name Full = ''full''"

definition tier_from_name :: "string \<Rightarrow> tier option" where
  "tier_from_name name =
     (if name = ''minimal'' then Some Minimal else if name = ''basic'' then Some Basic
      else if name = ''standard'' then Some Standard else if name = ''full'' then Some Full else None)"

definition tier_includes :: "tier \<Rightarrow> string \<Rightarrow> bool" where
  "tier_includes t feature =
     (if feature \<in> {''ai'', ''audio_ai''} then True
      else if feature \<in> {''voice'', ''llm'', ''tts'', ''decision''} then Basic \<le> t
      else if feature \<in> {''face'', ''ocr''} then Standard \<le> t
      else if feature \<in> {''meeting'', ''vlm''} then Full \<le> t
      else True)"

datatype tier_source = FromHardware | FromConfig

fun tier_source_name :: "tier_source \<Rightarrow> string" where
  "tier_source_name FromHardware = ''hardware''"
| "tier_source_name FromConfig = ''config''"

record tier_context =
  tc_tier :: tier
  tc_source :: tier_source
  tc_profile :: hardware_profile

definition resolve_tier :: "hardware_profile \<Rightarrow> u64 \<Rightarrow> tier" where
  "resolve_tier profile total_mib =
     (if 4 \<le> hp_physical_cores profile \<and> Avx2 \<le> hp_simd profile \<and> 12 * 1024 \<le> total_mib then Full
      else if 4 \<le> hp_physical_cores profile \<and> 8 * 1024 \<le> total_mib then Standard
      else if 2 \<le> hp_physical_cores profile \<and> 3584 \<le> total_mib then Basic
      else Minimal)"

section \<open>The planner\<close>

datatype reason = ReasonOn | OffConfig | OffBudget | Dependency | OffTier

fun disables :: "reason \<Rightarrow> bool" where
  "disables r = (r = OffBudget \<or> r = OffTier)"

record feature_decision =
  fd_name :: string
  fd_cost_mib :: u64
  fd_admitted :: bool
  fd_reason :: reason

record feature_input =
  fi_name :: string
  fi_enabled :: bool
  fi_model_paths :: "bytes list"
  fi_overhead_mib :: u64
  fi_depends_on :: "string option"

record resource_profile =
  rp_mode :: string
  rp_tier :: string
  rp_preset_source :: string
  rp_profile :: hardware_profile
  rp_total_mib :: u64
  rp_available_mib :: u64
  rp_budget_mib :: u64
  rp_reserve_mib :: u64
  rp_features :: "feature_decision list"

definition div_ceil :: "u64 \<Rightarrow> u64 \<Rightarrow> u64" where
  "div_ceil a b = (let q = a div b; r = a mod b in if 0 < r then q + 1 else q)"

definition file_cost_mib :: "(bytes \<Rightarrow> u64 option) \<Rightarrow> bytes list \<Rightarrow> u64" where
  "file_cost_mib fsize paths =
     (let sum_bytes = sum_list (List.map_filter fsize paths);
          mib = div_ceil sum_bytes (1024 * 1024)
      in div_ceil (mib * 115) 100)"

definition feature_cost :: "(bytes \<Rightarrow> u64 option) \<Rightarrow> feature_input \<Rightarrow> u64" where
  "feature_cost fsize f = file_cost_mib fsize (fi_model_paths f) + fi_overhead_mib f"

definition sat_add :: "u64 \<Rightarrow> u64 \<Rightarrow> u64" where
  "sat_add a b = (if a \<le> - 1 - b then a + b else - 1)"

text \<open>One turn of the planner's loop, on the memory used and the decisions so far.\<close>

definition plan_step :: "(bytes \<Rightarrow> u64 option) \<Rightarrow> bool \<Rightarrow> tier \<Rightarrow> u64 \<Rightarrow> feature_input \<Rightarrow> u64 \<times> feature_decision list \<Rightarrow> u64 \<times> feature_decision list" where
  "plan_step fsize all t budget f = (\<lambda>(used, decisions).
     let cost = feature_cost fsize f;
         decide = (\<lambda>admitted why. decisions @ [\<lparr>fd_name = fi_name f, fd_cost_mib = cost, fd_admitted = admitted, fd_reason = why\<rparr>])
     in if \<not> fi_enabled f then (used, decide False OffConfig)
        else if all then (used, decide True ReasonOn)
        else if \<not> tier_includes t (fi_name f) then (used, decide False OffTier)
        else if (case fi_depends_on f of None \<Rightarrow> False
                 | Some dep \<Rightarrow> \<exists>d \<in> set decisions. fd_name d = dep \<and> \<not> fd_admitted d) then (used, decide False Dependency)
        else if sat_add used cost \<le> budget then (used + cost, decide True ReasonOn)
        else (used, decide False OffBudget))"

definition plan :: "(bytes \<Rightarrow> u64 option) \<Rightarrow> feature_input list \<Rightarrow> bytes \<Rightarrow> tier_context \<Rightarrow> u64 \<Rightarrow> u64 \<Rightarrow> u64 \<Rightarrow> resource_profile" where
  "plan fsize inputs mode t total_mib available_mib reserve_mib =
     (let all = eq_ignore_ascii_case mode (ascii ''all'');
          budget = (if all then available_mib else if reserve_mib \<le> available_mib then available_mib - reserve_mib else 0);
          (used, decisions) = fold (plan_step fsize all (tc_tier t) budget) inputs (0, [])
      in \<lparr>rp_mode = (if all then ''all'' else ''auto''), rp_tier = (if all then tier_name Full else tier_name (tc_tier t)),
          rp_preset_source = tier_source_name (tc_source t), rp_profile = tc_profile t, rp_total_mib = total_mib,
          rp_available_mib = available_mib, rp_budget_mib = budget, rp_reserve_mib = reserve_mib, rp_features = decisions\<rparr>)"

section \<open>The language model's tier and the memory reading\<close>

definition llm_rank :: "string \<Rightarrow> nat" where
  "llm_rank t = (if t = ''full'' then 2 else if t = ''mid'' then 1 else 0)"

text \<open>\<^verbatim>\<open>Iterator::min_by_key\<close>: the first of the smallest.\<close>

fun min_by_rank :: "string list \<Rightarrow> string option" where
  "min_by_rank [] = None"
| "min_by_rank (t # ts) = (case min_by_rank ts of None \<Rightarrow> Some t | Some m \<Rightarrow> Some (if llm_rank t \<le> llm_rank m then t else m))"

definition suggested_tier :: "u64 \<Rightarrow> string" where
  "suggested_tier avail_mib = (if 8 * 1024 \<le> avail_mib then ''full'' else if 4 * 1024 \<le> avail_mib then ''mid'' else ''lite'')"

definition core_cap :: "u32 \<Rightarrow> string" where
  "core_cap physical_cores = (if physical_cores < 2 then ''lite'' else if physical_cores < 4 then ''mid'' else ''full'')"

definition rank_cap :: "string \<Rightarrow> string" where
  "rank_cap tier_cap = (case tier_from_name tier_cap of Some Minimal \<Rightarrow> ''lite'' | Some Basic \<Rightarrow> ''mid'' | _ \<Rightarrow> ''full'')"

definition resolve_llm_tier :: "bytes \<Rightarrow> bytes \<Rightarrow> bytes \<Rightarrow> bool \<Rightarrow> u64 \<Rightarrow> u32 \<Rightarrow> string \<Rightarrow> bytes \<times> string" where
  "resolve_llm_tier model_path model_path_mid model_path_lite auto_tier avail_mib physical_cores tier_cap =
     (if \<not> auto_tier then (model_path, ''manual'')
      else let effective = (case min_by_rank [suggested_tier avail_mib, core_cap physical_cores, rank_cap tier_cap] of
                              None \<Rightarrow> ''lite'' | Some t \<Rightarrow> t)
           in if effective = ''mid'' \<and> model_path_mid \<noteq> [] then (model_path_mid, ''mid'')
              else if effective = ''lite'' \<and> model_path_lite \<noteq> [] then (model_path_lite, ''lite'')
              else (model_path, effective))"

definition parse_kb :: "bytes \<Rightarrow> nat option" where
  "parse_kb rest = parse_uint 10 (2 ^ 64 - 1) (trim (trim_end_matches (ascii ''kB'') (trim rest)))"

definition mem_line :: "bytes \<Rightarrow> nat option \<times> nat \<Rightarrow> nat option \<times> nat" where
  "mem_line line = (\<lambda>(tot, avail).
     case strip_prefix (ascii ''MemTotal:'') line of
       Some rest \<Rightarrow> (parse_kb rest, avail)
     | None \<Rightarrow> (case strip_prefix (ascii ''MemAvailable:'') line of
                 Some rest \<Rightarrow> (tot, case parse_kb rest of None \<Rightarrow> 0 | Some n \<Rightarrow> n)
               | None \<Rightarrow> (tot, avail)))"

definition parse_memory_mib :: "bytes \<Rightarrow> (nat \<times> nat) option" where
  "parse_memory_mib txt =
     (case fold mem_line (str_lines txt) (None, 0) of
        (None, _) \<Rightarrow> None
      | (Some tot, avail) \<Rightarrow> Some (tot div 1024, avail div 1024))"

section \<open>What is admitted\<close>

definition admitted_cost :: "feature_decision list \<Rightarrow> nat" where
  "admitted_cost ds = (\<Sum>d\<leftarrow>ds. if fd_admitted d then unat (fd_cost_mib d) else 0)"

definition dependency_failed :: "feature_input \<Rightarrow> feature_decision list \<Rightarrow> bool" where
  "dependency_failed f ds \<longleftrightarrow>
     (case fi_depends_on f of None \<Rightarrow> False | Some dep \<Rightarrow> \<exists>d \<in> set ds. fd_name d = dep \<and> \<not> fd_admitted d)"

text \<open>The verdict on a feature, given the decisions on the features before it.\<close>

definition verdict :: "(bytes \<Rightarrow> u64 option) \<Rightarrow> tier \<Rightarrow> u64 \<Rightarrow> feature_decision list \<Rightarrow> feature_input \<Rightarrow> reason" where
  "verdict fsize t budget ds f =
     (if \<not> fi_enabled f then OffConfig
      else if \<not> tier_includes t (fi_name f) then OffTier
      else if dependency_failed f ds then Dependency
      else if admitted_cost ds + unat (feature_cost fsize f) \<le> unat budget then ReasonOn
      else OffBudget)"

lemma admitted_cost_simps [simp]:
  "admitted_cost [] = 0" "admitted_cost (ds @ es) = admitted_cost ds + admitted_cost es"
  "admitted_cost [d] = (if fd_admitted d then unat (fd_cost_mib d) else 0)"
  by (simp_all add: admitted_cost_def)

lemma unat_lt2p_64: "unat (a :: u64) < 2 ^ 64"
  using unsigned_less [of a] by simp

lemma unat_max_64: "unat (- 1 :: u64) = 2 ^ 64 - 1"
  by (simp add: unsigned_minus_1_eq_mask mask_eq_exp_minus_1)

lemma sat_add_le:
  assumes "budget < - 1"
  shows "sat_add a b \<le> budget \<longleftrightarrow> unat a + unat b \<le> unat budget"
proof -
  have "unat (- 1 - b) = unat (- 1 :: u64) - unat b" by (rule unat_sub) simp
  then have le: "a \<le> - 1 - b \<longleftrightarrow> unat a + unat b < 2 ^ 64"
    using unat_lt2p_64 [of b] by (auto simp: word_le_nat_alt unat_max_64)
  have budget: "unat budget < 2 ^ 64 - 1"
    using assms by (simp add: word_less_nat_alt unat_max_64)
  show ?thesis
  proof (cases "unat a + unat b < 2 ^ 64")
    case True
    then have "unat (a + b) = unat a + unat b" by (simp add: unat_word_ariths)
    with True le show ?thesis by (simp add: sat_add_def word_le_nat_alt)
  next
    case False
    with le budget assms show ?thesis by (auto simp: sat_add_def not_le)
  qed
qed

lemma add_unat:
  assumes "unat (a :: u64) + unat b \<le> unat (c :: u64)"
  shows "unat (a + b) = unat a + unat b"
  using assms unat_lt2p_64 [of c] by (simp add: unat_word_ariths)

text \<open>The run of the planner in automatic mode, one feature at a time.\<close>

definition plan_run :: "(bytes \<Rightarrow> u64 option) \<Rightarrow> tier \<Rightarrow> u64 \<Rightarrow> feature_input list \<Rightarrow> u64 \<times> feature_decision list" where
  "plan_run fsize t budget inputs = fold (plan_step fsize False t budget) inputs (0, [])"

definition decision_of :: "(bytes \<Rightarrow> u64 option) \<Rightarrow> tier \<Rightarrow> u64 \<Rightarrow> feature_decision list \<Rightarrow> feature_input \<Rightarrow> feature_decision" where
  "decision_of fsize t budget ds f =
     (let why = verdict fsize t budget ds f
      in \<lparr>fd_name = fi_name f, fd_cost_mib = feature_cost fsize f, fd_admitted = (why = ReasonOn), fd_reason = why\<rparr>)"

lemma plan_step_verdict:
  assumes "budget < - 1" and "unat used = admitted_cost ds" and "admitted_cost ds \<le> unat budget"
    and "plan_step fsize False t budget f (used, ds) = (used', ds')"
  shows "ds' = ds @ [decision_of fsize t budget ds f] \<and> unat used' = admitted_cost ds' \<and> admitted_cost ds' \<le> unat budget"
  using assms(2-4) add_unat [of used "feature_cost fsize f" budget]
  by (auto simp: plan_step_def decision_of_def verdict_def dependency_failed_def sat_add_le [OF assms(1)] Let_def split: if_splits)

lemma plan_run_snoc:
  assumes "budget < - 1"
  shows "unat (fst (plan_run fsize t budget inputs)) = admitted_cost (snd (plan_run fsize t budget inputs))
      \<and> admitted_cost (snd (plan_run fsize t budget inputs)) \<le> unat budget"
    and "snd (plan_run fsize t budget (inputs @ [f])) =
      snd (plan_run fsize t budget inputs) @ [decision_of fsize t budget (snd (plan_run fsize t budget inputs)) f]"
proof -
  have step: "plan_run fsize t budget (xs @ [x]) = plan_step fsize False t budget x (plan_run fsize t budget xs)" for xs x
    by (simp add: plan_run_def)
  show inv: "unat (fst (plan_run fsize t budget inputs)) = admitted_cost (snd (plan_run fsize t budget inputs))
      \<and> admitted_cost (snd (plan_run fsize t budget inputs)) \<le> unat budget"
  proof (induction inputs rule: rev_induct)
    case (snoc x xs)
    obtain u ds where run: "plan_run fsize t budget xs = (u, ds)" by fastforce
    obtain u' ds' where step': "plan_step fsize False t budget x (u, ds) = (u', ds')" by fastforce
    have "unat u = admitted_cost ds" "admitted_cost ds \<le> unat budget" using snoc by (simp_all add: run)
    from plan_step_verdict [OF assms this step'] show ?case unfolding step run step' fst_conv snd_conv by blast
  qed (simp add: plan_run_def)
  obtain u ds where run: "plan_run fsize t budget inputs = (u, ds)" by fastforce
  obtain u' ds' where step': "plan_step fsize False t budget f (u, ds) = (u', ds')" by fastforce
  show "snd (plan_run fsize t budget (inputs @ [f])) =
      snd (plan_run fsize t budget inputs) @ [decision_of fsize t budget (snd (plan_run fsize t budget inputs)) f]"
    using plan_step_verdict [OF assms _ _ step'] inv by (simp add: step run step')
qed

lemma plan_run_nth:
  assumes "budget < - 1"
  shows "length (snd (plan_run fsize t budget inputs)) = length inputs
    \<and> (\<forall>i < length inputs. snd (plan_run fsize t budget inputs) ! i =
         decision_of fsize t budget (take i (snd (plan_run fsize t budget inputs))) (inputs ! i))"
proof (induction inputs rule: rev_induct)
  case (snoc x xs)
  then show ?case by (auto simp: plan_run_snoc(2) [OF assms] nth_append less_Suc_eq)
qed (simp add: plan_run_def)

lemma plan_features:
  assumes "\<not> eq_ignore_ascii_case mode (ascii ''all'')" and "available_mib < - 1"
  shows "rp_features (plan fsize inputs mode tctx total_mib available_mib reserve_mib) =
      snd (plan_run fsize (tc_tier tctx) (rp_budget_mib (plan fsize inputs mode tctx total_mib available_mib reserve_mib)) inputs)"
    and "unat (rp_budget_mib (plan fsize inputs mode tctx total_mib available_mib reserve_mib)) = unat available_mib - unat reserve_mib"
    and "rp_budget_mib (plan fsize inputs mode tctx total_mib available_mib reserve_mib) < - 1"
proof -
  define budget where "budget = (if reserve_mib \<le> available_mib then available_mib - reserve_mib else 0)"
  have b: "rp_budget_mib (plan fsize inputs mode tctx total_mib available_mib reserve_mib) = budget"
    using assms(1) by (simp add: plan_def budget_def case_prod_beta Let_def)
  show ub: "unat (rp_budget_mib (plan fsize inputs mode tctx total_mib available_mib reserve_mib)) = unat available_mib - unat reserve_mib"
    unfolding b by (auto simp: budget_def word_le_nat_alt unat_sub)
  show "rp_budget_mib (plan fsize inputs mode tctx total_mib available_mib reserve_mib) < - 1"
    using assms(2) ub by (simp add: word_less_nat_alt)
  show "rp_features (plan fsize inputs mode tctx total_mib available_mib reserve_mib) =
      snd (plan_run fsize (tc_tier tctx) (rp_budget_mib (plan fsize inputs mode tctx total_mib available_mib reserve_mib)) inputs)"
    unfolding b using assms(1) by (simp add: plan_def budget_def plan_run_def case_prod_beta Let_def)
qed

text \<open>The planner admits features greedily in priority order within the budget: in automatic mode there is one
  decision per feature, in order; a feature is admitted exactly when it is enabled, inside the tier, its dependency was not
  turned down before it and its cost fits the budget beside what the features before it take, with the reason naming the
  first test that fails; the admitted features together never exceed the budget.\<close>

theorem plan_admits_greedily:
  assumes "\<not> eq_ignore_ascii_case mode (ascii ''all'')" and "available_mib < - 1"
  shows "let p = plan fsize inputs mode tctx total_mib available_mib reserve_mib in
    length (rp_features p) = length inputs
    \<and> (\<forall>i < length inputs. rp_features p ! i =
         (let why = verdict fsize (tc_tier tctx) (rp_budget_mib p) (take i (rp_features p)) (inputs ! i)
          in \<lparr>fd_name = fi_name (inputs ! i), fd_cost_mib = feature_cost fsize (inputs ! i), fd_admitted = (why = ReasonOn), fd_reason = why\<rparr>))
    \<and> admitted_cost (rp_features p) \<le> unat (rp_budget_mib p)
    \<and> unat (rp_budget_mib p) = unat available_mib - unat reserve_mib"
proof -
  note f = plan_features [OF assms, of fsize inputs tctx total_mib reserve_mib]
  show ?thesis
    using plan_run_nth [OF f(3), of fsize "tc_tier tctx" inputs] plan_run_snoc(1) [OF f(3), of fsize "tc_tier tctx" inputs] f(2)
    unfolding Let_def by (simp add: f(1) [symmetric] decision_of_def Let_def)
qed

definition demo_inputs :: "feature_input list" where
  "demo_inputs =
     [\<lparr>fi_name = ''voice'', fi_enabled = True, fi_model_paths = [ascii ''kws''], fi_overhead_mib = 60, fi_depends_on = None\<rparr>,
      \<lparr>fi_name = ''llm'', fi_enabled = True, fi_model_paths = [], fi_overhead_mib = 80, fi_depends_on = None\<rparr>,
      \<lparr>fi_name = ''decision'', fi_enabled = True, fi_model_paths = [], fi_overhead_mib = 40, fi_depends_on = Some ''voice''\<rparr>]"

definition demo_context :: tier_context where
  "demo_context = \<lparr>tc_tier = Basic, tc_source = FromConfig, tc_profile = \<lparr>hp_physical_cores = 2, hp_simd = Avx2, hp_battery = False\<rparr>\<rparr>"

theorem plan_admits_greedily_witness:
  "\<not> eq_ignore_ascii_case (ascii ''auto'') (ascii ''all'')
   \<and> admitted_cost (rp_features (plan (\<lambda>p. Some 10485760) demo_inputs (ascii ''auto'') demo_context 4096 612 512)) \<le> 100"
proof -
  have mode: "\<not> eq_ignore_ascii_case (ascii ''auto'') (ascii ''all'')" by code_simp
  moreover have "(612 :: u64) < - 1" by simp
  ultimately show ?thesis
    using plan_admits_greedily [of "ascii ''auto''" 612 "\<lambda>p. Some 10485760" demo_inputs demo_context 4096 512]
    by (simp add: Let_def)
qed

section \<open>The language model's tier\<close>

text \<open>The model chosen automatically is never above what memory, cores or the pinned tier allow, and is the largest such.\<close>

lemma tier_caps: "suggested_tier m \<in> {''full'', ''mid'', ''lite''}" "core_cap c \<in> {''full'', ''mid'', ''lite''}"
  "rank_cap p \<in> {''full'', ''mid'', ''lite''}"
  by (simp_all add: suggested_tier_def core_cap_def rank_cap_def split: option.split tier.split)

lemma resolve_llm_tier_rank:
  assumes "resolve_llm_tier mp mid lite True avail_mib cores cap = (path, t)"
  shows "llm_rank t = min (llm_rank (suggested_tier avail_mib)) (min (llm_rank (core_cap cores)) (llm_rank (rank_cap cap)))
    \<and> path = (if t = ''mid'' \<and> mid \<noteq> [] then mid else if t = ''lite'' \<and> lite \<noteq> [] then lite else mp)"
proof -
  define a b c where "a = suggested_tier avail_mib" and "b = core_cap cores" and "c = rank_cap cap"
  define e where "e = (case min_by_rank [a, b, c] of None \<Rightarrow> ''lite'' | Some t \<Rightarrow> t)"
  have abc: "a \<in> {''full'', ''mid'', ''lite''}" "b \<in> {''full'', ''mid'', ''lite''}" "c \<in> {''full'', ''mid'', ''lite''}"
    using tier_caps by (simp_all only: a_def b_def c_def)
  then have "llm_rank e = min (llm_rank a) (min (llm_rank b) (llm_rank c))"
    unfolding e_def by (elim insertE emptyE; simp add: llm_rank_def)
  moreover have "e = t \<and> path = (if t = ''mid'' \<and> mid \<noteq> [] then mid else if t = ''lite'' \<and> lite \<noteq> [] then lite else mp)"
    using assms unfolding resolve_llm_tier_def a_def [symmetric] b_def [symmetric] c_def [symmetric] e_def [symmetric]
    by (auto simp: Let_def split: if_splits)
  ultimately show ?thesis by (simp add: a_def b_def c_def)
qed

text \<open>More memory or more cores never lower the boot tier.\<close>

lemma resolve_tier_mono:
  assumes "hp_physical_cores p \<le> hp_physical_cores q" and "hp_simd p \<le> hp_simd q" and "m \<le> n"
  shows "resolve_tier p m \<le> resolve_tier q n"
proof -
  have "4 \<le> hp_physical_cores p \<Longrightarrow> 4 \<le> hp_physical_cores q" "2 \<le> hp_physical_cores p \<Longrightarrow> 2 \<le> hp_physical_cores q"
    "4 \<le> hp_physical_cores q \<Longrightarrow> 2 \<le> hp_physical_cores q" "Avx2 \<le> hp_simd p \<Longrightarrow> Avx2 \<le> hp_simd q"
    "12 * 1024 \<le> m \<Longrightarrow> 12 * 1024 \<le> n" "8 * 1024 \<le> m \<Longrightarrow> 8 * 1024 \<le> n" "3584 \<le> m \<Longrightarrow> 3584 \<le> n"
    "12 * 1024 \<le> n \<Longrightarrow> 8 * 1024 \<le> n" "8 * 1024 \<le> n \<Longrightarrow> 3584 \<le> n"
    using assms by (auto simp: word_le_nat_alt)
  then show ?thesis unfolding resolve_tier_def by (auto simp: less_eq_tier_def)
qed

end
