(* ===== verification/BootGate.thy ===== *)
theory BootGate
  imports FeatureGate
begin

text \<open>
  The boot path that decides which engines start: the form profiles of \<^verbatim>\<open>src/runtime/forms.rs\<close> and the resource
  admission in \<^verbatim>\<open>src/runtime/full.rs\<close> (elastic override of the language model, tiers, the list of features, the
  plan and its application). Of the configuration, the switches of the sections, the model paths the gate charges and the
  \<^verbatim>\<open>[resources]\<close> section are kept.
\<close>

section \<open>Configuration\<close>

record switches =
  sw_ai :: bool
  sw_audio_ai :: bool
  sw_voice :: bool
  sw_llm :: bool
  sw_tts :: bool
  sw_decision :: bool
  sw_face :: bool
  sw_ocr :: bool
  sw_meeting :: bool
  sw_vlm :: bool
  sw_conversations :: bool
  sw_agent :: bool

record model_files =
  mf_ai_model :: bytes
  mf_audio_model :: bytes
  mf_audio_vad :: bytes
  mf_kws_encoder :: bytes
  mf_kws_decoder :: bytes
  mf_kws_joiner :: bytes
  mf_paraformer :: bytes
  mf_speaker_verify :: bool
  mf_speaker_embedding :: bytes
  mf_llm :: bytes
  mf_llm_mid :: bytes
  mf_llm_lite :: bytes
  mf_tts :: bytes
  mf_tts_yue :: bytes
  mf_tts_en :: bytes
  mf_decision_model :: bytes
  mf_decision_tokenizer :: bytes
  mf_face_detect :: bytes
  mf_face_recog :: bytes
  mf_ocr_det :: bytes
  mf_ocr_rec :: bytes
  mf_segmentation :: bytes
  mf_punctuation :: bytes
  mf_vlm :: bytes
  mf_vlm_mmproj :: bytes

record resources_config =
  rs_auto_tier :: bool
  rs_feature_gate :: bytes
  rs_reserve_mib :: u64
  rs_tier :: string

record app_config =
  ac_switches :: switches
  ac_files :: model_files
  ac_resources :: resources_config

section \<open>Forms\<close>

record form_profile =
  fp_vision_ai :: bool
  fp_audio :: bool
  fp_voice_out :: bool
  fp_dialogue :: bool

definition for_form :: "string \<Rightarrow> form_profile" where
  "for_form form =
     (if form = ''cam'' then \<lparr>fp_vision_ai = True, fp_audio = True, fp_voice_out = False, fp_dialogue = False\<rparr>
      else if form = ''mic'' then \<lparr>fp_vision_ai = False, fp_audio = True, fp_voice_out = False, fp_dialogue = False\<rparr>
      else if form = ''talk'' then \<lparr>fp_vision_ai = False, fp_audio = True, fp_voice_out = True, fp_dialogue = False\<rparr>
      else \<lparr>fp_vision_ai = True, fp_audio = True, fp_voice_out = True, fp_dialogue = True\<rparr>)"

definition form_apply :: "form_profile \<Rightarrow> switches \<Rightarrow> switches" where
  "form_apply p sw =
     (let sw = (if \<not> fp_audio p then sw\<lparr>sw_audio_ai := False, sw_voice := False\<rparr> else sw);
          sw = (if \<not> fp_voice_out p \<and> sw_tts sw then sw\<lparr>sw_tts := False\<rparr> else sw);
          sw = (if \<not> fp_dialogue p then
                  sw\<lparr>sw_llm := False, sw_vlm := False, sw_decision := False, sw_meeting := False, sw_conversations := False, sw_agent := False\<rparr>
                else sw)
      in if \<not> fp_vision_ai p then sw\<lparr>sw_ai := False, sw_face := False, sw_ocr := False\<rparr> else sw)"

section \<open>Admission\<close>

text \<open>The tier the elastic controller left in the settings: \<open>None\<close> if the row is missing or unreadable.\<close>

definition elastic_override :: "string option \<Rightarrow> model_files \<Rightarrow> model_files" where
  "elastic_override setting mf =
     (case setting of
        None \<Rightarrow> mf
      | Some t \<Rightarrow>
          if t \<in> set [''full'', ''mid'', ''lite''] then
            let pinned = (if t = ''mid'' \<and> mf_llm_mid mf \<noteq> [] then Some (mf_llm_mid mf)
                          else if t = ''lite'' \<and> mf_llm_lite mf \<noteq> [] then Some (mf_llm_lite mf)
                          else None)
            in (case pinned of None \<Rightarrow> mf | Some path \<Rightarrow> if path \<noteq> mf_llm mf then mf\<lparr>mf_llm := path\<rparr> else mf)
          else mf)"

definition boot_tier :: "string \<Rightarrow> hardware_profile \<Rightarrow> u64 \<Rightarrow> tier \<times> tier_source" where
  "boot_tier name hardware total_mib =
     (case tier_from_name name of
        Some t \<Rightarrow> (t, FromConfig)
      | None \<Rightarrow> (resolve_tier hardware total_mib, FromHardware))"

definition voice_paths :: "model_files \<Rightarrow> bytes list" where
  "voice_paths mf =
     [mf_kws_encoder mf, mf_kws_decoder mf, mf_kws_joiner mf, mf_paraformer mf]
     @ (if mf_speaker_verify mf then [mf_speaker_embedding mf] else [])"

definition tts_paths :: "model_files \<Rightarrow> bytes list" where
  "tts_paths mf = filter (\<lambda>p. p \<noteq> []) [mf_tts mf, mf_tts_yue mf, mf_tts_en mf]"

definition feature :: "string \<Rightarrow> bool \<Rightarrow> bytes list \<Rightarrow> u64 \<Rightarrow> string option \<Rightarrow> feature_input" where
  "feature name enabled paths overhead dep =
     \<lparr>fi_name = name, fi_enabled = enabled, fi_model_paths = paths, fi_overhead_mib = overhead, fi_depends_on = dep\<rparr>"

definition feature_inputs :: "switches \<Rightarrow> model_files \<Rightarrow> feature_input list" where
  "feature_inputs sw mf =
     [feature ''ai'' (sw_ai sw) [mf_ai_model mf] 40 None,
      feature ''audio_ai'' (sw_audio_ai sw) [mf_audio_model mf, mf_audio_vad mf] 40 None,
      feature ''voice'' (sw_voice sw) (voice_paths mf) 60 None,
      feature ''llm'' (sw_llm sw) [mf_llm mf] 80 None,
      feature ''tts'' (sw_tts sw) (tts_paths mf) 40 None,
      feature ''decision'' (sw_decision sw) [mf_decision_model mf, mf_decision_tokenizer mf] 40 (Some ''voice''),
      feature ''face'' (sw_face sw) [mf_face_detect mf, mf_face_recog mf] 40 None,
      feature ''ocr'' (sw_ocr sw) [mf_ocr_det mf, mf_ocr_rec mf] 40 None,
      feature ''meeting'' (sw_meeting sw) [mf_segmentation mf, mf_punctuation mf] 30 (Some ''voice''),
      feature ''vlm'' (sw_vlm sw) [mf_vlm mf, mf_vlm_mmproj mf] 80 None]"

definition switch_off :: "string \<Rightarrow> switches \<Rightarrow> switches" where
  "switch_off name sw =
     (if name = ''ai'' then sw\<lparr>sw_ai := False\<rparr>
      else if name = ''audio_ai'' then sw\<lparr>sw_audio_ai := False\<rparr>
      else if name = ''voice'' then sw\<lparr>sw_voice := False\<rparr>
      else if name = ''llm'' then sw\<lparr>sw_llm := False\<rparr>
      else if name = ''tts'' then sw\<lparr>sw_tts := False\<rparr>
      else if name = ''decision'' then sw\<lparr>sw_decision := False\<rparr>
      else if name = ''face'' then sw\<lparr>sw_face := False\<rparr>
      else if name = ''ocr'' then sw\<lparr>sw_ocr := False\<rparr>
      else if name = ''meeting'' then sw\<lparr>sw_meeting := False\<rparr>
      else if name = ''vlm'' then sw\<lparr>sw_vlm := False\<rparr>
      else sw)"

definition apply_decision :: "feature_decision \<Rightarrow> switches \<Rightarrow> switches" where
  "apply_decision d sw =
     (if fd_admitted d then sw else if \<not> disables (fd_reason d) then sw else switch_off (fd_name d) sw)"

definition apply_plan :: "feature_decision list \<Rightarrow> switches \<Rightarrow> switches" where
  "apply_plan = fold apply_decision"

text \<open>
  The boot path: \<open>form\<close> is the binary's form tag, \<open>setting\<close> the persisted elastic tier, \<open>hardware\<close> the probe and
  \<open>mem\<close> the memory reading (total, available) in MiB, if there is one.
\<close>

definition boot_config :: "(bytes \<Rightarrow> u64 option) \<Rightarrow> string \<Rightarrow> string option \<Rightarrow> hardware_profile \<Rightarrow> (u64 \<times> u64) option \<Rightarrow> app_config \<Rightarrow> app_config \<times> resource_profile" where
  "boot_config fsize form setting hardware mem c =
     (let sw = form_apply (for_form form) (ac_switches c);
          mf = elastic_override setting (ac_files c);
          rs = ac_resources c;
          (total_mib, avail_mib) = (case mem of None \<Rightarrow> (0, 0) | Some m \<Rightarrow> m);
          (t, source) = boot_tier (rs_tier rs) hardware total_mib;
          (llm_model, llm_tier) = resolve_llm_tier (mf_llm mf) (mf_llm_mid mf) (mf_llm_lite mf) (rs_auto_tier rs) avail_mib
             (hp_physical_cores hardware) (rs_tier rs);
          mf = mf\<lparr>mf_llm := llm_model\<rparr>;
          p = plan fsize (feature_inputs sw mf) (rs_feature_gate rs) \<lparr>tc_tier = t, tc_source = source, tc_profile = hardware\<rparr>
                total_mib avail_mib (rs_reserve_mib rs)
      in (c\<lparr>ac_switches := apply_plan (rp_features p) sw, ac_files := mf\<rparr>, p))"

section \<open>Switches by name\<close>

definition feature_names :: "string list" where
  "feature_names = [''ai'', ''audio_ai'', ''voice'', ''llm'', ''tts'', ''decision'', ''face'', ''ocr'', ''meeting'', ''vlm'']"

definition switched_on :: "switches \<Rightarrow> string \<Rightarrow> bool" where
  "switched_on sw n =
     (if n = ''ai'' then sw_ai sw else if n = ''audio_ai'' then sw_audio_ai sw else if n = ''voice'' then sw_voice sw
      else if n = ''llm'' then sw_llm sw else if n = ''tts'' then sw_tts sw else if n = ''decision'' then sw_decision sw
      else if n = ''face'' then sw_face sw else if n = ''ocr'' then sw_ocr sw else if n = ''meeting'' then sw_meeting sw
      else if n = ''vlm'' then sw_vlm sw else False)"

definition form_allows :: "form_profile \<Rightarrow> string \<Rightarrow> bool" where
  "form_allows p n \<longleftrightarrow>
     (n \<in> {''ai'', ''face'', ''ocr''} \<longrightarrow> fp_vision_ai p) \<and> (n \<in> {''audio_ai'', ''voice''} \<longrightarrow> fp_audio p)
     \<and> (n = ''tts'' \<longrightarrow> fp_voice_out p) \<and> (n \<in> {''llm'', ''vlm'', ''decision'', ''meeting''} \<longrightarrow> fp_dialogue p)"

lemma switched_on_off: "switched_on (switch_off m sw) n \<longleftrightarrow> switched_on sw n \<and> n \<noteq> m"
  by (simp add: switch_off_def switched_on_def)

lemma switched_on_form: "switched_on (form_apply p sw) n \<longleftrightarrow> switched_on sw n \<and> form_allows p n"
  by (simp add: switched_on_def form_apply_def form_allows_def Let_def)

lemma form_apply_idempotent: "form_apply p (form_apply p sw) = form_apply p sw"
  by (simp add: form_apply_def Let_def)

lemma form_apply_eye: "form \<notin> {''cam'', ''mic'', ''talk''} \<Longrightarrow> form_apply (for_form form) sw = sw"
  by (simp add: form_apply_def for_form_def)

lemma switched_on_plan:
  "switched_on (apply_plan ds sw) n \<longleftrightarrow>
     switched_on sw n \<and> (\<forall>d \<in> set ds. fd_name d = n \<longrightarrow> fd_admitted d \<or> \<not> disables (fd_reason d))"
  unfolding apply_plan_def
  by (induction ds arbitrary: sw) (auto simp: apply_decision_def switched_on_off simp del: disables.simps)

lemma feature_inputs_names: "map fi_name (feature_inputs sw mf) = feature_names"
  by (simp add: feature_inputs_def feature_def feature_names_def)

lemma length_feature_inputs [simp]: "length (feature_inputs sw mf) = 10"
  by (simp add: feature_inputs_def)

lemma feature_inputs_nth:
  assumes "i < 10"
  shows "fi_name (feature_inputs sw mf ! i) = feature_names ! i"
    "fi_enabled (feature_inputs sw mf ! i) = switched_on sw (feature_names ! i)"
    "feature_cost fsize (feature_inputs sw mf ! i) = feature_cost fsize (feature_inputs sw' mf ! i)"
    "fi_depends_on (feature_inputs sw mf ! i) = (if i = 5 \<or> i = 8 then Some ''voice'' else None)"
proof -
  have "i \<in> {0, 1, 2, 3, 4, 5, 6, 7, 8, 9}" using assms by auto
  then show "fi_name (feature_inputs sw mf ! i) = feature_names ! i"
    "fi_enabled (feature_inputs sw mf ! i) = switched_on sw (feature_names ! i)"
    "feature_cost fsize (feature_inputs sw mf ! i) = feature_cost fsize (feature_inputs sw' mf ! i)"
    "fi_depends_on (feature_inputs sw mf ! i) = (if i = 5 \<or> i = 8 then Some ''voice'' else None)"
    by (elim insertE; simp add: feature_inputs_def feature_names_def feature_def switched_on_def feature_cost_def)+
qed

lemma feature_names_distinct: "distinct feature_names" "length feature_names = 10" "feature_names ! 2 = ''voice''"
  "feature_names ! 5 = ''decision''" "feature_names ! 8 = ''meeting''"
  by (simp_all add: feature_names_def)

section \<open>What starts\<close>

definition enabled_cost :: "(bytes \<Rightarrow> u64 option) \<Rightarrow> (string \<Rightarrow> bool) \<Rightarrow> app_config \<Rightarrow> nat" where
  "enabled_cost fsize counted c =
     (\<Sum>f\<leftarrow>feature_inputs (ac_switches c) (ac_files c). if fi_enabled f \<and> counted (fi_name f) then unat (feature_cost fsize f) else 0)"

text \<open>\<open>is_plan\<close>: a list of decisions the planner makes for the features of a configuration.\<close>

definition is_plan :: "(bytes \<Rightarrow> u64 option) \<Rightarrow> tier \<Rightarrow> u64 \<Rightarrow> switches \<Rightarrow> model_files \<Rightarrow> feature_decision list \<Rightarrow> bool" where
  "is_plan fsize t budget sw mf ds \<longleftrightarrow> budget < - 1 \<and> ds = snd (plan_run fsize t budget (feature_inputs sw mf))"

lemma is_planD:
  assumes "is_plan fsize t budget sw mf ds"
  shows "length ds = 10" "i < 10 \<Longrightarrow> ds ! i = decision_of fsize t budget (take i ds) (feature_inputs sw mf ! i)"
    "i < 10 \<Longrightarrow> fd_name (ds ! i) = feature_names ! i" "admitted_cost ds \<le> unat budget"
proof -
  have b: "budget < - 1" and ds: "ds = snd (plan_run fsize t budget (feature_inputs sw mf))" using assms by (auto simp: is_plan_def)
  note run = plan_run_nth [OF b, of fsize t "feature_inputs sw mf"]
  show "length ds = 10" using run by (simp add: ds)
  show nth: "ds ! i = decision_of fsize t budget (take i ds) (feature_inputs sw mf ! i)" if "i < 10" using run that by (simp add: ds)
  show "fd_name (ds ! i) = feature_names ! i" if "i < 10" using that by (simp add: nth decision_of_def feature_inputs_nth Let_def)
  show "admitted_cost ds \<le> unat budget" using plan_run_snoc(1) [OF b, of fsize t "feature_inputs sw mf"] by (simp add: ds)
qed

lemma on_after:
  assumes p: "is_plan fsize t budget sw mf ds" and "i < 10"
  shows "switched_on (apply_plan ds sw) (feature_names ! i) \<longleftrightarrow>
    switched_on sw (feature_names ! i) \<and> (fd_admitted (ds ! i) \<or> \<not> disables (fd_reason (ds ! i)))"
proof -
  have "fd_name d = feature_names ! i \<longleftrightarrow> d = ds ! i" if d: "d \<in> set ds" for d
  proof -
    obtain j where j: "j < 10" "d = ds ! j" using d by (auto simp: in_set_conv_nth is_planD(1) [OF p])
    have "fd_name (ds ! i) = feature_names ! i" by (rule is_planD(3) [OF p assms(2)])
    moreover have "feature_names ! j = feature_names ! i \<longleftrightarrow> j = i"
      using j(1) assms(2) feature_names_distinct(1,2) by (simp add: nth_eq_iff_index_eq)
    ultimately show ?thesis using j is_planD(3) [OF p j(1)] by auto
  qed
  then show ?thesis using assms(2) is_planD(1) [OF p] by (auto simp: switched_on_plan simp del: disables.simps)
qed

lemma after_verdict:
  assumes p: "is_plan fsize t budget sw mf ds" and i: "i < 10" and "switched_on (apply_plan ds sw) (feature_names ! i)"
  shows "switched_on sw (feature_names ! i)" "tier_includes t (feature_names ! i)"
    "fd_admitted (ds ! i) \<or> i \<in> {5, 8} \<and> \<not> switched_on (apply_plan ds sw) ''voice''"
proof -
  have on: "switched_on sw (feature_names ! i)" "fd_admitted (ds ! i) \<or> \<not> disables (fd_reason (ds ! i))"
    using on_after [OF p i] assms(3) by auto
  show "switched_on sw (feature_names ! i)" by (rule on)
  show "tier_includes t (feature_names ! i)"
    using on by (auto simp: is_planD(2) [OF p i] decision_of_def verdict_def feature_inputs_nth [OF i] Let_def split: if_splits)
  show "fd_admitted (ds ! i) \<or> i \<in> {5, 8} \<and> \<not> switched_on (apply_plan ds sw) ''voice''"
  proof (cases "fd_admitted (ds ! i)")
    case False
    then have dep: "dependency_failed (feature_inputs sw mf ! i) (take i ds)"
      using on by (auto simp: is_planD(2) [OF p i] decision_of_def verdict_def feature_inputs_nth [OF i] Let_def split: if_splits)
    then have i58: "i \<in> {5, 8}"
      by (auto simp: dependency_failed_def feature_inputs_nth [OF i] split: if_splits)
    then obtain d where d: "d \<in> set (take i ds)" "fd_name d = ''voice''" "\<not> fd_admitted d"
      using dep by (auto simp: dependency_failed_def feature_inputs_nth [OF i])
    obtain j where j': "j < length (take i ds)" "take i ds ! j = d" using d(1) by (meson in_set_conv_nth)
    then have j: "j < 10" "d = ds ! j" using is_planD(1) [OF p] by auto
    have "j = 2"
      using d(2) j feature_names_distinct nth_eq_iff_index_eq [of feature_names j 2] by (simp add: is_planD(3) [OF p])
    have na: "\<not> fd_admitted (ds ! 2)" using d(3) j(2) \<open>j = 2\<close> by simp
    then have "\<not> switched_on sw (feature_names ! 2) \<or> disables (fd_reason (ds ! 2))"
      by (auto simp: is_planD(2) [OF p] decision_of_def verdict_def dependency_failed_def feature_inputs_nth Let_def split: if_splits)
    then show ?thesis using on_after [OF p, of 2] na i58 by (auto simp: feature_names_distinct(3) simp del: disables.simps)
  qed simp
qed

lemma enabled_within_budget:
  assumes p: "is_plan fsize t budget sw mf ds"
  shows "(\<Sum>f\<leftarrow>feature_inputs (apply_plan ds sw) mf.
      if fi_enabled f \<and> (switched_on (apply_plan ds sw) ''voice'' \<or> fi_name f \<notin> {''decision'', ''meeting''})
      then unat (feature_cost fsize f) else 0) \<le> unat budget"
  (is "sum_list (map ?w (feature_inputs ?sw mf)) \<le> _")
proof -
  have "?w (feature_inputs ?sw mf ! i) \<le> (if fd_admitted (ds ! i) then unat (fd_cost_mib (ds ! i)) else 0)" if i: "i < 10" for i
  proof (cases "switched_on ?sw (feature_names ! i) \<and> (switched_on ?sw ''voice'' \<or> feature_names ! i \<notin> {''decision'', ''meeting''})")
    case True
    then have "fd_admitted (ds ! i)" using after_verdict(3) [OF p i] feature_names_distinct by auto
    then show ?thesis
      using feature_inputs_nth(3) [OF i, of fsize ?sw mf sw] by (simp add: is_planD(2) [OF p i] decision_of_def Let_def)
  next
    case False
    then show ?thesis by (auto simp: feature_inputs_nth [OF i])
  qed
  then have "sum_list (map ?w (feature_inputs ?sw mf)) \<le> admitted_cost ds"
    unfolding admitted_cost_def by (intro sum_list_mono2) (simp_all add: is_planD(1) [OF p])
  also have "\<dots> \<le> unat budget"
    by (rule is_planD(4) [OF p])
  finally show ?thesis .
qed


definition demo_config :: app_config where
  "demo_config = \<lparr>ac_switches = \<lparr>sw_ai = False, sw_audio_ai = False, sw_voice = True, sw_llm = False, sw_tts = True, sw_decision = True,
      sw_face = False, sw_ocr = False, sw_meeting = False, sw_vlm = False, sw_conversations = False, sw_agent = False\<rparr>,
     ac_files = \<lparr>mf_ai_model = [], mf_audio_model = [], mf_audio_vad = [], mf_kws_encoder = [], mf_kws_decoder = [], mf_kws_joiner = [],
      mf_paraformer = [], mf_speaker_verify = False, mf_speaker_embedding = [], mf_llm = [], mf_llm_mid = [], mf_llm_lite = [], mf_tts = [],
      mf_tts_yue = [], mf_tts_en = [], mf_decision_model = [], mf_decision_tokenizer = [], mf_face_detect = [], mf_face_recog = [],
      mf_ocr_det = [], mf_ocr_rec = [], mf_segmentation = [], mf_punctuation = [], mf_vlm = [], mf_vlm_mmproj = []\<rparr>,
     ac_resources = \<lparr>rs_auto_tier = False, rs_feature_gate = ascii ''auto'', rs_reserve_mib = 512, rs_tier = ''basic''\<rparr>\<rparr>"

definition demo_hardware :: hardware_profile where
  "demo_hardware = \<lparr>hp_physical_cores = 2, hp_simd = Avx2, hp_battery = False\<rparr>"

definition demo_boot :: "app_config \<times> resource_profile" where
  "demo_boot = boot_config (\<lambda>_. None) ''eye'' None demo_hardware (Some (4096, 552)) demo_config"


text \<open>
  The exception is real: a feature turned down for its dependency keeps its switch, and its engine is built from the switch
  alone. Here the voice stack does not fit, decision triage stays on, and what starts costs twice the budget.
\<close>

lemma dependent_feature_starts_over_budget:
  "\<not> sw_voice (ac_switches (fst demo_boot)) \<and> sw_decision (ac_switches (fst demo_boot))
   \<and> enabled_cost (\<lambda>_. None) (\<lambda>_. True) (fst demo_boot) = 80 \<and> rp_budget_mib (snd demo_boot) = 40"
proof -
  have boot: "demo_boot = (demo_config\<lparr>ac_switches := (ac_switches demo_config)\<lparr>sw_voice := False\<rparr>\<rparr>, snd demo_boot)"
    "rp_budget_mib (snd demo_boot) = 40"
    by code_simp+
  show ?thesis
    by (subst (1 2 3) boot(1))
      (simp add: boot(2) demo_config_def enabled_cost_def feature_inputs_def feature_def feature_cost_def file_cost_mib_def
        map_filter_simps div_ceil_def voice_paths_def tts_paths_def)
qed

text \<open>
  The kernel ends the \<^verbatim>\<open>type\<close> file of a power supply with a line feed, which the probe does not strip: no battery is
  ever found, so the battery pin of the elastic controller never acts.
\<close>

lemma battery_never_detected:
  assumes "\<forall>t \<in> set types. last t = 10 \<and> t \<noteq> []"
  shows "\<not> hp_battery (detect cpuinfo (Some types))"
proof -
  have "\<not> eq_ignore_ascii_case t (ascii ''Battery'')" if t: "last t = 10" "t \<noteq> []" for t
  proof
    assume "eq_ignore_ascii_case t (ascii ''Battery'')"
    then have "map ascii_lower t = map ascii_lower (ascii ''Battery'')" by (simp add: eq_ignore_ascii_case_def)
    then have "last (map ascii_lower t) = last (map ascii_lower (ascii ''Battery''))" by (rule arg_cong)
    moreover have "last (map ascii_lower (ascii ''Battery'')) = 121" by code_simp
    ultimately show False using t by (simp add: last_map ascii_lower_def)
  qed
  then show ?thesis using assms by (simp add: detect_def battery_powered_def Let_def)
qed

end
