(* ===== verification/Fmp4.thy ===== *)
theory Fmp4
  imports H264
begin

text \<open>
  The fragmented MP4 remuxer of \<^verbatim>\<open>crates/streaming/src/fmp4.rs\<close> and the task that serves a browser with it,
  \<^verbatim>\<open>mse_response\<close> of \<^verbatim>\<open>crates/web/src/routes/mse.rs\<close>. The muxer itself is the crate \<^verbatim>\<open>muxide\<close>; its five operations
  are a record of functions on a state of its own.
\<close>

section \<open>Frames and the muxer\<close>

datatype media_frame = VideoFrame bool bytes u64 | AudioFrame bytes u64

record fragment_config =
  fg_width :: u32
  fg_height :: u32
  fg_timescale :: u32
  fg_fragment_duration_ms :: u32
  fg_sps :: bytes
  fg_pps :: bytes

record 'm muxer_ops =
  mo_new :: "fragment_config \<Rightarrow> 'm"
  mo_init_segment :: "'m \<Rightarrow> bytes \<times> 'm"
  mo_write_video :: "'m \<Rightarrow> u64 \<Rightarrow> u64 \<Rightarrow> bytes \<Rightarrow> bool \<Rightarrow> unit result \<times> 'm"
  mo_ready_to_flush :: "'m \<Rightarrow> bool"
  mo_flush_segment :: "'m \<Rightarrow> bytes option \<times> 'm"

section \<open>The remuxer\<close>

definition nal_type :: "u8 \<Rightarrow> u8" where
  "nal_type byte0 = byte0 AND 0x1f"

definition nal_to_avcc :: "bytes \<Rightarrow> bytes" where
  "nal_to_avcc nal = u32_be (of_nat (length nal)) @ nal"

definition ms_to_ticks :: "u64 \<Rightarrow> u64" where
  "ms_to_ticks ms = (if ms \<le> - 1 div 90000 then ms * 90000 else - 1) div 1000"

record 'm remux_inner =
  ri_muxer :: 'm
  ri_init_sent :: bool
  ri_first_base_ticks :: u64
  ri_saw_sample :: bool
  ri_first_segment_retimed :: bool

record 'm fmp4_remuxer =
  fr_inner :: "'m remux_inner option"
  fr_fragment_duration_ms :: u32
  fr_pending_sps :: "bytes option"
  fr_pending_pps :: "bytes option"

datatype fmp4_chunk = Init bytes | Segment bytes

fun into_bytes :: "fmp4_chunk \<Rightarrow> bytes" where
  "into_bytes (Init b) = b"
| "into_bytes (Segment b) = b"

definition with_fragment_duration_ms :: "u32 \<Rightarrow> 'm fmp4_remuxer" where
  "with_fragment_duration_ms d = \<lparr>fr_inner = None, fr_fragment_duration_ms = d, fr_pending_sps = None, fr_pending_pps = None\<rparr>"

definition seed_sps_pps :: "bytes \<Rightarrow> bytes \<Rightarrow> 'm fmp4_remuxer \<Rightarrow> 'm fmp4_remuxer" where
  "seed_sps_pps sps pps r = (if fr_inner r = None then r\<lparr>fr_pending_sps := Some sps, fr_pending_pps := Some pps\<rparr> else r)"

text \<open>\<^verbatim>\<open>windows(4).position\<close>: the first occurrence of a pattern.\<close>

fun find_pattern :: "bytes \<Rightarrow> bytes \<Rightarrow> nat option" where
  "find_pattern pat [] = None"
| "find_pattern pat (b # bs) =
     (if length pat \<le> length (b # bs) \<and> take (length pat) (b # bs) = pat then Some 0
      else map_option Suc (find_pattern pat bs))"

definition sat_add_ticks :: "u64 \<Rightarrow> u64 \<Rightarrow> u64" where
  "sat_add_ticks a b = (if a \<le> - 1 - b then a + b else - 1)"

definition retime_first_segment :: "'m remux_inner \<Rightarrow> bytes \<Rightarrow> bytes \<times> 'm remux_inner" where
  "retime_first_segment inner seg =
     (if ri_first_segment_retimed inner \<or> \<not> ri_saw_sample inner then (seg, inner)
      else if ri_first_base_ticks inner = 0 then (seg, inner\<lparr>ri_first_segment_retimed := True\<rparr>)
      else case find_pattern (ascii ''tfdt'') seg of
             None \<Rightarrow> (seg, inner)
           | Some pos \<Rightarrow>
               if pos + 16 \<le> length seg then
                 let v = sat_add_ticks (of_nat (be_val (subslice (pos + 8) (pos + 16) seg))) (ri_first_base_ticks inner)
                 in (take (pos + 8) seg @ u64_be v @ drop (pos + 16) seg, inner\<lparr>ri_first_segment_retimed := True\<rparr>)
               else (seg, inner))"

definition init_with_sps_pps :: "'m muxer_ops \<Rightarrow> bytes \<Rightarrow> bytes \<Rightarrow> 'm fmp4_remuxer \<Rightarrow> 'm fmp4_remuxer" where
  "init_with_sps_pps ops sps pps r =
     (let (width, height) = (case parse_sps sps of Inr p \<Rightarrow> (sps_width p, sps_height p) | Inl _ \<Rightarrow> (1280, 720));
          config = \<lparr>fg_width = width, fg_height = height, fg_timescale = 90000,
                    fg_fragment_duration_ms = fr_fragment_duration_ms r, fg_sps = sps, fg_pps = pps\<rparr>
      in r\<lparr>fr_inner := Some \<lparr>ri_muxer = mo_new ops config, ri_init_sent = False, ri_first_base_ticks = 0,
             ri_saw_sample = False, ri_first_segment_retimed = False\<rparr>\<rparr>)"

text \<open>The part of \<^verbatim>\<open>push\<close> before the muxer exists: parameter sets are collected until both are known.\<close>

definition harvest :: "'m muxer_ops \<Rightarrow> u8 \<Rightarrow> bytes \<Rightarrow> 'm fmp4_remuxer \<Rightarrow> 'm fmp4_remuxer" where
  "harvest ops byte0 data r =
     (let r = (if nal_type byte0 = 7 \<and> fr_pending_sps r = None then r\<lparr>fr_pending_sps := Some data\<rparr>
               else if nal_type byte0 = 8 \<and> fr_pending_pps r = None then r\<lparr>fr_pending_pps := Some data\<rparr>
               else r)
      in case (fr_pending_sps r, fr_pending_pps r) of
           (Some sps, Some pps) \<Rightarrow> init_with_sps_pps ops sps pps (r\<lparr>fr_pending_sps := None, fr_pending_pps := None\<rparr>)
         | _ \<Rightarrow> r)"

text \<open>The part of \<^verbatim>\<open>push\<close> that queues a picture as a sample and flushes a full segment.\<close>

definition push_sample :: "'m muxer_ops \<Rightarrow> bool \<Rightarrow> bytes \<Rightarrow> u64 \<Rightarrow> 'm remux_inner \<Rightarrow> fmp4_chunk list result \<times> 'm remux_inner" where
  "push_sample ops keyframe data timestamp inner =
     (let avcc = nal_to_avcc data;
          pts_ticks = ms_to_ticks timestamp;
          inner = (if \<not> ri_saw_sample inner then inner\<lparr>ri_saw_sample := True, ri_first_base_ticks := pts_ticks\<rparr> else inner)
      in case mo_write_video ops (ri_muxer inner) pts_ticks pts_ticks avcc keyframe of
           (Inl e, m) \<Rightarrow> (Inl e, inner\<lparr>ri_muxer := m\<rparr>)
         | (Inr _, m) \<Rightarrow>
             let inner = inner\<lparr>ri_muxer := m\<rparr>
             in if mo_ready_to_flush ops m then
                  (case mo_flush_segment ops m of
                     (None, m) \<Rightarrow> (Inr [], inner\<lparr>ri_muxer := m\<rparr>)
                   | (Some segment, m) \<Rightarrow>
                       let (segment, inner) = retime_first_segment (inner\<lparr>ri_muxer := m\<rparr>) segment
                       in (Inr [Segment segment], inner))
                else (Inr [], inner))"

definition push_frame :: "'m muxer_ops \<Rightarrow> media_frame \<Rightarrow> 'm fmp4_remuxer \<Rightarrow> fmp4_chunk list result \<times> 'm fmp4_remuxer" where
  "push_frame ops frame r =
     (case frame of
        AudioFrame _ _ \<Rightarrow> (Inr [], r)
      | VideoFrame keyframe data timestamp \<Rightarrow>
          (case data of
             [] \<Rightarrow> (Inl (Panic ''index out of bounds''), r)
           | byte0 # _ \<Rightarrow>
               let r = (if fr_inner r = None then harvest ops byte0 data r else r)
               in (case fr_inner r of
                     None \<Rightarrow> (Inr [], r)
                   | Some inner \<Rightarrow>
                       let (out, inner) = (if \<not> ri_init_sent inner
                                           then let (b, m) = mo_init_segment ops (ri_muxer inner)
                                                in ([Init b], inner\<lparr>ri_muxer := m, ri_init_sent := True\<rparr>)
                                           else ([], inner))
                       in if nal_type byte0 = 6 \<or> nal_type byte0 = 7 \<or> nal_type byte0 = 8
                          then (Inr out, r\<lparr>fr_inner := Some inner\<rparr>)
                          else let (res, inner) = push_sample ops keyframe data timestamp inner
                               in (map_sum id (\<lambda>chunks. out @ chunks) res, r\<lparr>fr_inner := Some inner\<rparr>))))"

definition flush_remuxer :: "'m muxer_ops \<Rightarrow> 'm fmp4_remuxer \<Rightarrow> bytes option \<times> 'm fmp4_remuxer" where
  "flush_remuxer ops r =
     (case fr_inner r of
        None \<Rightarrow> (None, r)
      | Some inner \<Rightarrow>
          (case mo_flush_segment ops (ri_muxer inner) of
             (None, m) \<Rightarrow> (None, r\<lparr>fr_inner := Some (inner\<lparr>ri_muxer := m\<rparr>)\<rparr>)
           | (Some segment, m) \<Rightarrow>
               let (segment, inner) = retime_first_segment (inner\<lparr>ri_muxer := m\<rparr>) segment
               in (Some segment, r\<lparr>fr_inner := Some inner\<rparr>)))"

section \<open>Serving a browser\<close>

datatype rx_event = Received media_frame | RxLagged nat | RxClosed

text \<open>
  The loop of the task, for a client that stays connected: the bytes sent, the remuxer, and whether the loop has ended
  (by the end of the broadcast or a failing push), after which the tail is flushed.
\<close>

fun mse_loop :: "'m muxer_ops \<Rightarrow> rx_event list \<Rightarrow> 'm fmp4_remuxer \<Rightarrow> bytes list \<times> 'm fmp4_remuxer \<times> bool" where
  "mse_loop ops [] r = ([], r, False)"
| "mse_loop ops (RxClosed # evs) r = ([], r, True)"
| "mse_loop ops (RxLagged n # evs) r = mse_loop ops evs r"
| "mse_loop ops (Received (AudioFrame d t) # evs) r = mse_loop ops evs r"
| "mse_loop ops (Received (VideoFrame k d t) # evs) r =
     (case push_frame ops (VideoFrame k d t) r of
        (Inl e, r) \<Rightarrow> ([], r, True)
      | (Inr chunks, r) \<Rightarrow> let (out, r, ended) = mse_loop ops evs r in (map into_bytes chunks @ out, r, ended))"

definition mse_response :: "'m muxer_ops \<Rightarrow> (bytes \<times> bytes) option \<Rightarrow> rx_event list \<Rightarrow> bytes list" where
  "mse_response ops seeded evs =
     (let r = with_fragment_duration_ms 1000;
          r = (case seeded of Some (sps, pps) \<Rightarrow> seed_sps_pps sps pps r | None \<Rightarrow> r);
          (out, r, ended) = mse_loop ops evs r
      in if ended then (case fst (flush_remuxer ops r) of Some tail \<Rightarrow> out @ [tail] | None \<Rightarrow> out) else out)"

section \<open>What the browser receives\<close>

text \<open>
  The specification: the pictures are written to the muxer as length-prefixed samples, in order and until one is refused,
  and every full segment is taken out; the first segment that has a decode time is moved to the time of the first picture.
\<close>

type_synonym picture = "bool \<times> bytes \<times> u64"

fun video_frames :: "rx_event list \<Rightarrow> picture list" where
  "video_frames [] = []"
| "video_frames (Received (VideoFrame k d t) # evs) = (k, d, t) # video_frames evs"
| "video_frames (Received (AudioFrame d t) # evs) = video_frames evs"
| "video_frames (RxLagged n # evs) = video_frames evs"
| "video_frames (RxClosed # evs) = []"

definition unit_type :: "picture \<Rightarrow> u8" where
  "unit_type = (\<lambda>(k, d, t). nal_type (hd d))"

definition is_picture :: "picture \<Rightarrow> bool" where
  "is_picture p \<longleftrightarrow> unit_type p \<noteq> 6 \<and> unit_type p \<noteq> 7 \<and> unit_type p \<noteq> 8"

fun opt_list :: "'a option \<Rightarrow> 'a list" where
  "opt_list None = []"
| "opt_list (Some x) = [x]"

fun mux_pictures :: "'m muxer_ops \<Rightarrow> 'm \<Rightarrow> picture list \<Rightarrow> bytes list \<times> 'm" where
  "mux_pictures ops m [] = ([], m)"
| "mux_pictures ops m ((k, d, t) # ps) =
     (case mo_write_video ops m (ms_to_ticks t) (ms_to_ticks t) (nal_to_avcc d) k of
        (Inl e, m) \<Rightarrow> ([], m)
      | (Inr _, m) \<Rightarrow>
          let (seg, m) = (if mo_ready_to_flush ops m then mo_flush_segment ops m else (None, m));
              (segs, m) = mux_pictures ops m ps
          in (opt_list seg @ segs, m))"

definition mux_stream :: "'m muxer_ops \<Rightarrow> 'm \<Rightarrow> picture list \<Rightarrow> bytes list" where
  "mux_stream ops m ps = (let (segs, m) = mux_pictures ops m ps in segs @ opt_list (fst (mo_flush_segment ops m)))"

definition retimed :: "u64 \<Rightarrow> bytes \<Rightarrow> bytes option" where
  "retimed base seg =
     (if base = 0 then Some seg
      else case find_pattern (ascii ''tfdt'') seg of
             None \<Rightarrow> None
           | Some pos \<Rightarrow>
               if pos + 16 \<le> length seg then
                 Some (take (pos + 8) seg @ u64_be (sat_add_ticks (of_nat (be_val (subslice (pos + 8) (pos + 16) seg))) base) @ drop (pos + 16) seg)
               else None)"

fun retime_segments :: "u64 \<Rightarrow> bytes list \<Rightarrow> bytes list" where
  "retime_segments base [] = []"
| "retime_segments base (s # ss) = (case retimed base s of None \<Rightarrow> s # retime_segments base ss | Some s' \<Rightarrow> s' # ss)"

text \<open>What the rest of a stream looks like, from a remuxer that has sent its initialisation segment.\<close>

fun retimer :: "'m remux_inner \<Rightarrow> picture list \<Rightarrow> bytes list \<Rightarrow> bytes list" where
  "retimer inner ps segs =
     (if ri_first_segment_retimed inner then segs
      else if ri_saw_sample inner then retime_segments (ri_first_base_ticks inner) segs
      else case ps of [] \<Rightarrow> segs | (k, d, t) # _ \<Rightarrow> retime_segments (ms_to_ticks t) segs)"

definition finish :: "'m muxer_ops \<Rightarrow> rx_event list \<Rightarrow> 'm fmp4_remuxer \<Rightarrow> bytes list" where
  "finish ops evs r =
     (let (out, r, ended) = mse_loop ops evs r
      in if ended then out @ opt_list (fst (flush_remuxer ops r)) else out)"

lemma retime_first_segment_retimed:
  "ri_saw_sample inner \<Longrightarrow> \<not> ri_first_segment_retimed inner \<Longrightarrow>
   retime_first_segment inner seg =
     (case retimed (ri_first_base_ticks inner) seg of None \<Rightarrow> (seg, inner) | Some s \<Rightarrow> (s, inner\<lparr>ri_first_segment_retimed := True\<rparr>))"
  by (auto simp: retime_first_segment_def retimed_def Let_def split: option.split)

lemma retime_first_segment_id:
  "ri_first_segment_retimed inner \<or> \<not> ri_saw_sample inner \<Longrightarrow> retime_first_segment inner seg = (seg, inner)"
  by (auto simp: retime_first_segment_def)

lemma retimer_cons:
  assumes "ri_saw_sample inner" and "retime_first_segment inner seg = (seg', inner')"
  shows "retimer inner ps (seg # segs) = seg' # retimer inner' ps segs"
    "ri_saw_sample inner' = True" "ri_muxer inner' = ri_muxer inner" "ri_init_sent inner' = ri_init_sent inner"
  using assms retime_first_segment_retimed [of inner seg] retime_first_segment_id [of inner seg]
  by (cases "ri_first_segment_retimed inner"; cases "retimed (ri_first_base_ticks inner) seg"; auto)+

lemma retimer_ignores: "ri_saw_sample inner \<Longrightarrow> retimer inner ps = retimer inner qs"
  by auto

lemma finish_simps:
  "finish ops (RxClosed # evs) r = opt_list (fst (flush_remuxer ops r))"
  "finish ops (RxLagged n # evs) r = finish ops evs r"
  "finish ops (Received (AudioFrame d t) # evs) r = finish ops evs r"
  "finish ops (Received (VideoFrame k d t) # evs) r =
     (case push_frame ops (VideoFrame k d t) r of
        (Inl e, r) \<Rightarrow> opt_list (fst (flush_remuxer ops r))
      | (Inr chunks, r) \<Rightarrow> map into_bytes chunks @ finish ops evs r)"
  by (simp_all add: finish_def case_prod_beta split: sum.split prod.split)

lemma flush_running:
  assumes "fr_inner r = Some inner"
  shows "opt_list (fst (flush_remuxer ops r)) = retimer inner [] (opt_list (fst (mo_flush_segment ops (ri_muxer inner))))"
proof -
  obtain seg m where f: "mo_flush_segment ops (ri_muxer inner) = (seg, m)" by fastforce
  show ?thesis
  proof (cases seg)
    case None
    then show ?thesis using assms f by (simp add: flush_remuxer_def)
  next
    case (Some s)
    obtain s' inner' where r: "retime_first_segment (inner\<lparr>ri_muxer := m\<rparr>) s = (s', inner')" by fastforce
    show ?thesis
      using assms f Some r retime_first_segment_retimed [of "inner\<lparr>ri_muxer := m\<rparr>" s] retime_first_segment_id [of "inner\<lparr>ri_muxer := m\<rparr>" s]
      by (auto simp: flush_remuxer_def split: option.splits)
  qed
qed

definition note_sample :: "u64 \<Rightarrow> 'm remux_inner \<Rightarrow> 'm remux_inner" where
  "note_sample t inner = (if \<not> ri_saw_sample inner then inner\<lparr>ri_saw_sample := True, ri_first_base_ticks := ms_to_ticks t\<rparr> else inner)"

lemma note_sample_simps [simp]:
  "ri_saw_sample (note_sample t inner)" "ri_muxer (note_sample t inner) = ri_muxer inner"
  "ri_init_sent (note_sample t inner) = ri_init_sent inner"
  "ri_first_segment_retimed (note_sample t inner) = ri_first_segment_retimed inner"
  by (simp_all add: note_sample_def)

lemma retimer_note: "retimer inner ((k, d, t) # ps) segs = retimer (note_sample t inner) qs segs"
  by (simp add: note_sample_def)

lemma retimer_muxer [simp]: "retimer (inner\<lparr>ri_muxer := m\<rparr>) ps = retimer inner ps"
  by (rule ext) simp

declare retimer.simps [simp del]

lemma retimer_nil [simp]: "retimer inner ps [] = []"
  by (simp add: retimer.simps split: list.split)

text \<open>One picture: what \<open>push_sample\<close> emits, followed by what the rest of the stream gives.\<close>

lemma push_sample_mux:
  assumes "push_sample ops k d t inner = (res, inner')"
    and "\<And>i. ri_saw_sample i \<Longrightarrow> ri_init_sent i = ri_init_sent inner \<Longrightarrow>
      rest i = retimer i ps (mux_stream ops (ri_muxer i) ps)"
  shows "(case res of Inl e \<Rightarrow> retimer inner' [] (opt_list (fst (mo_flush_segment ops (ri_muxer inner'))))
          | Inr chunks \<Rightarrow> map into_bytes chunks @ rest inner')
      = retimer inner ((k, d, t) # ps) (mux_stream ops (ri_muxer inner) ((k, d, t) # ps))"
proof -
  let ?i = "note_sample t inner"
  obtain w m where w: "mo_write_video ops (ri_muxer inner) (ms_to_ticks t) (ms_to_ticks t) (nal_to_avcc d) k = (w, m)" by fastforce
  have ps: "push_sample ops k d t inner =
    (case w of Inl e \<Rightarrow> (Inl e, ?i\<lparr>ri_muxer := m\<rparr>)
     | Inr _ \<Rightarrow> if mo_ready_to_flush ops m then
          (case mo_flush_segment ops m of
             (None, m2) \<Rightarrow> (Inr [], ?i\<lparr>ri_muxer := m2\<rparr>)
           | (Some segment, m2) \<Rightarrow> let (segment, inner) = retime_first_segment (?i\<lparr>ri_muxer := m2\<rparr>) segment in (Inr [Segment segment], inner))
        else (Inr [], ?i\<lparr>ri_muxer := m\<rparr>))"
    using w by (simp add: push_sample_def note_sample_def Let_def split: sum.split option.split prod.split)
  have rest: "rest (?i\<lparr>ri_muxer := m\<rparr>) = retimer ?i ps (mux_stream ops m ps)" for m
    using assms(2) [of "?i\<lparr>ri_muxer := m\<rparr>"] by simp
  note nt = retimer_note [of inner k d t ps _ ps]
  show ?thesis
  proof (cases w)
    case (Inl e)
    then show ?thesis using assms(1) w retimer_ignores [of ?i ps "[]"] unfolding ps
      by (auto simp: nt mux_stream_def)
  next
    case (Inr u)
    show ?thesis
    proof (cases "mo_ready_to_flush ops m")
      case False
      then show ?thesis using assms(1) w Inr unfolding ps by (auto simp: nt rest mux_stream_def split: prod.split)
    next
      case True
      obtain seg m2 where f: "mo_flush_segment ops m = (seg, m2)" by fastforce
      show ?thesis
      proof (cases seg)
        case None
        then show ?thesis using assms(1) w Inr True f unfolding ps by (auto simp: nt rest mux_stream_def split: prod.split)
      next
        case (Some s)
        obtain s' i' where r: "retime_first_segment (?i\<lparr>ri_muxer := m2\<rparr>) s = (s', i')" by fastforce
        have cons: "retimer ?i ps (s # segs) = s' # retimer i' ps segs" "ri_saw_sample i'" "ri_muxer i' = m2" "ri_init_sent i' = ri_init_sent inner" for segs
          using retimer_cons(1) [OF _ r, of ps segs] retimer_cons(2-4) [OF _ r] by simp_all
        have "rest i' = retimer i' ps (mux_stream ops m2 ps)" using assms(2) [of i'] cons by simp
        then show ?thesis using assms(1) w Inr True f Some r cons unfolding ps
          by (auto simp: nt mux_stream_def split: prod.split)
      qed
    qed
  qed
qed

lemma finish_running:
  assumes "fr_inner r = Some inner" and "ri_init_sent inner" and "RxClosed \<notin> set evs"
    and "\<forall>p \<in> set (video_frames evs). fst (snd p) \<noteq> []"
  shows "finish ops (evs @ [RxClosed]) r =
    retimer inner (filter is_picture (video_frames evs)) (mux_stream ops (ri_muxer inner) (filter is_picture (video_frames evs)))"
  using assms
proof (induction evs arbitrary: r inner rule: video_frames.induct)
  case 1
  then show ?case using flush_running [OF 1(1)] by (simp add: finish_simps mux_stream_def)
next
  case (2 k d t evs)
  let ?ps = "filter is_picture (video_frames evs)"
  obtain b bs where d: "d = b # bs" using 2(5) by (cases d) auto
  have IH: "finish ops (evs @ [RxClosed]) (r\<lparr>fr_inner := Some i\<rparr>) = retimer i ?ps (mux_stream ops (ri_muxer i) ?ps)"
    if "ri_init_sent i" for i
    using 2(1) [of "r\<lparr>fr_inner := Some i\<rparr>" i] 2(4,5) that by simp
  show ?case
  proof (cases "is_picture (k, d, t)")
    case False
    then have "push_frame ops (VideoFrame k d t) r = (Inr [], r\<lparr>fr_inner := Some inner\<rparr>)"
      using 2(2,3) by (auto simp: push_frame_def d is_picture_def unit_type_def)
    then show ?thesis using IH [OF 2(3)] False by (simp add: finish_simps)
  next
    case True
    obtain res inner' where ps: "push_sample ops k d t inner = (res, inner')" by fastforce
    have pf: "push_frame ops (VideoFrame k d t) r = (res, r\<lparr>fr_inner := Some inner'\<rparr>)"
      using 2(2,3) True ps by (cases res) (auto simp: push_frame_def d is_picture_def unit_type_def)
    have fl: "opt_list (fst (flush_remuxer ops (r\<lparr>fr_inner := Some inner'\<rparr>)))
        = retimer inner' [] (opt_list (fst (mo_flush_segment ops (ri_muxer inner'))))"
      by (rule flush_running) simp
    show ?thesis
      using push_sample_mux [OF ps, where rest = "\<lambda>i. finish ops (evs @ [RxClosed]) (r\<lparr>fr_inner := Some i\<rparr>)" and ps = ?ps] IH 2(3) True
      by (cases res) (simp_all add: finish_simps pf fl)
  qed
qed (simp_all add: finish_simps)

section \<open>Parameter sets\<close>

definition stream_config :: "u32 \<Rightarrow> bytes \<Rightarrow> bytes \<Rightarrow> fragment_config" where
  "stream_config d sps pps =
     (let (width, height) = (case parse_sps sps of Inr p \<Rightarrow> (sps_width p, sps_height p) | Inl _ \<Rightarrow> (1280, 720))
      in \<lparr>fg_width = width, fg_height = height, fg_timescale = 90000, fg_fragment_duration_ms = d, fg_sps = sps, fg_pps = pps\<rparr>)"

text \<open>The stream of a browser once both parameter sets are known: the initialisation segment, then the pictures.\<close>

definition decodable_stream :: "'m muxer_ops \<Rightarrow> bytes \<Rightarrow> bytes \<Rightarrow> picture list \<Rightarrow> bytes list" where
  "decodable_stream ops sps pps ps =
     (let (init, m) = mo_init_segment ops (mo_new ops (stream_config 1000 sps pps));
          segs = mux_stream ops m ps
      in init # (case ps of [] \<Rightarrow> segs | (k, d, t) # _ \<Rightarrow> retime_segments (ms_to_ticks t) segs))"

fun await_sets :: "bytes option \<Rightarrow> bytes option \<Rightarrow> picture list \<Rightarrow> (bytes \<times> bytes \<times> picture list) option" where
  "await_sets p q [] = None"
| "await_sets p q (f # fs) =
     (let p' = (if unit_type f = 7 \<and> p = None then Some (fst (snd f)) else p);
          q' = (if unit_type f = 8 \<and> q = None then Some (fst (snd f)) else q)
      in case (p', q') of (Some sps, Some pps) \<Rightarrow> Some (sps, pps, f # fs) | _ \<Rightarrow> await_sets p' q' fs)"

fun first_index :: "('a \<Rightarrow> bool) \<Rightarrow> 'a list \<Rightarrow> nat option" where
  "first_index P [] = None"
| "first_index P (x # xs) = (if P x then Some 0 else map_option Suc (first_index P xs))"

lemma await_one:
  "await_sets (Some sps) None fs = map_option (\<lambda>j. (sps, fst (snd (fs ! j)), drop j fs)) (first_index (\<lambda>f. unit_type f = 8) fs)"
  "await_sets None (Some pps) fs = map_option (\<lambda>i. (fst (snd (fs ! i)), pps, drop i fs)) (first_index (\<lambda>f. unit_type f = 7) fs)"
  by (induction fs) (auto simp: option.map_comp comp_def Let_def)

lemma await_both:
  "await_sets None None fs =
     (case (first_index (\<lambda>f. unit_type f = 7) fs, first_index (\<lambda>f. unit_type f = 8) fs) of
        (Some i, Some j) \<Rightarrow> Some (fst (snd (fs ! i)), fst (snd (fs ! j)), drop (max i j) fs)
      | _ \<Rightarrow> None)"
proof (induction fs)
  case (Cons f fs)
  then show ?case
    by (cases "first_index (\<lambda>f. unit_type f = 7) fs"; cases "first_index (\<lambda>f. unit_type f = 8) fs")
      (auto simp: await_one Let_def)
qed simp

lemma init_retimer:
  "\<not> ri_saw_sample inner \<Longrightarrow> \<not> ri_first_segment_retimed inner \<Longrightarrow>
   retimer inner ps segs = (case ps of [] \<Rightarrow> segs | (k, d, t) # _ \<Rightarrow> retime_segments (ms_to_ticks t) segs)"
  by (simp add: retimer.simps)

lemma finish_waiting:
  assumes "RxClosed \<notin> set evs" and "\<forall>p \<in> set (video_frames evs). fst (snd p) \<noteq> []"
    and "p = None \<or> q = None"
  shows "finish ops (evs @ [RxClosed]) \<lparr>fr_inner = None, fr_fragment_duration_ms = 1000, fr_pending_sps = p, fr_pending_pps = q\<rparr> =
    (case await_sets p q (video_frames evs) of
       None \<Rightarrow> []
     | Some (sps, pps, fs) \<Rightarrow> decodable_stream ops sps pps (filter is_picture fs))"
  using assms
proof (induction evs arbitrary: p q rule: video_frames.induct)
  case (2 k d t evs)
  let ?r = "\<lparr>fr_inner = None, fr_fragment_duration_ms = 1000, fr_pending_sps = p, fr_pending_pps = q\<rparr>"
  obtain b bs where d: "d = b # bs" using 2(3) by (cases d) auto
  define p' q' where "p' = (if nal_type b = 7 \<and> p = None then Some d else p)" and "q' = (if nal_type b = 8 \<and> q = None then Some d else q)"
  have h: "harvest ops b d ?r = (case (p', q') of
      (Some sps, Some pps) \<Rightarrow> init_with_sps_pps ops sps pps \<lparr>fr_inner = None, fr_fragment_duration_ms = 1000, fr_pending_sps = None, fr_pending_pps = None\<rparr>
    | _ \<Rightarrow> \<lparr>fr_inner = None, fr_fragment_duration_ms = 1000, fr_pending_sps = p', fr_pending_pps = q'\<rparr>)"
    by (auto simp: harvest_def p'_def q'_def Let_def split: option.split)
  show ?case
  proof (cases "p' = None \<or> q' = None")
    case True
    then have pf: "push_frame ops (VideoFrame k d t) ?r =
        (Inr [], \<lparr>fr_inner = None, fr_fragment_duration_ms = 1000, fr_pending_sps = p', fr_pending_pps = q'\<rparr>)"
      using h by (auto simp: push_frame_def d [symmetric] split: option.splits) (auto simp: d)
    have "await_sets p q ((k, d, t) # video_frames evs) = await_sets p' q' (video_frames evs)"
      using True by (auto simp: p'_def q'_def unit_type_def d Let_def split: option.splits)
    then show ?thesis using 2(1) [OF _ _ True] 2(2,3) pf by (simp add: finish_simps)
  next
    case False
    then obtain sps pps where sets: "p' = Some sps" "q' = Some pps" by auto
    have par: "nal_type b = 7 \<or> nal_type b = 8" using 2(4) sets by (auto simp: p'_def q'_def split: if_splits)
    obtain init m where i: "mo_init_segment ops (mo_new ops (stream_config 1000 sps pps)) = (init, m)" by fastforce
    let ?inner = "\<lparr>ri_muxer = m, ri_init_sent = True, ri_first_base_ticks = 0, ri_saw_sample = False, ri_first_segment_retimed = False\<rparr>"
    obtain r' where pf: "push_frame ops (VideoFrame k d t) ?r = (Inr [Init init], r')" "fr_inner r' = Some ?inner"
      using h sets par i
      by (simp add: push_frame_def d init_with_sps_pps_def stream_config_def Let_def split: prod.splits)
    have aw: "await_sets p q (video_frames (Received (VideoFrame k d t) # evs)) = Some (sps, pps, (k, d, t) # video_frames evs)"
      using sets by (auto simp: p'_def q'_def unit_type_def d Let_def)
    have np: "filter is_picture ((k, d, t) # video_frames evs) = filter is_picture (video_frames evs)"
      using par by (auto simp: is_picture_def unit_type_def d)
    have "finish ops (evs @ [RxClosed]) r' =
        (case filter is_picture (video_frames evs) of [] \<Rightarrow> mux_stream ops m (filter is_picture (video_frames evs))
         | (k, d, t) # _ \<Rightarrow> retime_segments (ms_to_ticks t) (mux_stream ops m (filter is_picture (video_frames evs))))"
      using finish_running [OF pf(2), of evs ops] 2(2,3) by (simp add: init_retimer)
    then show ?thesis
      unfolding aw option.case prod.case np by (simp add: finish_simps pf(1) decodable_stream_def i Let_def)
  qed
qed (simp_all add: finish_simps flush_remuxer_def)

lemma mse_response_units:
  assumes "RxClosed \<notin> set evs" and "\<forall>p \<in> set (video_frames evs). fst (snd p) \<noteq> []"
  shows "mse_response ops None (evs @ [RxClosed]) =
    (let fs = video_frames evs
     in case (first_index (\<lambda>f. unit_type f = 7) fs, first_index (\<lambda>f. unit_type f = 8) fs) of
          (Some i, Some j) \<Rightarrow> decodable_stream ops (fst (snd (fs ! i))) (fst (snd (fs ! j))) (filter is_picture (drop (max i j) fs))
        | _ \<Rightarrow> [])"
proof -
  have "mse_response ops None (evs @ [RxClosed]) = finish ops (evs @ [RxClosed]) (with_fragment_duration_ms 1000)"
    by (simp add: mse_response_def finish_def case_prod_beta Let_def split: option.split)
  then show ?thesis
    using finish_waiting [OF assms, of None None ops]
    by (simp add: with_fragment_duration_ms_def await_both Let_def split: option.split)
qed


text \<open>A muxer that flushes after two samples and writes them behind a decode time of zero.\<close>

definition demo_muxer :: "bytes list muxer_ops" where
  "demo_muxer = \<lparr>mo_new = \<lambda>_. [], mo_init_segment = \<lambda>m. (ascii ''ftyp'', m),
     mo_write_video = \<lambda>m _ _ b _. (Inr (), m @ [b]), mo_ready_to_flush = \<lambda>m. length m \<ge> 2,
     mo_flush_segment = \<lambda>m. (if m = [] then None else Some (ascii ''tfdt'' @ [1, 0, 0, 0, 0, 0, 0, 0, 0, 0, 0, 0] @ concat m), [])\<rparr>"

definition demo_events :: "rx_event list" where
  "demo_events = map (\<lambda>(d, t). Received (VideoFrame True d t)) [([0x41, 9], 0), ([0x67, 1], 40), ([0x68, 2], 40), ([0x65, 3], 40)]
     @ [RxLagged 3, Received (AudioFrame [0] 60), Received (VideoFrame False [0x41, 4] 80), Received (VideoFrame False [0x41, 5] 120)]"

lemma demo_be_bytes: "be_bytes 4 2 = [0, 0, 0, 2]" "be_bytes 8 0 = [0, 0, 0, 0, 0, 0, 0, 0]"
proof -
  have four: "4 = Suc (Suc (Suc (Suc 0)))" and eight: "8 = Suc (Suc (Suc (Suc (Suc (Suc (Suc (Suc 0)))))))" by simp_all
  show "be_bytes 4 2 = [0, 0, 0, 2]" by (subst four) simp
  show "be_bytes 8 0 = [0, 0, 0, 0, 0, 0, 0, 0]" by (subst eight) simp
qed


text \<open>
  A seeded remuxer keeps the seed even when the stream brings new parameter sets, and forwards pictures whether or not
  a key frame has been seen.
\<close>

lemma seed_is_not_overridden:
  assumes "RxClosed \<notin> set evs" and "\<forall>p \<in> set (video_frames evs). fst (snd p) \<noteq> []" and "nal_type b = 7"
  shows "mse_response ops (Some (sps, pps)) (Received (VideoFrame k (b # bs) t) # evs @ [RxClosed]) =
    decodable_stream ops sps pps (filter is_picture (video_frames evs))"
proof -
  obtain init m where i: "mo_init_segment ops (mo_new ops (stream_config 1000 sps pps)) = (init, m)" by fastforce
  let ?inner = "\<lparr>ri_muxer = m, ri_init_sent = True, ri_first_base_ticks = 0, ri_saw_sample = False, ri_first_segment_retimed = False\<rparr>"
  let ?r = "seed_sps_pps sps pps (with_fragment_duration_ms 1000)"
  obtain r' where pf: "push_frame ops (VideoFrame k (b # bs) t) ?r = (Inr [Init init], r')" "fr_inner r' = Some ?inner"
    using assms(3) i
    by (simp add: push_frame_def init_with_sps_pps_def stream_config_def seed_sps_pps_def with_fragment_duration_ms_def harvest_def Let_def
        split: prod.splits)
  have "mse_response ops (Some (sps, pps)) (Received (VideoFrame k (b # bs) t) # evs @ [RxClosed]) =
      finish ops (Received (VideoFrame k (b # bs) t) # evs @ [RxClosed]) ?r"
    by (simp only: mse_response_def finish_def case_prod_beta Let_def option.case prod.case fst_conv snd_conv) (simp split: option.split)
  then show ?thesis
    using finish_running [OF pf(2) _ assms(1,2), of ops]
    by (simp add: finish_simps pf(1) decodable_stream_def i init_retimer Let_def)
qed

end
