(* ===== verification/StreamHub.thy ===== *)
theory StreamHub
  imports Resource Fmp4
begin

text \<open>
  The stream hub, \<^verbatim>\<open>crates/streaming/src/hub.rs\<close>: the registry of outputs with the tasks that own the running
  ones, the loop of an output task and the source task with its lifecycle and permit. The broadcast channel shows in the
  events a receiver sees. Identifiers are drawn by \<^verbatim>\<open>Uuid::new_v4\<close> and are fresh in the transition system.
\<close>

section \<open>The registry and the output tasks\<close>

record 'o hub =
  hb_outputs :: "(uuid, 'o) hmap"
  hb_output_stop :: "(uuid, unit) hmap"
  hb_running :: bool
  hb_pending :: "uuid list"
  hb_tasks :: "(uuid, 'o) hmap"
  hb_signalled :: "uuid list"

text \<open>
  \<open>hb_pending\<close> are the spawned tasks that have not taken their output yet, \<open>hb_tasks\<close> the outputs owned by a running
  task, \<open>hb_signalled\<close> the tasks whose stop channel has been written.
\<close>

definition MAX_OUTPUTS :: nat where "MAX_OUTPUTS = 16"

definition hub_new :: "'o hub" where
  "hub_new = \<lparr>hb_outputs = [], hb_output_stop = [], hb_running = False, hb_pending = [], hb_tasks = [], hb_signalled = []\<rparr>"

definition register :: "uuid \<Rightarrow> 'o \<Rightarrow> 'o hub \<Rightarrow> 'o hub" where
  "register i out h = h\<lparr>hb_outputs := hm_insert i out (hb_outputs h), hb_output_stop := hm_insert i () (hb_output_stop h)\<rparr>"

definition add_output :: "uuid \<Rightarrow> 'o \<Rightarrow> 'o hub \<Rightarrow> 'o hub" where
  "add_output i out h =
     (let running = hb_running h; h = register i out h
      in if running then h\<lparr>hb_pending := hb_pending h @ [i]\<rparr> else h)"

definition try_add_output :: "nat \<Rightarrow> uuid \<Rightarrow> 'o \<Rightarrow> 'o hub \<Rightarrow> uuid result \<times> 'o hub" where
  "try_add_output available_permits i out h =
     (if MAX_OUTPUTS \<le> length (hb_outputs h) then (Inl (Bail ''503: Maximum outputs reached for this stream''), h)
      else if available_permits = 0 then (Inl (Bail ''503: All stream slots are exhausted. Try again later.''), h)
      else (Inr i, add_output i out h))"

definition add_output_at_runtime :: "uuid \<Rightarrow> 'o \<Rightarrow> 'o hub \<Rightarrow> 'o hub" where
  "add_output_at_runtime i out h = (let h = register i out h in h\<lparr>hb_pending := hb_pending h @ [i]\<rparr>)"

definition remove_output :: "uuid \<Rightarrow> 'o hub \<Rightarrow> bool \<times> 'o hub" where
  "remove_output i h =
     (let removed = hm_get (hb_outputs h) i \<noteq> None;
          h = h\<lparr>hb_outputs := hm_remove i (hb_outputs h)\<rparr>
      in (removed,
          if hm_get (hb_output_stop h) i \<noteq> None
          then h\<lparr>hb_output_stop := hm_remove i (hb_output_stop h), hb_signalled := i # hb_signalled h\<rparr>
          else h))"

definition run_hub :: "'o hub \<Rightarrow> 'o hub" where
  "run_hub h = h\<lparr>hb_running := True, hb_pending := hb_pending h @ map fst (hb_outputs h)\<rparr>"

definition task_take :: "uuid \<Rightarrow> 'o hub \<Rightarrow> 'o hub" where
  "task_take i h =
     (let h = h\<lparr>hb_pending := remove1 i (hb_pending h)\<rparr>
      in case hm_get (hb_outputs h) i of
           None \<Rightarrow> h
         | Some out \<Rightarrow> h\<lparr>hb_outputs := hm_remove i (hb_outputs h), hb_tasks := hm_insert i out (hb_tasks h)\<rparr>)"

definition task_exit :: "uuid \<Rightarrow> 'o hub \<Rightarrow> 'o hub" where
  "task_exit i h = h\<lparr>hb_tasks := hm_remove i (hb_tasks h)\<rparr>"

text \<open>The steps of the clients, the executor and the output tasks, in any interleaving; each holds the registry's lock.\<close>

inductive hub_step :: "'o hub \<Rightarrow> 'o hub \<Rightarrow> bool" where
  step_add: "i \<notin> fst ` set (hb_outputs h) \<union> fst ` set (hb_output_stop h) \<union> fst ` set (hb_tasks h) \<union> set (hb_pending h) \<union> set (hb_signalled h)
     \<Longrightarrow> hub_step h (add_output i out h)"
| step_add_runtime: "i \<notin> fst ` set (hb_outputs h) \<union> fst ` set (hb_output_stop h) \<union> fst ` set (hb_tasks h) \<union> set (hb_pending h) \<union> set (hb_signalled h)
     \<Longrightarrow> hb_running h \<Longrightarrow> hub_step h (add_output_at_runtime i out h)"
| step_remove: "hub_step h (snd (remove_output i h))"
| step_run: "\<not> hb_running h \<Longrightarrow> hub_step h (run_hub h)"
| step_take: "i \<in> set (hb_pending h) \<Longrightarrow> hub_step h (task_take i h)"
| step_exit: "hm_get (hb_tasks h) i \<noteq> None \<Longrightarrow> hub_step h (task_exit i h)"

inductive_cases hub_stepE: "hub_step h h'"

inductive hub_reachable :: "'o hub \<Rightarrow> bool" where
  reach_new: "hub_reachable hub_new"
| reach_step: "hub_reachable h \<Longrightarrow> hub_step h h' \<Longrightarrow> hub_reachable h'"

definition hub_inv :: "'o hub \<Rightarrow> bool" where
  "hub_inv h \<longleftrightarrow>
     (\<forall>i. hm_get (hb_outputs h) i \<noteq> None \<longrightarrow> hm_get (hb_output_stop h) i \<noteq> None \<and> hm_get (hb_tasks h) i = None
        \<and> (hb_running h \<longrightarrow> i \<in> set (hb_pending h)))
     \<and> (\<forall>i. hm_get (hb_tasks h) i \<noteq> None \<longrightarrow> i \<in> set (hb_signalled h) \<or> hm_get (hb_output_stop h) i \<noteq> None)"

lemma hm_get_None: "hm_get m i = None \<longleftrightarrow> i \<notin> fst ` set m"
  by (rule map_of_eq_None_iff)

lemma hub_inv_new: "hub_inv hub_new"
  by (simp add: hub_inv_def hub_new_def)

lemma hub_inv_step:
  assumes "hub_inv h" and "hub_step h h'"
  shows "hub_inv h'"
  using assms(2)
proof cases
  case (step_add i out)
  then show ?thesis using assms(1)
    by (auto simp: hub_inv_def add_output_def register_def Let_def hm_get_None [symmetric])
next
  case (step_add_runtime i out)
  then show ?thesis using assms(1)
    by (auto simp: hub_inv_def add_output_at_runtime_def register_def Let_def hm_get_None [symmetric])
next
  case (step_remove i)
  then show ?thesis using assms(1) by (auto simp: hub_inv_def remove_output_def Let_def)
next
  case step_run
  then show ?thesis using assms(1) by (auto simp: hub_inv_def run_hub_def hm_get_None)
next
  case (step_take i)
  then show ?thesis using assms(1)
    by (auto simp: hub_inv_def task_take_def Let_def split: option.splits) (metis in_set_remove1 option.distinct(1))+
next
  case (step_exit i)
  then show ?thesis using assms(1) by (auto simp: hub_inv_def task_exit_def)
qed

lemma hub_inv_reachable: "hub_reachable h \<Longrightarrow> hub_inv h"
  by (induction rule: hub_reachable.induct) (auto intro: hub_inv_new hub_inv_step)


definition demo_hub :: "nat hub" where
  "demo_hub = task_take 7 (run_hub (add_output 7 0 hub_new))"

lemma demo_hub_reachable: "hub_reachable demo_hub"
proof -
  have "hub_reachable (add_output 7 0 hub_new :: nat hub)"
    by (rule reach_step [OF reach_new], rule step_add) (simp add: hub_new_def)
  then have "hub_reachable (run_hub (add_output 7 0 hub_new) :: nat hub)"
    by (rule reach_step) (rule step_run, simp add: add_output_def register_def hub_new_def)
  then show ?thesis
    unfolding demo_hub_def
    by (rule reach_step) (rule step_take, simp add: run_hub_def add_output_def register_def hub_new_def)
qed


text \<open>
  The limit on the outputs counts only outputs that no task has taken: on a running hub every started output has left the
  registry, so more can always be added. For the same reason \<open>remove_output\<close> reports \<open>False\<close> for a running output.
\<close>

definition add_and_start :: "uuid \<Rightarrow> 'o hub \<Rightarrow> 'o \<Rightarrow> 'o hub" where
  "add_and_start i h out = task_take i (snd (try_add_output 1 i out h))"

lemma add_and_start_empty:
  assumes "hb_outputs h = []" and "hb_running h"
  shows "hb_outputs (add_and_start i h out) = [] \<and> hb_running (add_and_start i h out)
    \<and> hb_tasks (add_and_start i h out) = hm_insert i out (hb_tasks h)"
  using assms by (simp add: add_and_start_def try_add_output_def MAX_OUTPUTS_def add_output_def register_def task_take_def hm_remove_def)

lemma output_limit_not_enforced:
  assumes "hb_outputs h = []" and "hb_running h"
  shows "hb_outputs (fold (\<lambda>i h. add_and_start i h out) is h) = []
    \<and> (\<forall>i \<in> set is. hm_get (hb_tasks (fold (\<lambda>i h. add_and_start i h out) is h)) i = Some out)"
proof -
  have "hb_outputs (fold (\<lambda>i h. add_and_start i h out) is h) = [] \<and> hb_running (fold (\<lambda>i h. add_and_start i h out) is h)
    \<and> (\<forall>i. hm_get (hb_tasks (fold (\<lambda>i h. add_and_start i h out) is h)) i =
          (if i \<in> set is then Some out else hm_get (hb_tasks h) i))"
    using assms
  proof (induction "is" arbitrary: h)
    case (Cons i "is")
    then show ?case using add_and_start_empty [OF Cons.prems, of i out] by simp
  qed simp
  then show ?thesis by simp
qed

lemma remove_running_reports_false:
  "hub_reachable h \<Longrightarrow> hm_get (hb_tasks h) i \<noteq> None \<Longrightarrow> fst (remove_output i h) = False"
  using hub_inv_reachable [of h] by (auto simp: hub_inv_def remove_output_def Let_def)

section \<open>The loop of an output task\<close>

record 'o output_ops =
  oo_start :: "'o \<Rightarrow> unit result \<times> 'o"
  oo_send_frame :: "media_frame \<Rightarrow> 'o \<Rightarrow> unit result \<times> 'o"
  oo_stop :: "'o \<Rightarrow> unit result \<times> 'o"

datatype task_event = GlobalStop | OutputStop | TaskFrame media_frame | TaskLagged nat | TaskClosed

fun output_loop :: "'o output_ops \<Rightarrow> task_event list \<Rightarrow> 'o \<Rightarrow> bool \<times> 'o" where
  "output_loop ops [] out = (False, out)"
| "output_loop ops (TaskFrame f # evs) out =
     (case oo_send_frame ops f out of
        (Inl e, out) \<Rightarrow> (True, out)
      | (Inr _, out) \<Rightarrow> output_loop ops evs out)"
| "output_loop ops (TaskLagged n # evs) out = output_loop ops evs out"
| "output_loop ops (ev # evs) out = (True, out)"

definition output_task :: "'o output_ops \<Rightarrow> task_event list \<Rightarrow> 'o \<Rightarrow> 'o" where
  "output_task ops evs out =
     (case oo_start ops out of
        (Inl e, out) \<Rightarrow> out
      | (Inr _, out) \<Rightarrow>
          (case output_loop ops evs out of
             (ended, out) \<Rightarrow> if ended then snd (oo_stop ops out) else out))"

section \<open>The source task\<close>

record 's source_ops =
  so_start :: "'s \<Rightarrow> unit result \<times> 's"
  so_next_frame :: "'s \<Rightarrow> media_frame result \<times> 's"
  so_stop :: "'s \<Rightarrow> unit result \<times> 's"

record hub_resources =
  hr_lifecycle :: stream_entries
  hr_budget :: stream_budget
  hr_permits :: nat

datatype loop_end = StillRunning | StopSignal | SourceError

text \<open>
  The main loop on the choices of its \<^verbatim>\<open>select!\<close>: \<open>True\<close> is the stop signal, \<open>False\<close> a completed \<^verbatim>\<open>next_frame\<close>. The
  frames are those sent to the broadcast channel.
\<close>

fun source_loop :: "'s source_ops \<Rightarrow> bool list \<Rightarrow> 's \<Rightarrow> media_frame list \<times> loop_end \<times> 's" where
  "source_loop ops [] s = ([], StillRunning, s)"
| "source_loop ops (True # evs) s = ([], StopSignal, s)"
| "source_loop ops (False # evs) s =
     (case so_next_frame ops s of
        (Inl e, s) \<Rightarrow> ([], SourceError, s)
      | (Inr f, s) \<Rightarrow> let (fs, why, s) = source_loop ops evs s in (f # fs, why, s))"

definition set_state :: "uuid \<Rightarrow> stream_state \<Rightarrow> hub_resources \<Rightarrow> hub_resources" where
  "set_state i st hr = hr\<lparr>hr_lifecycle := snd (transition i st (hr_lifecycle hr))\<rparr>"

definition lifecycle_remove :: "uuid \<Rightarrow> hub_resources \<Rightarrow> hub_resources" where
  "lifecycle_remove i hr = hr\<lparr>hr_lifecycle := hm_remove i (hr_lifecycle hr)\<rparr>"

text \<open>
  The source task. \<open>open\<close> is \<open>False\<close> if the semaphore of the permits has been closed; a permit is available when it is
  waited for. The permit is bound inside the arm of the \<^verbatim>\<open>match\<close> and dropped at its end.
\<close>

definition source_task :: "'s source_ops \<Rightarrow> uuid \<Rightarrow> bool \<Rightarrow> bool list \<Rightarrow> 's \<Rightarrow> hub_resources \<Rightarrow> media_frame list \<times> 's \<times> hub_resources" where
  "source_task ops i sem_open evs s hr =
     (let hr = hr\<lparr>hr_lifecycle := lifecycle_start i (hr_lifecycle hr)\<rparr>
      in if \<not> sem_open then ([], s, lifecycle_remove i (set_state i Error hr))
         else
           let permit_taken = hr\<lparr>hr_permits := hr_permits hr - 1\<rparr>;
               running = set_state i Running permit_taken;
               hr = running\<lparr>hr_permits := hr_permits running + 1\<rparr>
           in case so_start ops s of
                (Inl e, s) \<Rightarrow> ([], s, lifecycle_remove i (set_state i Error hr))
              | (Inr _, s) \<Rightarrow>
                  (case source_loop ops evs s of
                     (fs, why, s) \<Rightarrow>
                       if why = StillRunning then (fs, s, hr)
                       else
                         let hr = (if why = SourceError
                                   then (let hr = set_state i Error hr in hr\<lparr>hr_budget := remove_stream i (hr_budget hr)\<rparr>)
                                   else hr);
                             hr = set_state i Stopping hr;
                             s = snd (so_stop ops s);
                             hr = set_state i Stopped hr
                         in (fs, s, hr\<lparr>hr_budget := remove_stream i (hr_budget hr)\<rparr>)))"

lemma set_state_get:
  "hm_get (hr_lifecycle (set_state i st hr)) i =
     (case hm_get (hr_lifecycle hr) i of None \<Rightarrow> None | Some cur \<Rightarrow> Some (if can_transition_to cur st then st else cur))"
  "hr_budget (set_state i st hr) = hr_budget hr" "hr_permits (set_state i st hr) = hr_permits hr"
  by (simp_all add: set_state_def transition_def split: option.split)


definition demo_source_ops :: "nat source_ops" where
  "demo_source_ops = \<lparr>so_start = \<lambda>n. (Inr (), n),
     so_next_frame = \<lambda>n. (case n of 0 \<Rightarrow> (Inl (Bail ''video frame channel closed''), 0) | Suc m \<Rightarrow> (Inr (AudioFrame [] 0), m)),
     so_stop = \<lambda>n. (Inr (), n)\<rparr>"


end
