(* ===== verification/Alarms.thy ===== *)
theory Alarms
  imports Tracking
begin

text \<open>
  The two rising-edge alarms: detections per camera (\<^verbatim>\<open>crates/web/src/alarm.rs\<close>) and sound classes per microphone
  (\<^verbatim>\<open>crates/streaming/src/audio_ai/state.rs\<close>). Their common contract is the locale \<open>edge_alarm\<close>: an alarm is raised only on
  an edge from idle to active, and only when the cooldown since the last alarm is over. Instants are nanoseconds on the
  monotonic clock; \<^verbatim>\<open>duration_since\<close> saturates at zero, as the subtraction of naturals does.
\<close>

type_synonym instant = nat
type_synonym duration = nat

section \<open>The contract\<close>

locale edge_alarm =
  fixes step :: "'i \<Rightarrow> instant \<Rightarrow> 's \<Rightarrow> bool \<times> 's"
    and active :: "'s \<Rightarrow> bool"
    and last_fire :: "'s \<Rightarrow> instant option"
    and cooldown :: duration
  assumes step_fires: "fst (step i now s) \<Longrightarrow> \<not> active s \<and> active (snd (step i now s)) \<and> last_fire (snd (step i now s)) = Some now
      \<and> (\<forall>t. last_fire s = Some t \<longrightarrow> cooldown \<le> now - t)"
    and step_silent: "\<not> fst (step i now s) \<Longrightarrow> last_fire (snd (step i now s)) = last_fire s"
    and step_edge: "\<not> active s \<Longrightarrow> active (snd (step i now s)) \<Longrightarrow> (\<forall>t. last_fire s = Some t \<longrightarrow> cooldown \<le> now - t) \<Longrightarrow> fst (step i now s)"
begin

primrec after :: "('i \<times> instant) list \<Rightarrow> 's \<Rightarrow> 's" where
  "after [] s = s"
| "after (x # xs) s = after xs (snd (step (fst x) (snd x) s))"

primrec fires :: "('i \<times> instant) list \<Rightarrow> 's \<Rightarrow> instant list" where
  "fires [] s = []"
| "fires (x # xs) s = (if fst (step (fst x) (snd x) s) then [snd x] else []) @ fires xs (snd (step (fst x) (snd x) s))"

lemma after_append: "after (xs @ ys) s = after ys (after xs s)"
  by (induction xs arbitrary: s) simp_all

lemma fires_append: "fires (xs @ ys) s = fires xs s @ fires ys (after xs s)"
  by (induction xs arbitrary: s) simp_all

lemma fires_subset: "set (fires xs s) \<subseteq> set (map snd xs)"
  by (induction xs arbitrary: s) auto

lemma last_fire_after: "last_fire (after xs s) = (if fires xs s = [] then last_fire s else Some (last (fires xs s)))"
  by (induction xs arbitrary: s) (simp_all add: step_fires step_silent)

text \<open>Alarms are at least the cooldown apart.\<close>

lemma fires_spaced:
  assumes "sorted (map snd xs)" "last_fire s = None \<or> (\<exists>t. last_fire s = Some t \<and> (\<forall>x \<in> set xs. t \<le> snd x))"
  shows "sorted_wrt (\<lambda>a b. a + cooldown \<le> b) (fires xs s) \<and> (\<forall>t b. last_fire s = Some t \<longrightarrow> b \<in> set (fires xs s) \<longrightarrow> t + cooldown \<le> b)"
  using assms
proof (induction xs arbitrary: s)
  case (Cons x xs)
  let ?s = "snd (step (fst x) (snd x) s)"
  show ?case
  proof (cases "fst (step (fst x) (snd x) s)")
    case True
    have f: "last_fire ?s = Some (snd x)" "\<And>t. last_fire s = Some t \<Longrightarrow> cooldown \<le> snd x - t" using step_fires [OF True] by auto
    have IH: "sorted_wrt (\<lambda>a b. a + cooldown \<le> b) (fires xs ?s)" "\<And>b. b \<in> set (fires xs ?s) \<Longrightarrow> snd x + cooldown \<le> b"
      using Cons.IH [of ?s] Cons.prems(1) f(1) by auto
    have "t + cooldown \<le> b" if "last_fire s = Some t" "b \<in> set (fires (x # xs) s)" for t b
    proof -
      have "t \<le> snd x" using Cons.prems(2) that(1) by auto
      then have "t + cooldown \<le> snd x" using f(2) [OF that(1)] by simp
      then show ?thesis using that(2) IH(2) True by fastforce
    qed
    then show ?thesis using True IH by auto
  next
    case False
    have "last_fire ?s = last_fire s" by (rule step_silent [OF False])
    then show ?thesis using Cons.IH [of ?s] Cons.prems False by auto
  qed
qed simp

text \<open>The next alarm, told from the history: an edge is an alarm exactly when all earlier alarms are a cooldown away.\<close>

lemma fires_iff:
  assumes "last_fire s = None" "sorted (map snd xs @ [now])"
  shows "fst (step i now (after xs s)) \<longleftrightarrow>
    \<not> active (after xs s) \<and> active (snd (step i now (after xs s))) \<and> (\<forall>t \<in> set (fires xs s). t + cooldown \<le> now)"
proof -
  have sp: "sorted_wrt (\<lambda>a b. a + cooldown \<le> b) (fires xs s)" using fires_spaced [of xs s] assms by (simp add: sorted_append)
  have le: "t \<le> now" if "t \<in> set (fires xs s)" for t using fires_subset [of xs s] that assms(2) by (auto simp: sorted_append)
  have "(\<forall>t. last_fire (after xs s) = Some t \<longrightarrow> cooldown \<le> now - t) \<longleftrightarrow> (\<forall>t \<in> set (fires xs s). t + cooldown \<le> now)"
  proof (cases "fires xs s = []")
    case True
    then show ?thesis by (simp add: last_fire_after assms(1))
  next
    case False
    then obtain ys z where fz: "fires xs s = ys @ [z]" by (metis rev_exhaust)
    have l: "last_fire (after xs s) = Some z" by (simp add: last_fire_after fz)
    have "z \<le> now" using le by (simp add: fz)
    moreover have "t \<le> z" if "t \<in> set ys" for t using sp that by (auto simp: fz sorted_wrt_append)
    ultimately show ?thesis by (fastforce simp: l fz)
  qed
  then show ?thesis using step_fires [of i now "after xs s"] step_edge [of "after xs s" i now] by blast
qed

text \<open>Between two alarms the machine was idle.\<close>

lemma idle_between:
  assumes "fst (step i now s)" "fst (step j now' (after xs (snd (step i now s))))"
  shows "\<exists>ys zs. xs = ys @ zs \<and> \<not> active (after ys (snd (step i now s)))"
  using step_fires [OF assms(2)] by (intro exI [of _ xs] exI [of _ "[]"]) simp

end

section \<open>Detections\<close>

record alarm_signal =
  as_camera_id :: string
  as_targets :: nat
  as_timestamp_ms :: u64

record alarm_bridge =
  ab_was_active :: "(string, bool) hmap"
  ab_last_fire :: "(string, instant) hmap"
  ab_cooldown :: duration

definition alarm_bridge_new :: "duration \<Rightarrow> alarm_bridge" where
  "alarm_bridge_new cooldown = \<lparr>ab_was_active = [], ab_last_fire = [], ab_cooldown = cooldown\<rparr>"

definition alarm_observe :: "string \<Rightarrow> nat \<Rightarrow> instant \<Rightarrow> u64 \<Rightarrow> alarm_bridge \<Rightarrow> alarm_signal option \<times> alarm_bridge" where
  "alarm_observe camera_id targets now timestamp_ms b =
     (let active = (0 < targets);
          was = (case hm_get (ab_was_active b) camera_id of Some v \<Rightarrow> v | None \<Rightarrow> False);
          b = b\<lparr>ab_was_active := hm_insert camera_id active (ab_was_active b)\<rparr>
      in if \<not> active \<or> was then (None, b)
         else if (case hm_get (ab_last_fire b) camera_id of Some t \<Rightarrow> now - t < ab_cooldown b | None \<Rightarrow> False) then (None, b)
         else (Some \<lparr>as_camera_id = camera_id, as_targets = targets, as_timestamp_ms = timestamp_ms\<rparr>,
               b\<lparr>ab_last_fire := hm_insert camera_id now (ab_last_fire b)\<rparr>))"

text \<open>One sample of a camera: its name, the number of detections, the wall clock.\<close>

type_synonym sample = "string \<times> nat \<times> u64"

definition alarm_step :: "string \<Rightarrow> duration \<Rightarrow> sample \<Rightarrow> instant \<Rightarrow> alarm_bridge \<Rightarrow> bool \<times> alarm_bridge" where
  "alarm_step c cd x now b = (case x of (cam, targets, ts) \<Rightarrow>
     let (r, b') = alarm_observe cam targets now ts (b\<lparr>ab_cooldown := cd\<rparr>) in (cam = c \<and> r \<noteq> None, b'))"

definition camera_active :: "string \<Rightarrow> alarm_bridge \<Rightarrow> bool" where
  "camera_active c b \<longleftrightarrow> hm_get (ab_was_active b) c = Some True"

fun run_alarms :: "(sample \<times> instant) list \<Rightarrow> alarm_bridge \<Rightarrow> (instant \<times> alarm_signal) list \<times> alarm_bridge" where
  "run_alarms [] b = ([], b)"
| "run_alarms (((cam, targets, ts), now) # xs) b =
     (let (r, b') = alarm_observe cam targets now ts b; (sigs, b'') = run_alarms xs b'
      in ((case r of Some sig \<Rightarrow> [(now, sig)] | None \<Rightarrow> []) @ sigs, b''))"

lemma alarm_observe_cooldown [simp]: "ab_cooldown (snd (alarm_observe cam targets now ts b)) = ab_cooldown b"
  by (simp add: alarm_observe_def Let_def)

lemma alarm_observe_other:
  "cam \<noteq> c \<Longrightarrow> hm_get (ab_last_fire (snd (alarm_observe cam targets now ts b))) c = hm_get (ab_last_fire b) c
     \<and> hm_get (ab_was_active (snd (alarm_observe cam targets now ts b))) c = hm_get (ab_was_active b) c"
  by (simp add: alarm_observe_def Let_def)

definition camera_last_fire :: "string \<Rightarrow> alarm_bridge \<Rightarrow> instant option" where
  "camera_last_fire c b = hm_get (ab_last_fire b) c"

interpretation detection_alarm: edge_alarm "alarm_step c cd" "camera_active c" "camera_last_fire c" cd for c cd
  by unfold_locales
    (auto simp: alarm_step_def alarm_observe_def Let_def camera_active_def camera_last_fire_def split: prod.splits if_splits option.splits)

lemma alarm_observe_was: "hm_get (ab_was_active (snd (alarm_observe cam targets now ts b))) c =
    (if c = cam then Some (0 < targets) else hm_get (ab_was_active b) c)"
  by (simp add: alarm_observe_def Let_def)

lemma cooldown_update: "ab_cooldown b = cd \<Longrightarrow> b\<lparr>ab_cooldown := cd\<rparr> = b"
  by auto

lemma run_alarms_contract:
  assumes "ab_cooldown b = cd"
  shows "snd (run_alarms xs b) = detection_alarm.after c cd xs b \<and> ab_cooldown (snd (run_alarms xs b)) = cd
    \<and> map fst (filter (\<lambda>x. as_camera_id (snd x) = c) (fst (run_alarms xs b))) = detection_alarm.fires c cd xs b"
  using assms
proof (induction xs arbitrary: b)
  case (Cons x xs)
  obtain cam targets ts now where x: "x = ((cam, targets, ts), now)" by (metis surj_pair)
  define b' where "b' = snd (alarm_observe cam targets now ts b)"
  obtain r where o: "alarm_observe cam targets now ts b = (r, b')" by (metis b'_def prod.collapse)
  have c': "ab_cooldown b' = cd" using Cons.prems by (simp add: b'_def)
  have st: "alarm_step c cd (cam, targets, ts) now b = (cam = c \<and> r \<noteq> None, b')" using o cooldown_update [OF Cons.prems] by (simp add: alarm_step_def)
  have r: "as_camera_id sig = cam" if "r = Some sig" for sig using o that by (auto simp: alarm_observe_def Let_def split: if_splits)
  show ?case using Cons.IH [OF c'] r by (cases r) (auto simp: x o st split: prod.splits)
qed simp

definition active_before :: "string \<Rightarrow> (sample \<times> instant) list \<Rightarrow> bool" where
  "active_before c xs = (case filter (\<lambda>x. fst (fst x) = c) (rev xs) of [] \<Rightarrow> False | x # _ \<Rightarrow> 0 < fst (snd (fst x)))"

lemma run_alarms_active:
  "camera_active c (snd (run_alarms xs b)) = (case filter (\<lambda>x. fst (fst x) = c) (rev xs) of [] \<Rightarrow> camera_active c b | x # _ \<Rightarrow> 0 < fst (snd (fst x)))"
proof (induction xs arbitrary: b)
  case (Cons x xs)
  obtain cam targets ts now where x: "x = ((cam, targets, ts), now)" by (metis surj_pair)
  have "snd (run_alarms (x # xs) b) = snd (run_alarms xs (snd (alarm_observe cam targets now ts b)))" by (simp add: x split: prod.splits)
  then show ?case using Cons.IH [of "snd (alarm_observe cam targets now ts b)"]
    by (auto simp: x camera_active_def alarm_observe_was split: list.splits)
qed simp

text \<open>C31. A camera raises an alarm exactly on a rising edge outside the cooldown: after any history of samples of all cameras, a
  sample raises one when it has detections, the camera's previous sample had none (or there was none), and every earlier
  alarm of this camera is at least the cooldown ago. Alarms of other cameras do not count.\<close>

theorem alarm_on_rising_edge:
  assumes "sorted (map snd xs @ [now])"
  shows "fst (alarm_observe c targets now ts (snd (run_alarms xs (alarm_bridge_new cd)))) =
    (if 0 < targets \<and> \<not> active_before c xs
        \<and> (\<forall>(t, sig) \<in> set (fst (run_alarms xs (alarm_bridge_new cd))). as_camera_id sig = c \<longrightarrow> t + cd \<le> now)
     then Some \<lparr>as_camera_id = c, as_targets = targets, as_timestamp_ms = ts\<rparr> else None)"
proof -
  let ?init = "alarm_bridge_new cd" and ?b = "snd (run_alarms xs (alarm_bridge_new cd))"
  have cd: "ab_cooldown ?init = cd" by (simp add: alarm_bridge_new_def)
  note run = run_alarms_contract [OF cd, of xs c]
  have b: "?b = detection_alarm.after c cd xs ?init" "ab_cooldown ?b = cd" using run by blast+
  have f: "(\<forall>t \<in> set (detection_alarm.fires c cd xs ?init). t + cd \<le> now) \<longleftrightarrow>
      (\<forall>(t, sig) \<in> set (fst (run_alarms xs ?init)). as_camera_id sig = c \<longrightarrow> t + cd \<le> now)"
    unfolding run [THEN conjunct2, THEN conjunct2, symmetric] by auto
  have st: "alarm_step c cd (c, targets, ts) now ?b = (fst (alarm_observe c targets now ts ?b) \<noteq> None, snd (alarm_observe c targets now ts ?b))"
    using cooldown_update [OF b(2)] by (simp add: alarm_step_def case_prod_beta)
  have a: "camera_active c ?b \<longleftrightarrow> active_before c xs" "camera_active c (snd (alarm_observe c targets now ts ?b)) \<longleftrightarrow> 0 < targets"
    unfolding run_alarms_active active_before_def by (simp_all add: camera_active_def alarm_bridge_new_def alarm_observe_was split: list.splits)
  have "camera_last_fire c ?init = None" by (simp add: camera_last_fire_def alarm_bridge_new_def)
  from detection_alarm.fires_iff [OF this assms, where i = "(c, targets, ts)" and cd = cd]
  have "fst (alarm_observe c targets now ts ?b) \<noteq> None \<longleftrightarrow> 0 < targets \<and> \<not> active_before c xs
      \<and> (\<forall>(t, sig) \<in> set (fst (run_alarms xs ?init)). as_camera_id sig = c \<longrightarrow> t + cd \<le> now)"
    unfolding b(1) [symmetric] f st fst_conv snd_conv a by blast
  moreover have "sig = \<lparr>as_camera_id = c, as_targets = targets, as_timestamp_ms = ts\<rparr>" if "fst (alarm_observe c targets now ts ?b) = Some sig" for sig
    using that by (auto simp: alarm_observe_def Let_def split: if_splits)
  ultimately show ?thesis by (cases "fst (alarm_observe c targets now ts ?b)") auto
qed

theorem alarm_on_rising_edge_witness:
  "sorted (map snd [((''0'', 1 :: nat, 5 :: u64), 0), ((''1'', 2, 6), 1), ((''0'', 0, 7), 2 :: nat)] @ [31]) \<and>
   fst (alarm_observe ''0'' 4 31 9 (snd (run_alarms [((''0'', 1, 5), 0), ((''1'', 2, 6), 1), ((''0'', 0, 7), 2)] (alarm_bridge_new 30))))
     = Some \<lparr>as_camera_id = ''0'', as_targets = 4, as_timestamp_ms = 9\<rparr>"
proof -
  have s: "sorted (map snd [((''0'', 1, 5), 0), ((''1'', 2, 6), 1), ((''0'', 0, 7), 2 :: nat)] @ [31])" by simp
  show ?thesis using alarm_on_rising_edge [OF s, of "''0''" 4 9 30]
    by (simp add: active_before_def alarm_observe_def alarm_bridge_new_def Let_def)
qed

section \<open>Sounds\<close>

definition VOTE_PATCHES :: nat where "VOTE_PATCHES = 3"

record watched_class =
  wc_name :: string
  wc_label_zh :: string
  wc_index :: nat

record 'f sound_event =
  sv_class :: string
  sv_label_zh :: string
  sv_score :: 'f
  sv_timestamp_ms :: u64

record 'f class_watcher =
  cw_spec :: watched_class
  cw_window :: "'f list"
  cw_active :: bool
  cw_last_fire :: "instant option"

record 'f sound_event_state =
  ss_watched :: "'f class_watcher list"
  ss_enter_threshold :: 'f
  ss_cooldown :: duration

definition f32_clamp :: "'f f32_ops \<Rightarrow> 'f \<Rightarrow> 'f \<Rightarrow> 'f \<Rightarrow> 'f" where
  "f32_clamp fo lo hi x = (if fo_lt fo x lo then lo else if fo_lt fo hi x then hi else x)"

definition sound_state_new :: "'f f32_ops \<Rightarrow> watched_class list \<Rightarrow> 'f \<Rightarrow> duration \<Rightarrow> 'f sound_event_state" where
  "sound_state_new fo watched threshold cooldown =
     \<lparr>ss_watched = map (\<lambda>spec. \<lparr>cw_spec = spec, cw_window = [], cw_active = False, cw_last_fire = None\<rparr>) watched,
      ss_enter_threshold = f32_clamp fo (fo_lit fo 1 100) (fo_lit fo 1 1) threshold, ss_cooldown = cooldown\<rparr>"

definition watched_names :: "'f sound_event_state \<Rightarrow> string list" where
  "watched_names s = map (\<lambda>w. wc_name (cw_spec w)) (ss_watched s)"

text \<open>\<^verbatim>\<open>while window.len() > VOTE_PATCHES { window.pop_front() }\<close>\<close>

fun pop_excess :: "'f list \<Rightarrow> 'f list" where
  "pop_excess w = (if VOTE_PATCHES < length w then pop_excess (tl w) else w)"

declare pop_excess.simps [simp del]

definition window_mean :: "'f f32_ops \<Rightarrow> 'f list \<Rightarrow> 'f" where
  "window_mean fo w = fo_div fo (fold (\<lambda>x acc. fo_add fo acc x) w (fo_lit fo 0 1)) (fo_of_u32 fo (of_nat (length w)))"

definition watcher_update ::
  "'f f32_ops \<Rightarrow> 'f \<Rightarrow> duration \<Rightarrow> 'f list \<Rightarrow> instant \<Rightarrow> u64 \<Rightarrow> 'f class_watcher \<Rightarrow> 'f sound_event list \<times> 'f class_watcher" where
  "watcher_update fo enter cooldown scores now timestamp_ms w =
     (let score = (if wc_index (cw_spec w) < length scores then scores ! wc_index (cw_spec w) else fo_lit fo 0 1);
          w = w\<lparr>cw_window := pop_excess (cw_window w @ [score])\<rparr>
      in if length (cw_window w) < VOTE_PATCHES then ([], w)
         else
           let mean = window_mean fo (cw_window w);
               exit_threshold = fo_mul fo (fo_lit fo 1 2) enter
           in if cw_active w
              then ([], if fo_le fo mean exit_threshold then w\<lparr>cw_active := False\<rparr> else w)
              else if fo_le fo enter mean
              then
                let w = w\<lparr>cw_active := True\<rparr>;
                    cooled = (case cw_last_fire w of None \<Rightarrow> True | Some t \<Rightarrow> cooldown \<le> now - t)
                in if cooled
                   then ([\<lparr>sv_class = wc_name (cw_spec w), sv_label_zh = wc_label_zh (cw_spec w), sv_score = mean, sv_timestamp_ms = timestamp_ms\<rparr>],
                         w\<lparr>cw_last_fire := Some now\<rparr>)
                   else ([], w)
              else ([], w))"

fun watchers_loop ::
  "'f f32_ops \<Rightarrow> 'f \<Rightarrow> duration \<Rightarrow> 'f list \<Rightarrow> instant \<Rightarrow> u64 \<Rightarrow> 'f class_watcher list \<Rightarrow> 'f sound_event list \<times> 'f class_watcher list" where
  "watchers_loop fo enter cooldown scores now timestamp_ms [] = ([], [])"
| "watchers_loop fo enter cooldown scores now timestamp_ms (w # ws) =
     (let (fired, w') = watcher_update fo enter cooldown scores now timestamp_ms w;
          (fireds, ws') = watchers_loop fo enter cooldown scores now timestamp_ms ws
      in (fired @ fireds, w' # ws'))"

definition sound_update ::
  "'f f32_ops \<Rightarrow> 'f list \<Rightarrow> instant \<Rightarrow> u64 \<Rightarrow> 'f sound_event_state \<Rightarrow> 'f sound_event list \<times> 'f sound_event_state" where
  "sound_update fo scores now timestamp_ms s =
     (let (fired, ws) = watchers_loop fo (ss_enter_threshold s) (ss_cooldown s) scores now timestamp_ms (ss_watched s)
      in (fired, s\<lparr>ss_watched := ws\<rparr>))"

text \<open>A run of windows: their scores, the wall clock, the instant.\<close>

fun sound_run :: "'f f32_ops \<Rightarrow> (('f list \<times> u64) \<times> instant) list \<Rightarrow> 'f sound_event_state \<Rightarrow> (instant \<times> 'f sound_event) list" where
  "sound_run fo [] s = []"
| "sound_run fo (((scores, ts), now) # xs) s =
     (let (fired, s') = sound_update fo scores now ts s in map (Pair now) fired @ sound_run fo xs s')"

definition sound_step :: "'f f32_ops \<Rightarrow> 'f \<Rightarrow> duration \<Rightarrow> 'f list \<times> u64 \<Rightarrow> instant \<Rightarrow> 'f class_watcher \<Rightarrow> bool \<times> 'f class_watcher" where
  "sound_step fo enter cd x now w = (case watcher_update fo enter cd (fst x) now (snd x) w of (fired, w') \<Rightarrow> (fired \<noteq> [], w'))"

interpretation sound_alarm: edge_alarm "sound_step fo enter cd" cw_active cw_last_fire cd for fo enter cd
  by unfold_locales (auto simp: sound_step_def watcher_update_def Let_def split: prod.splits if_splits option.splits)

text \<open>The events of one class are those of its watcher alone.\<close>

lemma watchers_loop_map:
  "watchers_loop fo enter cd scores now ts ws =
     (concat (map (\<lambda>w. fst (watcher_update fo enter cd scores now ts w)) ws), map (\<lambda>w. snd (watcher_update fo enter cd scores now ts w)) ws)"
  by (induction ws) (simp_all add: Let_def case_prod_beta)

lemma watcher_update_spec [simp]: "cw_spec (snd (watcher_update fo enter cd scores now ts w)) = cw_spec w"
  by (simp add: watcher_update_def Let_def)

lemma watcher_update_class: "e \<in> set (fst (watcher_update fo enter cd scores now ts w)) \<Longrightarrow> sv_class e = wc_name (cw_spec w)"
  by (auto simp: watcher_update_def Let_def split: if_splits)

fun watcher_run :: "'f f32_ops \<Rightarrow> 'f \<Rightarrow> duration \<Rightarrow> (('f list \<times> u64) \<times> instant) list \<Rightarrow> 'f class_watcher \<Rightarrow> (instant \<times> 'f sound_event) list" where
  "watcher_run fo enter cd [] w = []"
| "watcher_run fo enter cd (x # xs) w =
     map (Pair (snd x)) (fst (watcher_update fo enter cd (fst (fst x)) (snd x) (snd (fst x)) w))
     @ watcher_run fo enter cd xs (snd (watcher_update fo enter cd (fst (fst x)) (snd x) (snd (fst x)) w))"

lemma sound_run_class:
  assumes "distinct (map (\<lambda>w. wc_name (cw_spec w)) (ss_watched s))" "k < length (ss_watched s)"
  shows "filter (\<lambda>e. sv_class (snd e) = wc_name (cw_spec (ss_watched s ! k))) (sound_run fo xs s) =
    watcher_run fo (ss_enter_threshold s) (ss_cooldown s) xs (ss_watched s ! k)"
  using assms
proof (induction xs arbitrary: s)
  case (Cons x xs)
  obtain scores ts now where x: "x = ((scores, ts), now)" by (metis surj_pair)
  let ?u = "watcher_update fo (ss_enter_threshold s) (ss_cooldown s) scores now ts"
  define s' where "s' = s\<lparr>ss_watched := map (\<lambda>w. snd (?u w)) (ss_watched s)\<rparr>"
  have up: "sound_update fo scores now ts s = (concat (map (\<lambda>w. fst (?u w)) (ss_watched s)), s')"
    by (simp add: sound_update_def watchers_loop_map s'_def)
  have f: "filter (\<lambda>e. sv_class e = wc_name (cw_spec (ss_watched s ! k))) (concat (map (\<lambda>w. fst (?u w)) (ss_watched s))) = fst (?u (ss_watched s ! k))"
    by (rule filter_concat_unique [OF Cons.prems(1)]) (use Cons.prems(2) in \<open>auto dest: watcher_update_class\<close>)
  have n: "map (\<lambda>w. wc_name (cw_spec w)) (ss_watched s') = map (\<lambda>w. wc_name (cw_spec w)) (ss_watched s)" "k < length (ss_watched s')"
    "ss_watched s' ! k = snd (?u (ss_watched s ! k))" "ss_enter_threshold s' = ss_enter_threshold s" "ss_cooldown s' = ss_cooldown s"
    using Cons.prems(2) by (simp_all add: s'_def)
  show ?case using Cons.IH [of s'] Cons.prems(1) n f by (simp add: x up filter_map o_def)
qed simp

lemma pop_excess_drop: "pop_excess w = drop (length w - VOTE_PATCHES) w"
proof (induction w rule: pop_excess.induct)
  case (1 w)
  show ?case
  proof (cases "VOTE_PATCHES < length w")
    case True
    have "drop (length (tl w) - VOTE_PATCHES) (tl w) = drop (length w - VOTE_PATCHES) w" using True
      by (cases w) (auto simp: Suc_diff_le)
    then show ?thesis using 1 True by (simp add: pop_excess.simps [of w])
  qed (simp add: pop_excess.simps [of w])
qed

definition class_score :: "'f f32_ops \<Rightarrow> nat \<Rightarrow> 'f list \<Rightarrow> 'f" where
  "class_score fo i scores = (if i < length scores then scores ! i else fo_lit fo 0 1)"

lemma watcher_update_window:
  "cw_window (snd (watcher_update fo enter cd scores now ts w)) = pop_excess (cw_window w @ [class_score fo (wc_index (cw_spec w)) scores])"
  by (simp add: watcher_update_def Let_def class_score_def)

text \<open>The scores of a class in the last three windows of a run.\<close>

definition voted :: "'f f32_ops \<Rightarrow> nat \<Rightarrow> (('f list \<times> u64) \<times> instant) list \<Rightarrow> 'f list" where
  "voted fo i xs = map (\<lambda>x. class_score fo i (fst (fst x))) (drop (length xs - VOTE_PATCHES) xs)"

lemma snd_sound_step: "snd (sound_step fo enter cd x now w) = snd (watcher_update fo enter cd (fst x) now (snd x) w)"
  by (simp add: sound_step_def split: prod.splits)

lemma voted_snoc: "voted fo i (xs @ [x]) = pop_excess (voted fo i xs @ [class_score fo i (fst (fst x))])"
proof (cases "length xs < VOTE_PATCHES")
  case False
  then have "Suc (length xs - VOTE_PATCHES) = Suc (length xs) - VOTE_PATCHES" by (simp add: Suc_diff_le)
  then show ?thesis using False by (simp add: voted_def pop_excess_drop drop_map VOTE_PATCHES_def)
qed (simp add: voted_def pop_excess_drop VOTE_PATCHES_def)

lemma window_after:
  assumes "cw_window w = []"
  shows "cw_window (sound_alarm.after fo enter cd xs w) = voted fo (wc_index (cw_spec w)) xs \<and> cw_spec (sound_alarm.after fo enter cd xs w) = cw_spec w"
proof (induction xs rule: rev_induct)
  case Nil
  then show ?case by (simp add: assms voted_def)
next
  case (snoc x xs)
  then show ?case by (simp add: sound_alarm.after_append snd_sound_step watcher_update_window voted_snoc)
qed

lemma watcher_run_append:
  "watcher_run fo enter cd (xs @ ys) w = watcher_run fo enter cd xs w @ watcher_run fo enter cd ys (sound_alarm.after fo enter cd xs w)"
  by (induction xs arbitrary: w) (simp_all add: snd_sound_step)

lemma watcher_update_at_most_one: "fst (watcher_update fo enter cd scores now ts w) = [] \<or> (\<exists>e. fst (watcher_update fo enter cd scores now ts w) = [e])"
  by (simp add: watcher_update_def Let_def)

lemma watcher_run_fires: "map fst (watcher_run fo enter cd xs w) = sound_alarm.fires fo enter cd xs w"
proof (induction xs arbitrary: w)
  case (Cons x xs)
  have "fst (sound_step fo enter cd (fst x) (snd x) w) \<longleftrightarrow> fst (watcher_update fo enter cd (fst (fst x)) (snd x) (snd (fst x)) w) \<noteq> []"
    by (simp add: sound_step_def split: prod.splits)
  then show ?case using Cons watcher_update_at_most_one [of fo enter cd "fst (fst x)" "snd x" "snd (fst x)" w]
    by (auto simp: snd_sound_step)
qed simp

lemma watcher_update_event:
  assumes "e \<in> set (fst (watcher_update fo enter cd scores now ts w))"
  defines "win \<equiv> pop_excess (cw_window w @ [class_score fo (wc_index (cw_spec w)) scores])"
  shows "sv_score e = window_mean fo win \<and> fo_le fo enter (window_mean fo win) \<and> sv_timestamp_ms e = ts \<and> VOTE_PATCHES \<le> length win"
  using assms(1) unfolding win_def by (auto simp: watcher_update_def Let_def class_score_def split: if_splits)

lemma watcher_run_event:
  assumes "cw_window w = []" "(now, e) \<in> set (watcher_run fo enter cd xs w)"
  shows "\<exists>ys scores ts zs. xs = ys @ ((scores, ts), now) # zs \<and> VOTE_PATCHES \<le> Suc (length ys) \<and> sv_timestamp_ms e = ts
    \<and> sv_score e = window_mean fo (voted fo (wc_index (cw_spec w)) (ys @ [((scores, ts), now)])) \<and> fo_le fo enter (sv_score e)"
  using assms(2)
proof (induction xs rule: rev_induct)
  case (snoc x xs)
  obtain scores ts now' where x: "x = ((scores, ts), now')" by (metis surj_pair)
  show ?case
  proof (cases "(now, e) \<in> set (watcher_run fo enter cd xs w)")
    case True
    then show ?thesis using snoc.IH by (metis append.assoc append_Cons)
  next
    case False
    let ?w = "sound_alarm.after fo enter cd xs w"
    have e: "now' = now" "e \<in> set (fst (watcher_update fo enter cd scores now' ts ?w))"
      using snoc.prems False by (auto simp: watcher_run_append x)
    have v: "pop_excess (cw_window ?w @ [class_score fo (wc_index (cw_spec ?w)) scores]) = voted fo (wc_index (cw_spec w)) (xs @ [x])"
      using window_after [OF assms(1), of fo enter cd xs] by (simp add: voted_snoc x)
    have "VOTE_PATCHES \<le> length (voted fo (wc_index (cw_spec w)) (xs @ [x]))" using watcher_update_event [OF e(2)] by (simp add: v)
    then have "VOTE_PATCHES \<le> Suc (length xs)" by (simp add: voted_def)
    then show ?thesis using watcher_update_event [OF e(2)] unfolding v by (intro exI [of _ xs] exI [of _ scores] exI [of _ ts] exI [of _ "[]"]) (simp add: x e(1))
  qed
qed simp

text \<open>C32. A watched sound raises an event only by vote: in every run the events of a class are at least the cooldown apart, and each
  carries the mean of the class's scores in the last three windows, which reaches the threshold. One loud window among the
  first two never does.\<close>

theorem sound_events_voted:
  assumes "distinct (map wc_name watched)" "k < length watched" "sorted (map snd xs)"
  shows "let evs = filter (\<lambda>e. sv_class (snd e) = wc_name (watched ! k)) (sound_run fo xs (sound_state_new fo watched threshold cd))
    in sorted_wrt (\<lambda>a b. fst a + cd \<le> fst b) evs
      \<and> (\<forall>(now, e) \<in> set evs. \<exists>ys scores ts zs. xs = ys @ ((scores, ts), now) # zs \<and> VOTE_PATCHES \<le> Suc (length ys) \<and> sv_timestamp_ms e = ts
          \<and> sv_score e = window_mean fo (voted fo (wc_index (watched ! k)) (ys @ [((scores, ts), now)]))
          \<and> fo_le fo (f32_clamp fo (fo_lit fo 1 100) (fo_lit fo 1 1) threshold) (sv_score e))"
proof -
  let ?s = "sound_state_new fo watched threshold cd"
  let ?w = "\<lparr>cw_spec = watched ! k, cw_window = [], cw_active = False, cw_last_fire = None\<rparr>"
  let ?th = "f32_clamp fo (fo_lit fo 1 100) (fo_lit fo 1 1) threshold"
  have "filter (\<lambda>e. sv_class (snd e) = wc_name (watched ! k)) (sound_run fo xs ?s) = watcher_run fo ?th cd xs ?w"
    using sound_run_class [of ?s k fo xs] assms(1,2) by (simp add: sound_state_new_def o_def)
  moreover have "sorted_wrt (\<lambda>a b. a + cd \<le> b) (map fst (watcher_run fo ?th cd xs ?w))"
    unfolding watcher_run_fires using sound_alarm.fires_spaced [OF assms(3), of ?w] by simp
  moreover have "\<exists>ys scores ts zs. xs = ys @ ((scores, ts), now) # zs \<and> VOTE_PATCHES \<le> Suc (length ys) \<and> sv_timestamp_ms e = ts
      \<and> sv_score e = window_mean fo (voted fo (wc_index (watched ! k)) (ys @ [((scores, ts), now)])) \<and> fo_le fo ?th (sv_score e)"
    if "(now, e) \<in> set (watcher_run fo ?th cd xs ?w)" for now e
    using watcher_run_event [OF _ that] by simp
  ultimately show ?thesis unfolding Let_def by (auto simp: sorted_wrt_map)
qed

definition dog_bark :: watched_class where
  "dog_bark = \<lparr>wc_name = ''Dog'', wc_label_zh = [], wc_index = 0\<rparr>"

theorem sound_events_voted_witness:
  "sorted (map snd [(([600], 1), 0), (([600], 2), 1), (([600 :: int], 3 :: u64), 2 :: nat)]) \<and>
   map (\<lambda>e. (fst e, sv_score (snd e))) (sound_run fixed_ops [(([600], 1), 0), (([600], 2), 1), (([600], 3), 2)] (sound_state_new fixed_ops [dog_bark] 300 30)) = [(2, 600)]
   \<and> fo_le fixed_ops (f32_clamp fixed_ops (fo_lit fixed_ops 1 100) (fo_lit fixed_ops 1 1) 300) 600"
proof -
  let ?xs = "[(([600], 1), 0), (([600], 2), 1), (([600], 3), 2 :: nat)]"
  have d: "distinct (map wc_name [dog_bark])" "0 < length [dog_bark]" "sorted (map snd ?xs)" by simp_all
  have e: "sound_run fixed_ops ?xs (sound_state_new fixed_ops [dog_bark] 300 30) =
      [(2, \<lparr>sv_class = ''Dog'', sv_label_zh = [], sv_score = 600, sv_timestamp_ms = 3\<rparr>)]" by code_simp
  show ?thesis using sound_events_voted [OF d, of fixed_ops 300 30] unfolding e by (auto simp: dog_bark_def)
qed

end
