(* ===== verification/Away.thy ===== *)
theory Away
  imports Sentence Tracking Text
begin

text \<open>
  Away mode, \<^verbatim>\<open>crates/web/src/away.rs\<close>: the engine that decides from the detections of an armed device what is a
  visitor and what an activity, the single listening slot, the voice commands and the scheduler. Times are milliseconds as
  64-bit words. A text is the list of its Unicode scalar values; schedule times are ASCII bytes. The language model's
  summary and the settings table are outside: the summary is a function argument, writing the settings table and sending an
  event are effects in a list.
\<close>

section \<open>Configuration\<close>

record away_config =
  ac_interval_ms :: u64
  ac_person_gap_secs :: u64
  ac_greeting_cooldown_secs :: u64
  ac_activity_cooldown_secs :: u64
  ac_activity_labels :: "string list"
  ac_listen_secs :: u64
  ac_snapshot_dir :: utext
  ac_greeting_known :: utext
  ac_greeting_unknown :: utext
  ac_voice_control :: bool
  ac_summary_on_disarm :: bool
  ac_deterrence :: bool
  ac_deterrence_text :: utext
  ac_reask_text :: utext
  ac_schedule_arm :: bytes
  ac_schedule_disarm :: bytes
  ac_schedule_weekdays_only :: bool
  ac_push_url :: utext
  ac_audio_link :: bool

definition default_deterrence_text :: utext where
  "default_deterrence_text = [0x8BF7, 0x6CE8, 0x610F, 0xFF1A, 0x60A8, 0x7684, 0x5F71, 0x50CF, 0x548C, 0x58F0, 0x97F3, 0x5DF2, 0x88AB, 0x8BB0, 0x5F55, 0xFF0C, 0x4E3B, 0x4EBA, 0x5C06, 0x6536, 0x5230, 0x901A, 0x77E5, 0x3002]"

definition default_reask_text :: utext where
  "default_reask_text = [0x8BF7, 0x95EE, 0x4F60, 0x662F, 0x8C01, 0xFF1F, 0x8BF7, 0x8BF4, 0x660E, 0x6765, 0x610F, 0x3002]"

definition default_greeting_known :: utext where
  "default_greeting_known = [0x6B22, 0x8FCE, 0x56DE, 0x5BB6, 0xFF0C, 123, 110, 97, 109, 101, 125, 0x3002]"

definition default_greeting_unknown :: utext where
  "default_greeting_unknown = [0x4F60, 0x597D, 0xFF0C, 0x8FD9, 0x91CC, 0x662F, 0x4E3B, 0x4EBA, 0x7684, 0x667A, 0x80FD, 0x770B, 0x5BB6, 0x52A9, 0x624B, 0x3002, 0x4E3B, 0x4EBA, 0x73B0, 0x5728, 0x4E0D, 0x5728, 0x5BB6, 0xFF0C, 0x8BF7, 0x95EE, 0x4F60, 0x662F, 0x8C01, 0xFF1F]"

definition away_config_default :: away_config where
  "away_config_default =
     \<lparr>ac_interval_ms = 1000, ac_person_gap_secs = 10, ac_greeting_cooldown_secs = 120, ac_activity_cooldown_secs = 60,
      ac_activity_labels = [''cat'', ''dog'', ''bird''], ac_listen_secs = 10, ac_snapshot_dir = utext_of ''away-snapshots'',
      ac_greeting_known = default_greeting_known, ac_greeting_unknown = default_greeting_unknown, ac_voice_control = True,
      ac_summary_on_disarm = True, ac_deterrence = False, ac_deterrence_text = default_deterrence_text,
      ac_reask_text = default_reask_text, ac_schedule_arm = [], ac_schedule_disarm = [], ac_schedule_weekdays_only = False,
      ac_push_url = [], ac_audio_link = True\<rparr>"

record away_settings =
  aw_voice_control :: bool
  aw_summary_on_disarm :: bool
  aw_deterrence :: bool
  aw_deterrence_text :: utext
  aw_reask_text :: utext
  aw_schedule_arm :: bytes
  aw_schedule_disarm :: bytes
  aw_schedule_weekdays_only :: bool
  aw_push_url :: utext
  aw_audio_link :: bool

definition settings_of :: "away_config \<Rightarrow> away_settings" where
  "settings_of c =
     \<lparr>aw_voice_control = ac_voice_control c, aw_summary_on_disarm = ac_summary_on_disarm c, aw_deterrence = ac_deterrence c,
      aw_deterrence_text = ac_deterrence_text c, aw_reask_text = ac_reask_text c, aw_schedule_arm = ac_schedule_arm c,
      aw_schedule_disarm = ac_schedule_disarm c, aw_schedule_weekdays_only = ac_schedule_weekdays_only c,
      aw_push_url = ac_push_url c, aw_audio_link = ac_audio_link c\<rparr>"

definition is_digit :: "u8 \<Rightarrow> bool" where
  "is_digit b \<longleftrightarrow> 48 \<le> b \<and> b \<le> 57"

definition valid_schedule_time :: "bytes \<Rightarrow> bool" where
  "valid_schedule_time s =
     (if s = [] then True
      else if length s \<noteq> 5 \<or> s ! 2 \<noteq> 58 then False
      else
        let h = take 2 s; m = drop 3 s
        in list_all is_digit h \<and> list_all is_digit m
           \<and> (case parse_uint 10 (2 ^ 32 - 1) h of Some v \<Rightarrow> v < 24 | None \<Rightarrow> False)
           \<and> (case parse_uint 10 (2 ^ 32 - 1) m of Some v \<Rightarrow> v < 60 | None \<Rightarrow> False))"

section \<open>The engine\<close>

datatype away_action = Visitor nat | Activity utext | NoAction

record camera_latch =
  cl_person_seen_ms :: "u64 option"
  cl_person_greeted_ms :: "u64 option"
  cl_analysis_ms :: "u64 option"
  cl_activity_ms :: "u64 option"

definition camera_latch_default :: camera_latch where
  "camera_latch_default = \<lparr>cl_person_seen_ms = None, cl_person_greeted_ms = None, cl_analysis_ms = None, cl_activity_ms = None\<rparr>"

record open_listen_slot =
  ol_event_id :: int
  ol_deadline_ms :: u64

record away_engine =
  ae_config :: away_config
  ae_ai_active :: bool
  ae_inactive_reason :: utext
  ae_voice_capable :: bool
  ae_settings :: away_settings
  ae_armed :: bool
  ae_armed_since_ms :: u64
  ae_cameras :: "(string, camera_latch) hmap"
  ae_listen :: "open_listen_slot option"

definition away_engine_new :: "away_config \<Rightarrow> bool \<Rightarrow> utext \<Rightarrow> bool \<Rightarrow> away_engine" where
  "away_engine_new config ai_active inactive_reason voice_capable =
     \<lparr>ae_config = config, ae_ai_active = ai_active, ae_inactive_reason = inactive_reason, ae_voice_capable = voice_capable,
      ae_settings = settings_of config, ae_armed = False, ae_armed_since_ms = 0, ae_cameras = [], ae_listen = None\<rparr>"

definition armed_since_ms :: "away_engine \<Rightarrow> u64 option" where
  "armed_since_ms e = (if ae_armed e then Some (ae_armed_since_ms e) else None)"

definition arm :: "u64 \<Rightarrow> away_engine \<Rightarrow> away_engine" where
  "arm now_ms e = (if \<not> ae_armed e then e\<lparr>ae_armed := True, ae_armed_since_ms := now_ms\<rparr> else e\<lparr>ae_armed := True\<rparr>)"

definition disarm :: "away_engine \<Rightarrow> away_engine" where
  "disarm e = e\<lparr>ae_armed := False, ae_armed_since_ms := 0, ae_listen := None\<rparr>"

definition since :: "u64 \<Rightarrow> u64 \<Rightarrow> u64" where
  "since now t = (if t \<le> now then now - t else 0)"

text \<open>\<^verbatim>\<open>summarize_labels\<close>: the labels in the order of their first detection, with their counts.\<close>

fun count_labels :: "string list \<Rightarrow> 'f detection list \<Rightarrow> (string, nat) hmap \<Rightarrow> string list \<Rightarrow> (string, nat) hmap \<times> string list" where
  "count_labels labels [] counts order = (counts, order)"
| "count_labels labels (d # ds) counts order =
     (if list_ex (\<lambda>l. l = dt_label d) labels
      then
        let entry = (case hm_get counts (dt_label d) of Some n \<Rightarrow> n | None \<Rightarrow> 0)
        in count_labels labels ds (hm_insert (dt_label d) (entry + 1) counts) (if entry = 0 then order @ [dt_label d] else order)
      else count_labels labels ds counts order)"

fun join_text :: "utext \<Rightarrow> utext list \<Rightarrow> utext" where
  "join_text sep [] = []"
| "join_text sep [x] = x"
| "join_text sep (x # y # xs) = x @ sep @ join_text sep (y # xs)"

definition summarize_labels :: "'f detection list \<Rightarrow> string list \<Rightarrow> utext" where
  "summarize_labels detections activity_labels =
     (let (counts, order) = count_labels activity_labels detections [] []
      in join_text [0x3001] (map (\<lambda>label. utext_of label @ [0xD7] @ map ucast (dec_digits (the (hm_get counts label)))) order))"

definition person_count :: "'f detection list \<Rightarrow> nat" where
  "person_count detections = length (filter (\<lambda>d. dt_label d = ''person'') detections)"

definition latch_observe :: "away_config \<Rightarrow> 'f detection list \<Rightarrow> u64 \<Rightarrow> camera_latch \<Rightarrow> away_action \<times> camera_latch" where
  "latch_observe cfg detections now_ms latch =
     (let gap_ms = ac_person_gap_secs cfg * 1000;
          cooldown_ms = ac_greeting_cooldown_secs cfg * 1000;
          activity_ms = ac_activity_cooldown_secs cfg * 1000;
          interval_ms = max (ac_interval_ms cfg) 1;
          throttled = (case cl_analysis_ms latch of Some t \<Rightarrow> since now_ms t < interval_ms | None \<Rightarrow> False)
      in if 0 < person_count detections
         then
           let last_seen = cl_person_seen_ms latch;
               latch = latch\<lparr>cl_person_seen_ms := Some now_ms\<rparr>;
               is_arrival = (case last_seen of Some t \<Rightarrow> gap_ms < since now_ms t | None \<Rightarrow> True);
               past_cooldown = (case cl_person_greeted_ms latch of Some t \<Rightarrow> cooldown_ms < since now_ms t | None \<Rightarrow> True)
           in if is_arrival \<and> past_cooldown \<and> \<not> throttled
              then (Visitor (person_count detections), latch\<lparr>cl_person_greeted_ms := Some now_ms, cl_analysis_ms := Some now_ms\<rparr>)
              else (NoAction, latch)
         else
           let summary = summarize_labels detections (ac_activity_labels cfg)
           in if summary \<noteq> [] \<and> (case cl_activity_ms latch of Some t \<Rightarrow> activity_ms < since now_ms t | None \<Rightarrow> True) \<and> \<not> throttled
              then (Activity summary, latch\<lparr>cl_activity_ms := Some now_ms, cl_analysis_ms := Some now_ms\<rparr>)
              else (NoAction, latch))"

text \<open>\<^verbatim>\<open>observe\<close>: the latch of the camera (\<^verbatim>\<open>entry().or_default()\<close>) is updated in place.\<close>

definition latch_of :: "string \<Rightarrow> away_engine \<Rightarrow> camera_latch" where
  "latch_of camera_id e = (case hm_get (ae_cameras e) camera_id of Some l \<Rightarrow> l | None \<Rightarrow> camera_latch_default)"

definition observe :: "string \<Rightarrow> 'f detection list \<Rightarrow> u64 \<Rightarrow> away_engine \<Rightarrow> away_action \<times> away_engine" where
  "observe camera_id detections now_ms e =
     (let (action, latch) = latch_observe (ae_config e) detections now_ms (latch_of camera_id e)
      in (action, e\<lparr>ae_cameras := hm_insert camera_id latch (ae_cameras e)\<rparr>))"

text \<open>\<open>fmt2\<close> is the formatting of a score with two decimals.\<close>

definition observe_audio :: "('f \<Rightarrow> utext) \<Rightarrow> utext \<Rightarrow> 'f \<Rightarrow> u64 \<Rightarrow> away_engine \<Rightarrow> utext option \<times> away_engine" where
  "observe_audio fmt2 class score now_ms e =
     (if \<not> aw_audio_link (ae_settings e) then (None, e)
      else
        let cooldown = ac_activity_cooldown_secs (ae_config e) * 1000;
            latch = latch_of ''audio'' e
        in if (case cl_activity_ms latch of Some t \<Rightarrow> cooldown < since now_ms t | None \<Rightarrow> True)
           then (Some ([0x1F50A, 32] @ class @ [32] @ fmt2 score),
                 e\<lparr>ae_cameras := hm_insert ''audio'' (latch\<lparr>cl_activity_ms := Some now_ms\<rparr>) (ae_cameras e)\<rparr>)
           else (None, e\<lparr>ae_cameras := hm_insert ''audio'' latch (ae_cameras e)\<rparr>))"

definition open_listen :: "int \<Rightarrow> u64 \<Rightarrow> away_engine \<Rightarrow> bool \<times> away_engine" where
  "open_listen event_id deadline_ms e =
     (if ae_listen e \<noteq> None then (False, e)
      else (True, e\<lparr>ae_listen := Some \<lparr>ol_event_id = event_id, ol_deadline_ms = deadline_ms\<rparr>\<rparr>))"

definition attribute_listen :: "u64 \<Rightarrow> away_engine \<Rightarrow> int option \<times> away_engine" where
  "attribute_listen now_ms e =
     (case ae_listen e of
        Some l \<Rightarrow> (if now_ms \<le> ol_deadline_ms l then Some (ol_event_id l) else None, e\<lparr>ae_listen := None\<rparr>)
      | None \<Rightarrow> (None, e\<lparr>ae_listen := None\<rparr>))"

definition expire_listen :: "u64 \<Rightarrow> away_engine \<Rightarrow> int option \<times> away_engine" where
  "expire_listen now_ms e =
     (if (case ae_listen e of Some l \<Rightarrow> ol_deadline_ms l < now_ms | None \<Rightarrow> False)
      then (map_option ol_event_id (ae_listen e), e\<lparr>ae_listen := None\<rparr>)
      else (None, e))"

section \<open>Arming by voice, by schedule and by hand\<close>

definition text_contains :: "utext \<Rightarrow> utext \<Rightarrow> bool" where
  "text_contains t needle \<longleftrightarrow> find_at needle t \<noteq> None"

definition question_marks :: "utext list" where
  "question_marks = [[0x5417], [0xFF1F], [63], [0x51E0], [0x4EC0, 0x4E48], [0x600E, 0x4E48], [0x4E3A, 0x5565], [0x4E3A, 0x4EC0, 0x4E48]]"

definition disarm_phrases :: "utext list" where
  "disarm_phrases = [[0x56DE, 0x6765, 0x4E86], [0x5230, 0x5BB6, 0x4E86], [0x56DE, 0x5BB6, 0x4E86], [0x56DE, 0x5BB6, 0x5566]]"

definition arm_phrases :: "utext list" where
  "arm_phrases = [[0x51FA, 0x95E8, 0x4E86], [0x51FA, 0x95E8, 0x5566], [0x4E0A, 0x73ED, 0x53BB], [0x4E0A, 0x73ED, 0x4E86], [0x51FA, 0x5DEE, 0x4E86], [0x79BB, 0x5BB6, 0x4E86]]"

definition match_voice_command :: "utext \<Rightarrow> bool option" where
  "match_voice_command transcript =
     (let t = trim_text transcript
      in if 8 < length t then None
         else if list_ex (text_contains t) question_marks then None
         else if list_ex (text_contains t) disarm_phrases then Some False
         else if list_ex (text_contains t) arm_phrases then Some True
         else None)"

definition schedule_fires :: "bytes \<Rightarrow> bytes \<Rightarrow> u32 \<Rightarrow> bool \<Rightarrow> bool" where
  "schedule_fires setting now_hhmm weekday weekdays_only =
     (if setting = [] \<or> setting \<noteq> now_hhmm then False else \<not> weekdays_only \<or> weekday < 5)"

datatype away_effect = PersistActive bool | SendAwayState bool "u64 option"

text \<open>\<^verbatim>\<open>set_active\<close>: \<open>summary\<close> stands for \<^verbatim>\<open>disarm_summary\<close>, which reads the recorded events and asks the language model.\<close>

definition set_active ::
  "(away_engine \<Rightarrow> utext option) \<Rightarrow> bool \<Rightarrow> u64 \<Rightarrow> away_engine \<Rightarrow> (utext + utext option) \<times> away_effect list \<times> away_engine" where
  "set_active summary active now_ms e =
     (if active
      then
        if \<not> ae_ai_active e then (Inl (utext_of ''away mode unavailable: '' @ ae_inactive_reason e), [], e)
        else let e = arm now_ms e in (Inr None, [PersistActive True, SendAwayState True (armed_since_ms e)], e)
      else
        let text = (if aw_summary_on_disarm (ae_settings e) then summary e else None);
            e = disarm e
        in (Inr text, [PersistActive False, SendAwayState False None], e))"

text \<open>One round of the scheduler, at the local time \<open>hhmm\<close> of a weekday.\<close>

definition scheduler_tick ::
  "(away_engine \<Rightarrow> utext option) \<Rightarrow> bytes \<Rightarrow> u32 \<Rightarrow> u64 \<Rightarrow> bytes \<times> away_engine \<Rightarrow> away_effect list \<times> bytes \<times> away_engine" where
  "scheduler_tick summary hhmm weekday now_ms = (\<lambda>(last_minute, e).
     let st = ae_settings e
     in if aw_schedule_arm st = [] \<and> aw_schedule_disarm st = [] then ([], last_minute, e)
        else if hhmm = last_minute then ([], last_minute, e)
        else if schedule_fires (aw_schedule_arm st) hhmm weekday (aw_schedule_weekdays_only st) \<and> \<not> ae_armed e
        then let (_, eff, e) = set_active summary True now_ms e in (eff, hhmm, e)
        else if schedule_fires (aw_schedule_disarm st) hhmm weekday (aw_schedule_weekdays_only st) \<and> ae_armed e
        then let (_, eff, e) = set_active summary False now_ms e in (eff, hhmm, e)
        else ([], last_minute, e))"

section \<open>Decisions told from the history\<close>

text \<open>The log of a run: camera, number of persons, decision and time of every sample.\<close>

type_synonym away_log = "(string \<times> nat \<times> away_action \<times> u64) list"

fun away_run :: "(string \<times> 'f detection list \<times> u64) list \<Rightarrow> away_engine \<Rightarrow> away_log \<times> away_engine" where
  "away_run [] e = ([], e)"
| "away_run ((c, dets, now) # xs) e =
     (let (a, e1) = observe c dets now e; (log, e2) = away_run xs e1 in ((c, person_count dets, a, now) # log, e2))"

definition times_of :: "(nat \<Rightarrow> away_action \<Rightarrow> bool) \<Rightarrow> string \<Rightarrow> away_log \<Rightarrow> u64 list" where
  "times_of P c log = map (\<lambda>x. snd (snd (snd x))) (filter (\<lambda>x. fst x = c \<and> P (fst (snd x)) (fst (snd (snd x)))) log)"

abbreviation person_times :: "string \<Rightarrow> away_log \<Rightarrow> u64 list" where
  "person_times \<equiv> times_of (\<lambda>n a. 0 < n)"

abbreviation visitor_times :: "string \<Rightarrow> away_log \<Rightarrow> u64 list" where
  "visitor_times \<equiv> times_of (\<lambda>n a. \<exists>m. a = Visitor m)"

abbreviation activity_times :: "string \<Rightarrow> away_log \<Rightarrow> u64 list" where
  "activity_times \<equiv> times_of (\<lambda>n a. \<exists>s. a = Activity s)"

abbreviation action_times :: "string \<Rightarrow> away_log \<Rightarrow> u64 list" where
  "action_times \<equiv> times_of (\<lambda>n a. a \<noteq> NoAction)"

lemma times_of_snoc:
  "times_of P c (log @ [(c', n, a, now)]) = times_of P c log @ (if c' = c \<and> P n a then [now] else [])"
  by (simp add: times_of_def)

definition last_opt :: "'a list \<Rightarrow> 'a option" where
  "last_opt ts = (if ts = [] then None else Some (last ts))"

lemma last_opt_append: "last_opt (xs @ [x]) = Some x" "last_opt (xs @ []) = last_opt xs"
  by (simp_all add: last_opt_def)

lemma away_run_snoc:
  "away_run (xs @ [(c, dets, now)]) e =
     (fst (away_run xs e) @ [(c, person_count dets, fst (observe c dets now (snd (away_run xs e))), now)],
      snd (observe c dets now (snd (away_run xs e))))"
proof (induction xs arbitrary: e)
  case (Cons x xs)
  obtain c' dets' now' where x: "x = (c', dets', now')" by (metis surj_pair)
  show ?case using Cons by (simp add: x Let_def case_prod_beta)
qed (simp add: Let_def case_prod_beta)

lemma observe_config [simp]: "ae_config (snd (observe c dets now e)) = ae_config e"
  by (simp add: observe_def Let_def case_prod_beta)

lemma latch_of_observe:
  "latch_of c' (snd (observe c dets now e)) = (if c' = c then snd (latch_observe (ae_config e) dets now (latch_of c e)) else latch_of c' e)"
  by (simp add: observe_def Let_def case_prod_beta latch_of_def)

lemma fst_observe: "fst (observe c dets now e) = fst (latch_observe (ae_config e) dets now (latch_of c e))"
  by (simp add: observe_def Let_def case_prod_beta)

text \<open>What the latch of a camera holds is the last time of each kind in the log.\<close>

definition latch_matches :: "camera_latch \<Rightarrow> string \<Rightarrow> away_log \<Rightarrow> bool" where
  "latch_matches l c log \<longleftrightarrow> cl_person_seen_ms l = last_opt (person_times c log) \<and> cl_person_greeted_ms l = last_opt (visitor_times c log)
     \<and> cl_activity_ms l = last_opt (activity_times c log) \<and> cl_analysis_ms l = last_opt (action_times c log)"

lemma latch_observe_matches:
  assumes "latch_matches l c log"
  shows "latch_matches (snd (latch_observe cfg dets now l)) c (log @ [(c, person_count dets, fst (latch_observe cfg dets now l), now)])"
  using assms by (simp add: latch_observe_def Let_def latch_matches_def times_of_snoc last_opt_append)

lemma away_run_latches:
  assumes "ae_cameras e = []"
  shows "latch_matches (latch_of c (snd (away_run xs e))) c (fst (away_run xs e)) \<and> ae_config (snd (away_run xs e)) = ae_config e"
proof (induction xs rule: rev_induct)
  case Nil
  then show ?case using assms by (simp add: latch_matches_def times_of_def last_opt_def latch_of_def camera_latch_default_def)
next
  case (snoc x xs)
  obtain c' dets now where x: "x = (c', dets, now)" by (metis surj_pair)
  show ?case
  proof (cases "c' = c")
    case True
    then show ?thesis using snoc latch_observe_matches [of "latch_of c (snd (away_run xs e))" c "fst (away_run xs e)" "ae_config e" dets now]
      by (simp add: x away_run_snoc latch_of_observe fst_observe)
  next
    case False
    then show ?thesis using snoc by (simp add: x away_run_snoc latch_of_observe latch_matches_def times_of_snoc)
  qed
qed

text \<open>With a clock that does not run backwards, the last time decides for all.\<close>

lemma since_antimono: "t \<le> t' \<Longrightarrow> t' \<le> now \<Longrightarrow> since now t' \<le> since now t"
  by (simp add: since_def) (simp add: word_le_nat_alt unat_sub diff_le_mono2)

lemma last_decides:
  assumes "sorted ts" "\<forall>t \<in> set ts. t \<le> now"
  shows "(case last_opt ts of Some t \<Rightarrow> g < since now t | None \<Rightarrow> True) \<longleftrightarrow> (\<forall>t \<in> set ts. g < since now t)"
    and "(case last_opt ts of Some t \<Rightarrow> since now t < g | None \<Rightarrow> False) \<longleftrightarrow> \<not> (\<forall>t \<in> set ts. g \<le> since now t)"
proof -
  have "since now (last ts) \<le> since now t" if m: "t \<in> set ts" for t
  proof (rule since_antimono)
    obtain us u where us: "ts = us @ [u]" using m by (cases ts rule: rev_cases) auto
    then show "t \<le> last ts" using m assms(1) by (auto simp: sorted_append)
    show "last ts \<le> now" using assms(2) m by (metis last_in_set empty_iff empty_set)
  qed
  moreover have "last ts \<in> set ts" if "ts \<noteq> []" using that by simp
  ultimately show "(case last_opt ts of Some t \<Rightarrow> g < since now t | None \<Rightarrow> True) \<longleftrightarrow> (\<forall>t \<in> set ts. g < since now t)"
    "(case last_opt ts of Some t \<Rightarrow> since now t < g | None \<Rightarrow> False) \<longleftrightarrow> \<not> (\<forall>t \<in> set ts. g \<le> since now t)"
    by (auto simp: last_opt_def not_le intro: less_le_trans le_less_trans)
qed

lemma times_of_log:
  assumes "sorted (map (\<lambda>x. snd (snd x)) xs @ [now])"
  shows "sorted (times_of P c (fst (away_run xs e)))" "\<forall>t \<in> set (times_of P c (fst (away_run xs e))). t \<le> now"
proof -
  have m: "map (\<lambda>x. snd (snd (snd x))) (fst (away_run xs e)) = map (\<lambda>x. snd (snd x)) xs" for e
  proof (induction xs arbitrary: e)
    case (Cons x xs)
    obtain c' dets' now' where x: "x = (c', dets', now')" by (metis surj_pair)
    show ?case using Cons by (simp add: x Let_def case_prod_beta)
  qed simp
  have "sorted (map (\<lambda>x. snd (snd (snd x))) (fst (away_run xs e)))" using assms by (simp add: m sorted_append)
  then show "sorted (times_of P c (fst (away_run xs e)))" unfolding times_of_def by (rule sorted_filter)
  have "set (times_of P c (fst (away_run xs e))) \<subseteq> set (map (\<lambda>x. snd (snd x)) xs)" unfolding m [symmetric, of e] times_of_def by auto
  then show "\<forall>t \<in> set (times_of P c (fst (away_run xs e))). t \<le> now" using assms by (auto simp: sorted_append)
qed


definition seen :: "string \<Rightarrow> int detection" where
  "seen label = \<lparr>dt_label = label, dt_confidence = 900, dt_bbox = (1, 2, 3, 4)\<rparr>"


text \<open>An arrival within the interval after a record is not reported later either: the presence latch is set although the decision
  is throttled, so the visitor who stays is never an arrival again.\<close>

lemma throttled_arrival_lost:
  "map (\<lambda>x. fst (snd (snd x))) (fst (away_run [(''0'', [seen ''dog''], 10000), (''0'', [seen ''person''], 10500), (''0'', [seen ''person''], 11500),
     (''0'', [seen ''person''], 12500)] (away_engine_new away_config_default True [] True))) =
   [Activity (utext_of ''dog'' @ [0xD7, 49]), NoAction, NoAction, NoAction]"
  by code_simp

section \<open>The scheduler\<close>

fun scheduler_run :: "(away_engine \<Rightarrow> utext option) \<Rightarrow> (bytes \<times> u32 \<times> u64) list \<Rightarrow> bytes \<times> away_engine \<Rightarrow> bytes \<times> away_engine" where
  "scheduler_run summary [] st = st"
| "scheduler_run summary ((hhmm, weekday, now) # ticks) st = scheduler_run summary ticks (snd (scheduler_tick summary hhmm weekday now st))"

definition schedule_ok :: "away_engine \<Rightarrow> bool" where
  "schedule_ok e \<longleftrightarrow> ae_ai_active e \<and> aw_schedule_arm (ae_settings e) \<noteq> [] \<and> aw_schedule_disarm (ae_settings e) \<noteq> []
     \<and> aw_schedule_arm (ae_settings e) \<noteq> aw_schedule_disarm (ae_settings e) \<and> \<not> aw_schedule_weekdays_only (ae_settings e)"

text \<open>The armed state that the boundary minutes prescribe.\<close>

definition boundary :: "away_settings \<Rightarrow> bool \<Rightarrow> bytes \<Rightarrow> bool" where
  "boundary st armed hhmm = (if hhmm = aw_schedule_arm st then True else if hhmm = aw_schedule_disarm st then False else armed)"

definition last_acted :: "bytes \<times> away_engine \<Rightarrow> bool" where
  "last_acted = (\<lambda>(last_minute, e). (last_minute = aw_schedule_arm (ae_settings e) \<longrightarrow> ae_armed e)
     \<and> (last_minute = aw_schedule_disarm (ae_settings e) \<longrightarrow> \<not> ae_armed e))"

lemma scheduler_tick_boundary:
  assumes "schedule_ok e" "last_acted (lm, e)"
  shows "case snd (scheduler_tick summary hhmm weekday now (lm, e)) of (lm', e') \<Rightarrow>
    schedule_ok e' \<and> ae_settings e' = ae_settings e \<and> last_acted (lm', e') \<and> ae_armed e' = boundary (ae_settings e) (ae_armed e) hhmm"
  using assms by (auto simp: scheduler_tick_def Let_def schedule_ok_def last_acted_def boundary_def schedule_fires_def set_active_def arm_def disarm_def)

text \<open>C34. The schedule rules the watch: with both times set, however the scheduler's rounds fall, the device is armed after them
  exactly when the last boundary minute a round hit was the arming one, or none was hit and it was armed before.\<close>

theorem scheduler_follows_boundaries:
  assumes "schedule_ok e"
  shows "ae_armed (snd (scheduler_run summary ticks ([], e))) = foldl (boundary (ae_settings e)) (ae_armed e) (map fst ticks)"
proof -
  have "ae_armed (snd (scheduler_run summary ticks (lm, e))) = foldl (boundary (ae_settings e)) (ae_armed e) (map fst ticks)"
    if "schedule_ok e" "last_acted (lm, e)" for lm e
    using that
  proof (induction ticks arbitrary: lm e)
    case (Cons x ticks)
    obtain hhmm weekday now where x: "x = (hhmm, weekday, now)" by (metis surj_pair)
    obtain lm' e' where t: "snd (scheduler_tick summary hhmm weekday now (lm, e)) = (lm', e')" by (metis surj_pair)
    note b = scheduler_tick_boundary [OF Cons.prems, where summary = summary and hhmm = hhmm and weekday = weekday and now = now, unfolded t]
    show ?case using Cons.IH [of e' lm'] b by (simp add: x t)
  qed simp
  moreover have "last_acted ([], e)" using assms by (auto simp: last_acted_def schedule_ok_def)
  ultimately show ?thesis using assms by blast
qed

definition scheduled_engine :: away_engine where
  "scheduled_engine = away_engine_new (away_config_default\<lparr>ac_schedule_arm := ascii ''08:00'', ac_schedule_disarm := ascii ''18:00''\<rparr>) True [] True"

theorem scheduler_follows_boundaries_witness:
  "schedule_ok scheduled_engine \<and>
   ae_armed (snd (scheduler_run (\<lambda>_. None) [(ascii ''07:59'', 0, 1), (ascii ''08:00'', 0, 2), (ascii ''12:00'', 0, 3)] ([], scheduled_engine)))"
proof -
  have ok: "schedule_ok scheduled_engine" by code_simp
  then show ?thesis using scheduler_follows_boundaries [OF ok, of "\<lambda>_. None" "[(ascii ''07:59'', 0, 1), (ascii ''08:00'', 0, 2), (ascii ''12:00'', 0, 3)]"]
    by (simp add: boundary_def scheduled_engine_def away_engine_new_def settings_of_def away_config_default_def ascii_def)
qed

text \<open>The round that acted last is remembered by its time of day only. With one boundary alone, the next day's minute compares
  equal and is skipped: the schedule works once.\<close>

lemma single_boundary_works_once:
  assumes "aw_schedule_disarm (ae_settings e) = []" "lm = aw_schedule_arm (ae_settings e)"
  shows "scheduler_run summary ticks (lm, e) = (lm, e)"
proof (induction ticks)
  case (Cons x ticks)
  obtain hhmm weekday now where x: "x = (hhmm, weekday, now)" by (metis surj_pair)
  have "snd (scheduler_tick summary hhmm weekday now (lm, e)) = (lm, e)" using assms by (auto simp: scheduler_tick_def Let_def schedule_fires_def)
  then show ?case using Cons by (simp add: x)
qed simp

section \<open>The listening slot\<close>

datatype listen_op = LOpen int u64 | LUtter u64 | LReap u64 | LDisarm

datatype listen_out = Opened int u64 | Heard int u64 | TimedOut int u64

definition listen_step :: "listen_op \<Rightarrow> away_engine \<Rightarrow> listen_out list \<times> away_engine" where
  "listen_step op e = (case op of
     LOpen i d \<Rightarrow> (case open_listen i d e of (ok, e') \<Rightarrow> (if ok then [Opened i d] else [], e'))
   | LUtter now \<Rightarrow> (case attribute_listen now e of (r, e') \<Rightarrow> (case r of Some i \<Rightarrow> [Heard i now] | None \<Rightarrow> [], e'))
   | LReap now \<Rightarrow> (case expire_listen now e of (r, e') \<Rightarrow> (case r of Some i \<Rightarrow> [TimedOut i now] | None \<Rightarrow> [], e'))
   | LDisarm \<Rightarrow> ([], disarm e))"

fun listen_run :: "listen_op list \<Rightarrow> away_engine \<Rightarrow> listen_out list" where
  "listen_run [] e = []"
| "listen_run (op # ops) e = (case listen_step op e of (outs, e') \<Rightarrow> outs @ listen_run ops e')"

text \<open>Every window ends at most once, with an answer in time or with a timeout after the deadline, both for its own event.\<close>

fun windows_ok :: "(int \<times> u64) option \<Rightarrow> listen_out list \<Rightarrow> bool" where
  "windows_ok w [] = True"
| "windows_ok w (Opened i d # outs) = windows_ok (Some (i, d)) outs"
| "windows_ok w (Heard i t # outs) = (case w of Some (j, d) \<Rightarrow> i = j \<and> t \<le> d \<and> windows_ok None outs | None \<Rightarrow> False)"
| "windows_ok w (TimedOut i t # outs) = (case w of Some (j, d) \<Rightarrow> i = j \<and> d < t \<and> windows_ok None outs | None \<Rightarrow> False)"

lemma windows_ok_any: "windows_ok None outs \<Longrightarrow> windows_ok w outs"
proof (cases outs)
  case (Cons x xs)
  then show "windows_ok None outs \<Longrightarrow> windows_ok w outs" by (cases x) auto
qed simp

lemma listen_run_windows:
  "windows_ok (map_option (\<lambda>l. (ol_event_id l, ol_deadline_ms l)) (ae_listen e)) (listen_run ops e)"
proof (induction ops arbitrary: e)
  case (Cons op ops)
  show ?case
    using Cons [of "snd (listen_step op e)"]
    by (cases op; cases "ae_listen e")
      (auto simp: listen_step_def open_listen_def attribute_listen_def expire_listen_def disarm_def intro: windows_ok_any)
qed simp

text \<open>An utterance after the deadline closes the window without ending it: the reaper that comes afterwards finds nothing, and the
  record of the visitor stays in its listening state. Disarming does the same.\<close>

lemma late_utterance_hides_timeout:
  "listen_run [LOpen 7 1000, LUtter 2000, LReap 4000] (away_engine_new away_config_default True [] True) = [Opened 7 1000]
   \<and> listen_run [LOpen 7 1000, LDisarm, LReap 4000] (away_engine_new away_config_default True [] True) = [Opened 7 1000]"
  by code_simp

end
