(* ===== verification/AuthStore.thy ===== *)
theory AuthStore
  imports Text HashMap
begin

text \<open>
  Users and login sessions, \<^verbatim>\<open>crates/security/src/auth.rs\<close>. The SQL statements are run by SQLite and the password
  hashes are made by bcrypt, neither of which is part of the program: the statements are the fields of \<open>auth_sql\<close>, arguments
  of every operation, and \<open>sql_documented\<close> states what SQLite documents about them, through the rows \<open>ar_sessions\<close> and
  \<open>ar_users\<close> they leave. A statement that fails has no effect. Columns are TEXT, so the numbers are stored in decimal, and a
  comparison in a statement compares bytes. Of the error for a stored time that is no number the appended cause is left out.
\<close>

datatype db_error = SqlError bytes | BcryptError bytes | OtherError bytes

datatype auth_error = UserNotFound bytes | WrongPassword | Database bytes | Bcrypt bytes | Other bytes

definition auth_error_from :: "db_error \<Rightarrow> auth_error" where
  "auth_error_from e = (case e of SqlError m \<Rightarrow> Database m | BcryptError m \<Rightarrow> Bcrypt m | OtherError m \<Rightarrow> Other m)"

definition SESSION_TTL_SECS :: u64 where
  "SESSION_TTL_SECS = 24 * 60 * 60"

record session_row =
  sr_user_id :: bytes
  sr_created_at :: bytes
  sr_expires_at :: bytes

record 'db auth_sql =
  sql_insert_session :: "bytes \<Rightarrow> session_row \<Rightarrow> 'db \<Rightarrow> (db_error + unit) \<times> 'db"
  sql_select_session :: "bytes \<Rightarrow> 'db \<Rightarrow> db_error + (bytes \<times> bytes) option"
  sql_delete_session :: "bytes \<Rightarrow> 'db \<Rightarrow> (db_error + unit) \<times> 'db"
  sql_delete_expired :: "bytes \<Rightarrow> 'db \<Rightarrow> (db_error + nat) \<times> 'db"
  sql_delete_user_sessions :: "bytes \<Rightarrow> 'db \<Rightarrow> (db_error + nat) \<times> 'db"
  sql_users_table :: "'db \<Rightarrow> db_error + bool"
  sql_count_users :: "'db \<Rightarrow> db_error + nat"
  sql_create_tables :: "'db \<Rightarrow> (db_error + unit) \<times> 'db"
  sql_insert_user :: "bytes \<Rightarrow> bytes \<Rightarrow> 'db \<Rightarrow> (db_error + unit) \<times> 'db"
  sql_select_password :: "bytes \<Rightarrow> 'db \<Rightarrow> db_error + bytes option"
  sql_update_password :: "bytes \<Rightarrow> bytes \<Rightarrow> 'db \<Rightarrow> (db_error + nat) \<times> 'db"

section \<open>Sessions\<close>

text \<open>\<^verbatim>\<open>create_session\<close>: the token is drawn by \<^verbatim>\<open>generate_token\<close>, the clock is in seconds.\<close>

definition generate_token :: "bytes \<Rightarrow> bytes" where
  "generate_token random = hex_encode random"

definition create_session :: "'db auth_sql \<Rightarrow> bytes \<Rightarrow> u64 \<Rightarrow> bytes \<Rightarrow> 'db \<Rightarrow> (db_error + bytes) \<times> 'db" where
  "create_session sql random now_secs user_id db =
     (let token = generate_token random;
          created_at = dec_digits (unat now_secs);
          expires_at = dec_digits (unat (now_secs + SESSION_TTL_SECS))
      in case sql_insert_session sql token \<lparr>sr_user_id = user_id, sr_created_at = created_at, sr_expires_at = expires_at\<rparr> db of
           (Inl e, db) \<Rightarrow> (Inl e, db)
         | (Inr _, db) \<Rightarrow> (Inr token, db))"

definition validate_session :: "'db auth_sql \<Rightarrow> u64 \<Rightarrow> bytes \<Rightarrow> 'db \<Rightarrow> db_error + bytes option" where
  "validate_session sql now token db =
     (case sql_select_session sql token db of
        Inl e \<Rightarrow> Inl e
      | Inr None \<Rightarrow> Inr None
      | Inr (Some (user_id, expires_at)) \<Rightarrow>
          (case parse_uint 10 (2 ^ 64 - 1) expires_at of
             None \<Rightarrow> Inl (OtherError (ascii ''Invalid expires_at timestamp''))
           | Some expires_secs \<Rightarrow> Inr (if unat now < expires_secs then Some user_id else None)))"

definition invalidate_session :: "'db auth_sql \<Rightarrow> bytes \<Rightarrow> 'db \<Rightarrow> (db_error + unit) \<times> 'db" where
  "invalidate_session sql token db = sql_delete_session sql token db"

definition cleanup_expired_sessions :: "'db auth_sql \<Rightarrow> u64 \<Rightarrow> 'db \<Rightarrow> (db_error + nat) \<times> 'db" where
  "cleanup_expired_sessions sql now db = sql_delete_expired sql (dec_digits (unat now)) db"

section \<open>Users\<close>

definition is_first_run :: "'db auth_sql \<Rightarrow> 'db \<Rightarrow> db_error + bool" where
  "is_first_run sql db =
     (case sql_users_table sql db of
        Inl e \<Rightarrow> Inl e
      | Inr False \<Rightarrow> Inr True
      | Inr True \<Rightarrow> (case sql_count_users sql db of Inl e \<Rightarrow> Inl e | Inr n \<Rightarrow> Inr (n = 0)))"

definition get_user_password :: "'db auth_sql \<Rightarrow> bytes \<Rightarrow> 'db \<Rightarrow> db_error + bytes option" where
  "get_user_password sql username db = sql_select_password sql username db"

definition update_user_password :: "'db auth_sql \<Rightarrow> bytes \<Rightarrow> bytes \<Rightarrow> 'db \<Rightarrow> (db_error + unit) \<times> 'db" where
  "update_user_password sql username password_hash db =
     (case sql_update_password sql username password_hash db of
        (Inl e, db) \<Rightarrow> (Inl e, db)
      | (Inr affected, db) \<Rightarrow> if affected = 0 then (Inl (OtherError (ascii ''User '' @ [39] @ username @ [39] @ ascii '' not found'')), db) else (Inr (), db))"

definition delete_all_user_sessions :: "'db auth_sql \<Rightarrow> bytes \<Rightarrow> 'db \<Rightarrow> (db_error + nat) \<times> 'db" where
  "delete_all_user_sessions sql username db = sql_delete_user_sessions sql username db"

text \<open>The password functions, a wrapper of bcrypt each.\<close>

record bcrypt_ops =
  bc_verify :: "bytes \<Rightarrow> bytes \<Rightarrow> db_error + bool"
  bc_hash :: "bytes \<Rightarrow> db_error + bytes"

definition reset_password :: "'db auth_sql \<Rightarrow> bcrypt_ops \<Rightarrow> bytes \<Rightarrow> bytes \<Rightarrow> bytes \<Rightarrow> 'db \<Rightarrow> (auth_error + unit) \<times> 'db" where
  "reset_password sql bc username old_password new_password db =
     (case get_user_password sql username db of
        Inl e \<Rightarrow> (Inl (auth_error_from e), db)
      | Inr None \<Rightarrow> (Inl (UserNotFound username), db)
      | Inr (Some stored_hash) \<Rightarrow>
          (case bc_verify bc old_password stored_hash of
             Inl e \<Rightarrow> (Inl (auth_error_from e), db)
           | Inr False \<Rightarrow> (Inl WrongPassword, db)
           | Inr True \<Rightarrow>
               (case bc_hash bc new_password of
                  Inl e \<Rightarrow> (Inl (auth_error_from e), db)
                | Inr new_hash \<Rightarrow>
                    (case update_user_password sql username new_hash db of
                       (Inl e, db) \<Rightarrow> (Inl (auth_error_from e), db)
                     | (Inr _, db) \<Rightarrow>
                         (case delete_all_user_sessions sql username db of
                            (Inl e, db) \<Rightarrow> (Inl (auth_error_from e), db)
                          | (Inr _, db) \<Rightarrow> (Inr (), db))))))"

section \<open>What SQLite documents\<close>

text \<open>\<^verbatim>\<open>memcmp\<close> order of TEXT values.\<close>

fun text_less :: "bytes \<Rightarrow> bytes \<Rightarrow> bool" where
  "text_less xs [] = False"
| "text_less [] (y # ys) = True"
| "text_less (x # xs) (y # ys) = (x < y \<or> x = y \<and> text_less xs ys)"

record auth_rows =
  ar_sessions :: "bytes \<rightharpoonup> session_row"
  ar_users :: "bytes \<rightharpoonup> bytes"

text \<open>A statement either fails and changes nothing, or has the given result and effect.\<close>

definition statement :: "('db \<Rightarrow> auth_rows) \<Rightarrow> ('db \<Rightarrow> (db_error + 'a) \<times> 'db) \<Rightarrow> (auth_rows \<Rightarrow> 'a \<Rightarrow> auth_rows \<Rightarrow> bool) \<Rightarrow> bool" where
  "statement rows f post \<longleftrightarrow> (\<forall>db. case f db of
     (Inl e, db') \<Rightarrow> rows db' = rows db
   | (Inr x, db') \<Rightarrow> post (rows db) x (rows db'))"

definition query :: "('db \<Rightarrow> auth_rows) \<Rightarrow> ('db \<Rightarrow> db_error + 'a) \<Rightarrow> (auth_rows \<Rightarrow> 'a) \<Rightarrow> bool" where
  "query rows f g \<longleftrightarrow> (\<forall>db x. f db = Inr x \<longrightarrow> x = g (rows db))"

definition sql_documented :: "'db auth_sql \<Rightarrow> ('db \<Rightarrow> auth_rows) \<Rightarrow> bool" where
  "sql_documented sql rows \<longleftrightarrow>
     (\<forall>token row. statement rows (sql_insert_session sql token row) (\<lambda>r _ r'. ar_sessions r token = None \<and> r' = r\<lparr>ar_sessions := (ar_sessions r)(token \<mapsto> row)\<rparr>))
   \<and> (\<forall>token. query rows (sql_select_session sql token) (\<lambda>r. map_option (\<lambda>s. (sr_user_id s, sr_expires_at s)) (ar_sessions r token)))
   \<and> (\<forall>token. statement rows (sql_delete_session sql token) (\<lambda>r _ r'. r' = r\<lparr>ar_sessions := (ar_sessions r)(token := None)\<rparr>))
   \<and> (\<forall>now. statement rows (sql_delete_expired sql now)
        (\<lambda>r _ r'. r' = r\<lparr>ar_sessions := (\<lambda>t. case ar_sessions r t of Some s \<Rightarrow> if text_less (sr_expires_at s) now then None else Some s | None \<Rightarrow> None)\<rparr>))
   \<and> (\<forall>user. statement rows (sql_delete_user_sessions sql user)
        (\<lambda>r _ r'. r' = r\<lparr>ar_sessions := (\<lambda>t. case ar_sessions r t of Some s \<Rightarrow> if sr_user_id s = user then None else Some s | None \<Rightarrow> None)\<rparr>))
   \<and> (\<forall>user. query rows (sql_select_password sql user) (\<lambda>r. ar_users r user))
   \<and> (\<forall>user hash. statement rows (sql_insert_user sql user hash) (\<lambda>r _ r'. ar_users r user = None \<and> r' = r\<lparr>ar_users := (ar_users r)(user \<mapsto> hash)\<rparr>))
   \<and> (\<forall>user hash. statement rows (sql_update_password sql user hash)
        (\<lambda>r n r'. if ar_users r user = None then n = 0 \<and> r' = r else n = 1 \<and> r' = r\<lparr>ar_users := (ar_users r)(user \<mapsto> hash)\<rparr>))
   \<and> statement rows (sql_create_tables sql) (\<lambda>r _ r'. r' = r)
   \<and> (\<forall>db. sql_users_table sql db = Inr False \<longrightarrow> ar_users (rows db) = Map.empty)
   \<and> (\<forall>db n. sql_count_users sql db = Inr n \<longrightarrow> (n = 0 \<longleftrightarrow> ar_users (rows db) = Map.empty))"

section \<open>Decimal text in byte order\<close>

lemma text_less_snoc:
  "length xs = length ys \<Longrightarrow> text_less (xs @ [x]) (ys @ [y]) \<longleftrightarrow> text_less xs ys \<or> xs = ys \<and> x < y"
  by (induction xs ys rule: list_induct2) auto

lemma dec_digits_inject: "dec_digits a = dec_digits b \<longleftrightarrow> a = b"
  by (metis parse_digits_dec option.inject)

lemma dec_digit_less: "a < 10 \<Longrightarrow> b < 10 \<Longrightarrow> (48 + of_nat a :: u8) < 48 + of_nat b \<longleftrightarrow> a < b"
  by (simp add: word_less_nat_alt unat_word_ariths unat_of_nat)

lemma dec_digits_not_Nil: "dec_digits n \<noteq> []"
  by (subst dec_digits.simps) simp

lemma less_by_digits: "(a :: nat) < b \<longleftrightarrow> a div 10 < b div 10 \<or> a div 10 = b div 10 \<and> a mod 10 < b mod 10"
proof -
  have "p * 10 + r < q * 10 + s \<longleftrightarrow> p < q \<or> p = q \<and> r < s" if "r < 10" "s < 10" for p q r s :: nat
    using that by (cases p q rule: linorder_cases) auto
  from this [of "a mod 10" "b mod 10" "a div 10" "b div 10"] show ?thesis by simp
qed

lemma text_less_dec:
  "length (dec_digits a) = length (dec_digits b) \<Longrightarrow> text_less (dec_digits a) (dec_digits b) \<longleftrightarrow> a < b"
proof (induction a arbitrary: b rule: dec_digits.induct)
  case (1 a)
  show ?case
  proof (cases "a < 10")
    case True
    then have a: "dec_digits a = [48 + of_nat a]" by (simp add: dec_digits.simps)
    have "b < 10"
    proof (rule ccontr)
      assume "\<not> b < 10"
      then have "length (dec_digits b) = Suc (length (dec_digits (b div 10)))" by (simp add: dec_digits.simps [of b])
      then show False using "1.prems" dec_digits_not_Nil [of "b div 10"] by (simp add: a)
    qed
    then show ?thesis using True by (simp add: dec_digits.simps dec_digit_less)
  next
    case False
    have b: "\<not> b < 10"
    proof
      assume "b < 10"
      then have "length (dec_digits b) = 1" by (simp add: dec_digits.simps)
      then show False using "1.prems" False dec_digits_not_Nil [of "a div 10"] by (simp add: dec_digits.simps [of a])
    qed
    have d: "dec_digits a = dec_digits (a div 10) @ [48 + of_nat (a mod 10)]" "dec_digits b = dec_digits (b div 10) @ [48 + of_nat (b mod 10)]"
      using False b by (simp_all add: dec_digits.simps [of a] dec_digits.simps [of b])
    have l: "length (dec_digits (a div 10)) = length (dec_digits (b div 10))"
      using "1.prems" by (simp add: d)
    have "text_less (dec_digits a) (dec_digits b) \<longleftrightarrow> a div 10 < b div 10 \<or> a div 10 = b div 10 \<and> a mod 10 < b mod 10"
      unfolding d text_less_snoc [OF l] dec_digits_inject "1.IH" [OF False l] by (simp only: dec_digit_less [OF mod_less_divisor mod_less_divisor, OF zero_less_numeral zero_less_numeral])
    also have "\<dots> \<longleftrightarrow> a < b" by (rule less_by_digits [symmetric])
    finally show ?thesis .
  qed
qed

lemma length_dec_digits: "10 ^ k \<le> n \<Longrightarrow> n < 10 ^ Suc k \<Longrightarrow> length (dec_digits n) = Suc k"
proof (induction k arbitrary: n)
  case (Suc k)
  have "10 ^ k \<le> n div 10" "n div 10 < 10 ^ Suc k" using Suc.prems by (simp_all add: less_mult_imp_div_less less_eq_div_iff_mult_less_eq mult.commute)
  moreover have "\<not> n < 10" using Suc.prems(1) by (metis le_trans linorder_not_le one_le_numeral power_increasing power_one_right Suc_le_mono le0 One_nat_def)
  ultimately show ?case using Suc.IH by (simp add: dec_digits.simps [of n])
qed (simp add: dec_digits.simps)

section \<open>Sessions implement a table of logins\<close>

text \<open>Clock readings whose expiry has the ten digits of the readings of our age.\<close>

definition clock_ok :: "u64 \<Rightarrow> bool" where
  "clock_ok now \<longleftrightarrow> 10 ^ 9 \<le> unat now \<and> unat now + 86400 < 10 ^ 10"

lemma clock_ok_expiry: "clock_ok now \<Longrightarrow> unat (now + SESSION_TTL_SECS) = unat now + 86400"
  by (simp add: clock_ok_def SESSION_TTL_SECS_def unat_word_ariths)

lemma expiry_text_less: "clock_ok t \<Longrightarrow> clock_ok now \<Longrightarrow> text_less (dec_digits (unat t + 86400)) (dec_digits (unat now)) \<longleftrightarrow> unat t + 86400 < unat now"
  using length_dec_digits [of 9] by (intro text_less_dec) (simp add: clock_ok_def)

datatype auth_op = Login u64 bytes bytes | Logout bytes | ResetPassword bytes bytes bytes | Cleanup u64

definition auth_step :: "'db auth_sql \<Rightarrow> bcrypt_ops \<Rightarrow> auth_op \<Rightarrow> 'db \<Rightarrow> bool \<times> 'db" where
  "auth_step sql bc op db = (case op of
     Login now random user \<Rightarrow> (case create_session sql random now user db of (r, db') \<Rightarrow> (isl r = False, db'))
   | Logout token \<Rightarrow> (case invalidate_session sql token db of (r, db') \<Rightarrow> (isl r = False, db'))
   | ResetPassword user old new \<Rightarrow> (case reset_password sql bc user old new db of (r, db') \<Rightarrow> (isl r = False, db'))
   | Cleanup now \<Rightarrow> (case cleanup_expired_sessions sql now db of (r, db') \<Rightarrow> (isl r = False, db')))"

text \<open>The specification: who logged in with which token and when; an operation that fails counts for nothing.\<close>

type_synonym logins = "bytes \<rightharpoonup> bytes \<times> nat"

definition spec_step :: "auth_op \<Rightarrow> logins \<Rightarrow> logins" where
  "spec_step op m = (case op of
     Login now random user \<Rightarrow> m(generate_token random \<mapsto> (user, unat now))
   | Logout token \<Rightarrow> m(token := None)
   | ResetPassword user old new \<Rightarrow> (\<lambda>t. case m t of Some (u, t0) \<Rightarrow> if u = user then None else Some (u, t0) | None \<Rightarrow> None)
   | Cleanup now \<Rightarrow> m)"

definition accepted :: "logins \<Rightarrow> nat \<Rightarrow> bytes \<Rightarrow> bytes option" where
  "accepted m now token = (case m token of Some (user, t0) \<Rightarrow> if now < t0 + 86400 then Some user else None | None \<Rightarrow> None)"

fun auth_run :: "'db auth_sql \<Rightarrow> bcrypt_ops \<Rightarrow> auth_op list \<Rightarrow> 'db \<times> logins \<Rightarrow> 'db \<times> logins" where
  "auth_run sql bc [] st = st"
| "auth_run sql bc (op # ops) (db, m) =
     (case auth_step sql bc op db of (ok, db') \<Rightarrow> auth_run sql bc ops (db', if ok then spec_step op m else m))"

fun clock_of :: "auth_op \<Rightarrow> u64 \<Rightarrow> u64" where
  "clock_of (Login now random user) c = now"
| "clock_of (Cleanup now) c = now"
| "clock_of (Logout token) c = c"
| "clock_of (ResetPassword user old new) c = c"

fun clocks_ok :: "u64 \<Rightarrow> auth_op list \<Rightarrow> u64 \<Rightarrow> bool" where
  "clocks_ok c [] end = (c \<le> end \<and> clock_ok end)"
| "clocks_ok c (op # ops) end = (c \<le> clock_of op c \<and> clock_ok (clock_of op c) \<and> clocks_ok (clock_of op c) ops end)"

fun row_matches :: "session_row option \<Rightarrow> u64 \<Rightarrow> (bytes \<times> nat) option \<Rightarrow> bool" where
  "row_matches (Some s) c l \<longleftrightarrow> (\<exists>t0. l = Some (sr_user_id s, unat t0) \<and> clock_ok t0 \<and> sr_expires_at s = dec_digits (unat t0 + 86400))"
| "row_matches None c (Some (u, t0)) \<longleftrightarrow> t0 + 86400 \<le> unat c"
| "row_matches None c None \<longleftrightarrow> True"

definition represents :: "auth_rows \<Rightarrow> u64 \<Rightarrow> logins \<Rightarrow> bool" where
  "represents r c m \<longleftrightarrow> (\<forall>token. row_matches (ar_sessions r token) c (m token))"

lemma statement_ok: "statement rows f post \<Longrightarrow> f db = (Inr x, db') \<Longrightarrow> post (rows db) x (rows db')"
  unfolding statement_def by (metis (mono_tags, lifting) old.prod.case sum.simps(6))

lemma statement_fails: "statement rows f post \<Longrightarrow> f db = (Inl e, db') \<Longrightarrow> rows db' = rows db"
  unfolding statement_def by (metis (mono_tags, lifting) old.prod.case sum.simps(5))

lemma sql_laws:
  assumes "sql_documented sql rows"
  shows "statement rows (sql_insert_session sql token row) (\<lambda>r _ r'. ar_sessions r token = None \<and> r' = r\<lparr>ar_sessions := (ar_sessions r)(token \<mapsto> row)\<rparr>)"
    and "query rows (sql_select_session sql token) (\<lambda>r. map_option (\<lambda>s. (sr_user_id s, sr_expires_at s)) (ar_sessions r token))"
    and "statement rows (sql_delete_session sql token) (\<lambda>r _ r'. r' = r\<lparr>ar_sessions := (ar_sessions r)(token := None)\<rparr>)"
    and "statement rows (sql_delete_expired sql now)
      (\<lambda>r _ r'. r' = r\<lparr>ar_sessions := (\<lambda>t. case ar_sessions r t of Some s \<Rightarrow> if text_less (sr_expires_at s) now then None else Some s | None \<Rightarrow> None)\<rparr>)"
    and "statement rows (sql_delete_user_sessions sql user)
      (\<lambda>r _ r'. r' = r\<lparr>ar_sessions := (\<lambda>t. case ar_sessions r t of Some s \<Rightarrow> if sr_user_id s = user then None else Some s | None \<Rightarrow> None)\<rparr>)"
    and "query rows (sql_select_password sql user) (\<lambda>r. ar_users r user)"
    and "statement rows (sql_update_password sql user hash)
      (\<lambda>r n r'. if ar_users r user = None then n = 0 \<and> r' = r else n = 1 \<and> r' = r\<lparr>ar_users := (ar_users r)(user \<mapsto> hash)\<rparr>)"
  using assms unfolding sql_documented_def by blast+

lemma create_session_rows:
  assumes "sql_documented sql rows" "create_session sql random now user db = (r, db')"
  shows "case r of Inl e \<Rightarrow> rows db' = rows db
    | Inr token \<Rightarrow> token = generate_token random \<and> ar_sessions (rows db) token = None \<and> rows db' = (rows db)\<lparr>ar_sessions := (ar_sessions (rows db))(token \<mapsto>
        \<lparr>sr_user_id = user, sr_created_at = dec_digits (unat now), sr_expires_at = dec_digits (unat (now + SESSION_TTL_SECS))\<rparr>)\<rparr>"
proof -
  let ?row = "\<lparr>sr_user_id = user, sr_created_at = dec_digits (unat now), sr_expires_at = dec_digits (unat (now + SESSION_TTL_SECS))\<rparr>"
  note law = sql_laws(1) [OF assms(1), of "generate_token random" ?row]
  obtain q dbq where q: "sql_insert_session sql (generate_token random) ?row db = (q, dbq)" by (metis surj_pair)
  show ?thesis using assms(2) q statement_ok [OF law, of db] statement_fails [OF law, of db]
    by (cases q) (auto simp: create_session_def Let_def)
qed

lemma update_user_password_rows:
  assumes "sql_documented sql rows" "update_user_password sql user hash db = (r, db')"
  shows "case r of Inl e \<Rightarrow> rows db' = rows db | Inr _ \<Rightarrow> ar_users (rows db) user \<noteq> None \<and> rows db' = (rows db)\<lparr>ar_users := (ar_users (rows db))(user \<mapsto> hash)\<rparr>"
proof -
  note law = sql_laws(7) [OF assms(1), of user hash]
  obtain q dbq where q: "sql_update_password sql user hash db = (q, dbq)" by (metis surj_pair)
  show ?thesis
  proof (cases q)
    case (Inl e)
    then show ?thesis using assms(2) q statement_fails [OF law, of db e dbq] by (auto simp: update_user_password_def)
  next
    case (Inr n)
    then show ?thesis using assms(2) q statement_ok [OF law, of db n dbq] by (auto simp: update_user_password_def split: if_splits)
  qed
qed

text \<open>The outcomes of a password reset: only the right old password gets through; then the new hash is stored and every session of the
  user is gone. When deleting the sessions fails, the new hash is stored and the sessions are still there.\<close>

lemma reset_password_rows:
  assumes "sql_documented sql rows" "reset_password sql bc user old new db = (r, db')"
  shows "case r of
      Inr _ \<Rightarrow> \<exists>stored new_hash. ar_users (rows db) user = Some stored \<and> bc_verify bc old stored = Inr True \<and> bc_hash bc new = Inr new_hash
        \<and> ar_users (rows db') = (ar_users (rows db))(user \<mapsto> new_hash)
        \<and> ar_sessions (rows db') = (\<lambda>t. case ar_sessions (rows db) t of Some s \<Rightarrow> if sr_user_id s = user then None else Some s | None \<Rightarrow> None)
    | Inl e \<Rightarrow> ar_sessions (rows db') = ar_sessions (rows db)"
proof (cases "get_user_password sql user db")
  case (Inl e)
  then show ?thesis using assms(2) by (auto simp: reset_password_def)
next
  case (Inr p)
  show ?thesis
  proof (cases p)
    case None
    then show ?thesis using Inr assms(2) by (auto simp: reset_password_def)
  next
    case (Some stored)
    have st: "ar_users (rows db) user = Some stored" using sql_laws(6) [OF assms(1), of user] Inr Some by (auto simp: query_def get_user_password_def)
    show ?thesis
    proof (cases "\<exists>h. bc_verify bc old stored = Inr True \<and> bc_hash bc new = Inr h")
      case False
      then show ?thesis using Inr Some assms(2) by (auto simp: reset_password_def split: sum.splits bool.splits)
    next
      case True
      then obtain h where h: "bc_verify bc old stored = Inr True" "bc_hash bc new = Inr h" by blast
      obtain u db1 where u: "update_user_password sql user h db = (u, db1)" by (metis surj_pair)
      note ur = update_user_password_rows [OF assms(1) u]
      obtain d db2 where d: "delete_all_user_sessions sql user db1 = (d, db2)" by (metis surj_pair)
      note law = sql_laws(5) [OF assms(1), of user]
      have dr: "case d of Inl e \<Rightarrow> rows db2 = rows db1 | Inr n \<Rightarrow>
          rows db2 = (rows db1)\<lparr>ar_sessions := (\<lambda>t. case ar_sessions (rows db1) t of Some s \<Rightarrow> if sr_user_id s = user then None else Some s | None \<Rightarrow> None)\<rparr>"
        using d statement_ok [OF law, of db1] statement_fails [OF law, of db1] by (cases d) (auto simp: delete_all_user_sessions_def)
      show ?thesis using assms(2) Inr Some st h u ur d dr
        by (cases u; cases d) (auto simp: reset_password_def)
    qed
  qed
qed

lemma row_matches_mono: "row_matches so c l \<Longrightarrow> c \<le> c' \<Longrightarrow> row_matches so c' l"
  by (cases so; cases l) (auto simp: word_le_nat_alt)

lemma represents_mono: "represents r c m \<Longrightarrow> c \<le> c' \<Longrightarrow> represents r c' m"
  by (auto simp: represents_def intro: row_matches_mono)

lemma represents_login:
  assumes "represents r c m" "clock_ok now"
  shows "represents (r\<lparr>ar_sessions := (ar_sessions r)(token \<mapsto> \<lparr>sr_user_id = user, sr_created_at = ca, sr_expires_at = dec_digits (unat (now + SESSION_TTL_SECS))\<rparr>)\<rparr>)
    c (m(token \<mapsto> (user, unat now)))"
  using assms by (auto simp: represents_def clock_ok_expiry)

lemma row_matches_filter:
  "row_matches so c l \<Longrightarrow> row_matches (case so of Some s \<Rightarrow> if sr_user_id s = user then None else Some s | None \<Rightarrow> None) c
     (case l of Some (u, t0) \<Rightarrow> if u = user then None else Some (u, t0) | None \<Rightarrow> None)"
  by (cases so; cases l) auto

lemma row_matches_cleanup:
  assumes "row_matches so now l" "clock_ok now"
  shows "row_matches (case so of Some s \<Rightarrow> if text_less (sr_expires_at s) (dec_digits (unat now)) then None else Some s | None \<Rightarrow> None) now l"
  using assms expiry_text_less [OF _ assms(2)] by (cases so) auto

lemma auth_step_represents:
  assumes "sql_documented sql rows" "represents (rows db) c m" "c \<le> clock_of op c" "clock_ok (clock_of op c)" "auth_step sql bc op db = (ok, db')"
  shows "represents (rows db') (clock_of op c) (if ok then spec_step op m else m)"
proof (cases op)
  case (Login now random user)
  obtain q where q: "create_session sql random now user db = (q, db')" "ok \<longleftrightarrow> \<not> isl q" using assms(5) by (auto simp: auth_step_def Login split: prod.splits)
  have now: "clock_ok now" "represents (rows db) now m" using assms(2-4) represents_mono by (auto simp: Login)
  show ?thesis using create_session_rows [OF assms(1) q(1)] q(2) now represents_login [OF now(2,1)]
    by (cases q) (auto simp: Login spec_step_def)
next
  case (Logout token)
  obtain q where q: "sql_delete_session sql token db = (q, db')" "ok \<longleftrightarrow> \<not> isl q"
    using assms(5) by (auto simp: auth_step_def Logout invalidate_session_def split: prod.splits)
  note law = sql_laws(3) [OF assms(1), of token]
  show ?thesis using q assms(2) statement_ok [OF law, of db _ db'] statement_fails [OF law, of db _ db']
    by (cases q) (auto simp: Logout spec_step_def represents_def)
next
  case (ResetPassword user old new)
  obtain q where q: "reset_password sql bc user old new db = (q, db')" "ok \<longleftrightarrow> \<not> isl q"
    using assms(5) by (auto simp: auth_step_def ResetPassword split: prod.splits)
  show ?thesis using reset_password_rows [OF assms(1) q(1)] q(2) assms(2) row_matches_filter [where user = user]
    by (cases q) (auto simp: ResetPassword spec_step_def represents_def)
next
  case (Cleanup now)
  obtain q where q: "sql_delete_expired sql (dec_digits (unat now)) db = (q, db')"
    using assms(5) by (auto simp: auth_step_def Cleanup cleanup_expired_sessions_def split: prod.splits)
  note law = sql_laws(4) [OF assms(1), of "dec_digits (unat now)"]
  have c: "c \<le> now" "clock_ok now" using assms(3,4) by (simp_all add: Cleanup)
  show ?thesis using q represents_mono [OF assms(2) c(1)] row_matches_cleanup [OF _ c(2)] statement_ok [OF law, of db _ db'] statement_fails [OF law, of db _ db']
    by (cases q) (auto simp: Cleanup spec_step_def represents_def)
qed

lemma auth_run_represents:
  assumes "sql_documented sql rows" "represents (rows db) c m" "clocks_ok c ops now"
  shows "represents (rows (fst (auth_run sql bc ops (db, m)))) now (snd (auth_run sql bc ops (db, m)))"
  using assms(2,3)
proof (induction ops arbitrary: db c m)
  case (Cons op ops)
  obtain ok db' where st: "auth_step sql bc op db = (ok, db')" by (metis surj_pair)
  show ?case using Cons.IH [OF auth_step_represents [OF assms(1) Cons.prems(1) _ _ st]] Cons.prems(2) by (simp add: st)
qed (simp add: represents_mono)

lemma validate_represents:
  assumes "sql_documented sql rows" "represents (rows db) now m" "clock_ok now" "\<forall>e. sql_select_session sql token db \<noteq> Inl e"
  shows "validate_session sql now token db = Inr (accepted m (unat now) token)"
proof -
  obtain q where q: "sql_select_session sql token db = Inr q" using assms(4) by (cases "sql_select_session sql token db") auto
  have qr: "q = map_option (\<lambda>s. (sr_user_id s, sr_expires_at s)) (ar_sessions (rows db) token)"
    using sql_laws(2) [OF assms(1), of token] q by (auto simp: query_def)
  show ?thesis
  proof (cases "ar_sessions (rows db) token")
    case None
    then have "row_matches None now (m token)" using assms(2) unfolding represents_def by metis
    then show ?thesis using q qr None by (cases "m token") (auto simp: validate_session_def accepted_def)
  next
    case (Some s)
    then obtain t0 where t0: "m token = Some (sr_user_id s, unat t0)" "clock_ok t0" "sr_expires_at s = dec_digits (unat t0 + 86400)"
      using assms(2) unfolding represents_def by (metis row_matches.simps(1))
    have "parse_uint 10 (2 ^ 64 - 1) (dec_digits (unat t0 + 86400)) = Some (unat t0 + 86400)"
      using t0(2) by (intro parse_uint_dec) (simp add: clock_ok_def)
    then show ?thesis using q qr Some t0 by (simp add: validate_session_def accepted_def)
  qed
qed

text \<open>C11. A login lasts a day: after any sequence of logins, logouts, password resets and clean-ups, with statements failing at any point,
  a token is accepted exactly when it was issued by a login less than 24 hours ago that was neither logged out nor ended by a
  password reset of its user, and it stands for that user. Clean-ups change nothing of it.\<close>

theorem session_lifetime:
  assumes "sql_documented sql rows" "ar_sessions (rows db) = Map.empty" "clocks_ok c ops now"
    and "\<forall>e. sql_select_session sql token (fst (auth_run sql bc ops (db, Map.empty))) \<noteq> Inl e"
  shows "validate_session sql now token (fst (auth_run sql bc ops (db, Map.empty))) =
    Inr (accepted (snd (auth_run sql bc ops (db, Map.empty))) (unat now) token)"
proof -
  have r: "represents (rows db) c Map.empty" using assms(2) by (simp add: represents_def)
  have "clock_ok now" using assms(3) by (induction ops arbitrary: c) auto
  then show ?thesis by (rule validate_represents [OF assms(1) auth_run_represents [OF assms(1) r assms(3)] _ assms(4)])
qed

text \<open>A database whose statements never fail.\<close>

definition memory_sql :: "auth_rows auth_sql" where
  "memory_sql =
     \<lparr>sql_insert_session = (\<lambda>token row r. if ar_sessions r token \<noteq> None then (Inl (SqlError []), r) else (Inr (), r\<lparr>ar_sessions := (ar_sessions r)(token \<mapsto> row)\<rparr>)),
      sql_select_session = (\<lambda>token r. Inr (map_option (\<lambda>s. (sr_user_id s, sr_expires_at s)) (ar_sessions r token))),
      sql_delete_session = (\<lambda>token r. (Inr (), r\<lparr>ar_sessions := (ar_sessions r)(token := None)\<rparr>)),
      sql_delete_expired = (\<lambda>now r. (Inr 0, r\<lparr>ar_sessions := (\<lambda>t. case ar_sessions r t of Some s \<Rightarrow> if text_less (sr_expires_at s) now then None else Some s | None \<Rightarrow> None)\<rparr>)),
      sql_delete_user_sessions = (\<lambda>user r. (Inr 0, r\<lparr>ar_sessions := (\<lambda>t. case ar_sessions r t of Some s \<Rightarrow> if sr_user_id s = user then None else Some s | None \<Rightarrow> None)\<rparr>)),
      sql_users_table = (\<lambda>r. Inr True),
      sql_count_users = (\<lambda>r. Inr (if ar_users r = Map.empty then 0 else 1)),
      sql_create_tables = (\<lambda>r. (Inr (), r)),
      sql_insert_user = (\<lambda>user hash r. if ar_users r user \<noteq> None then (Inl (SqlError []), r) else (Inr (), r\<lparr>ar_users := (ar_users r)(user \<mapsto> hash)\<rparr>)),
      sql_select_password = (\<lambda>user r. Inr (ar_users r user)),
      sql_update_password = (\<lambda>user hash r. if ar_users r user = None then (Inr 0, r) else (Inr 1, r\<lparr>ar_users := (ar_users r)(user \<mapsto> hash)\<rparr>))\<rparr>"

definition plain_bcrypt :: bcrypt_ops where
  "plain_bcrypt = \<lparr>bc_verify = (\<lambda>plain hash. Inr (plain = hash)), bc_hash = (\<lambda>plain. Inr plain)\<rparr>"

lemma memory_sql_documented: "sql_documented memory_sql id"
  by (auto simp: sql_documented_def memory_sql_def statement_def query_def)

definition one_user :: auth_rows where
  "one_user = \<lparr>ar_sessions = Map.empty, ar_users = [ascii ''admin'' \<mapsto> ascii ''secret'']\<rparr>"

theorem session_lifetime_witness:
  "sql_documented memory_sql id \<and> clocks_ok 1700000000 [Login 1700000000 [1] (ascii ''admin''), Cleanup 1700000100] 1700000200
   \<and> validate_session memory_sql 1700000200 (generate_token [1])
       (fst (auth_run memory_sql plain_bcrypt [Login 1700000000 [1] (ascii ''admin''), Cleanup 1700000100] (one_user, Map.empty))) = Inr (Some (ascii ''admin''))"
proof -
  let ?ops = "[Login 1700000000 [1] (ascii ''admin''), Cleanup 1700000100]"
  have c: "clocks_ok 1700000000 ?ops 1700000200" by (simp add: clock_ok_def)
  have e: "ar_sessions (id one_user) = Map.empty" by (simp add: one_user_def)
  have n: "\<forall>e. sql_select_session memory_sql (generate_token [1]) (fst (auth_run memory_sql plain_bcrypt ?ops (one_user, Map.empty))) \<noteq> Inl e"
    by (simp add: memory_sql_def)
  have l: "snd (auth_run memory_sql plain_bcrypt ?ops (one_user, Map.empty)) = [generate_token [1] \<mapsto> (ascii ''admin'', 1700000000)]"
    by (simp add: auth_step_def create_session_def memory_sql_def one_user_def spec_step_def cleanup_expired_sessions_def Let_def)
  show ?thesis using session_lifetime [OF memory_sql_documented e c n] c memory_sql_documented by (simp only: l) (simp add: accepted_def)
qed

text \<open>C12. A password reset takes the right old password and ends the user's sessions: when it succeeds, the old password matched the stored
  hash, the new one is stored, no token stands for the user any more, and the sessions of the others are untouched; a wrong
  old password changes nothing.\<close>

theorem password_reset_ends_sessions:
  assumes "sql_documented sql rows" "reset_password sql bc user old new db = (r, db')"
  shows "(r = Inr () \<longrightarrow> (\<exists>stored new_hash. ar_users (rows db) user = Some stored \<and> bc_verify bc old stored = Inr True
        \<and> bc_hash bc new = Inr new_hash \<and> ar_users (rows db') user = Some new_hash)
      \<and> (\<forall>now token. validate_session sql now token db' \<noteq> Inr (Some user))
      \<and> (\<forall>token s. sr_user_id s \<noteq> user \<longrightarrow> (ar_sessions (rows db') token = Some s \<longleftrightarrow> ar_sessions (rows db) token = Some s)))
    \<and> (r = Inl WrongPassword \<longrightarrow> db' = db)"
proof (intro conjI impI)
  assume r: "r = Inr ()"
  note rows = reset_password_rows [OF assms, unfolded r sum.case]
  show "\<exists>stored new_hash. ar_users (rows db) user = Some stored \<and> bc_verify bc old stored = Inr True
      \<and> bc_hash bc new = Inr new_hash \<and> ar_users (rows db') user = Some new_hash" using rows by auto
  show "\<forall>token s. sr_user_id s \<noteq> user \<longrightarrow> (ar_sessions (rows db') token = Some s \<longleftrightarrow> ar_sessions (rows db) token = Some s)"
    using rows by (auto split: option.splits if_splits)
  have "validate_session sql now token db' \<noteq> Inr (Some user)" for now token
  proof
    assume "validate_session sql now token db' = Inr (Some user)"
    then obtain ex where "sql_select_session sql token db' = Inr (Some (user, ex))"
      by (auto simp: validate_session_def split: sum.splits option.splits prod.splits if_splits)
    then have "map_option (\<lambda>s. (sr_user_id s, sr_expires_at s)) (ar_sessions (rows db') token) = Some (user, ex)"
      using sql_laws(2) [OF assms(1), of token] by (auto simp: query_def)
    then show False using rows by (auto split: option.splits if_splits)
  qed
  then show "\<forall>now token. validate_session sql now token db' \<noteq> Inr (Some user)" by blast
next
  assume "r = Inl WrongPassword"
  then show "db' = db" using assms(2)
    by (auto simp: reset_password_def auth_error_from_def split: sum.splits option.splits bool.splits prod.splits db_error.splits)
qed

theorem password_reset_ends_sessions_witness:
  "reset_password memory_sql plain_bcrypt (ascii ''admin'') (ascii ''secret'') (ascii ''better'') (fst (auth_run memory_sql plain_bcrypt [Login 1700000000 [1] (ascii ''admin'')] (one_user, Map.empty)))
     = (Inr (), \<lparr>ar_sessions = Map.empty, ar_users = [ascii ''admin'' \<mapsto> ascii ''better'']\<rparr>)
   \<and> validate_session memory_sql 1700000001 (generate_token [1]) \<lparr>ar_sessions = Map.empty, ar_users = [ascii ''admin'' \<mapsto> ascii ''better'']\<rparr> \<noteq> Inr (Some (ascii ''admin''))"
proof -
  have r: "reset_password memory_sql plain_bcrypt (ascii ''admin'') (ascii ''secret'') (ascii ''better'') (fst (auth_run memory_sql plain_bcrypt [Login 1700000000 [1] (ascii ''admin'')] (one_user, Map.empty)))
     = (Inr (), \<lparr>ar_sessions = Map.empty, ar_users = [ascii ''admin'' \<mapsto> ascii ''better'']\<rparr>)"
    by (auto simp: reset_password_def get_user_password_def update_user_password_def delete_all_user_sessions_def auth_step_def create_session_def memory_sql_def
      plain_bcrypt_def one_user_def Let_def fun_eq_iff)
  then show ?thesis using password_reset_ends_sessions [OF memory_sql_documented r] by simp
qed

text \<open>The reset is not one transaction: when deleting the sessions fails, the password is changed, an error is reported, and the sessions
  go on.\<close>

lemma failed_reset_keeps_sessions:
  "let sql = memory_sql\<lparr>sql_delete_user_sessions := (\<lambda>user r. (Inl (SqlError []), r))\<rparr>;
       db = fst (auth_run memory_sql plain_bcrypt [Login 1700000000 [1] (ascii ''admin'')] (one_user, Map.empty));
       (r, db') = reset_password sql plain_bcrypt (ascii ''admin'') (ascii ''secret'') (ascii ''better'') db
   in r = Inl (Database []) \<and> ar_users db' (ascii ''admin'') = Some (ascii ''better'')
      \<and> validate_session sql 1700000001 (generate_token [1]) db' = Inr (Some (ascii ''admin''))"
proof -
  have p: "parse_uint 10 (2 ^ 64 - 1) (dec_digits 1700086400) = Some 1700086400" by (rule parse_uint_dec) simp
  show ?thesis using p
    by (simp add: reset_password_def get_user_password_def update_user_password_def delete_all_user_sessions_def auth_step_def create_session_def
      validate_session_def auth_error_from_def memory_sql_def plain_bcrypt_def one_user_def Let_def SESSION_TTL_SECS_def)
qed

text \<open>The clean-up compares decimal text: a session issued while the clock read zero is older than any other and is never removed.\<close>

lemma zero_clock_session_never_cleaned: "\<not> text_less (dec_digits 86400) (dec_digits 1700000000)"
  by (simp add: dec_digits.simps)

end
