(* ===== verification/WebAuth.thy ===== *)
theory WebAuth
  imports AuthStore RateLimit
begin

text \<open>
  The web side of authentication: the handlers of \<^verbatim>\<open>crates/web/src/routes/mod.rs\<close> with the login lockout, the middleware
  of \<^verbatim>\<open>crates/security/src/middleware.rs\<close> and the double-submit check of \<^verbatim>\<open>crates/web/src/server.rs\<close>. A request has
  the fields these read; header values are present when they are visible ASCII. The process-wide tables and the database
  are the state; random bytes and clock readings are arguments. A response is its status, message and cookies.
\<close>

section \<open>Requests and responses\<close>

datatype http_method = GET | HEAD | OPTIONS | POST | PUT | DELETE | PATCH

record request =
  rq_method :: http_method
  rq_path :: bytes
  rq_cookie :: "bytes option"
  rq_csrf_token :: "bytes option"
  rq_forwarded_for :: "bytes option"
  rq_real_ip :: "bytes option"
  rq_peer :: "(bool \<times> bytes) option"
  rq_secure :: bool

record response =
  rs_status :: nat
  rs_message :: bytes
  rs_set_cookie :: "bytes list"

definition reply :: "nat \<Rightarrow> string \<Rightarrow> response" where
  "reply status message = \<lparr>rs_status = status, rs_message = ascii message, rs_set_cookie = []\<rparr>"

section \<open>Middleware\<close>

text \<open>\<open>rq_peer\<close>: whether the peer address is loopback, and its text.\<close>

fun find_map :: "('a \<Rightarrow> 'b option) \<Rightarrow> 'a list \<Rightarrow> 'b option" where
  "find_map f [] = None"
| "find_map f (x # xs) = (case f x of Some y \<Rightarrow> Some y | None \<Rightarrow> find_map f xs)"

definition extract_session_token :: "request \<Rightarrow> bytes option" where
  "extract_session_token req = Option.bind (rq_cookie req)
     (\<lambda>cookies. find_map (\<lambda>c. strip_prefix (ascii ''session='') (trim c)) (split_on 59 cookies))"

definition client_ip :: "request \<Rightarrow> bytes" where
  "client_ip req =
     (let socket = (case rq_peer req of Some (_, ip) \<Rightarrow> ip | None \<Rightarrow> ascii ''unknown'')
      in if (case rq_peer req of Some (loopback, _) \<Rightarrow> loopback | None \<Rightarrow> False)
         then
           (case Option.bind (rq_forwarded_for req) (\<lambda>v. let ip = trim (hd (split_on 44 v)) in if ip \<noteq> [] then Some ip else None) of
              Some ip \<Rightarrow> ip
            | None \<Rightarrow> (case rq_real_ip req of Some v \<Rightarrow> if v \<noteq> [] then v else socket | None \<Rightarrow> socket))
         else socket)"

text \<open>A layer lets the request through, with what it learned, or answers itself.\<close>

definition require_auth :: "'db auth_sql \<Rightarrow> u64 \<Rightarrow> request \<Rightarrow> 'db \<Rightarrow> response + bytes" where
  "require_auth sql now req db =
     (case extract_session_token req of
        None \<Rightarrow> Inl (reply 401 ''unauthorized'')
      | Some token \<Rightarrow>
          (case validate_session sql now token db of
             Inr (Some uid) \<Rightarrow> Inr uid
           | Inr None \<Rightarrow> Inl (reply 401 ''unauthorized'')
           | Inl e \<Rightarrow> Inl (reply 500 ''internal error'')))"

definition always_allowed :: "bytes \<Rightarrow> bool" where
  "always_allowed path \<longleftrightarrow> path = ascii ''/health'' \<or> path = ascii ''/api/health'' \<or> path = ascii ''/metrics'' \<or> path = ascii ''/api/auth/setup''
     \<or> path = ascii ''/'' \<or> starts_with (ascii ''/assets/'') path \<or> path = ascii ''/style.css'' \<or> starts_with (ascii ''/js/'') path"

definition require_setup :: "'db auth_sql \<Rightarrow> request \<Rightarrow> 'db \<Rightarrow> response + unit" where
  "require_setup sql req db =
     (if always_allowed (rq_path req) then Inr ()
      else case is_first_run sql db of
             Inr True \<Rightarrow> Inl (reply 503 ''Initial setup required'')
           | Inr False \<Rightarrow> Inr ()
           | Inl e \<Rightarrow> Inl (reply 500 ''internal error''))"

definition rate_limit :: "nat \<Rightarrow> u64 \<Rightarrow> u64 \<Rightarrow> request \<Rightarrow> rl_state \<Rightarrow> (response + unit) \<times> rl_state" where
  "rate_limit max_requests window_secs now req state =
     (let (allowed, state') = check_rate_limit now (client_ip req) max_requests window_secs state
      in (if allowed then Inr () else Inl (reply 429 ''rate limit exceeded''), state'))"

definition csrf_cookie_of :: "request \<Rightarrow> bytes option" where
  "csrf_cookie_of req = Option.bind (rq_cookie req)
     (\<lambda>s. map_option (trim_start_matches (ascii ''csrf-token='')) (find (starts_with (ascii ''csrf-token='')) (map trim (split_on 59 s))))"

definition csrf_middleware :: "request \<Rightarrow> response + unit" where
  "csrf_middleware req =
     (let is_state_changing = (rq_method req \<in> {POST, PUT, DELETE, PATCH});
          is_auth_endpoint = (rq_path req \<in> {ascii ''/api/auth/login'', ascii ''/api/auth/setup'', ascii ''/api/auth/logout''})
      in if is_state_changing \<and> \<not> is_auth_endpoint
         then
           (case csrf_cookie_of req of
              Some expected \<Rightarrow> if rq_csrf_token req = Some expected then Inr () else Inl (reply 400 ''CSRF token missing or invalid'')
            | None \<Rightarrow> Inl (reply 400 ''CSRF token missing or invalid''))
         else Inr ())"

section \<open>Login lockout\<close>

text \<open>Failures per user: their number and the instant of the last one, in nanoseconds. An instant may precede the origin of the clock, so
  that \<^verbatim>\<open>checked_sub\<close> does not fail.\<close>

type_synonym login_failures = "(bytes, u32 \<times> int) hmap"

definition cleanup_old_entries :: "int \<Rightarrow> login_failures \<Rightarrow> login_failures" where
  "cleanup_old_entries now failures =
     (let cutoff = now - 1800 * 10 ^ 9
      in hm_retain (\<lambda>_ v. cutoff < snd v) failures)"

definition check_lockout :: "int \<Rightarrow> bytes \<Rightarrow> login_failures \<Rightarrow> u64 option \<times> login_failures" where
  "check_lockout now username failures =
     (let failures = cleanup_old_entries now failures
      in (case hm_get failures username of
            Some (count, last_attempt) \<Rightarrow>
              if 5 \<le> count
              then
                let elapsed = of_int (max 0 (now - last_attempt) div 10 ^ 9);
                    lockout_duration = (60 :: u64) * 2 ^ unat (count - 5)
                in if elapsed < lockout_duration then Some (lockout_duration - elapsed) else None
              else None
          | None \<Rightarrow> None, failures))"

definition record_failure :: "int \<Rightarrow> bytes \<Rightarrow> login_failures \<Rightarrow> login_failures" where
  "record_failure now username failures =
     (let count = (case hm_get failures username of Some (n, _) \<Rightarrow> n | None \<Rightarrow> 0)
      in hm_insert username (count + 1, now) failures)"

definition reset_failures :: "bytes \<Rightarrow> login_failures \<Rightarrow> login_failures" where
  "reset_failures username failures = hm_remove username failures"

section \<open>Handlers\<close>

record 'db web_state =
  ws_db :: 'db
  ws_failures :: login_failures

definition secure_flag :: "bool \<Rightarrow> bytes" where
  "secure_flag secure = (if secure then ascii '' Secure;'' else [])"

definition session_cookie :: "bytes \<Rightarrow> bool \<Rightarrow> bytes" where
  "session_cookie token secure = ascii ''session='' @ token @ ascii ''; HttpOnly;'' @ secure_flag secure @ ascii '' SameSite=Strict; Path=/; Max-Age=86400''"

definition session_cookie_cleared :: "bool \<Rightarrow> bytes" where
  "session_cookie_cleared secure = ascii ''session=; HttpOnly;'' @ secure_flag secure @ ascii '' SameSite=Strict; Path=/; Max-Age=0''"

definition csrf_cookie :: "bytes \<Rightarrow> bytes" where
  "csrf_cookie token = ascii ''csrf-token='' @ token @ ascii ''; SameSite=Strict; Path=/; Max-Age=86400''"

definition signed_in :: "bytes \<Rightarrow> bytes \<Rightarrow> bool \<Rightarrow> response" where
  "signed_in token csrf secure = \<lparr>rs_status = 200, rs_message = ascii ''ok'', rs_set_cookie = [session_cookie token secure, csrf_cookie csrf]\<rparr>"

text \<open>The login handler in the two parts between which it gives up the database lock to verify the password.\<close>

definition login_name :: "bytes \<Rightarrow> bytes" where
  "login_name username = (if trim username = [] then ascii ''admin'' else username)"

definition login_begin :: "'db auth_sql \<Rightarrow> int \<Rightarrow> bytes \<Rightarrow> 'db web_state \<Rightarrow> (response + bytes) \<times> 'db web_state" where
  "login_begin sql instant username ws =
     (let (locked, failures) = check_lockout instant username (ws_failures ws);
          ws = ws\<lparr>ws_failures := failures\<rparr>
      in case locked of
           Some retry_in \<Rightarrow> (Inl \<lparr>rs_status = 429, rs_message = ascii ''account locked, try again in '' @ dec_digits (unat retry_in) @ ascii '' seconds'', rs_set_cookie = []\<rparr>, ws)
         | None \<Rightarrow>
             (case get_user_password sql username (ws_db ws) of
                Inr (Some h) \<Rightarrow> (Inr h, ws)
              | Inr None \<Rightarrow> (Inl (reply 401 ''invalid credentials''), ws\<lparr>ws_failures := record_failure instant username failures\<rparr>)
              | Inl e \<Rightarrow> (Inl (reply 500 ''internal error''), ws)))"

definition login_finish ::
  "'db auth_sql \<Rightarrow> db_error + bool \<Rightarrow> int \<Rightarrow> u64 \<Rightarrow> bytes \<Rightarrow> bytes \<Rightarrow> bytes \<Rightarrow> bool \<Rightarrow> 'db web_state \<Rightarrow> response \<times> 'db web_state" where
  "login_finish sql verified instant now random csrf_random username secure ws =
     (case verified of
        Inl e \<Rightarrow> (reply 500 ''internal error'', ws)
      | Inr False \<Rightarrow> (reply 401 ''invalid credentials'', ws\<lparr>ws_failures := record_failure instant username (ws_failures ws)\<rparr>)
      | Inr True \<Rightarrow>
          let ws = ws\<lparr>ws_failures := reset_failures username (ws_failures ws)\<rparr>
          in (case create_session sql random now username (ws_db ws) of
                (Inl e, db) \<Rightarrow> (reply 500 ''internal error'', ws\<lparr>ws_db := db\<rparr>)
              | (Inr token, db) \<Rightarrow> (signed_in token (generate_token csrf_random) secure, ws\<lparr>ws_db := db\<rparr>)))"

definition login_handler ::
  "'db auth_sql \<Rightarrow> bcrypt_ops \<Rightarrow> int \<Rightarrow> u64 \<Rightarrow> bytes \<Rightarrow> bytes \<Rightarrow> bytes \<Rightarrow> bytes \<Rightarrow> bool \<Rightarrow> 'db web_state \<Rightarrow> response \<times> 'db web_state" where
  "login_handler sql bc instant now random csrf_random username password secure ws =
     (let username = login_name username
      in case login_begin sql instant username ws of
           (Inl resp, ws) \<Rightarrow> (resp, ws)
         | (Inr stored_hash, ws) \<Rightarrow> login_finish sql (bc_verify bc password stored_hash) instant now random csrf_random username secure ws)"

definition logout_handler :: "'db auth_sql \<Rightarrow> request \<Rightarrow> 'db web_state \<Rightarrow> response \<times> 'db web_state" where
  "logout_handler sql req ws =
     (\<lparr>rs_status = 204, rs_message = [], rs_set_cookie = [session_cookie_cleared (rq_secure req)]\<rparr>,
      case extract_session_token req of
        Some token \<Rightarrow> ws\<lparr>ws_db := snd (invalidate_session sql token (ws_db ws))\<rparr>
      | None \<Rightarrow> ws)"

definition setup_handler ::
  "'db auth_sql \<Rightarrow> bcrypt_ops \<Rightarrow> u64 \<Rightarrow> bytes \<Rightarrow> bytes \<Rightarrow> bytes \<Rightarrow> bytes \<Rightarrow> bool \<Rightarrow> 'db web_state \<Rightarrow> response \<times> 'db web_state" where
  "setup_handler sql bc now random csrf_random username password secure ws =
     (if trim username = [] then (reply 400 ''username cannot be empty'', ws)
      else if length password < 8 then (reply 400 ''password must be at least 8 characters'', ws)
      else
        case is_first_run sql (ws_db ws) of
          Inl e \<Rightarrow> (reply 500 ''internal error'', ws)
        | Inr False \<Rightarrow> (reply 400 ''already configured'', ws)
        | Inr True \<Rightarrow>
            (case sql_create_tables sql (ws_db ws) of
               (Inl e, db) \<Rightarrow> (reply 500 ''internal error'', ws\<lparr>ws_db := db\<rparr>)
             | (Inr _, db) \<Rightarrow>
                 (case bc_hash bc password of
                    Inl e \<Rightarrow> (reply 500 ''internal error'', ws\<lparr>ws_db := db\<rparr>)
                  | Inr hash \<Rightarrow>
                      (case sql_insert_user sql username hash db of
                         (Inl e, db) \<Rightarrow> (reply 500 ''internal error'', ws\<lparr>ws_db := db\<rparr>)
                       | (Inr _, db) \<Rightarrow>
                           (case create_session sql random now username db of
                              (Inl e, db) \<Rightarrow> (reply 500 ''internal error'', ws\<lparr>ws_db := db\<rparr>)
                            | (Inr token, db) \<Rightarrow> (signed_in token (generate_token csrf_random) secure, ws\<lparr>ws_db := db\<rparr>))))))"

definition reset_password_handler :: "'db auth_sql \<Rightarrow> bcrypt_ops \<Rightarrow> bytes \<Rightarrow> bytes \<Rightarrow> bytes \<Rightarrow> 'db web_state \<Rightarrow> response \<times> 'db web_state" where
  "reset_password_handler sql bc user old_password new_password ws =
     (case reset_password sql bc user old_password new_password (ws_db ws) of
        (Inr _, db) \<Rightarrow> (reply 200 ''ok'', ws\<lparr>ws_db := db\<rparr>)
      | (Inl WrongPassword, db) \<Rightarrow> (reply 401 ''Old password is incorrect'', ws\<lparr>ws_db := db\<rparr>)
      | (Inl (UserNotFound u), db) \<Rightarrow> (\<lparr>rs_status = 404, rs_message = ascii ''User '' @ [39] @ u @ [39] @ ascii '' not found'', rs_set_cookie = []\<rparr>, ws\<lparr>ws_db := db\<rparr>)
      | (Inl _, db) \<Rightarrow> (reply 500 ''internal error'', ws\<lparr>ws_db := db\<rparr>))"

text \<open>The layers around a protected route, from the outside in.\<close>

definition protected_route :: "'db auth_sql \<Rightarrow> u64 \<Rightarrow> request \<Rightarrow> 'db \<Rightarrow> response + bytes" where
  "protected_route sql now req db =
     (case csrf_middleware req of
        Inl r \<Rightarrow> Inl r
      | Inr _ \<Rightarrow> (case require_setup sql req db of Inl r \<Rightarrow> Inl r | Inr _ \<Rightarrow> require_auth sql now req db))"

section \<open>The lockout limits guessing\<close>

definition failures_ok :: "int \<Rightarrow> login_failures \<Rightarrow> bool" where
  "failures_ok t f \<longleftrightarrow> hm_wf f \<and> (\<forall>u n l. hm_get f u = Some (n, l) \<longrightarrow> unat n \<le> 10 \<and> l \<le> t)"

lemma failures_ok_mono: "failures_ok t f \<Longrightarrow> t \<le> t' \<Longrightarrow> failures_ok t' f"
  unfolding failures_ok_def by fastforce

lemma cleanup_get:
  "hm_wf f \<Longrightarrow> hm_get (cleanup_old_entries now f) u = (case hm_get f u of Some (n, l) \<Rightarrow> if now - 1800 * 10 ^ 9 < l then Some (n, l) else None | None \<Rightarrow> None)"
  by (simp add: cleanup_old_entries_def hm_get_retain split: option.splits)

lemma cleanup_ok: "failures_ok t f \<Longrightarrow> failures_ok t (cleanup_old_entries now f)"
  unfolding failures_ok_def by (auto simp: cleanup_get split: option.splits if_splits) (simp add: cleanup_old_entries_def)

lemma snd_check_lockout [simp]: "snd (check_lockout now u f) = cleanup_old_entries now f"
  by (simp add: check_lockout_def Let_def)

lemma lockout_duration: "5 \<le> n \<Longrightarrow> unat n \<le> 10 \<Longrightarrow> unat ((60 :: u64) * 2 ^ unat (n - 5 :: u32)) = 60 * 2 ^ (unat n - 5)"
proof -
  assume n: "5 \<le> n" "unat n \<le> 10"
  then have e: "unat (n - 5) = unat n - 5" by (simp add: unat_sub)
  have "unat n - 5 = 0 \<or> unat n - 5 = 1 \<or> unat n - 5 = 2 \<or> unat n - 5 = 3 \<or> unat n - 5 = 4 \<or> unat n - 5 = 5" using n(2) by arith
  then show ?thesis unfolding e by (elim disjE) simp_all
qed

text \<open>An attempt that is not refused: the account has fewer than five failures, or its lockout is over.\<close>

lemma check_lockout_passes:
  assumes "failures_ok t f" "t \<le> now" "fst (check_lockout now u f) = None" "hm_get (cleanup_old_entries now f) u = Some (n, l)"
  shows "unat n < 5 \<or> 60 * 10 ^ 9 * 2 ^ (unat n - 5) \<le> now - l \<and> unat n < 10"
proof (cases "5 \<le> n")
  case True
  have nl: "unat n \<le> 10" "l \<le> now" "now - l < 1800 * 10 ^ 9"
    using assms(1,2,4) unfolding failures_ok_def by (fastforce simp: cleanup_get split: option.splits if_splits)+
  define secs where "secs = (now - l) div 10 ^ 9"
  have s: "0 \<le> secs" "secs < 1800" using nl by (simp_all add: secs_def pos_imp_zdiv_nonneg_iff div_less_iff_less_mult)
  have el: "unat (of_int secs :: u64) = nat secs" using s by (simp add: unat_eq_nat_uint unsigned_of_int take_bit_int_eq_self)
  have "\<not> (of_int secs :: u64) < 60 * 2 ^ unat (n - 5)"
    using assms(3,4) True nl(2) by (auto simp: check_lockout_def Let_def secs_def max_def split: if_splits)
  then have "60 * 2 ^ (unat n - 5) \<le> nat secs" unfolding word_less_nat_alt el lockout_duration [OF True nl(1)] by simp
  then have "int (60 * 2 ^ (unat n - 5)) \<le> int (nat secs)" by (simp only: of_nat_le_iff)
  then have d: "60 * 2 ^ (unat n - 5) \<le> secs" using s by simp
  have "secs * 10 ^ 9 \<le> now - l" unfolding secs_def by (simp add: minus_mod_eq_div_mult [symmetric])
  then have "60 * 10 ^ 9 * 2 ^ (unat n - 5) \<le> now - l" using d by simp
  moreover have "unat n \<noteq> 10" using d s by auto
  ultimately show ?thesis using nl(1) by simp
next
  case False
  then show ?thesis by (simp add: word_le_nat_alt)
qed

lemma record_ok:
  assumes "failures_ok t f" "t \<le> now" "fst (check_lockout now u f) = None"
  shows "failures_ok now (record_failure now u (cleanup_old_entries now f))"
proof -
  let ?c = "cleanup_old_entries now f"
  have ok: "failures_ok now ?c" by (rule failures_ok_mono [OF cleanup_ok [OF assms(1)] assms(2)])
  have "unat (n + 1) \<le> 10" if "hm_get ?c u = Some (n, l)" for n l
    using check_lockout_passes [OF assms that] by (auto simp: unat_word_ariths)
  then show ?thesis using ok by (auto simp: failures_ok_def record_failure_def Let_def split: option.splits)
qed

lemma reset_ok: "failures_ok t f \<Longrightarrow> failures_ok t (reset_failures u f)"
  by (auto simp: failures_ok_def reset_failures_def)

text \<open>How many wrong passwords an account still takes in the minute from \<open>t0\<close>.\<close>

definition remaining :: "bytes \<Rightarrow> int \<Rightarrow> login_failures \<Rightarrow> nat" where
  "remaining u t0 f = (case hm_get f u of Some (n, l) \<Rightarrow> if t0 \<le> l then 5 - unat n else 5 | None \<Rightarrow> 5)"

lemma remaining_cleanup: "hm_wf f \<Longrightarrow> now < t0 + 60 * 10 ^ 9 \<Longrightarrow> remaining u t0 (cleanup_old_entries now f) = remaining u t0 f"
  by (auto simp: remaining_def cleanup_get split: option.splits)

lemma remaining_other: "u \<noteq> v \<Longrightarrow> remaining u t0 (record_failure now v f) = remaining u t0 f" "u \<noteq> v \<Longrightarrow> remaining u t0 (reset_failures v f) = remaining u t0 f"
  by (simp_all add: remaining_def record_failure_def Let_def reset_failures_def)

lemma remaining_record:
  assumes "failures_ok t f" "t \<le> now" "t0 \<le> now" "now < t0 + 60 * 10 ^ 9" "fst (check_lockout now u f) = None"
  shows "Suc (remaining u t0 (record_failure now u (cleanup_old_entries now f))) \<le> remaining u t0 f"
proof -
  let ?c = "cleanup_old_entries now f"
  have r: "remaining u t0 f = remaining u t0 ?c" using assms(1,4) by (simp add: remaining_cleanup failures_ok_def)
  show ?thesis
  proof (cases "hm_get ?c u")
    case None
    then show ?thesis unfolding r using assms(3) by (simp add: remaining_def record_failure_def Let_def)
  next
    case (Some e)
    obtain n l where e: "e = (n, l)" by (cases e)
    have p: "unat n < 5 \<or> 60 * 10 ^ 9 * 2 ^ (unat n - 5) \<le> now - l \<and> unat n < 10"
      by (rule check_lockout_passes [OF assms(1,2,5)]) (simp add: Some e)
    then have n: "unat (n + 1) = unat n + 1" by (auto simp: unat_word_ariths)
    have "t0 \<le> l \<Longrightarrow> unat n < 5"
    proof (rule ccontr)
      assume "t0 \<le> l" "\<not> unat n < 5"
      then have "60 * 10 ^ 9 * (2 :: int) ^ (unat n - 5) < 60 * 10 ^ 9" using p assms(4) by linarith
      moreover have "60 * 10 ^ 9 * 1 \<le> 60 * 10 ^ 9 * (2 :: int) ^ (unat n - 5)" by (intro mult_left_mono) simp_all
      ultimately show False by linarith
    qed
    then show ?thesis unfolding r using assms(3) Some n by (auto simp: remaining_def record_failure_def Let_def e)
  qed
qed

text \<open>One login request on the table of failures.\<close>

lemma login_handler_failures:
  assumes "login_handler sql bc instant now random csrf username password secure ws = (resp, ws')"
  defines "u \<equiv> login_name username" and "f \<equiv> cleanup_old_entries instant (ws_failures ws)"
  shows "(fst (check_lockout instant u (ws_failures ws)) \<noteq> None \<and> rs_status resp = 429 \<and> ws_failures ws' = f)
    \<or> (fst (check_lockout instant u (ws_failures ws)) = None \<and>
        (rs_status resp = 401 \<and> ws_failures ws' = record_failure instant u f
         \<or> rs_status resp = 500 \<and> ws_failures ws' = f
         \<or> (\<exists>h. bc_verify bc password h = Inr True) \<and> rs_status resp \<noteq> 401 \<and> ws_failures ws' = reset_failures u f))"
proof -
  have f: "snd (check_lockout instant u (ws_failures ws)) = f" by (simp add: f_def)
  obtain locked where c: "check_lockout instant u (ws_failures ws) = (locked, f)" by (metis f prod.collapse)
  show ?thesis
  proof (cases locked)
    case (Some r)
    then show ?thesis using assms(1) c by (auto simp: login_handler_def login_begin_def u_def Let_def)
  next
    case None
    show ?thesis
    proof (cases "get_user_password sql u (ws_db ws)")
      case (Inl e)
      then show ?thesis using assms(1) c None by (auto simp: login_handler_def login_begin_def u_def Let_def reply_def)
    next
      case (Inr q)
      then show ?thesis using assms(1) c None
        by (cases q; cases "bc_verify bc password (the q)")
          (auto simp: login_handler_def login_begin_def login_finish_def u_def Let_def reply_def signed_in_def split: bool.splits sum.splits prod.splits)
    qed
  qed
qed

record login_attempt =
  la_instant :: int
  la_now :: u64
  la_random :: bytes
  la_csrf_random :: bytes
  la_username :: bytes
  la_password :: bytes
  la_secure :: bool

definition attempt :: "'db auth_sql \<Rightarrow> bcrypt_ops \<Rightarrow> login_attempt \<Rightarrow> 'db web_state \<Rightarrow> response \<times> 'db web_state" where
  "attempt sql bc a ws = login_handler sql bc (la_instant a) (la_now a) (la_random a) (la_csrf_random a) (la_username a) (la_password a) (la_secure a) ws"

fun login_run :: "'db auth_sql \<Rightarrow> bcrypt_ops \<Rightarrow> login_attempt list \<Rightarrow> 'db web_state \<Rightarrow> response list \<times> 'db web_state" where
  "login_run sql bc [] ws = ([], ws)"
| "login_run sql bc (a # as) ws = (let (resp, ws') = attempt sql bc a ws; (resps, ws'') = login_run sql bc as ws' in (resp # resps, ws''))"

text \<open>The answers to the attempts on an account that say that the credentials are wrong.\<close>

definition refusals :: "bytes \<Rightarrow> login_attempt list \<Rightarrow> response list \<Rightarrow> nat" where
  "refusals u as rs = length (filter (\<lambda>(a, r). login_name (la_username a) = u \<and> rs_status r = 401) (zip as rs))"

lemma attempt_ok:
  assumes "failures_ok t (ws_failures ws)" "t \<le> la_instant a" "attempt sql bc a ws = (resp, ws')"
  shows "failures_ok (la_instant a) (ws_failures ws')"
proof -
  let ?u = "login_name (la_username a)" and ?f = "cleanup_old_entries (la_instant a) (ws_failures ws)"
  have c: "failures_ok (la_instant a) ?f" by (rule failures_ok_mono [OF cleanup_ok [OF assms(1)] assms(2)])
  from login_handler_failures [OF assms(3) [unfolded attempt_def]] show ?thesis
    using c reset_ok [OF c, of ?u] record_ok [OF assms(1,2), of ?u] by metis
qed

lemma attempt_remaining:
  assumes "failures_ok t (ws_failures ws)" "t \<le> la_instant a" "t0 \<le> la_instant a" "la_instant a < t0 + 60 * 10 ^ 9" "attempt sql bc a ws = (resp, ws')"
    and "login_name (la_username a) = u \<longrightarrow> (\<forall>h. bc_verify bc (la_password a) h \<noteq> Inr True)"
  shows "(if login_name (la_username a) = u \<and> rs_status resp = 401 then 1 else 0) + remaining u t0 (ws_failures ws') \<le> remaining u t0 (ws_failures ws)"
proof -
  let ?v = "login_name (la_username a)" and ?f = "cleanup_old_entries (la_instant a) (ws_failures ws)"
  have r: "remaining u t0 ?f = remaining u t0 (ws_failures ws)" using assms(1,4) by (simp add: remaining_cleanup failures_ok_def)
  note h = login_handler_failures [OF assms(5) [unfolded attempt_def]]
  show ?thesis
  proof (cases "?v = u")
    case False
    then have "remaining u t0 (record_failure (la_instant a) ?v ?f) = remaining u t0 ?f" "remaining u t0 (reset_failures ?v ?f) = remaining u t0 ?f"
      by (simp_all add: remaining_other)
    then have "remaining u t0 (ws_failures ws') = remaining u t0 ?f" using h by metis
    then show ?thesis using r False by simp
  next
    case True
    have "Suc (remaining u t0 (record_failure (la_instant a) ?v ?f)) \<le> remaining u t0 (ws_failures ws)" if "fst (check_lockout (la_instant a) ?v (ws_failures ws)) = None"
      using remaining_record [OF assms(1-4), of u] that True by simp
    then show ?thesis using h r True assms(6) by auto
  qed
qed

lemma login_run_remaining:
  assumes "failures_ok t (ws_failures ws)" "sorted (t # map la_instant as)" "\<forall>a \<in> set as. t0 \<le> la_instant a \<and> la_instant a < t0 + 60 * 10 ^ 9"
    and "\<forall>a \<in> set as. login_name (la_username a) = u \<longrightarrow> (\<forall>h. bc_verify bc (la_password a) h \<noteq> Inr True)"
  shows "refusals u as (fst (login_run sql bc as ws)) + remaining u t0 (ws_failures (snd (login_run sql bc as ws))) \<le> remaining u t0 (ws_failures ws)"
  using assms
proof (induction as arbitrary: t ws)
  case (Cons a as)
  obtain resp ws' where s: "attempt sql bc a ws = (resp, ws')" by (metis surj_pair)
  have t: "t \<le> la_instant a" using Cons.prems(2) by simp
  have "refusals u as (fst (login_run sql bc as ws')) + remaining u t0 (ws_failures (snd (login_run sql bc as ws'))) \<le> remaining u t0 (ws_failures ws')"
    using Cons.prems by (intro Cons.IH [OF attempt_ok [OF Cons.prems(1) t s]]) auto
  moreover have "(if login_name (la_username a) = u \<and> rs_status resp = 401 then 1 else 0) + remaining u t0 (ws_failures ws') \<le> remaining u t0 (ws_failures ws)"
    using Cons.prems(3,4) by (intro attempt_remaining [OF Cons.prems(1) t _ _ s]) auto
  ultimately show ?case by (auto simp: s Let_def case_prod_beta refusals_def)
qed (simp add: refusals_def)

lemma login_run_ok:
  "failures_ok t (ws_failures ws) \<Longrightarrow> sorted (t # map la_instant as) \<Longrightarrow> failures_ok (last (t # map la_instant as)) (ws_failures (snd (login_run sql bc as ws)))"
proof (induction as arbitrary: t ws)
  case (Cons a as)
  obtain resp ws' where s: "attempt sql bc a ws = (resp, ws')" by (metis surj_pair)
  have "failures_ok (la_instant a) (ws_failures ws')" using attempt_ok [OF Cons.prems(1) _ s] Cons.prems(2) by simp
  from Cons.IH [OF this] Cons.prems(2) show ?case by (simp add: s Let_def case_prod_beta)
qed simp


definition guess :: "int \<Rightarrow> login_attempt" where
  "guess t = \<lparr>la_instant = t, la_now = 1700000000, la_random = [1], la_csrf_random = [2], la_username = ascii ''admin'', la_password = ascii ''wrong'', la_secure = True\<rparr>"

definition guessed_bcrypt :: bcrypt_ops where
  "guessed_bcrypt = \<lparr>bc_verify = (\<lambda>plain hash. Inr (plain = hash \<and> plain \<noteq> ascii ''wrong'')), bc_hash = (\<lambda>plain. Inr plain)\<rparr>"

definition web_start :: "auth_rows web_state" where
  "web_start = \<lparr>ws_db = one_user, ws_failures = []\<rparr>"


text \<open>The check and the record of a failure are two steps with the slow comparison in between: requests that run in parallel all pass
  the check before the first failure is recorded.\<close>

lemma parallel_guesses_pass:
  "fst (login_begin memory_sql t (ascii ''admin'') web_start) = Inr (ascii ''secret'') \<and> snd (login_begin memory_sql t (ascii ''admin'') web_start) = web_start"
  by (simp add: login_begin_def check_lockout_def cleanup_old_entries_def hm_retain_def web_start_def get_user_password_def memory_sql_def one_user_def Let_def)

text \<open>The lockout is documented to double with every failure. Entries are forgotten after half an hour, so no lockout is longer, and after
  the tenth failure the count starts again.\<close>

lemma lockout_forgotten:
  "hm_wf f \<Longrightarrow> hm_get f u = Some (n, l) \<Longrightarrow> l + 1800 * 10 ^ 9 \<le> now \<Longrightarrow> fst (check_lockout now u f) = None \<and> hm_get (snd (check_lockout now u f)) u = None"
  by (simp add: cleanup_get check_lockout_def Let_def)

section \<open>What a login opens\<close>

text \<open>A browser sends the name and the value of every cookie it was given, not the attributes.\<close>

definition browser_cookies :: "response \<Rightarrow> bytes" where
  "browser_cookies resp = join (ascii ''; '') (map (\<lambda>c. hd (split_on 59 c)) (rs_set_cookie resp))"

lemma token_chars: "set (generate_token random) \<subseteq> {48..57} \<union> {97..102}"
proof -
  let ?H = "{48..57} \<union> {97..102} :: u8 set"
  have "hex_digit (unat b div 16) \<in> ?H" "hex_digit (unat b mod 16) \<in> ?H" for b :: u8
    using u8_less [of b] by (intro hex_digit_range; simp add: less_mult_imp_div_less)+
  then have "set [hex_digit (unat b div 16), hex_digit (unat b mod 16)] \<subseteq> ?H" for b :: u8 by simp
  then show ?thesis unfolding generate_token_def hex_encode_def set_concat set_map by blast
qed

lemma token_free: "59 \<notin> set (generate_token random)"
  using token_chars [of random] by (auto dest!: subsetD)

lemma cookie_named:
  assumes "59 \<notin> set name" "name \<noteq> []" "hd name \<in> {33..126}" "last name \<in> {33..126}"
  shows "trim (name @ generate_token random) = name @ generate_token random"
    and "split_on 59 (name @ generate_token random @ 59 # rest) = (name @ generate_token random) # split_on 59 rest"
    and "split_on 59 (name @ generate_token random) = [name @ generate_token random]"
proof -
  have "last (name @ generate_token random) \<in> {33..126}"
  proof (cases "generate_token random = []")
    case False
    then have "last (generate_token random) \<in> {48..57} \<union> {97..102}" using token_chars [of random] last_in_set by blast
    then have "last (generate_token random) \<in> {33..126}" by (auto simp: word_le_nat_alt)
    then show ?thesis using False by simp
  qed (use assms in simp)
  then show "trim (name @ generate_token random) = name @ generate_token random" using assms by (intro trim_visible) auto
  show "split_on 59 (name @ generate_token random @ 59 # rest) = (name @ generate_token random) # split_on 59 rest"
    using split_on_cons [of 59 "name @ generate_token random" rest] assms(1) token_free by simp
  show "split_on 59 (name @ generate_token random) = [name @ generate_token random]"
    using assms(1) token_free by (intro split_on_free) simp
qed

lemma trim_space_start: "trim (32 # s) = trim s"
  by (simp add: trim_def trim_start.simps [of "32 # s"] ws_len_def ws_char_def)

lemma cookie_names:
  "59 \<notin> set (ascii ''session='')" "ascii ''session='' \<noteq> []" "hd (ascii ''session='') \<in> {33..126}" "last (ascii ''session='') \<in> {33..126}"
  "59 \<notin> set (ascii ''csrf-token='')" "ascii ''csrf-token='' \<noteq> []" "hd (ascii ''csrf-token='') \<in> {33..126}" "last (ascii ''csrf-token='') \<in> {33..126}"
  by (simp_all add: ascii_def)

lemmas session_named = cookie_named [OF cookie_names(1-4)]
lemmas csrf_named = cookie_named [OF cookie_names(5-8)]

lemma cookie_attributes: "ascii ''; HttpOnly;'' = 59 # ascii '' HttpOnly;''" "ascii ''; SameSite=Strict; Path=/; Max-Age=86400'' = 59 # ascii '' SameSite=Strict; Path=/; Max-Age=86400''"
  "ascii ''; '' = [59, 32]"
  by (simp_all add: ascii_def)

lemma browser_cookies_signed_in:
  "browser_cookies (signed_in (generate_token r) (generate_token c) secure) = ascii ''session='' @ generate_token r @ 59 # 32 # ascii ''csrf-token='' @ generate_token c"
  by (simp add: browser_cookies_def signed_in_def session_cookie_def csrf_cookie_def cookie_attributes session_named(2) csrf_named(2))

lemma split_browser_cookies:
  "map trim (split_on 59 (browser_cookies (signed_in (generate_token r) (generate_token c) secure))) =
   [ascii ''session='' @ generate_token r, ascii ''csrf-token='' @ generate_token c]"
proof -
  have "split_on 59 (32 # ascii ''csrf-token='' @ generate_token c) = [32 # ascii ''csrf-token='' @ generate_token c]"
    using cookie_names(5) token_free by (intro split_on_free) simp
  then show ?thesis unfolding browser_cookies_signed_in session_named(2) by (simp only: list.map trim_space_start session_named(1) csrf_named(1))
qed

lemma find_map_map: "find_map (\<lambda>c. f (g c)) xs = find_map f (map g xs)"
  by (induction xs) (simp_all split: option.splits)

lemma strip_prefix_append [simp]: "strip_prefix p (p @ s) = Some s"
  by (simp add: strip_prefix_def starts_with_def)

lemma extract_signed_in:
  "rq_cookie req = Some (browser_cookies (signed_in (generate_token r) (generate_token c) secure)) \<Longrightarrow> extract_session_token req = Some (generate_token r)"
  unfolding extract_session_token_def by (simp only: bind.bind_lunit find_map_map [where g = trim] split_browser_cookies find_map.simps strip_prefix_append option.case)

lemma csrf_signed_in:
  assumes "rq_cookie req = Some (browser_cookies (signed_in (generate_token r) (generate_token c) secure))"
  shows "csrf_cookie_of req = Some (generate_token c)"
proof -
  have "\<not> starts_with (ascii ''csrf-token='') (ascii ''session='' @ generate_token r)" by (simp add: starts_with_def ascii_def)
  moreover have s: "starts_with (ascii ''csrf-token='') (ascii ''csrf-token='' @ generate_token c)" by (simp add: starts_with_def)
  moreover have "trim_start_matches (ascii ''csrf-token='') (ascii ''csrf-token='' @ generate_token c) = generate_token c"
  proof -
    have "\<not> starts_with (ascii ''csrf-token='') (generate_token c)"
    proof
      assume "starts_with (ascii ''csrf-token='') (generate_token c)"
      then have "115 \<in> set (take (length (ascii ''csrf-token='')) (generate_token c))" unfolding starts_with_def by (simp add: ascii_def)
      then have "115 \<in> set (generate_token c)" by (rule in_set_takeD)
      then show False using token_chars [of c] by auto
    qed
    then have "trim_start_matches (ascii ''csrf-token='') (generate_token c) = generate_token c" by (subst trim_start_matches.simps) simp
    then show ?thesis using s by (subst trim_start_matches.simps) (simp add: cookie_names)
  qed
  ultimately show ?thesis unfolding csrf_cookie_of_def assms by (simp only: bind.bind_lunit split_browser_cookies find.simps if_False if_True option.map)
qed

lemma login_success_rows:
  assumes "sql_documented sql rows" "login_handler sql bc instant now random csrf_random username password secure ws = (resp, ws')" "rs_status resp = 200"
  shows "resp = signed_in (generate_token random) (generate_token csrf_random) secure
    \<and> ar_users (rows (ws_db ws')) (login_name username) \<noteq> None
    \<and> ar_sessions (rows (ws_db ws')) = (ar_sessions (rows (ws_db ws)))(generate_token random \<mapsto>
        \<lparr>sr_user_id = login_name username, sr_created_at = dec_digits (unat now), sr_expires_at = dec_digits (unat (now + SESSION_TTL_SECS))\<rparr>)"
proof -
  obtain b wsb where b: "login_begin sql instant (login_name username) ws = (b, wsb)" by (metis surj_pair)
  have "\<exists>h. b = Inr h \<and> get_user_password sql (login_name username) (ws_db ws) = Inr (Some h) \<and> ws_db wsb = ws_db ws"
    using b assms(2,3) by (auto simp: login_handler_def login_begin_def reply_def Let_def split: prod.splits option.splits sum.splits)
  then obtain h where h: "b = Inr h" "get_user_password sql (login_name username) (ws_db ws) = Inr (Some h)" "ws_db wsb = ws_db ws" by blast
  have u: "ar_users (rows (ws_db ws)) (login_name username) = Some h"
    using sql_laws(6) [OF assms(1), of "login_name username"] h(2) by (auto simp: query_def get_user_password_def)
  have f: "login_finish sql (bc_verify bc password h) instant now random csrf_random (login_name username) secure wsb = (resp, ws')"
    using assms(2) by (simp add: login_handler_def b h(1) Let_def)
  obtain q db' where q: "create_session sql random now (login_name username) (ws_db ws) = (q, db')" by (metis surj_pair)
  have "\<exists>tok. q = Inr tok \<and> resp = signed_in tok (generate_token csrf_random) secure \<and> ws_db ws' = db'"
    using f assms(3) q h(3) by (auto simp: login_finish_def reply_def Let_def split: sum.splits bool.splits)
  then obtain tok where t: "q = Inr tok" "resp = signed_in tok (generate_token csrf_random) secure" "ws_db ws' = db'" by blast
  show ?thesis using create_session_rows [OF assms(1) q] t u by simp
qed

lemma is_first_run_False:
  assumes "sql_documented sql rows" "ar_users (rows db) user \<noteq> None" "\<forall>e. is_first_run sql db \<noteq> Inl e"
  shows "is_first_run sql db = Inr False"
proof -
  have ne: "ar_users (rows db) \<noteq> Map.empty" using assms(2) by auto
  have "sql_users_table sql db = Inr False \<longrightarrow> ar_users (rows db) = Map.empty" "\<forall>n. sql_count_users sql db = Inr n \<longrightarrow> (n = 0 \<longleftrightarrow> ar_users (rows db) = Map.empty)"
    using assms(1) unfolding sql_documented_def by blast+
  then show ?thesis using ne assms(3) by (auto simp: is_first_run_def split: sum.splits bool.splits)
qed

lemma validate_fresh:
  assumes "sql_documented sql rows" "ar_sessions (rows db) token = Some s" "sr_expires_at s = dec_digits (unat (now + SESSION_TTL_SECS))" "clock_ok now"
    and "\<forall>e. sql_select_session sql token db \<noteq> Inl e"
  shows "validate_session sql now' token db = Inr (if unat now' < unat now + 86400 then Some (sr_user_id s) else None)"
proof -
  obtain q where q: "sql_select_session sql token db = Inr q" using assms(5) by (cases "sql_select_session sql token db") auto
  have "q = Some (sr_user_id s, dec_digits (unat now + 86400))"
    using sql_laws(2) [OF assms(1), of token] q assms(2,3) clock_ok_expiry [OF assms(4)] by (auto simp: query_def)
  moreover have "parse_uint 10 (2 ^ 64 - 1) (dec_digits (unat now + 86400)) = Some (unat now + 86400)"
    using assms(4) by (intro parse_uint_dec) (simp add: clock_ok_def)
  ultimately show ?thesis using q by (simp add: validate_session_def)
qed


definition signed_in_request :: request where
  "signed_in_request = \<lparr>rq_method = POST, rq_path = ascii ''/api/cameras'', rq_cookie = Some (browser_cookies (signed_in (generate_token [1]) (generate_token [2]) True)),
     rq_csrf_token = Some (generate_token [2]), rq_forwarded_for = None, rq_real_ip = None, rq_peer = None, rq_secure = True\<rparr>"


end
