(* ===== verification/RtspOutput.thy ===== *)
theory RtspOutput
  imports Rtp Fmp4
begin

text \<open>
  The RTSP output of the stream hub, \<^verbatim>\<open>crates/streaming/src/output/rtsp.rs\<close>: the packetizer and the adapter that sends
  every frame of the hub to the broadcast channel of the RTSP server. The channel is the list of packets sent into it;
  sending never fails as far as the code is concerned. The one-shot notification of the parameter sets is what it carried.
  The lemmas show that a receiver which parses the packets and reassembles the fragments with the protocol crate gets the
  NAL units back, in order, with the parameter sets in front of every P slice and the timestamps of their access units.
\<close>

section \<open>Packets\<close>

definition RTP_PT_H264 :: u8 where "RTP_PT_H264 = 96"
definition RTP_MAX_PAYLOAD :: nat where "RTP_MAX_PAYLOAD = 1400"

definition packet_bytes :: "bool \<Rightarrow> u16 \<Rightarrow> u32 \<Rightarrow> u32 \<Rightarrow> bytes \<Rightarrow> bytes" where
  "packet_bytes m sequence timestamp ssrc payload =
     [0x80, push_bit 7 (of_bool m) OR RTP_PT_H264] @ u16_be sequence @ u32_be timestamp @ u32_be ssrc @ payload"

function fua_loop :: "bytes \<Rightarrow> u8 \<Rightarrow> u8 \<Rightarrow> bool \<Rightarrow> u32 \<Rightarrow> u32 \<Rightarrow> nat \<Rightarrow> u16 \<Rightarrow> bytes list \<times> u16" where
  "fua_loop body fu_indicator nt marker timestamp ssrc offset sequence =
     (if offset < length body
      then
        let max_frag = RTP_MAX_PAYLOAD - 2;
            chunk = min max_frag (length body - offset);
            is_first = (offset = 0);
            is_last = (length body \<le> offset + chunk);
            m = (is_last \<and> marker);
            pkt = packet_bytes m sequence timestamp ssrc
                    ([fu_indicator, push_bit 7 (of_bool is_first) OR push_bit 6 (of_bool is_last) OR nt] @ subslice offset (offset + chunk) body);
            (packets, sequence') = fua_loop body fu_indicator nt marker timestamp ssrc (offset + chunk) (sequence + 1)
        in (pkt # packets, sequence')
      else ([], sequence))"
  by pat_completeness auto
termination
  by (relation "measure (\<lambda>(body, _, _, _, _, _, offset, _). length body - offset)") (auto simp: RTP_MAX_PAYLOAD_def)

declare fua_loop.simps [simp del]

definition build_rtp_packets :: "bytes \<Rightarrow> u16 \<Rightarrow> u32 \<Rightarrow> u32 \<Rightarrow> bytes list \<times> u16" where
  "build_rtp_packets nal_data sequence timestamp ssrc =
     (case nal_data of
        [] \<Rightarrow> ([], sequence)
      | nal_header # body \<Rightarrow>
          let nt = nal_header AND 0x1F;
              nri = nal_header AND 0x60;
              marker = (nt = 5 \<or> nt = 1)
          in if length nal_data \<le> RTP_MAX_PAYLOAD
             then ([packet_bytes marker sequence timestamp ssrc nal_data], sequence + 1)
             else fua_loop body (28 OR nri) nt marker timestamp ssrc 0 sequence)"

section \<open>The output\<close>

record rtsp_output =
  ro_stream_path :: bytes
  ro_sdp_body :: bytes
  ro_ssrc :: u32
  ro_frame_tx :: "bytes list option"
  ro_started :: bool
  ro_rtp_seq :: u16
  ro_rtp_timestamp :: u32
  ro_cached_sps :: "bytes option"
  ro_cached_pps :: "bytes option"
  ro_sps_pps_tx :: bool
  ro_notified :: "(bytes \<times> bytes) option"

definition rtsp_output_new :: "bytes \<Rightarrow> bytes \<Rightarrow> u32 \<Rightarrow> rtsp_output" where
  "rtsp_output_new stream_path sdp_body ssrc =
     \<lparr>ro_stream_path = stream_path, ro_sdp_body = sdp_body, ro_ssrc = ssrc, ro_frame_tx = None, ro_started = False, ro_rtp_seq = 0,
      ro_rtp_timestamp = 0, ro_cached_sps = None, ro_cached_pps = None, ro_sps_pps_tx = False, ro_notified = None\<rparr>"

definition with_channel :: "bytes \<Rightarrow> bytes \<Rightarrow> u32 \<Rightarrow> bytes list \<Rightarrow> rtsp_output" where
  "with_channel stream_path sdp_body ssrc frame_tx = (rtsp_output_new stream_path sdp_body ssrc)\<lparr>ro_frame_tx := Some frame_tx\<rparr>"

definition set_sps_pps_tx :: "rtsp_output \<Rightarrow> rtsp_output" where
  "set_sps_pps_tx o' = o'\<lparr>ro_sps_pps_tx := True\<rparr>"

definition rtsp_start :: "rtsp_output \<Rightarrow> unit result \<times> rtsp_output" where
  "rtsp_start o' =
     (if ro_stream_path o' = [] then (Inl (Bail ''RtspOutput stream path must not be empty''), o')
      else if ro_frame_tx o' = None then (Inl (Bail ''RtspOutput has no channel -- use with_channel() or register a live stream''), o')
      else (Inr (), o'\<lparr>ro_started := True\<rparr>))"

text \<open>Caching a parameter set; both sets together are sent once.\<close>

definition notify_sets :: "rtsp_output \<Rightarrow> rtsp_output" where
  "notify_sets o' =
     (if ro_sps_pps_tx o'
      then (case (ro_cached_sps o', ro_cached_pps o') of
              (Some sps, Some pps) \<Rightarrow> o'\<lparr>ro_sps_pps_tx := False, ro_notified := Some (sps, pps)\<rparr>
            | _ \<Rightarrow> o')
      else o')"

definition cache_sets :: "u8 \<Rightarrow> bytes \<Rightarrow> rtsp_output \<Rightarrow> rtsp_output" where
  "cache_sets nt data o' =
     (if nt = 7
      then let o' = o'\<lparr>ro_cached_sps := Some data\<rparr> in if ro_cached_pps o' \<noteq> None then notify_sets o' else o'
      else if nt = 8
      then let o' = o'\<lparr>ro_cached_pps := Some data\<rparr> in if ro_cached_sps o' \<noteq> None then notify_sets o' else o'
      else o')"

definition send_packets :: "bytes \<Rightarrow> rtsp_output \<Rightarrow> rtsp_output" where
  "send_packets nal o' =
     (let (pkts, sequence') = build_rtp_packets nal (ro_rtp_seq o') (ro_rtp_timestamp o') (ro_ssrc o')
      in o'\<lparr>ro_rtp_seq := sequence', ro_frame_tx := map_option (\<lambda>sent. sent @ pkts) (ro_frame_tx o')\<rparr>)"

definition send_cached :: "bytes option \<Rightarrow> rtsp_output \<Rightarrow> rtsp_output" where
  "send_cached cached o' = (case cached of Some nal \<Rightarrow> send_packets nal o' | None \<Rightarrow> o')"

definition rtsp_send_frame :: "media_frame \<Rightarrow> rtsp_output \<Rightarrow> unit result \<times> rtsp_output" where
  "rtsp_send_frame frame o' =
     (case frame of
        VideoFrame keyframe data timestamp \<Rightarrow>
          (if \<not> ro_started o' then (Inl (Bail ''RtspOutput not started''), o')
           else
             case ro_frame_tx o' of
               Some tx \<Rightarrow>
                 (let nt = (case data of b # _ \<Rightarrow> b AND 0x1f | [] \<Rightarrow> 0);
                      o' = cache_sets nt data o';
                      o' = (if nt = 1 then send_cached (ro_cached_pps o') (send_cached (ro_cached_sps o') o') else o');
                      o' = send_packets data o'
                  in (Inr (), if nt = 1 \<or> nt = 5 then o'\<lparr>ro_rtp_timestamp := ro_rtp_timestamp o' + 3000\<rparr> else o'))
             | None \<Rightarrow> (Inl (Bail ''RtspOutput has no channel -- call with_channel()''), o'))
      | AudioFrame data timestamp \<Rightarrow> (Inr (), o'))"

definition rtsp_stop :: "rtsp_output \<Rightarrow> rtsp_output" where
  "rtsp_stop o' = o'\<lparr>ro_frame_tx := None, ro_started := False\<rparr>"

section \<open>What a receiver gets\<close>

text \<open>The packets as records.\<close>

definition packet_of :: "bool \<Rightarrow> u16 \<Rightarrow> u32 \<Rightarrow> u32 \<Rightarrow> bytes \<Rightarrow> rtp_packet" where
  "packet_of m sequence timestamp ssrc payload =
     \<lparr>rp_flags = \<lparr>rf_version = RTP_VERSION, rf_padding = False, rf_extension = False, rf_csrc_count = 0, rf_marker = m, rf_payload_type = RTP_PT_H264\<rparr>,
      rp_sequence_number = sequence, rp_timestamp = timestamp, rp_ssrc = ssrc, rp_csrc_list = [], rp_extension_profile = None,
      rp_extension_data = [], rp_payload = payload\<rparr>"

lemma packet_of_wf: "rtp_wf (packet_of m sq ts ssrc payload) \<and> 4 dvd length (rp_extension_data (packet_of m sq ts ssrc payload))"
  by (simp add: packet_of_def rtp_wf_def RTP_PT_H264_def)

lemma packet_bytes_eq: "packet_bytes m sq ts ssrc payload = rtp_to_bytes (packet_of m sq ts ssrc payload)"
  using rtp_to_bytes_split [OF conjunct1 [OF packet_of_wf], of m sq ts ssrc payload]
  by (simp add: packet_bytes_def packet_of_def ext_bytes_def)

text \<open>The fragments are those of the protocol crate for a transport unit of 1412 bytes, except that the marker is not set on the
  last fragment of a NAL unit that is no slice.\<close>

definition with_marker :: "bool \<Rightarrow> rtp_packet \<Rightarrow> rtp_packet" where
  "with_marker m p = p\<lparr>rp_flags := (rp_flags p)\<lparr>rf_marker := rf_marker (rp_flags p) \<and> m\<rparr>\<rparr>"

lemma div_ceil_less: "0 < m \<Longrightarrow> 0 < a \<Longrightarrow> i < div_ceil a m \<longleftrightarrow> i * m < a"
proof -
  assume m: "0 < m" and a: "0 < a"
  note b = div_ceil_bounds [OF m a]
  show ?thesis
  proof
    assume "i < div_ceil a m"
    then have "i * m \<le> (div_ceil a m - 1) * m" by (intro mult_le_mono1) simp
    then show "i * m < a" using b(2) by (rule le_less_trans)
  next
    assume "i * m < a"
    then have "i * m < div_ceil a m * m" using b(3) by (rule less_le_trans)
    then show "i < div_ceil a m" by simp
  qed
qed

lemma with_marker_fragment:
  "with_marker m (fragment_packet ind h l RTP_PT_H264 sq ts ssrc chunk) = packet_of (l \<and> m) sq ts ssrc (ind # h # chunk)"
  by (simp add: with_marker_def fragment_packet_def packet_of_def)

lemma fua_loop_fragments:
  assumes "k \<le> n" "n = div_ceil (length body) (RTP_MAX_PAYLOAD - 2)" "body \<noteq> []" "unat nt < 32"
  shows "fua_loop body ind nt m ts ssrc (min ((n - k) * (RTP_MAX_PAYLOAD - 2)) (length body)) sq =
    (map (\<lambda>p. rtp_to_bytes (with_marker m p))
       (fragment_loop body ind nt RTP_PT_H264 ts ssrc (RTP_MAX_PAYLOAD - 2) n k (min ((n - k) * (RTP_MAX_PAYLOAD - 2)) (length body)) sq), sq + of_nat k)"
  using assms(1)
proof (induction k arbitrary: sq)
  case 0
  have "length body \<le> n * (RTP_MAX_PAYLOAD - 2)" using div_ceil_bounds(3) [of "RTP_MAX_PAYLOAD - 2" "length body"] assms by (simp add: RTP_MAX_PAYLOAD_def)
  then show ?case by (subst fua_loop.simps) simp
next
  case (Suc k)
  let ?M = "RTP_MAX_PAYLOAD - 2"
  let ?off = "min ((n - Suc k) * ?M) (length body)"
  have M: "0 < ?M" by (simp add: RTP_MAX_PAYLOAD_def)
  have i: "n - Suc k < n" using Suc.prems by simp
  then have lt: "(n - Suc k) * ?M < length body" using assms(2,3) div_ceil_less [OF M] by simp
  then have off: "?off = (n - Suc k) * ?M" by simp
  have step: "(n - Suc k) * ?M + ?M = (n - k) * ?M" using Suc.prems by (metis Suc_diff_Suc add.commute i mult_Suc Suc_le_lessD)
  have chunk: "?off + min ?M (length body - ?off) = min ((n - k) * ?M) (length body)" using lt unfolding step [symmetric] off by linarith
  have last: "length body \<le> min ((n - k) * ?M) (length body) \<longleftrightarrow> n - Suc k = n - 1"
  proof -
    have "length body \<le> (n - k) * ?M \<longleftrightarrow> \<not> n - k < n" using assms(2,3) div_ceil_less [OF M, of "length body" "n - k"] by auto
    also have "\<dots> \<longleftrightarrow> n - Suc k = n - 1" using Suc.prems by auto
    finally show ?thesis by simp
  qed
  have first: "?off = 0 \<longleftrightarrow> n - Suc k = 0" using M assms(3) by (simp add: off)
  have nt: "nt AND 31 = nt" using assms(4) by (simp add: byte_simps take_bit_small)
  let ?stop = "min ((n - k) * ?M) (length body)"
  let ?hdr = "push_bit 7 (of_bool (n - Suc k = 0)) OR push_bit 6 (of_bool (n - Suc k = n - 1)) OR nt"
  have olt: "?off < length body" using lt by simp
  have L: "fua_loop body ind nt m ts ssrc ?off sq =
      (packet_bytes (n - Suc k = n - 1 \<and> m) sq ts ssrc ([ind, ?hdr] @ subslice ?off ?stop body) # fst (fua_loop body ind nt m ts ssrc ?stop (sq + 1)),
       snd (fua_loop body ind nt m ts ssrc ?stop (sq + 1)))"
    by (subst fua_loop.simps) (simp only: olt if_True Let_def chunk last first split_beta fst_conv snd_conv)
  have F: "fragment_loop body ind nt RTP_PT_H264 ts ssrc ?M n (Suc k) ?off sq =
      fragment_packet ind ?hdr (n - Suc k = n - 1) RTP_PT_H264 sq ts ssrc (subslice ?off ?stop body)
      # fragment_loop body ind nt RTP_PT_H264 ts ssrc ?M n k ?stop (sq + 1)"
  proof -
    have "min (?off + ?M) (length body) = ?stop" using lt unfolding step [symmetric] off by linarith
    then show ?thesis by (simp only: fragment_loop.simps Let_def build_fua_header_def nt)
  qed
  have IH: "fua_loop body ind nt m ts ssrc ?stop (sq + 1) =
      (map (\<lambda>p. rtp_to_bytes (with_marker m p)) (fragment_loop body ind nt RTP_PT_H264 ts ssrc ?M n k ?stop (sq + 1)), sq + 1 + of_nat k)"
    using Suc.prems by (intro Suc.IH) simp
  show ?case unfolding L F IH by (simp only: list.map with_marker_fragment packet_bytes_eq fst_conv snd_conv append.simps of_nat_Suc add.assoc)
qed

lemma nal_header_mask: "28 OR (hdr AND 0x60) = build_fua_indicator (drop_bit 5 (hdr :: u8) AND 3)" "unat (hdr AND 0x1F) < 32"
proof -
  have "hdr AND push_bit 5 (mask 2) = push_bit 5 (drop_bit 5 hdr AND mask 2)" by (rule bit_word_eqI) (auto simp: bit_simps)
  moreover have "push_bit 5 (mask 2) = (0x60 :: u8)" "mask 2 = (3 :: u8)" by (simp_all add: mask_eq_exp_minus_1)
  ultimately have "hdr AND 0x60 = push_bit 5 (drop_bit 5 hdr AND 3)" by simp
  then show "28 OR (hdr AND 0x60) = build_fua_indicator (drop_bit 5 hdr AND 3)" by (simp add: build_fua_indicator_def ac_simps)
  show "unat (hdr AND 0x1F) < 32" by (simp add: byte_simps)
qed

lemma reassemble_payloads:
  assumes "map rp_payload ps = map rp_payload qs"
  shows "reassemble_fua ps = reassemble_fua qs"
proof -
  have l: "length ps = length qs" using arg_cong [OF assms, of length] by simp
  have c: "check_fragments ind hdr n i ps = check_fragments ind hdr n i qs" for ind hdr n i
    using l assms by (induction ps qs arbitrary: i rule: list_induct2) (auto simp: check_fragment_def)
  have d: "map (\<lambda>p. drop 2 (rp_payload p)) ps = map (\<lambda>p. drop 2 (rp_payload p)) qs"
    using arg_cong [OF assms, of "map (drop 2)"] by (simp add: comp_def)
  show ?thesis
  proof (cases "ps = []")
    case True
    then show ?thesis using l by simp
  next
    case False
    then have "rp_payload (ps ! 0) = rp_payload (qs ! 0)" "qs \<noteq> []" using assms l by (cases ps; cases qs; auto)+
    then show ?thesis unfolding reassemble_fua_def Let_def by (simp only: False c d l)
  qed
qed

text \<open>The packets of one NAL unit: a single packet, or the fragments.\<close>

definition nal_packets :: "bytes \<Rightarrow> u16 \<Rightarrow> u32 \<Rightarrow> u32 \<Rightarrow> rtp_packet list" where
  "nal_packets nal sq ts ssrc =
     (let nt = hd nal AND 0x1F; m = (nt = 5 \<or> nt = 1); n = div_ceil (length (tl nal)) 1398
      in if length nal \<le> 1400 then [packet_of m sq ts ssrc nal]
         else map (with_marker m) (fragment_loop (tl nal) (build_fua_indicator (drop_bit 5 (hd nal) AND 3)) nt RTP_PT_H264 ts ssrc 1398 n n 0 sq))"

lemma build_rtp_packets_eq:
  assumes "nal \<noteq> []"
  shows "build_rtp_packets nal sq ts ssrc = (map rtp_to_bytes (nal_packets nal sq ts ssrc), sq + of_nat (length (nal_packets nal sq ts ssrc)))"
proof (cases nal)
  case (Cons hdr body)
  show ?thesis
  proof (cases "length nal \<le> 1400")
    case True
    then show ?thesis by (simp add: Cons build_rtp_packets_def nal_packets_def RTP_MAX_PAYLOAD_def packet_bytes_eq Let_def)
  next
    case False
    then have "body \<noteq> []" by (auto simp: Cons)
    from fua_loop_fragments [OF le_refl refl this nal_header_mask(2) [of hdr], unfolded RTP_MAX_PAYLOAD_def]
    have "fua_loop body ind (hdr AND 0x1F) m ts ssrc 0 sq =
      (map (\<lambda>p. rtp_to_bytes (with_marker m p)) (fragment_loop body ind (hdr AND 0x1F) RTP_PT_H264 ts ssrc 1398 (div_ceil (length body) 1398) (div_ceil (length body) 1398) 0 sq),
       sq + of_nat (div_ceil (length body) 1398))" for ind m by simp
    then show ?thesis using False
      by (simp add: Cons build_rtp_packets_def nal_packets_def RTP_MAX_PAYLOAD_def nal_header_mask(1) Let_def comp_def)
  qed
qed (use assms in simp)

text \<open>The receiver: single NAL unit packets are NAL units, fragments are collected up to the one with the end flag and reassembled by
  the protocol crate. A NAL unit comes with the timestamp of its last packet.\<close>

fun receive :: "rtp_packet list \<Rightarrow> rtp_packet list \<Rightarrow> (u32 \<times> bytes) list option" where
  "receive acc [] = (if acc = [] then Some [] else None)"
| "receive acc (p # ps) =
     (if is_fua (rp_payload p)
      then if fh_end (parse_fua_header (rp_payload p ! 1))
           then (case reassemble_fua (acc @ [p]) of Inr nal \<Rightarrow> map_option (Cons (rp_timestamp p, nal)) (receive [] ps) | Inl _ \<Rightarrow> None)
           else receive (acc @ [p]) ps
      else if acc = [] then map_option (Cons (rp_timestamp p, rp_payload p)) (receive [] ps)
      else None)"

lemma receive_fragments:
  assumes "\<forall>p \<in> set init. is_fua (rp_payload p) \<and> \<not> fh_end (parse_fua_header (rp_payload p ! 1))"
    and "is_fua (rp_payload l)" "fh_end (parse_fua_header (rp_payload l ! 1))" "reassemble_fua (acc @ init @ [l]) = Inr nal"
  shows "receive acc (init @ l # rest) = map_option (Cons (rp_timestamp l, nal)) (receive [] rest)"
  using assms by (induction init arbitrary: acc) simp_all

text \<open>A NAL unit an encoder makes: the forbidden bit is clear and the type is not one of the packetization types.\<close>

definition nal_unit_ok :: "bytes \<Rightarrow> bool" where
  "nal_unit_ok nal \<longleftrightarrow> nal \<noteq> [] \<and> drop_bit 7 (hd nal) = 0 \<and> hd nal AND 0x1F \<noteq> 28"

lemma fua_indicator_type: "build_fua_indicator r AND 31 = 28"
proof -
  have "take_bit 5 (push_bit 5 (r AND 3) OR 28) = (28::u8)" by (rule take_pack) simp
  then show ?thesis unfolding build_fua_indicator_def by (simp only: byte_simps)
qed

lemma length_nal_packets: "length (nal_packets nal sq ts ssrc) = (if length nal \<le> 1400 then 1 else div_ceil (length (tl nal)) 1398)"
  by (simp add: nal_packets_def Let_def)

lemma nal_packets_length: "nal \<noteq> [] \<Longrightarrow> 0 < length (nal_packets nal sq ts ssrc)"
  using div_ceil_bounds(1) [of 1398 "length (tl nal)"] by (simp add: length_nal_packets)

lemma nal_packets_nth:
  assumes "nal \<noteq> []" "j < length (nal_packets nal sq ts ssrc)"
  shows "rp_sequence_number (nal_packets nal sq ts ssrc ! j) = sq + of_nat j \<and> rp_timestamp (nal_packets nal sq ts ssrc ! j) = ts
    \<and> rp_ssrc (nal_packets nal sq ts ssrc ! j) = ssrc \<and> length (rtp_to_bytes (nal_packets nal sq ts ssrc ! j)) \<le> 1412
    \<and> (rf_marker (rp_flags (nal_packets nal sq ts ssrc ! j)) \<longleftrightarrow> Suc j = length (nal_packets nal sq ts ssrc) \<and> (hd nal AND 0x1F = 5 \<or> hd nal AND 0x1F = 1))
    \<and> (length nal \<le> 1400 \<or> (\<exists>chunk. rp_payload (nal_packets nal sq ts ssrc ! j) = build_fua_indicator (drop_bit 5 (hd nal) AND 3)
          # build_fua_header (j = 0) (Suc j = length (nal_packets nal sq ts ssrc)) (hd nal AND 0x1F) # chunk))"
proof (cases "length nal \<le> 1400")
  case True
  then have "nal_packets nal sq ts ssrc = [packet_of (hd nal AND 0x1F = 5 \<or> hd nal AND 0x1F = 1) sq ts ssrc nal]" by (simp add: nal_packets_def Let_def)
  moreover have "length (rtp_to_bytes (packet_of m sq ts ssrc nal)) = 12 + length nal" for m by (simp add: packet_bytes_eq [symmetric] packet_bytes_def)
  ultimately show ?thesis using assms(2) True by (simp add: packet_of_def)
next
  case False
  let ?n = "div_ceil (length (tl nal)) 1398" and ?ind = "build_fua_indicator (drop_bit 5 (hd nal) AND 3)" and ?nt = "hd nal AND 0x1F"
  have l: "length (nal_packets nal sq ts ssrc) = ?n" using False by (simp only: length_nal_packets if_False)
  then have j: "j < ?n" using assms(2) by simp
  obtain chunk where c: "length chunk \<le> 1398" "fragment_loop (tl nal) ?ind ?nt RTP_PT_H264 ts ssrc 1398 ?n ?n 0 sq ! j =
      fragment_packet ?ind (build_fua_header (j = 0) (j = ?n - 1) ?nt) (j = ?n - 1) RTP_PT_H264 (sq + of_nat j) ts ssrc chunk"
    using fragment_loop_nth [OF j le_refl, of 1398 "tl nal" ?ind ?nt RTP_PT_H264 ts ssrc 0 sq] by auto
  have e: "j = ?n - 1 \<longleftrightarrow> Suc j = ?n" using j by auto
  have p: "nal_packets nal sq ts ssrc ! j = packet_of (Suc j = ?n \<and> (?nt = 5 \<or> ?nt = 1)) (sq + of_nat j) ts ssrc (?ind # build_fua_header (j = 0) (Suc j = ?n) ?nt # chunk)"
    using False j by (simp add: nal_packets_def Let_def c(2) [unfolded e] with_marker_fragment del: length_tl)
  have "length (rtp_to_bytes (packet_of m sq' ts ssrc (?ind # h # chunk))) = 14 + length chunk" for m sq' h by (simp add: packet_bytes_eq [symmetric] packet_bytes_def)
  then show ?thesis using c(1) unfolding p l by (auto simp: packet_of_def)
qed

lemma receive_nal:
  assumes "nal_unit_ok nal"
  shows "receive [] (nal_packets nal sq ts ssrc @ rest) = map_option (Cons (ts, nal)) (receive [] rest)"
proof (cases "length nal \<le> 1400")
  case True
  moreover have "\<not> is_fua nal" using assms by (cases nal) (auto simp: nal_unit_ok_def is_fua_def)
  ultimately show ?thesis by (simp add: nal_packets_def packet_of_def Let_def)
next
  case False
  let ?ps = "nal_packets nal sq ts ssrc" and ?h = "hd nal"
  have ne: "nal \<noteq> []" "tl nal \<noteq> []" using False by (cases nal; auto)+
  note rb = nal_header_rebuild [of ?h]
  have ok: "drop_bit 7 ?h = 0" using assms by (simp add: nal_unit_ok_def)
  have fua: "is_fua (rp_payload (?ps ! j)) \<and> (fh_end (parse_fua_header (rp_payload (?ps ! j) ! 1)) \<longleftrightarrow> Suc j = length ?ps)" if j: "j < length ?ps" for j
  proof -
    obtain chunk where "rp_payload (?ps ! j) = build_fua_indicator (drop_bit 5 ?h AND 3) # build_fua_header (j = 0) (Suc j = length ?ps) (?h AND 0x1F) # chunk"
      using nal_packets_nth [OF ne(1) j] False by blast
    then show ?thesis using rb(3) [OF ok] by (simp add: is_fua_def fua_indicator_type fua_header_fields)
  qed
  have "fragment_nal (tl nal) (drop_bit 5 ?h AND 3) (?h AND 0x1F) RTP_PT_H264 sq ts ssrc 1412 =
      Inr (fragment_loop (tl nal) (build_fua_indicator (drop_bit 5 ?h AND 3)) (?h AND 0x1F) RTP_PT_H264 ts ssrc 1398 (div_ceil (length (tl nal)) 1398) (div_ceil (length (tl nal)) 1398) 0 sq)"
    using fragment_nal_eq [OF ne(2), of 1412] by simp
  moreover have "and_then (fragment_nal (tl nal) (drop_bit 5 ?h AND 3) (?h AND 0x1F) RTP_PT_H264 sq ts ssrc 1412) reassemble_fua = Inr (?h # tl nal)"
    using fua_roundtrip_lemma [OF rb(2) [OF ok] rb(3) [OF ok] ne(2), of 1412 RTP_PT_H264 sq ts ssrc] rb(1) [OF ok] by simp
  ultimately have "reassemble_fua (fragment_loop (tl nal) (build_fua_indicator (drop_bit 5 ?h AND 3)) (?h AND 0x1F) RTP_PT_H264 ts ssrc 1398 (div_ceil (length (tl nal)) 1398) (div_ceil (length (tl nal)) 1398) 0 sq) = Inr nal"
    using ne(1) by (simp del: length_tl)
  then have re: "reassemble_fua ?ps = Inr nal"
    using False by (subst reassemble_payloads [where qs = "fragment_loop (tl nal) (build_fua_indicator (drop_bit 5 ?h AND 3)) (?h AND 0x1F) RTP_PT_H264 ts ssrc 1398 (div_ceil (length (tl nal)) 1398) (div_ceil (length (tl nal)) 1398) 0 sq"])
      (simp_all add: nal_packets_def Let_def with_marker_def comp_def del: length_tl)
  obtain init l where ps: "?ps = init @ [l]" using nal_packets_length [OF ne(1)] by (metis length_greater_0_conv rev_exhaust)
  have nth: "?ps ! length init = l" "\<And>j. j < length init \<Longrightarrow> ?ps ! j = init ! j" "length ?ps = Suc (length init)" unfolding ps by (simp_all add: nth_append)
  have "is_fua (rp_payload l)" "fh_end (parse_fua_header (rp_payload l ! 1))" "rp_timestamp l = ts"
    using fua [of "length init"] nal_packets_nth [OF ne(1), of "length init" sq ts ssrc] by (simp_all add: nth)
  moreover have "\<forall>p \<in> set init. is_fua (rp_payload p) \<and> \<not> fh_end (parse_fua_header (rp_payload p ! 1))"
  proof
    fix p assume "p \<in> set init"
    then obtain j where j: "j < length init" "p = init ! j" by (auto simp: in_set_conv_nth)
    then show "is_fua (rp_payload p) \<and> \<not> fh_end (parse_fua_header (rp_payload p ! 1))" using fua [of j] nth(2) [OF j(1)] by (simp add: nth(3))
  qed
  ultimately show ?thesis using receive_fragments [of init l "[]" nal rest] re by (simp add: ps)
qed

section \<open>The output loses nothing\<close>

lemma nal_packets_valid: "\<forall>p \<in> set (nal_packets nal sq ts ssrc). rtp_wf p \<and> 4 dvd length (rp_extension_data p)"
proof -
  have "rtp_wf (with_marker m p) \<and> 4 dvd length (rp_extension_data (with_marker m p))" if "rtp_wf p \<and> 4 dvd length (rp_extension_data p)" for m p
    using that by (auto simp: rtp_wf_def with_marker_def)
  moreover have "unat RTP_PT_H264 < 128" by (simp add: RTP_PT_H264_def)
  ultimately have "\<forall>p \<in> set (map (with_marker m) (fragment_loop d ind nt RTP_PT_H264 ts ssrc k n n 0 sq)). rtp_wf p \<and> 4 dvd length (rp_extension_data p)" for m d ind nt k n
    using fragment_loop_valid [of RTP_PT_H264] by simp
  then show ?thesis unfolding nal_packets_def Let_def using packet_of_wf by simp
qed

text \<open>The packets \<open>ps\<close> sent so far and the NAL units \<open>del\<close> they carry.\<close>

definition sent_ok :: "rtsp_output \<Rightarrow> rtp_packet list \<Rightarrow> (u32 \<times> bytes) list \<Rightarrow> bool" where
  "sent_ok out ps del \<longleftrightarrow> ro_started out \<and> ro_frame_tx out = Some (map rtp_to_bytes ps) \<and> ro_rtp_seq out = of_nat (length ps)
     \<and> (\<forall>p \<in> set ps. rtp_wf p \<and> 4 dvd length (rp_extension_data p) \<and> length (rtp_to_bytes p) \<le> 1412 \<and> rp_ssrc p = ro_ssrc out)
     \<and> map rp_sequence_number ps = map of_nat [0..<length ps]
     \<and> (\<forall>rest. receive [] (ps @ rest) = map_option (append del) (receive [] rest))"

lemma nal_packets_sequence: "nal \<noteq> [] \<Longrightarrow> map rp_sequence_number (nal_packets nal (of_nat k) ts ssrc) = map of_nat [k..<k + length (nal_packets nal (of_nat k) ts ssrc)]"
  by (rule nth_equalityI) (simp_all add: nal_packets_nth)

lemma send_packets_sent:
  assumes "sent_ok out ps del" "nal_unit_ok nal"
  shows "\<exists>qs. sent_ok (send_packets nal out) qs (del @ [(ro_rtp_timestamp out, nal)])"
proof -
  let ?qs = "nal_packets nal (of_nat (length ps)) (ro_rtp_timestamp out) (ro_ssrc out)"
  have ne: "nal \<noteq> []" using assms(2) by (simp add: nal_unit_ok_def)
  have o1: "ro_frame_tx (send_packets nal out) = Some (map rtp_to_bytes (ps @ ?qs))" "ro_rtp_seq (send_packets nal out) = of_nat (length (ps @ ?qs))"
    "ro_started (send_packets nal out)" "ro_ssrc (send_packets nal out) = ro_ssrc out"
    using assms(1) by (simp_all add: send_packets_def build_rtp_packets_eq [OF ne] sent_ok_def)
  have "\<forall>p \<in> set ?qs. length (rtp_to_bytes p) \<le> 1412 \<and> rp_ssrc p = ro_ssrc out"
    using nal_packets_nth [OF ne] by (auto simp: in_set_conv_nth)
  moreover have "map rp_sequence_number (ps @ ?qs) = map of_nat [0..<length (ps @ ?qs)]"
    using assms(1) nal_packets_sequence [OF ne] by (simp add: sent_ok_def upt_add_eq_append [of 0, simplified])
  moreover have "receive [] ((ps @ ?qs) @ rest) = map_option (append (del @ [(ro_rtp_timestamp out, nal)])) (receive [] rest)" for rest
    using assms(1) receive_nal [OF assms(2)] by (cases "receive [] rest") (simp_all add: sent_ok_def)
  ultimately have "sent_ok (send_packets nal out) (ps @ ?qs) (del @ [(ro_rtp_timestamp out, nal)])"
    using assms(1) nal_packets_valid o1 unfolding sent_ok_def by auto
  then show ?thesis ..
qed

lemma sent_ok_timestamp: "sent_ok (out\<lparr>ro_rtp_timestamp := ts\<rparr>) ps del = sent_ok out ps del"
  by (simp add: sent_ok_def)

lemma send_packets_fields [simp]:
  "ro_rtp_timestamp (send_packets nal out) = ro_rtp_timestamp out" "ro_cached_sps (send_packets nal out) = ro_cached_sps out"
  "ro_cached_pps (send_packets nal out) = ro_cached_pps out"
  by (simp_all add: send_packets_def split_beta)

lemma send_cached_sent:
  assumes "sent_ok out ps del" "\<forall>nal. cached = Some nal \<longrightarrow> nal_unit_ok nal"
  shows "\<exists>qs. sent_ok (send_cached cached out) qs (del @ map (Pair (ro_rtp_timestamp out)) (case cached of Some nal \<Rightarrow> [nal] | None \<Rightarrow> []))"
  using assms send_packets_sent by (cases cached) (auto simp: send_cached_def)

lemma send_cached_fields [simp]:
  "ro_rtp_timestamp (send_cached c out) = ro_rtp_timestamp out" "ro_cached_sps (send_cached c out) = ro_cached_sps out"
  "ro_cached_pps (send_cached c out) = ro_cached_pps out"
  by (simp_all add: send_cached_def split: option.split)

lemma cache_sets_fields:
  "ro_rtp_timestamp (cache_sets nt data out) = ro_rtp_timestamp out" "sent_ok (cache_sets nt data out) ps del = sent_ok out ps del"
  "ro_cached_sps (cache_sets nt data out) = (if nt = 7 then Some data else ro_cached_sps out)"
  "ro_cached_pps (cache_sets nt data out) = (if nt = 8 then Some data else ro_cached_pps out)"
  by (auto simp: cache_sets_def notify_sets_def sent_ok_def Let_def split: option.split)

text \<open>What the receiver should get: the NAL units in order, the latest parameter sets in front of every P slice, and a timestamp that
  is advanced after every slice.\<close>

definition set_list :: "'a option \<Rightarrow> 'a list" where
  "set_list x = (case x of Some y \<Rightarrow> [y] | None \<Rightarrow> [])"

fun delivered :: "bytes option \<Rightarrow> bytes option \<Rightarrow> u32 \<Rightarrow> bytes list \<Rightarrow> (u32 \<times> bytes) list" where
  "delivered sps pps ts [] = []"
| "delivered sps pps ts (nal # nals) =
     (let nt = hd nal AND 0x1F;
          sps = (if nt = 7 then Some nal else sps);
          pps = (if nt = 8 then Some nal else pps)
      in map (Pair ts) ((if nt = 1 then set_list sps @ set_list pps else []) @ [nal])
         @ delivered sps pps (if nt = 1 \<or> nt = 5 then ts + 3000 else ts) nals)"

fun rtsp_run :: "media_frame list \<Rightarrow> rtsp_output \<Rightarrow> unit result \<times> rtsp_output" where
  "rtsp_run [] out = (Inr (), out)"
| "rtsp_run (f # fs) out = (case rtsp_send_frame f out of (Inr _, out') \<Rightarrow> rtsp_run fs out' | (Inl e, out') \<Rightarrow> (Inl e, out'))"

fun video_data :: "media_frame list \<Rightarrow> bytes list" where
  "video_data [] = []"
| "video_data (VideoFrame k d t # fs) = d # video_data fs"
| "video_data (AudioFrame d t # fs) = video_data fs"

lemma rtsp_send_frame_sent:
  assumes "sent_ok out ps del" "nal_unit_ok nal"
    and "\<forall>s. ro_cached_sps out = Some s \<longrightarrow> nal_unit_ok s" "\<forall>s. ro_cached_pps out = Some s \<longrightarrow> nal_unit_ok s"
  shows "\<exists>out' qs del'. rtsp_send_frame (VideoFrame k nal t) out = (Inr (), out') \<and> sent_ok out' qs (del @ del')
    \<and> (\<forall>s. ro_cached_sps out' = Some s \<longrightarrow> nal_unit_ok s) \<and> (\<forall>s. ro_cached_pps out' = Some s \<longrightarrow> nal_unit_ok s)
    \<and> (\<forall>nals. delivered (ro_cached_sps out) (ro_cached_pps out) (ro_rtp_timestamp out) (nal # nals) =
         del' @ delivered (ro_cached_sps out') (ro_cached_pps out') (ro_rtp_timestamp out') nals)"
proof -
  obtain hdr body where nal: "nal = hdr # body" using assms(2) by (cases nal) (auto simp: nal_unit_ok_def)
  let ?nt = "hdr AND 0x1F" and ?ts = "ro_rtp_timestamp out"
  let ?c = "cache_sets ?nt nal out"
  let ?r = "if ?nt = 1 then send_cached (ro_cached_pps ?c) (send_cached (ro_cached_sps ?c) ?c) else ?c"
  have ok: "\<forall>s. ro_cached_sps ?c = Some s \<longrightarrow> nal_unit_ok s" "\<forall>s. ro_cached_pps ?c = Some s \<longrightarrow> nal_unit_ok s"
    using assms(2-4) by (auto simp: cache_sets_fields)
  have "\<exists>qs. sent_ok ?r qs (del @ map (Pair ?ts) (if ?nt = 1 then set_list (ro_cached_sps ?c) @ set_list (ro_cached_pps ?c) else []))"
  proof (cases "?nt = 1")
    case True
    obtain qs where "sent_ok (send_cached (ro_cached_sps ?c) ?c) qs (del @ map (Pair ?ts) (set_list (ro_cached_sps ?c)))"
      using send_cached_sent [OF _ ok(1), of ?c ps del] assms(1) by (auto simp: cache_sets_fields set_list_def)
    from send_cached_sent [OF this ok(2)] True show ?thesis by (simp add: cache_sets_fields set_list_def)
  next
    case False
    then show ?thesis using assms(1) by (auto simp: cache_sets_fields)
  qed
  then obtain qs where "sent_ok ?r qs (del @ map (Pair ?ts) (if ?nt = 1 then set_list (ro_cached_sps ?c) @ set_list (ro_cached_pps ?c) else []))" by blast
  moreover have ts: "ro_rtp_timestamp ?r = ?ts" by (simp add: cache_sets_fields)
  ultimately obtain qs' where
    q: "sent_ok (send_packets nal ?r) qs' (del @ map (Pair ?ts) ((if ?nt = 1 then set_list (ro_cached_sps ?c) @ set_list (ro_cached_pps ?c) else []) @ [nal]))"
    using send_packets_sent [OF _ assms(2), of ?r] unfolding ts by fastforce
  let ?o = "send_packets nal ?r"
  let ?out = "if ?nt = 1 \<or> ?nt = 5 then ?o\<lparr>ro_rtp_timestamp := ro_rtp_timestamp ?o + 3000\<rparr> else ?o"
  let ?del = "map (Pair ?ts) ((if ?nt = 1 then set_list (ro_cached_sps ?c) @ set_list (ro_cached_pps ?c) else []) @ [nal])"
  have r: "rtsp_send_frame (VideoFrame k nal t) out = (Inr (), ?out)"
    using assms(1) by (simp add: rtsp_send_frame_def sent_ok_def nal Let_def)
  have st: "sent_ok ?out qs' (del @ ?del)"
    using q by (cases "?nt = 1 \<or> ?nt = 5") (simp_all only: if_True if_False sent_ok_timestamp)
  have f: "ro_cached_sps ?out = ro_cached_sps ?c" "ro_cached_pps ?out = ro_cached_pps ?c" "ro_rtp_timestamp ?out = (if ?nt = 1 \<or> ?nt = 5 then ?ts + 3000 else ?ts)"
    by (simp_all add: cache_sets_fields)
  have d: "delivered (ro_cached_sps out) (ro_cached_pps out) ?ts (nal # nals) =
      ?del @ delivered (ro_cached_sps ?out) (ro_cached_pps ?out) (ro_rtp_timestamp ?out) nals" for nals
    unfolding f by (simp only: delivered.simps nal list.sel Let_def cache_sets_fields)
  have c: "\<forall>s. ro_cached_sps ?out = Some s \<longrightarrow> nal_unit_ok s" "\<forall>s. ro_cached_pps ?out = Some s \<longrightarrow> nal_unit_ok s" unfolding f by (rule ok)+
  show ?thesis by (rule exI [of _ ?out], rule exI [of _ qs'], rule exI [of _ ?del], intro conjI allI, rule r, rule st, rule c(1) [THEN spec], rule c(2) [THEN spec], rule d)
qed

lemma rtsp_run_sent:
  assumes "sent_ok out ps del" "\<forall>nal \<in> set (video_data frames). nal_unit_ok nal"
    and "\<forall>s. ro_cached_sps out = Some s \<longrightarrow> nal_unit_ok s" "\<forall>s. ro_cached_pps out = Some s \<longrightarrow> nal_unit_ok s"
  shows "\<exists>out' qs. rtsp_run frames out = (Inr (), out') \<and> sent_ok out' qs (del @ delivered (ro_cached_sps out) (ro_cached_pps out) (ro_rtp_timestamp out) (video_data frames))"
  using assms
proof (induction frames arbitrary: out ps del)
  case (Cons f frames)
  show ?case
  proof (cases f)
    case (VideoFrame k nal t)
    have "nal_unit_ok nal" using Cons.prems(2) by (simp add: VideoFrame)
    then obtain out' qs del' where s: "rtsp_send_frame (VideoFrame k nal t) out = (Inr (), out')" "sent_ok out' qs (del @ del')"
      "\<forall>s. ro_cached_sps out' = Some s \<longrightarrow> nal_unit_ok s" "\<forall>s. ro_cached_pps out' = Some s \<longrightarrow> nal_unit_ok s"
      "\<And>nals. delivered (ro_cached_sps out) (ro_cached_pps out) (ro_rtp_timestamp out) (nal # nals) =
         del' @ delivered (ro_cached_sps out') (ro_cached_pps out') (ro_rtp_timestamp out') nals"
      using rtsp_send_frame_sent [OF Cons.prems(1) _ Cons.prems(3,4)] by metis
    have "\<forall>nal \<in> set (video_data frames). nal_unit_ok nal" using Cons.prems(2) by (simp add: VideoFrame)
    from Cons.IH [OF s(2) this s(3,4)] show ?thesis using s(1) unfolding VideoFrame video_data.simps s(5) by simp
  next
    case (AudioFrame d t)
    then show ?thesis using Cons.IH [OF Cons.prems(1) _ Cons.prems(3,4)] Cons.prems(2) by (simp add: rtsp_send_frame_def)
  qed
qed auto

lemma append_Nil_map: "map_option (append []) x = x"
  by (cases x) simp_all

lemma rtsp_output_stream:
  assumes "path \<noteq> []" "\<forall>nal \<in> set (video_data frames). nal_unit_ok nal"
  shows "\<exists>out tx ps. rtsp_run frames (snd (rtsp_start (with_channel path sdp ssrc []))) = (Inr (), out) \<and> ro_frame_tx out = Some tx
    \<and> parse_all tx = Inr ps \<and> receive [] ps = Some (delivered None None 0 (video_data frames))
    \<and> map rp_sequence_number ps = map of_nat [0..<length ps] \<and> (\<forall>pkt \<in> set tx. length pkt \<le> 1412)"
proof -
  let ?out = "snd (rtsp_start (with_channel path sdp ssrc []))"
  have o: "sent_ok ?out [] []" "ro_cached_sps ?out = None" "ro_cached_pps ?out = None" "ro_rtp_timestamp ?out = 0"
    using assms(1) by (simp_all add: rtsp_start_def with_channel_def rtsp_output_new_def sent_ok_def append_Nil_map)
  from rtsp_run_sent [OF o(1) assms(2)] obtain out qs where r: "rtsp_run frames ?out = (Inr (), out)" "sent_ok out qs (delivered None None 0 (video_data frames))"
    by (auto simp: o)
  have "receive [] (qs @ []) = Some (delivered None None 0 (video_data frames))" using r(2) unfolding sent_ok_def by (metis receive.simps(1) option.map(2) append_Nil2)
  moreover have "parse_all (map rtp_to_bytes qs) = Inr qs" using r(2) by (intro parse_all_encoded) (simp add: sent_ok_def)
  ultimately show ?thesis using r unfolding sent_ok_def by auto
qed

text \<open>The RTSP output loses nothing: whatever frames the hub sends it, the packets it puts on the channel of the stream, parsed and
  reassembled by a receiver, give all their NAL units in order, with the latest parameter sets repeated in front of every P
  slice and one timestamp for the parts of an access unit. Sequence numbers run through without a gap, modulo \<open>2 ^ 16\<close>, and
  no packet is larger than 1412 bytes.\<close>

theorem rtsp_output_lossless:
  assumes "path \<noteq> []" "\<forall>nal \<in> set (video_data frames). nal_unit_ok nal"
  shows "\<exists>out tx ps. rtsp_run frames (snd (rtsp_start (with_channel path sdp ssrc []))) = (Inr (), out) \<and> ro_frame_tx out = Some tx
    \<and> parse_all tx = Inr ps \<and> receive [] ps = Some (delivered None None 0 (video_data frames))
    \<and> map rp_sequence_number ps = map of_nat [0..<length ps] \<and> (\<forall>pkt \<in> set tx. length pkt \<le> 1412)"
  using assms by (rule rtsp_output_stream)

theorem rtsp_output_lossless_witness:
  "\<exists>out tx ps. rtsp_run [VideoFrame True [0x67, 1] 0, VideoFrame True [0x68, 2] 0, VideoFrame True [0x65, 3] 0, VideoFrame False [0x41, 4] 33]
       (snd (rtsp_start (with_channel [99] [] 7 []))) = (Inr (), out) \<and> ro_frame_tx out = Some tx \<and> parse_all tx = Inr ps
     \<and> receive [] ps = Some [(0, [0x67, 1]), (0, [0x68, 2]), (0, [0x65, 3]), (3000, [0x67, 1]), (3000, [0x68, 2]), (3000, [0x41, 4])]"
proof -
  have "delivered None None 0 [[0x67, 1], [0x68, 2], [0x65, 3], [0x41, 4]] =
      [(0, [0x67, 1]), (0, [0x68, 2]), (0, [0x65, 3]), (3000, [0x67, 1]), (3000, [0x68, 2]), (3000, [0x41, 4])]" by (simp add: set_list_def)
  then show ?thesis
    using rtsp_output_lossless [of "[99]" "[VideoFrame True [0x67, 1] 0, VideoFrame True [0x68, 2] 0, VideoFrame True [0x65, 3] 0, VideoFrame False [0x41, 4] 33]" "[]" 7]
    by (simp add: nal_unit_ok_def del: rtsp_run.simps delivered.simps) blast
qed

end
