(* ===== verification/RtmpOutput.thy ===== *)
theory RtmpOutput
  imports RtmpClient Fmp4 Text
begin

text \<open>
  The RTMP push output of the stream hub, \<^verbatim>\<open>crates/streaming/src/output/rtmp.rs\<close>, with the NAL unit splitter the outputs share
  (\<^verbatim>\<open>output/mod.rs\<close>). Connecting the client talks to a server and is a parameter; sending appends to the bytes on the
  connection. The properties follow the bytes to a server that parses the chunks and extracts the NAL units.
\<close>

section \<open>Splitting a frame\<close>

fun any_start_code :: "bytes \<Rightarrow> bool" where
  "any_start_code (a # b # c # ds) = ((a = 0 \<and> b = 0 \<and> c = 1) \<or> any_start_code (b # c # ds))"
| "any_start_code _ = False"

definition parse_h264_nal_units :: "bytes \<Rightarrow> bytes list" where
  "parse_h264_nal_units data =
     (if length data < 4 then [data]
      else if any_start_code data then split_nal_units data
      else split_nal_units_avcc data)"

section \<open>The output\<close>

record rtmp_output =
  rm_url :: bytes
  rm_app_name :: bytes
  rm_stream_key :: bytes
  rm_host :: bytes
  rm_port :: u16
  rm_client :: "rtmp_push_client option"
  rm_started :: bool
  rm_seq_header_sent :: bool

definition parse_rtmp_url :: "bytes \<Rightarrow> bytes \<times> bytes" where
  "parse_rtmp_url url =
     (case split_once 47 (trim_start_matches (ascii ''rtmp://'') url) of
        Some (_, after_host) \<Rightarrow>
          (case split_once 47 after_host of
             Some (app, key) \<Rightarrow> (app, key)
           | None \<Rightarrow> (after_host, []))
      | None \<Rightarrow> (ascii ''live'', ascii ''stream''))"

definition parse_rtmp_host_port :: "bytes \<Rightarrow> bytes \<times> u16" where
  "parse_rtmp_host_port url =
     (let rest = trim_start_matches (ascii ''rtmp://'') url;
          host_part = (case split_once 47 rest of Some (h, _) \<Rightarrow> h | None \<Rightarrow> rest)
      in case split_once 58 host_part of
           Some (host, port) \<Rightarrow> (host, case parse_uint 10 65535 port of Some p \<Rightarrow> of_nat p | None \<Rightarrow> 1935)
         | None \<Rightarrow> (host_part, 1935))"

definition rtmp_output_new :: "bytes \<Rightarrow> rtmp_output" where
  "rtmp_output_new url =
     \<lparr>rm_url = url, rm_app_name = fst (parse_rtmp_url url), rm_stream_key = snd (parse_rtmp_url url), rm_host = fst (parse_rtmp_host_port url),
      rm_port = snd (parse_rtmp_host_port url), rm_client = None, rm_started = False, rm_seq_header_sent = False\<rparr>"

definition new_with_parts :: "bytes \<Rightarrow> u16 \<Rightarrow> bytes \<Rightarrow> bytes \<Rightarrow> rtmp_output" where
  "new_with_parts host port app stream =
     \<lparr>rm_url = ascii ''rtmp://'' @ host @ ascii '':'' @ dec_digits (unat port) @ ascii ''/'' @ app @ ascii ''/'' @ stream,
      rm_app_name = app, rm_stream_key = stream, rm_host = host, rm_port = port, rm_client = None, rm_started = False, rm_seq_header_sent = False\<rparr>"

definition rtmp_start :: "(rtmp_push_client \<Rightarrow> unit result \<times> rtmp_push_client) \<Rightarrow> rtmp_output \<Rightarrow> unit result \<times> rtmp_output" where
  "rtmp_start connect out =
     (if rm_url out = [] then (Inl (Bail ''RtmpOutput URL must not be empty''), out)
      else
        case connect (rtmp_push_client_new (rm_host out) (rm_port out) (rm_app_name out) (rm_stream_key out)) of
          (Inl e, _) \<Rightarrow> (Inl e, out)
        | (Inr _, client) \<Rightarrow> (Inr (), out\<lparr>rm_client := Some client, rm_started := True, rm_seq_header_sent := False\<rparr>))"

definition has_type :: "u8 \<Rightarrow> bytes \<Rightarrow> bool" where
  "has_type t n \<longleftrightarrow> (case n of b # _ \<Rightarrow> b AND 0x1F = t | [] \<Rightarrow> False)"

text \<open>The sequence header in front of the first key frame: whether it could be sent, the client, and the flag.\<close>

definition send_sequence_header :: "bool \<Rightarrow> bytes list \<Rightarrow> u32 \<Rightarrow> bool \<Rightarrow> rtmp_push_client \<Rightarrow> unit result \<times> rtmp_push_client \<times> bool" where
  "send_sequence_header kf nal_units ts seq_header_sent client =
     (if kf \<and> \<not> seq_header_sent
      then
        case (find (has_type 7) nal_units, find (has_type 8) nal_units) of
          (Some sps, Some pps) \<Rightarrow>
            (case send_video client (build_video_sequence_header sps pps) ts of
               (Inl e, client) \<Rightarrow> (Inl e, client, seq_header_sent)
             | (Inr _, client) \<Rightarrow> (Inr (), client, True))
        | _ \<Rightarrow> (Inr (), client, True)
      else (Inr (), client, seq_header_sent))"

definition rtmp_send_frame :: "media_frame \<Rightarrow> rtmp_output \<Rightarrow> unit result \<times> rtmp_output" where
  "rtmp_send_frame frame out =
     (case frame of
        VideoFrame kf data timestamp \<Rightarrow>
          (let ts = ucast timestamp
           in if \<not> rm_started out then (Inl (Bail ''RtmpOutput not started''), out)
              else
                case rm_client out of
                  None \<Rightarrow> (Inl (Bail ''RtmpOutput client not connected''), out)
                | Some client \<Rightarrow>
                    (let nal_units = parse_h264_nal_units data
                     in if nal_units = [] then (Inr (), out)
                        else
                          case send_sequence_header kf nal_units ts (rm_seq_header_sent out) client of
                            (Inl e, client, sent) \<Rightarrow> (Inl e, out\<lparr>rm_client := Some client, rm_seq_header_sent := sent\<rparr>)
                          | (Inr _, client, sent) \<Rightarrow>
                              (let avcc_data = concat (map (\<lambda>nal. u32_be (of_nat (length nal)) @ nal) nal_units);
                                   (r, client) = send_video client (build_video_nalus avcc_data kf 0) ts
                               in (r, out\<lparr>rm_client := Some client, rm_seq_header_sent := sent\<rparr>))))
      | AudioFrame data timestamp \<Rightarrow> (Inr (), out))"

text \<open>\<^verbatim>\<open>stop\<close>: the bytes the connection carried at its end, if there was one.\<close>

definition rtmp_stop :: "rtmp_output \<Rightarrow> bytes option \<times> rtmp_output" where
  "rtmp_stop out = (Option.bind (rm_client out) (\<lambda>c. fst (rtmp_close c)), out\<lparr>rm_client := None, rm_started := False\<rparr>)"

section \<open>Addresses\<close>


lemma trim_start_matches_other:
  "\<not> starts_with p s \<Longrightarrow> p \<noteq> [] \<Longrightarrow> trim_start_matches p (p @ s) = s"
  by (subst trim_start_matches.simps, subst trim_start_matches.simps) (simp add: starts_with_def)

text \<open>The two constructors agree: the URL of the parts is parsed back into the parts.\<close>

lemma no_scheme_in_host:
  assumes "47 \<notin> set host" "58 \<notin> set host"
  shows "\<not> starts_with (ascii ''rtmp://'') (host @ 58 # dec_digits n @ rest)"
proof
  let ?s = "host @ 58 # dec_digits n @ rest"
  assume "starts_with (ascii ''rtmp://'') ?s"
  then have t: "take 7 ?s = [114, 116, 109, 112, 58, 47, 47]" by (simp add: starts_with_def ascii_def eval_nat_numeral)
  have nth: "?s ! i = [114, 116, 109, 112, 58, 47, 47] ! i" if "i < 7" for i using nth_take [of i 7 ?s] that t by simp
  obtain d ds where d: "dec_digits n = hex_digit d # ds" "d < 10" using dec_digits_first by blast
  have "hex_digit d \<noteq> 47" using hex_digit_range [of d] d(2) by auto
  consider "length host < 4" | "length host = 4" | "4 < length host" by linarith
  then show False
  proof cases
    case 1
    then have "[114, 116, 109, 112, 58, 47, 47] ! length host = (58 :: u8)" using nth [of "length host"] by simp
    moreover have "length host = 0 \<or> length host = 1 \<or> length host = 2 \<or> length host = 3" using 1 by linarith
    ultimately show ?thesis by auto
  next
    case 2
    then have "?s ! 5 = hex_digit d" by (simp add: nth_append d(1))
    then show ?thesis using nth [of 5] \<open>hex_digit d \<noteq> 47\<close> by simp
  next
    case 3
    then have "host ! 4 = 58" using nth [of 4] by (simp add: nth_append)
    then show ?thesis using 3 assms(2) nth_mem by metis
  qed
qed

lemma url_of_parts:
  assumes "47 \<notin> set host" "58 \<notin> set host" "47 \<notin> set app"
  shows "rtmp_output_new (rm_url (new_with_parts host port app stream)) = new_with_parts host port app stream"
proof -
  let ?tail = "host @ 58 # dec_digits (unat port) @ 47 # app @ 47 # stream"
  have dd: "47 \<notin> set (dec_digits (unat port))" using dec_digits_ascii [of "unat port"] by auto
  have u: "rm_url (new_with_parts host port app stream) = ascii ''rtmp://'' @ ?tail" by (simp add: new_with_parts_def ascii_def)
  have t: "trim_start_matches (ascii ''rtmp://'') (ascii ''rtmp://'' @ ?tail) = ?tail"
    using no_scheme_in_host [OF assms(1,2), of "unat port" "47 # app @ 47 # stream"] by (intro trim_start_matches_other) (simp_all add: ascii_def)
  have s1: "split_once 47 ?tail = Some (host @ 58 # dec_digits (unat port), app @ 47 # stream)"
    using split_once_append [of 47 "host @ 58 # dec_digits (unat port)" "app @ 47 # stream"] assms(1) dd by simp
  have s2: "split_once 47 (app @ 47 # stream) = Some (app, stream)" by (rule split_once_append [OF assms(3)])
  have s3: "split_once 58 (host @ 58 # dec_digits (unat port)) = Some (host, dec_digits (unat port))" by (rule split_once_append [OF assms(2)])
  have "unat port \<le> 65535" using u16_less [of port] by simp
  then have p: "parse_uint 10 65535 (dec_digits (unat port)) = Some (unat port)" by (rule parse_uint_dec)
  have "parse_rtmp_url (ascii ''rtmp://'' @ ?tail) = (app, stream)" by (simp only: parse_rtmp_url_def t s1 s2 option.case prod.case)
  moreover have "parse_rtmp_host_port (ascii ''rtmp://'' @ ?tail) = (host, port)" by (simp add: parse_rtmp_host_port_def t s1 s3 p Let_def)
  ultimately show ?thesis unfolding u rtmp_output_new_def by (simp add: new_with_parts_def ascii_def)
qed

section \<open>What a server receives\<close>

text \<open>Messages on the video chunk stream: payload and timestamp.\<close>

definition message_chunks :: "u32 \<Rightarrow> u32 \<Rightarrow> bytes \<times> u32 \<Rightarrow> bytes" where
  "message_chunks sid sz = (\<lambda>(data, ts). write_chunked 5 Video sid ts sz data)"

lemma run_chunks_add:
  "run_chunks n p rd = Inr (ms, rd', p') \<Longrightarrow> run_chunks m p' rd' = Inr (ms', rd'', p'') \<Longrightarrow>
   run_chunks (n + m) p rd = Inr (ms @ ms', rd'', p'')"
proof (induction n arbitrary: p rd ms)
  case (Suc n)
  obtain r q where pc: "parse_chunk p rd = (r, q)" by fastforce
  obtain m1 rd1 where r: "r = Inr (m1, rd1)" using Suc.prems(1) pc by (cases r) auto
  obtain ms1 where s: "run_chunks n q rd1 = Inr (ms1, rd', p')" "ms = (case m1 of None \<Rightarrow> ms1 | Some msg \<Rightarrow> msg # ms1)"
    using Suc.prems(1) pc r by (auto simp: result_simps)
  have "run_chunks (n + m) q rd1 = Inr (ms1 @ ms', rd'', p'')" by (rule Suc.IH [OF s(1) Suc.prems(2)])
  then show ?case using pc r s(2) by (cases m1) simp_all
qed simp

lemma messages_received:
  assumes "\<forall>(data, ts) \<in> set ms. length data \<le> 0xFFFFFF \<and> ts < 0xFFFFFF" and "idle p 5" and "0 < cp_chunk_size p"
  shows "\<exists>n p'. run_chunks n p (concat (map (message_chunks sid (cp_chunk_size p)) ms)) = Inr (map fst ms, [], p')"
  using assms
proof (induction ms arbitrary: p)
  case Nil
  have "run_chunks 0 p [] = Inr ([], [], p)" by simp
  then show ?case by (simp del: run_chunks.simps) blast
next
  case (Cons m ms)
  obtain data ts where m: "m = (data, ts)" by fastforce
  let ?rest = "concat (map (message_chunks sid (cp_chunk_size p)) ms)"
  obtain n p1 where n: "run_chunks n p (message_chunks sid (cp_chunk_size p) m @ ?rest) = Inr ([data], ?rest, p1)"
    and p1: "idle p1 5" "cp_chunk_size p1 = cp_chunk_size p"
    using reassemble_lemma [of 5 data ts Video p sid ?rest] Cons.prems by (auto simp: message_chunks_def m)
  obtain k p2 where k: "run_chunks k p1 ?rest = Inr (map fst ms, [], p2)"
    using Cons.IH [of p1] Cons.prems p1 by auto
  show ?case using run_chunks_add [OF n k] by (auto simp: m)
qed

text \<open>The messages of a run of frames: \<open>sent\<close> tells whether the sequence header was sent, a frame is whether it is a key frame, its NAL
  units and its timestamp.\<close>

definition sets_of :: "bytes list \<Rightarrow> (bytes \<times> bytes) option" where
  "sets_of nals = (case (find (has_type 7) nals, find (has_type 8) nals) of (Some sps, Some pps) \<Rightarrow> Some (sps, pps) | _ \<Rightarrow> None)"

fun pushed :: "bool \<Rightarrow> (bool \<times> bytes list \<times> u32) list \<Rightarrow> (bytes \<times> u32) list" where
  "pushed sent [] = []"
| "pushed sent ((kf, nals, ts) # fs) =
     (if kf \<and> \<not> sent then (case sets_of nals of Some (sps, pps) \<Rightarrow> [(build_video_sequence_header sps pps, ts)] | None \<Rightarrow> []) else [])
     @ (build_video_nalus (concat (map avcc_unit nals)) kf 0, ts) # pushed (sent \<or> kf) fs"

fun published :: "bool \<Rightarrow> (bool \<times> bytes list \<times> u32) list \<Rightarrow> bytes list list" where
  "published sent [] = []"
| "published sent ((kf, nals, ts) # fs) =
     (if kf \<and> \<not> sent then (case sets_of nals of Some (sps, pps) \<Rightarrow> [[sps, pps]] | None \<Rightarrow> []) else []) @ nals # published (sent \<or> kf) fs"

fun rtmp_run :: "media_frame list \<Rightarrow> rtmp_output \<Rightarrow> unit result \<times> rtmp_output" where
  "rtmp_run [] out = (Inr (), out)"
| "rtmp_run (f # fs) out = (case rtmp_send_frame f out of (Inr _, out') \<Rightarrow> rtmp_run fs out' | (Inl e, out') \<Rightarrow> (Inl e, out'))"

definition frame_of :: "bool \<times> (bytes \<times> bytes) list \<times> u64 \<Rightarrow> media_frame" where
  "frame_of = (\<lambda>(kf, units, ts). VideoFrame kf (annexb units) ts)"

definition message_of :: "bool \<times> (bytes \<times> bytes) list \<times> u64 \<Rightarrow> bool \<times> bytes list \<times> u32" where
  "message_of = (\<lambda>(kf, units, ts). (kf, map snd units, ucast ts))"

lemma any_start_code_append: "any_start_code (xs @ 0 # 0 # 1 # ys)"
proof (induction xs)
  case (Cons x xs)
  then show ?case by (cases xs; cases "tl xs") auto
qed simp

lemma parse_annexb:
  assumes "\<forall>u \<in> set units. annexb_ok u" "units \<noteq> []"
  shows "parse_h264_nal_units (annexb units) = map snd units"
proof -
  obtain code nal us where u: "units = (code, nal) # us" using assms(2) by (metis list.exhaust surj_pair)
  have c: "code = [0, 0, 0, 1] \<or> code = [0, 0, 1]" "nal \<noteq> []" using assms(1) by (auto simp: u annexb_ok_def nal_ok_def)
  have "any_start_code (annexb units)"
    using c(1) any_start_code_append [of "[0]"] any_start_code_append [of "[]"] by (auto simp: u annexb_def annexb_unit_def)
  moreover have "\<not> length (annexb units) < 4" using c by (cases nal) (auto simp: u annexb_def annexb_unit_def)
  ultimately show ?thesis using split_annexb_lemma [OF assms(1)] by (simp add: parse_h264_nal_units_def)
qed

lemma avcc_unit_fun: "avcc_unit = (\<lambda>nal. u32_be (of_nat (length nal)) @ nal)"
  by (simp add: fun_eq_iff avcc_unit_def)

lemma rtmp_send_frame_message:
  assumes "rm_started out" "rm_client out = Some client" "rc_stream client = Some wire"
    and "parse_h264_nal_units data = nals" "nals \<noteq> []"
  shows "\<exists>out' client'. rtmp_send_frame (VideoFrame kf data ts) out = (Inr (), out') \<and> rm_started out' \<and> rm_client out' = Some client'
    \<and> rm_seq_header_sent out' = (rm_seq_header_sent out \<or> kf) \<and> rc_stream_id client' = rc_stream_id client \<and> rc_chunk_size client' = rc_chunk_size client
    \<and> rc_stream client' = Some (wire @ concat (map (message_chunks (rc_stream_id client) (rc_chunk_size client)) (pushed (rm_seq_header_sent out) [(kf, nals, ucast ts)])))"
proof -
  let ?C = "message_chunks (rc_stream_id client) (rc_chunk_size client)" and ?ts = "ucast ts :: u32"
  let ?hdr = "if kf \<and> \<not> rm_seq_header_sent out then (case sets_of nals of Some (sps, pps) \<Rightarrow> [(build_video_sequence_header sps pps, ?ts)] | None \<Rightarrow> []) else []"
  let ?pic = "build_video_nalus (concat (map avcc_unit nals)) kf 0"
  obtain c where c: "send_sequence_header kf nals ?ts (rm_seq_header_sent out) client = (Inr (), c, rm_seq_header_sent out \<or> kf)"
    "rc_stream c = Some (wire @ concat (map ?C ?hdr))" "rc_stream_id c = rc_stream_id client" "rc_chunk_size c = rc_chunk_size client"
  proof (cases "kf \<and> \<not> rm_seq_header_sent out")
    case True
    then show ?thesis using assms(3)
      by (cases "find (has_type 7) nals"; cases "find (has_type 8) nals")
        (rule that [of "fst (snd (send_sequence_header kf nals ?ts (rm_seq_header_sent out) client))"]; simp add: send_sequence_header_def sets_of_def send_video_def write_data_chunk_def message_chunks_def Let_def)+
  next
    case False
    then have e: "(rm_seq_header_sent out \<or> kf) = rm_seq_header_sent out" by blast
    show ?thesis by (rule that [of client]) (simp_all only: e send_sequence_header_def False if_False list.map concat.simps append_Nil2 assms(3))
  qed
  obtain c' where c': "send_video c ?pic ?ts = (Inr (), c')" "rc_stream c' = Some (wire @ concat (map ?C (?hdr @ [(?pic, ?ts)])))"
    "rc_stream_id c' = rc_stream_id client" "rc_chunk_size c' = rc_chunk_size client"
    using c(2-4) by (simp add: send_video_def write_data_chunk_def message_chunks_def Let_def)
  have "rtmp_send_frame (VideoFrame kf data ts) out = (Inr (), out\<lparr>rm_client := Some c', rm_seq_header_sent := rm_seq_header_sent out \<or> kf\<rparr>)"
    using assms by (simp add: rtmp_send_frame_def c(1) c'(1) [unfolded avcc_unit_fun] Let_def)
  then show ?thesis using c' assms(1) by simp
qed

lemma pushed_cons: "pushed sent (f # fs) = pushed sent [f] @ pushed (sent \<or> fst f) fs"
  by (cases f) simp

lemma rtmp_run_messages:
  assumes "rm_started out" "rm_client out = Some client" "rc_stream client = Some wire"
    and "\<forall>(kf, units, ts) \<in> set frames. units \<noteq> [] \<and> (\<forall>u \<in> set units. annexb_ok u)"
  shows "\<exists>out' client'. rtmp_run (map frame_of frames) out = (Inr (), out') \<and> rm_client out' = Some client'
    \<and> rc_stream client' = Some (wire @ concat (map (message_chunks (rc_stream_id client) (rc_chunk_size client)) (pushed (rm_seq_header_sent out) (map message_of frames))))"
  using assms
proof (induction frames arbitrary: out client wire)
  case (Cons f frames)
  obtain kf units ts where f: "f = (kf, units, ts)" by (metis surj_pair)
  have u: "parse_h264_nal_units (annexb units) = map snd units" "map snd units \<noteq> []" using Cons.prems(4) parse_annexb [of units] by (auto simp: f)
  obtain out' client' where o: "rtmp_send_frame (VideoFrame kf (annexb units) ts) out = (Inr (), out')" "rm_started out'" "rm_client out' = Some client'"
    "rm_seq_header_sent out' = (rm_seq_header_sent out \<or> kf)" "rc_stream_id client' = rc_stream_id client" "rc_chunk_size client' = rc_chunk_size client"
    "rc_stream client' = Some (wire @ concat (map (message_chunks (rc_stream_id client) (rc_chunk_size client)) (pushed (rm_seq_header_sent out) [message_of f])))"
    using rtmp_send_frame_message [OF Cons.prems(1-3) u, of kf ts] by (auto simp: f message_of_def simp del: pushed.simps)
  have "\<forall>(kf, units, ts) \<in> set frames. units \<noteq> [] \<and> (\<forall>u \<in> set units. annexb_ok u)" using Cons.prems(4) by simp
  from Cons.IH [OF o(2,3,7) this] show ?case
    using o(1,4-6) pushed_cons [of "rm_seq_header_sent out" "message_of f" "map message_of frames"]
    by (simp add: f frame_of_def message_of_def del: pushed.simps)
qed simp

lemma pushed_received:
  assumes "\<forall>(kf, nals, ts) \<in> set fs. \<forall>nal \<in> set nals. length nal < 65536"
  shows "map (\<lambda>m. extract_h264_nal_units (fst m)) (pushed sent fs) = map Inr (published sent fs)"
  using assms
proof (induction fs arbitrary: sent)
  case (Cons f fs)
  obtain kf nals ts where f: "f = (kf, nals, ts)" by (metis surj_pair)
  have l: "\<forall>nal \<in> set nals. length nal < 65536" "\<forall>nal \<in> set nals. length nal < 2 ^ 32" using Cons.prems by (auto simp: f)
  have "length sps < 65536 \<and> length pps < 65536" if "sets_of nals = Some (sps, pps)" for sps pps
    using that l(1) by (auto simp: sets_of_def find_Some_iff split: option.splits)
  moreover have "extract_h264_nal_units (build_video_nalus (concat (map avcc_unit nals)) kf 0) = Inr nals" by (rule extract_nalus_lemma [OF l(2)])
  ultimately show ?case using Cons.IH Cons.prems by (auto simp: f extract_sequence_lemma split: option.split)
qed simp


definition pushing_output :: rtmp_output where
  "pushing_output = \<lparr>rm_url = [1], rm_app_name = [], rm_stream_key = [], rm_host = [], rm_port = 1935,
     rm_client = Some \<lparr>rc_host = [], rc_port = 1935, rc_app_name = [], rc_stream_name = [], rc_stream = Some [], rc_stream_id = 1,
        rc_chunk_size = 128, rc_video_timestamp = 0, rc_audio_timestamp = 0\<rparr>, rm_started = True, rm_seq_header_sent = False\<rparr>"

definition pushed_frames :: "(bool \<times> (bytes \<times> bytes) list \<times> u64) list" where
  "pushed_frames = [(True, [([0, 0, 0, 1], [0x67, 1]), ([0, 0, 0, 1], [0x68, 2]), ([0, 0, 1], [0x65, 3])], 40), (False, [([0, 0, 0, 1], [0x41, 4])], 80)]"


section \<open>Frames of a camera\<close>

text \<open>The camera source hands out NAL units without start codes. The splitter takes them for length-prefixed data, finds a length that
  no frame has, and returns nothing: the output accepts the frame and sends nothing.\<close>

lemma any_start_code_nal:
  "\<forall>j < length n - 2. \<not> (n ! j = 0 \<and> n ! (j + 1) = 0 \<and> n ! (j + 2) = 1) \<Longrightarrow> \<not> any_start_code n"
proof (induction n rule: any_start_code.induct)
  case (1 a b c ds)
  have "\<not> (a = 0 \<and> b = 0 \<and> c = 1)" using "1.prems" [THEN spec, of 0] by simp
  moreover have "\<forall>j < length (b # c # ds) - 2. \<not> ((b # c # ds) ! j = 0 \<and> (b # c # ds) ! (j + 1) = 0 \<and> (b # c # ds) ! (j + 2) = 1)"
  proof (intro allI impI)
    fix j assume "j < length (b # c # ds) - 2"
    then show "\<not> ((b # c # ds) ! j = 0 \<and> (b # c # ds) ! (j + 1) = 0 \<and> (b # c # ds) ! (j + 2) = 1)" using "1.prems" [THEN spec, of "Suc j"] by simp
  qed
  ultimately show ?case using "1.IH" by simp
qed simp_all

lemma raw_nal_not_split:
  assumes "nal_ok nal" "hd nal \<noteq> 0" "4 \<le> length nal" "length nal < 2 ^ 24"
  shows "parse_h264_nal_units nal = []"
proof -
  have c: "\<not> any_start_code nal" using any_start_code_nal [of nal] assms(1) by (auto simp: nal_ok_def list_all_iff)
  obtain a r where nal: "nal = a # r" using assms(3) by (cases nal) auto
  have s: "subslice 0 4 nal = a # take 3 r" by (simp add: nal subslice_def take_Suc_conv_app_nth numeral_eq_Suc)
  have "1 \<le> unat a" using assms(2) by (simp add: nal unat_gt_0 Suc_le_eq)
  moreover have l: "length (take 3 r) = 3" using assms(3) by (simp add: nal)
  ultimately have v: "2 ^ 24 \<le> be_val (a # take 3 r)" "be_val (a # take 3 r) < 2 ^ 32"
    using be_val_less [of "a # take 3 r"] by (auto simp: nal)
  define x where "x = be_val (a # take 3 r)"
  have "2 ^ 24 \<le> unat (of_nat x :: u32)" using v unfolding x_def [symmetric] by (simp add: unat_of_nat)
  then have "2 ^ 24 \<le> unat (be_u32 (subslice 0 4 nal))" by (simp only: be_u32_def s x_def)
  then show ?thesis using assms(3,4) c
    by (simp add: parse_h264_nal_units_def split_nal_units_avcc_def split_avcc_loop.simps Let_def)
qed

lemma camera_frames_not_pushed:
  assumes "rm_started out" "rm_client out \<noteq> None" "nal_ok nal" "hd nal \<noteq> 0" "4 \<le> length nal" "length nal < 2 ^ 24"
  shows "rtmp_send_frame (VideoFrame kf nal ts) out = (Inr (), out)"
  using raw_nal_not_split [OF assms(3-6)] assms(1,2) by (auto simp: rtmp_send_frame_def Let_def)

text \<open>With start codes but one NAL unit per frame the sequence header would be lost all the same: the first key frame has no
  parameter sets, none is sent, and the flag says that it was.\<close>

lemma sequence_header_lost:
  assumes "find (has_type 7) nals = None \<or> find (has_type 8) nals = None"
  shows "send_sequence_header True nals ts False client = (Inr (), client, True)"
  using assms by (auto simp: send_sequence_header_def split: option.splits)

end
