(* ===== verification/Recorder.thy ===== *)
theory Recorder
  imports Fmp4 Text "HOL-Library.Multiset"
begin

text \<open>
  The recorder, \<^verbatim>\<open>crates/streaming/src/output/file.rs\<close>: rolling MP4 segments named by the time they were opened, closed while
  the platform pauses recording, pruned oldest first. Creating a segment file with its muxer and writing to it are the crate
  \<^verbatim>\<open>muxide\<close> and the file system, a record of functions; so is 64-bit floating-point arithmetic. What a call reads from the
  outside (clocks, the directory, which files can be removed) is its first argument, what it does to files is a list of
  events. Cells shared with other tasks (pause flag, dimensions, published segment) are fields.
\<close>

section \<open>Time stamps\<close>

text \<open>\<^verbatim>\<open>format!("{:0w$}")\<close> of a number.\<close>

definition pad_digits :: "nat \<Rightarrow> nat \<Rightarrow> bytes" where
  "pad_digits w n = replicate (w - length (dec_digits n)) 48 @ dec_digits n"

definition civil_from_days :: "int \<Rightarrow> int \<times> int \<times> int" where
  "civil_from_days days =
     (let z = days + 719468;
          era = (if 0 \<le> z then z else z - 146096) div 146097;
          doe = z - era * 146097;
          yoe = (doe - doe div 1460 + doe div 36524 - doe div 146096) div 365;
          y = yoe + era * 400;
          doy = doe - (365 * yoe + yoe div 4 - yoe div 100);
          mp = (5 * doy + 2) div 153;
          d = doy - (153 * mp + 2) div 5 + 1;
          m = (if mp < 10 then mp + 3 else mp - 9);
          y = (if m \<le> 2 then y + 1 else y)
      in (y, m, d))"

definition format_local_timestamp :: "nat \<Rightarrow> bytes" where
  "format_local_timestamp epoch_secs =
     (let (y, m, d) = civil_from_days (int (epoch_secs div 86400));
          secs_of_day = epoch_secs mod 86400;
          hour = secs_of_day div 3600;
          minute = secs_of_day mod 3600 div 60;
          sec = secs_of_day mod 60
      in pad_digits 4 (nat y) @ pad_digits 2 (nat m) @ pad_digits 2 (nat d) @ pad_digits 2 hour @ pad_digits 2 minute @ pad_digits 2 sec)"

text \<open>The Gregorian calendar, day by day.\<close>

definition leap :: "int \<Rightarrow> bool" where
  "leap y \<longleftrightarrow> y mod 4 = 0 \<and> y mod 100 \<noteq> 0 \<or> y mod 400 = 0"

definition month_days :: "int \<Rightarrow> int \<Rightarrow> int" where
  "month_days y m = (if m = 2 then if leap y then 29 else 28 else if m \<in> {4, 6, 9, 11} then 30 else 31)"

definition next_day :: "int \<times> int \<times> int \<Rightarrow> int \<times> int \<times> int" where
  "next_day = (\<lambda>(y, m, d). if d < month_days y m then (y, m, d + 1) else if m < 12 then (y, m + 1, 1) else (y + 1, 1, 1))"

fun calendar :: "nat \<Rightarrow> int \<times> int \<times> int" where
  "calendar 0 = (1970, 1, 1)"
| "calendar (Suc n) = next_day (calendar n)"

lemma zdiv_le_dividend: "0 \<le> x \<Longrightarrow> 0 < k \<Longrightarrow> x div k \<le> (x :: int)"
  using zdiv_mono2 [of x 1 k] by simp

text \<open>Days before the March year \<open>y\<close> of an era.\<close>

definition year_start :: "int \<Rightarrow> int" where
  "year_start y = 365 * y + y div 4 - y div 100 + y div 400"

definition year_of :: "int \<Rightarrow> int" where
  "year_of doe = (doe - doe div 1460 + doe div 36524 - doe div 146096) div 365"

lemma year_of_bounds_check:
  "list_all (\<lambda>y. year_of (year_start y) = y \<and> year_of (year_start (y + 1) - 1) = y) [0..399]"
  by code_simp

lemma div_lipschitz: "0 < k \<Longrightarrow> x \<le> x' \<Longrightarrow> x - x div k \<le> x' - x' div (k :: int)"
proof -
  assume k: "0 < k" and x: "x \<le> x'"
  have "(x' - x) * 1 \<le> (x' - x) * k" using k x by (intro mult_left_mono) simp_all
  then have "x' \<le> x + (x' - x) * k" by simp
  then have "x' div k \<le> (x + (x' - x) * k) div k" using k by (rule zdiv_mono1)
  then show ?thesis using k by simp
qed

lemma year_of_mono: "0 \<le> x \<Longrightarrow> x \<le> x' \<Longrightarrow> year_of x \<le> year_of x'"
proof -
  assume x: "0 \<le> x" "x \<le> x'"
  have q: "u div 146096 = u div 36524 div 4" for u :: int using zdiv_zmult2_eq [of 4 u 36524] by simp
  have "x div 36524 \<le> x' div 36524" using x by (intro zdiv_mono1) simp_all
  then have "x div 36524 - x div 36524 div 4 \<le> x' div 36524 - x' div 36524 div 4" by (intro div_lipschitz) simp_all
  moreover have "x - x div 1460 \<le> x' - x' div 1460" using x by (intro div_lipschitz) simp_all
  ultimately show ?thesis unfolding year_of_def q by (intro zdiv_mono1) simp_all
qed

lemma year_of_bounds: "0 \<le> y \<Longrightarrow> y \<le> 399 \<Longrightarrow> year_of (year_start y) = y \<and> year_of (year_start (y + 1) - 1) = y"
  using year_of_bounds_check by (auto simp: list_all_iff)

lemma year_start_nonneg: "0 \<le> y \<Longrightarrow> 0 \<le> year_start y"
proof -
  assume y: "0 \<le> y"
  have "y div 100 \<le> y" using y by (intro zdiv_le_dividend) simp_all
  moreover have "0 \<le> y div 4" "0 \<le> y div 400" using y by (simp_all add: pos_imp_zdiv_nonneg_iff)
  ultimately show ?thesis using y unfolding year_start_def by simp
qed

lemma year_of_eq:
  assumes "0 \<le> y" "y \<le> 399" "year_start y \<le> x" "x < year_start (y + 1)"
  shows "year_of x = y"
proof -
  have "y \<le> year_of x" using year_of_mono [OF year_start_nonneg [OF assms(1)] assms(3)] year_of_bounds [OF assms(1,2)] by simp
  moreover have "year_of x \<le> y" using year_of_mono [of x "year_start (y + 1) - 1"] year_start_nonneg [OF assms(1)] assms year_of_bounds [OF assms(1,2)] by simp
  ultimately show ?thesis by simp
qed

lemma year_of_range:
  assumes "0 \<le> doe" "doe < 146097"
  shows "0 \<le> year_of doe \<and> year_of doe \<le> 399 \<and> year_start (year_of doe) \<le> doe \<and> doe < year_start (year_of doe + 1)"
proof -
  let ?y = "year_of doe"
  have "year_of 0 = 0" "year_of 146096 = 399" "year_start 400 = 146097" by (simp_all add: year_of_def year_start_def)
  then have y: "0 \<le> ?y" "?y \<le> 399" using year_of_mono [of 0 doe] year_of_mono [of doe 146096] assms by simp_all
  have "year_start ?y \<le> doe"
  proof (rule ccontr)
    assume a: "\<not> year_start ?y \<le> doe"
    have "?y \<noteq> 0" using a assms(1) by (auto simp: year_start_def)
    then have "0 \<le> ?y - 1" "?y - 1 \<le> 399" using y by simp_all
    then have "year_of (year_start ?y - 1) = ?y - 1" using year_of_bounds [of "?y - 1"] by simp
    then show False using year_of_mono [of doe "year_start ?y - 1"] a assms(1) by simp
  qed
  moreover have "doe < year_start (?y + 1)"
  proof (rule ccontr)
    assume a: "\<not> doe < year_start (?y + 1)"
    then have "?y \<noteq> 399" using assms(2) by (auto simp: year_start_def)
    then have "year_of (year_start (?y + 1)) = ?y + 1" using year_of_bounds [of "?y + 1"] y by simp
    then show False using year_of_mono [of "year_start (?y + 1)" doe] a year_start_nonneg [of "?y + 1"] y by simp
  qed
  ultimately show ?thesis using y by simp
qed

text \<open>Months of a March year.\<close>

definition month_day :: "int \<Rightarrow> int \<times> int" where
  "month_day doy = (let mp = (5 * doy + 2) div 153 in (if mp < 10 then mp + 3 else mp - 9, doy - (153 * mp + 2) div 5 + 1))"

lemma month_day_table:
  "list_all (\<lambda>doy. month_day (doy + 1) = (let (m, d) = month_day doy in if d < month_days 1 m then (m, d + 1) else if m < 12 then (m + 1, 1) else (1, 1))) [0..363]"
  by code_simp

lemma month_day_ends: "month_day 0 = (3, 1)" "month_day 364 = (2, 28)" "month_day 365 = (2, 29)"
  by (simp_all add: month_day_def)

lemma february_table: "list_all (\<lambda>doy. fst (month_day doy) = 2 \<longrightarrow> snd (month_day doy) < 28) [0..363]"
  by code_simp

lemma leap_years: "list_all (\<lambda>y. year_start (y + 1) - year_start y = (if leap (y + 1) then 366 else 365)) [0..399]"
  by code_simp

lemma leap_era: "leap (y + 400 * e) = leap y"
proof -
  have "(y + 400 * e) mod 4 = y mod 4" using mod_mult_self2 [of y 4 "100 * e"] by (simp add: mult.assoc [symmetric])
  moreover have "(y + 400 * e) mod 100 = y mod 100" using mod_mult_self2 [of y 100 "4 * e"] by (simp add: mult.assoc [symmetric])
  moreover have "(y + 400 * e) mod 400 = y mod 400" by simp
  ultimately show ?thesis by (simp add: leap_def)
qed

text \<open>The algorithm by era, March year and day of the year.\<close>

definition civil :: "int \<Rightarrow> int \<Rightarrow> int \<Rightarrow> int \<times> int \<times> int" where
  "civil e y doy = (let (m, d) = month_day doy in (if m \<le> 2 then y + 400 * e + 1 else y + 400 * e, m, d))"

lemma civil_from_days_eq:
  assumes "0 \<le> days + 719468" "e = (days + 719468) div 146097" "doe = (days + 719468) mod 146097"
  shows "civil_from_days days = civil e (year_of doe) (doe - year_start (year_of doe))"
proof -
  have doe: "days + 719468 - e * 146097 = doe" using assms(2,3) by (simp add: minus_div_mult_eq_mod)
  have "0 \<le> doe" "doe < 146097" using assms(3) by simp_all
  then have "year_of doe div 400 = 0" using year_of_range [of doe] by (intro div_pos_pos_trivial) simp_all
  then have ys: "365 * year_of doe + year_of doe div 4 - year_of doe div 100 = year_start (year_of doe)" by (simp add: year_start_def)
  show ?thesis unfolding civil_from_days_def civil_def month_day_def Let_def prod.case
    using assms(1) by (simp only: if_True assms(2) [symmetric] doe year_of_def [symmetric] ys prod.case mult.commute [of 400])
qed

lemma civil_next:
  assumes "0 \<le> y" "y \<le> 399" "0 \<le> doy" "doy < year_start (y + 1) - year_start y"
  shows "next_day (civil e y doy) = (if doy + 1 < year_start (y + 1) - year_start y then civil e y (doy + 1) else civil e (y + 1) 0)"
proof -
  have len: "year_start (y + 1) - year_start y = (if leap (y + 1) then 366 else 365)" using leap_years assms(1,2) by (simp add: list_all_iff)
  have lp: "leap (y + 400 * e + 1) = leap (y + 1)" using leap_era [of "y + 1" e] by (simp add: ac_simps)
  have "doy \<le> 363 \<or> doy = 364 \<or> doy = 365 \<and> leap (y + 1)" using assms(3,4) unfolding len by (cases "leap (y + 1)") auto
  then consider "doy \<le> 363" | "doy = 364" | "doy = 365" "leap (y + 1)" by blast
  then show ?thesis
  proof cases
    case 1
    obtain m d where md: "month_day doy = (m, d)" by fastforce
    have in_range: "doy \<in> set [0..363]" using 1 assms(3) by simp
    have t: "month_day (doy + 1) = (if d < month_days 1 m then (m, d + 1) else if m < 12 then (m + 1, 1) else (1, 1))"
      using month_day_table [unfolded list_all_iff, THEN bspec, OF in_range] by (simp add: md Let_def)
    have feb: "m = 2 \<longrightarrow> d < 28" using february_table [unfolded list_all_iff, THEN bspec, OF in_range] by (simp add: md)
    have mde: "d < month_days Y m \<longleftrightarrow> d < month_days 1 m" and nf: "\<not> d < month_days 1 m \<Longrightarrow> m \<noteq> 2" for Y
      using feb by (auto simp: month_days_def leap_def)
    have "doy + 1 < year_start (y + 1) - year_start y" using 1 unfolding len by simp
    then show ?thesis using nf mde [of "y + 400 * e"] mde [of "y + 400 * e + 1"]
      by (cases "d < month_days 1 m"; cases "m \<le> 2") (auto simp: civil_def md t next_day_def)
  next
    case 2
    then show ?thesis unfolding len using lp by (auto simp: civil_def month_day_ends next_day_def month_days_def)
  next
    case 3
    then show ?thesis unfolding len using lp by (auto simp: civil_def month_day_ends next_day_def month_days_def)
  qed
qed

lemma div_mod_next:
  fixes z K :: int
  assumes "0 < K"
  shows "z mod K + 1 < K \<Longrightarrow> (z + 1) div K = z div K \<and> (z + 1) mod K = z mod K + 1"
    and "z mod K + 1 = K \<Longrightarrow> (z + 1) div K = z div K + 1 \<and> (z + 1) mod K = 0"
proof -
  have z: "z = K * (z div K) + z mod K" by simp
  have "0 \<le> z mod K" using assms by simp
  then show "z mod K + 1 < K \<Longrightarrow> (z + 1) div K = z div K \<and> (z + 1) mod K = z mod K + 1"
    using int_div_pos_eq [of "z + 1" K "z div K" "z mod K + 1"] int_mod_pos_eq [of "z + 1" K "z div K" "z mod K + 1"] z by simp
  assume e: "z mod K + 1 = K"
  have "K * (z div K + 1) + 0 = K * (z div K) + K" by (simp add: distrib_left)
  then have "z + 1 = K * (z div K + 1) + 0" using z e by linarith
  from int_div_pos_eq [OF this] int_mod_pos_eq [OF this] assms show "(z + 1) div K = z div K + 1 \<and> (z + 1) mod K = 0" by simp
qed

lemma civil_from_days_next:
  assumes "0 \<le> days + 719468"
  shows "civil_from_days (days + 1) = next_day (civil_from_days days)"
proof -
  let ?z = "days + 719468"
  define e where "e = ?z div 146097"
  define doe where "doe = ?z mod 146097"
  let ?y = "year_of doe"
  have c: "civil_from_days days = civil e ?y (doe - year_start ?y)" using assms by (rule civil_from_days_eq) (simp_all add: e_def doe_def)
  have d: "0 \<le> doe" "doe < 146097" by (simp_all add: doe_def)
  note r = year_of_range [OF d]
  have n: "next_day (civil e ?y (doe - year_start ?y)) =
      (if doe + 1 < year_start (?y + 1) then civil e ?y (doe + 1 - year_start ?y) else civil e (?y + 1) 0)"
    using civil_next [of ?y "doe - year_start ?y" e] r by (simp add: algebra_simps)
  have z1: "days + 1 + 719468 = ?z + 1" by simp
  show ?thesis
  proof (cases "doe + 1 < 146097")
    case True
    then have s: "civil_from_days (days + 1) = civil e (year_of (doe + 1)) (doe + 1 - year_start (year_of (doe + 1)))"
      using div_mod_next(1) [of 146097 ?z] assms unfolding e_def doe_def by (intro civil_from_days_eq) (simp_all add: z1)
    show ?thesis
    proof (cases "doe + 1 < year_start (?y + 1)")
      case lt: True
      have "year_of (doe + 1) = ?y" using r lt by (intro year_of_eq) simp_all
      then show ?thesis using s c n lt by simp
    next
      case False
      then have e1: "doe + 1 = year_start (?y + 1)" using r by simp
      have "?y \<noteq> 399" using e1 True by (auto simp: year_start_def)
      then have "year_of (doe + 1) = ?y + 1" using year_of_bounds [of "?y + 1"] r e1 by simp
      then show ?thesis using s c n e1 by simp
    qed
  next
    case False
    then have last: "doe = 146096" using d by simp
    then have y: "?y = 399" by (simp add: year_of_def)
    have "civil_from_days (days + 1) = civil (e + 1) (year_of 0) (0 - year_start (year_of 0))"
      using div_mod_next(2) [of 146097 ?z] last assms unfolding e_def doe_def by (intro civil_from_days_eq) (simp_all add: z1)
    moreover have "year_of 0 = 0" "year_start 0 = 0" "year_start 400 = 146097" by (simp_all add: year_of_def year_start_def)
    ultimately show ?thesis using c n last y by (simp add: civil_def split_beta)
  qed
qed

text \<open>C28. The time stamps of the recordings are calendar dates: for every day since 1970 the arithmetic of the recorder gives the date
  that counting the days through the Gregorian calendar, leap years included, arrives at.\<close>

theorem civil_from_days_calendar: "civil_from_days (int n) = calendar n"
proof (induction n)
  case 0
  show ?case by code_simp
next
  case (Suc n)
  then show ?case using civil_from_days_next [of "int n"] by (simp add: add.commute)
qed

section \<open>The recorder\<close>

record 'f stream_dimensions =
  sd_width :: u32
  sd_height :: u32
  sd_fps :: 'f

record ('m, 'f) recorder_env =
  rv_create :: "bytes \<Rightarrow> u32 \<Rightarrow> u32 \<Rightarrow> 'f \<Rightarrow> 'm result"
  rv_write :: "'m \<Rightarrow> 'f \<Rightarrow> bytes \<Rightarrow> bool \<Rightarrow> unit result \<times> 'm"
  rv_secs :: "u64 \<Rightarrow> 'f"
  rv_sub :: "'f \<Rightarrow> 'f \<Rightarrow> 'f"
  rv_max :: "'f \<Rightarrow> 'f \<Rightarrow> 'f"
  rv_zero :: 'f
  rv_default_fps :: 'f

text \<open>What a call sees: the wall clock in seconds, the monotonic clock in nanoseconds, the files of the directory with modification
  time and size, and which of them can be removed.\<close>

record call =
  cl_now_secs :: nat
  cl_instant :: nat
  cl_listing :: "(bytes \<times> nat \<times> u64) list result"
  cl_removable :: "bytes \<Rightarrow> bool"

datatype 'f file_event = Opened bytes | Wrote 'f bytes bool | Finished | Removed bytes

record 'm active_segment =
  as_muxer :: 'm
  as_created_at :: nat

record ('m, 'f) file_output =
  fo_path :: bytes
  fo_camera_id :: bytes
  fo_segment_duration_secs :: nat
  fo_max_capacity_mb :: u64
  fo_width :: u32
  fo_height :: u32
  fo_fps :: 'f
  fo_dimensions :: "'f stream_dimensions option option"
  fo_active :: "'m active_segment option"
  fo_segment_start_pts :: 'f
  fo_started :: bool
  fo_pause_flag :: "bool option"
  fo_was_paused :: bool
  fo_frame_count :: u64
  fo_segment_slot :: "(bytes \<times> nat) option option"

definition file_output_new :: "('m, 'f) recorder_env \<Rightarrow> bytes \<Rightarrow> bytes \<Rightarrow> nat \<Rightarrow> u64 \<Rightarrow> ('m, 'f) file_output" where
  "file_output_new env path camera_id segment_duration_secs max_capacity_mb =
     \<lparr>fo_path = path, fo_camera_id = camera_id, fo_segment_duration_secs = segment_duration_secs, fo_max_capacity_mb = max_capacity_mb,
      fo_width = 1280, fo_height = 720, fo_fps = rv_default_fps env, fo_dimensions = None, fo_active = None, fo_segment_start_pts = rv_zero env,
      fo_started = False, fo_pause_flag = None, fo_was_paused = False, fo_frame_count = 0, fo_segment_slot = None\<rparr>"

definition with_segment_slot :: "(bytes \<times> nat) option \<Rightarrow> ('m, 'f) file_output \<Rightarrow> ('m, 'f) file_output" where
  "with_segment_slot slot out = out\<lparr>fo_segment_slot := Some slot\<rparr>"

definition with_pause_flag :: "bool \<Rightarrow> ('m, 'f) file_output \<Rightarrow> ('m, 'f) file_output" where
  "with_pause_flag flag out = out\<lparr>fo_pause_flag := Some flag\<rparr>"

definition with_dimensions :: "u32 \<Rightarrow> u32 \<Rightarrow> 'f \<Rightarrow> ('m, 'f) file_output \<Rightarrow> ('m, 'f) file_output" where
  "with_dimensions width height fps out = out\<lparr>fo_width := width, fo_height := height, fo_fps := fps\<rparr>"

definition with_dimensions_handle :: "'f stream_dimensions option \<Rightarrow> ('m, 'f) file_output \<Rightarrow> ('m, 'f) file_output" where
  "with_dimensions_handle handle out = out\<lparr>fo_dimensions := Some handle\<rparr>"

text \<open>The loop that deletes the oldest files until the rest fits.\<close>

fun prune_loop :: "(bytes \<Rightarrow> bool) \<Rightarrow> u64 \<Rightarrow> (bytes \<times> nat \<times> u64) list \<Rightarrow> u64 \<Rightarrow> bytes list \<times> u64" where
  "prune_loop removable max_bytes [] remaining = ([], remaining)"
| "prune_loop removable max_bytes ((path, mtime, len) # entries) remaining =
     (if remaining \<le> max_bytes then ([], remaining)
      else if removable path
      then (let (removed, remaining') = prune_loop removable max_bytes entries (remaining - len) in (path # removed, remaining'))
      else prune_loop removable max_bytes entries remaining)"

definition prune_oldest_if_needed :: "call \<Rightarrow> u64 \<Rightarrow> bool result \<times> bytes list" where
  "prune_oldest_if_needed cl max_capacity_mb =
     (if max_capacity_mb = 0 then (Inr False, [])
      else
        let max_bytes = max_capacity_mb * 1024 * 1024
        in case cl_listing cl of
             Inl e \<Rightarrow> (Inl e, [])
           | Inr files \<Rightarrow>
               let entries = filter (\<lambda>(path, _). ends_with (ascii ''.mp4'') path) files;
                   total = sum_list (map (\<lambda>(_, _, s). s) entries)
               in if total \<le> max_bytes then (Inr False, [])
                  else
                    let entries = sort_key (\<lambda>(_, mtime, _). mtime) entries;
                        (removed, remaining) = prune_loop (cl_removable cl) max_bytes entries total
                    in (Inr (remaining < total), removed))"

definition close_current_segment :: "('m, 'f) file_output \<Rightarrow> 'f file_event list \<times> ('m, 'f) file_output" where
  "close_current_segment out = ((case fo_active out of Some _ \<Rightarrow> [Finished] | None \<Rightarrow> []), out\<lparr>fo_active := None\<rparr>)"

definition segment_name :: "nat \<Rightarrow> ('m, 'f) file_output \<Rightarrow> bytes" where
  "segment_name now out = fo_path out @ ascii ''/'' @ fo_camera_id out @ ascii ''_'' @ format_local_timestamp now @ ascii ''.mp4''"

definition take_dimensions :: "('m, 'f) file_output \<Rightarrow> ('m, 'f) file_output" where
  "take_dimensions out =
     (case fo_dimensions out of
        Some (Some d) \<Rightarrow> out\<lparr>fo_width := sd_width d, fo_height := sd_height d, fo_fps := sd_fps d\<rparr>
      | _ \<Rightarrow> out)"

definition publish_segment :: "bytes \<Rightarrow> nat \<Rightarrow> ('m, 'f) file_output \<Rightarrow> ('m, 'f) file_output" where
  "publish_segment filename now out =
     (case fo_segment_slot out of Some _ \<Rightarrow> out\<lparr>fo_segment_slot := Some (Some (filename, now * 1000))\<rparr> | None \<Rightarrow> out)"

definition open_new_segment :: "('m, 'f) recorder_env \<Rightarrow> call \<Rightarrow> ('m, 'f) file_output \<Rightarrow> unit result \<times> 'f file_event list \<times> ('m, 'f) file_output" where
  "open_new_segment env cl out =
     (let (evs, out) = close_current_segment out;
          out = take_dimensions out;
          now = cl_now_secs cl;
          filename = segment_name now out;
          out = publish_segment filename now out
      in case rv_create env filename (fo_width out) (fo_height out) (fo_fps out) of
           Inl e \<Rightarrow> (Inl e, evs, out)
         | Inr muxer \<Rightarrow> (Inr (), evs @ [Opened filename], out\<lparr>fo_active := Some \<lparr>as_muxer = muxer, as_created_at = cl_instant cl\<rparr>\<rparr>))"

datatype pause_action = Pass | CloseAndHold

definition pause_transition :: "('m, 'f) file_output \<Rightarrow> pause_action \<times> ('m, 'f) file_output" where
  "pause_transition out =
     (let paused = (fo_pause_flag out = Some True)
      in if paused then (CloseAndHold, if fo_was_paused out then out else out\<lparr>fo_was_paused := True\<rparr>)
         else (Pass, out\<lparr>fo_was_paused := False\<rparr>))"

definition file_start :: "unit result \<Rightarrow> ('m, 'f) file_output \<Rightarrow> unit result \<times> ('m, 'f) file_output" where
  "file_start create_dir_all out = (case create_dir_all of Inl e \<Rightarrow> (Inl e, out) | Inr _ \<Rightarrow> (Inr (), out\<lparr>fo_started := True\<rparr>))"

definition needs_rotation :: "call \<Rightarrow> ('m, 'f) file_output \<Rightarrow> bool" where
  "needs_rotation cl out = (case fo_active out of Some a \<Rightarrow> fo_segment_duration_secs out \<le> (cl_instant cl - as_created_at a) div 10 ^ 9 | None \<Rightarrow> True)"

definition rotate_segment :: "('m, 'f) recorder_env \<Rightarrow> call \<Rightarrow> bool \<Rightarrow> u64 \<Rightarrow> ('m, 'f) file_output \<Rightarrow> 'f file_event list \<times> ('m, 'f) file_output" where
  "rotate_segment env cl keyframe timestamp out =
     (if needs_rotation cl out \<and> (keyframe \<or> fo_active out = None)
      then (let (_, evs, out) = open_new_segment env cl out in (evs, out\<lparr>fo_segment_start_pts := rv_secs env timestamp\<rparr>))
      else ([], out))"

definition file_send_frame ::
  "('m, 'f) recorder_env \<Rightarrow> call \<Rightarrow> media_frame \<Rightarrow> ('m, 'f) file_output \<Rightarrow> unit result \<times> 'f file_event list \<times> ('m, 'f) file_output" where
  "file_send_frame env cl frame out =
     (case frame of
        AudioFrame data timestamp \<Rightarrow> (Inr (), [], out)
      | VideoFrame keyframe data timestamp \<Rightarrow>
          (case pause_transition out of
             (CloseAndHold, out) \<Rightarrow> (let (evs, out) = close_current_segment out in (Inr (), evs, out))
           | (Pass, out) \<Rightarrow>
               if \<not> fo_started out then (Inl (Bail ''FileOutput not started''), [], out)
               else
                 let (evs, out) = rotate_segment env cl keyframe timestamp out
                 in case fo_active out of
                      None \<Rightarrow> (Inl (Bail ''no active MP4 segment''), evs, out)
                    | Some active \<Rightarrow>
                        let annex_b = [0, 0, 0, 1] @ data;
                            pts_secs = rv_max env (rv_sub env (rv_secs env timestamp) (fo_segment_start_pts out)) (rv_zero env)
                        in case rv_write env (as_muxer active) pts_secs annex_b keyframe of
                             (Inl e, muxer) \<Rightarrow> (Inl e, evs, out\<lparr>fo_active := Some (active\<lparr>as_muxer := muxer\<rparr>)\<rparr>)
                           | (Inr _, muxer) \<Rightarrow>
                               let out = out\<lparr>fo_active := Some (active\<lparr>as_muxer := muxer\<rparr>), fo_frame_count := fo_frame_count out + 1\<rparr>;
                                   removed = (if fo_frame_count out mod 1000 = 0 then snd (prune_oldest_if_needed cl (fo_max_capacity_mb out)) else [])
                               in (Inr (), evs @ [Wrote pts_secs annex_b keyframe] @ map Removed removed, out)))"

definition file_stop :: "('m, 'f) file_output \<Rightarrow> 'f file_event list \<times> ('m, 'f) file_output" where
  "file_stop out = (let (evs, out) = close_current_segment out in (evs, out\<lparr>fo_started := False\<rparr>))"

section \<open>Recordings are complete\<close>

text \<open>A run of the recorder: every frame comes with what the call sees and the value of the pause flag, if one is shared.\<close>

fun rec_run :: "('m, 'f) recorder_env \<Rightarrow> (call \<times> bool option \<times> media_frame) list \<Rightarrow> ('m, 'f) file_output \<Rightarrow> 'f file_event list \<times> ('m, 'f) file_output" where
  "rec_run env [] out = ([], out)"
| "rec_run env ((cl, flag, frame) # xs) out =
     (let (_, evs, out) = file_send_frame env cl frame (out\<lparr>fo_pause_flag := flag\<rparr>); (evs', out) = rec_run env xs out in (evs @ evs', out))"

text \<open>The frames that should be on disk, in Annex B form.\<close>

fun recorded :: "(call \<times> bool option \<times> media_frame) list \<Rightarrow> (bytes \<times> bool) list" where
  "recorded [] = []"
| "recorded ((cl, flag, frame) # xs) =
     (case frame of VideoFrame k d t \<Rightarrow> if flag = Some True then [] else [([0, 0, 0, 1] @ d, k)] | AudioFrame d t \<Rightarrow> []) @ recorded xs"

text \<open>The directory: creating a file truncates one of the same name.\<close>

fun disk_run :: "'f file_event list \<Rightarrow> bytes option \<times> (bytes \<rightharpoonup> (bytes \<times> bool) list) \<Rightarrow> bytes option \<times> (bytes \<rightharpoonup> (bytes \<times> bool) list)" where
  "disk_run [] st = st"
| "disk_run (Opened n # evs) (cur, disk) = disk_run evs (Some n, disk(n \<mapsto> []))"
| "disk_run (Wrote p b k # evs) (cur, disk) =
     disk_run evs (cur, case cur of Some n \<Rightarrow> disk(n := map_option (\<lambda>c. c @ [(b, k)]) (disk n)) | None \<Rightarrow> disk)"
| "disk_run (Finished # evs) (cur, disk) = disk_run evs (None, disk)"
| "disk_run (Removed n # evs) (cur, disk) = disk_run evs (cur, disk(n := None))"

fun opened :: "'f file_event list \<Rightarrow> bytes list" where
  "opened [] = []"
| "opened (Opened n # evs) = n # opened evs"
| "opened (Wrote p b k # evs) = opened evs"
| "opened (Finished # evs) = opened evs"
| "opened (Removed n # evs) = opened evs"

lemma disk_run_append: "disk_run (xs @ ys) st = disk_run ys (disk_run xs st)"
  by (induction xs st rule: disk_run.induct) simp_all

lemma opened_append: "opened (xs @ ys) = opened xs @ opened ys"
  by (induction xs rule: opened.induct) simp_all

text \<open>One call, with a muxer that works and no capacity limit: what it does to the files.\<close>

definition muxer_works :: "('m, 'f) recorder_env \<Rightarrow> bool" where
  "muxer_works env \<longleftrightarrow> (\<forall>n w h f. \<not> isl (rv_create env n w h f)) \<and> (\<forall>m p b k. \<not> isl (fst (rv_write env m p b k)))"

lemma needs_rotation_paused [simp]: "needs_rotation cl (out\<lparr>fo_was_paused := b\<rparr>) = needs_rotation cl out"
  by (simp add: needs_rotation_def split: option.split)

lemma segment_name_fields [simp]:
  "segment_name n (out\<lparr>fo_was_paused := b\<rparr>) = segment_name n out" "segment_name n (out\<lparr>fo_active := x\<rparr>) = segment_name n out"
  "segment_name n (take_dimensions out) = segment_name n out"
  by (simp_all add: segment_name_def take_dimensions_def split: option.split)

lemma open_fields [simp]:
  "fo_started (take_dimensions out) = fo_started out" "fo_max_capacity_mb (take_dimensions out) = fo_max_capacity_mb out"
  "fo_started (publish_segment f n out) = fo_started out" "fo_max_capacity_mb (publish_segment f n out) = fo_max_capacity_mb out"
  by (simp_all add: take_dimensions_def publish_segment_def split: option.split)

lemma open_new_segment_works:
  assumes "muxer_works env"
  shows "\<exists>m out'. open_new_segment env cl out = (Inr (), (if fo_active out = None then [] else [Finished]) @ [Opened (segment_name (cl_now_secs cl) out)], out')
    \<and> fo_active out' = Some \<lparr>as_muxer = m, as_created_at = cl_instant cl\<rparr> \<and> fo_started out' = fo_started out \<and> fo_max_capacity_mb out' = fo_max_capacity_mb out"
proof -
  define n where "n = segment_name (cl_now_secs cl) out"
  define o2 where "o2 = publish_segment n (cl_now_secs cl) (take_dimensions (out\<lparr>fo_active := None\<rparr>))"
  have f: "fo_started o2 = fo_started out" "fo_max_capacity_mb o2 = fo_max_capacity_mb out" by (simp_all add: o2_def)
  obtain m where m: "rv_create env n (fo_width o2) (fo_height o2) (fo_fps o2) = Inr m"
    using assms unfolding muxer_works_def isl_def by (metis sum.exhaust)
  have e: "(case fo_active out of None \<Rightarrow> [] | Some _ \<Rightarrow> [Finished]) = (if fo_active out = None then [] else [Finished])" by (cases "fo_active out") simp_all
  have "open_new_segment env cl out = (Inr (), (if fo_active out = None then [] else [Finished]) @ [Opened n], o2\<lparr>fo_active := Some \<lparr>as_muxer = m, as_created_at = cl_instant cl\<rparr>\<rparr>)"
    unfolding open_new_segment_def close_current_segment_def Let_def prod.case segment_name_fields n_def [symmetric] o2_def [symmetric] m e sum.case ..
  then show ?thesis using f unfolding n_def by simp
qed

lemma rotate_works:
  assumes "muxer_works env"
  shows "\<exists>out' a. rotate_segment env cl k t out =
      (if fo_active out = None then [Opened (segment_name (cl_now_secs cl) out)]
       else if k \<and> needs_rotation cl out then [Finished, Opened (segment_name (cl_now_secs cl) out)] else [], out')
    \<and> fo_active out' = Some a \<and> fo_started out' = fo_started out \<and> fo_max_capacity_mb out' = fo_max_capacity_mb out"
proof (cases "needs_rotation cl out \<and> (k \<or> fo_active out = None)")
  case True
  then show ?thesis using open_new_segment_works [OF assms, of cl out] by (auto simp: rotate_segment_def)
next
  case False
  then have "fo_active out \<noteq> None" by (auto simp: needs_rotation_def split: option.splits)
  then show ?thesis using False by (auto simp: rotate_segment_def)
qed

lemma send_frame_events:
  assumes "muxer_works env" "fo_started out" "fo_max_capacity_mb out = 0" "file_send_frame env cl frame out = (r, evs, out')"
  shows "fo_started out' \<and> fo_max_capacity_mb out' = 0 \<and>
    (case frame of
       AudioFrame d t \<Rightarrow> evs = [] \<and> fo_active out' = fo_active out
     | VideoFrame k d t \<Rightarrow>
         if fo_pause_flag out = Some True then evs = (if fo_active out = None then [] else [Finished]) \<and> fo_active out' = None
         else (\<exists>p. evs = (if fo_active out = None then [Opened (segment_name (cl_now_secs cl) out)]
               else if k \<and> needs_rotation cl out then [Finished, Opened (segment_name (cl_now_secs cl) out)] else []) @ [Wrote p ([0, 0, 0, 1] @ d) k])
           \<and> fo_active out' \<noteq> None)"
proof (cases frame)
  case (AudioFrame d t)
  then show ?thesis using assms by (simp add: file_send_frame_def)
next
  case (VideoFrame k d t)
  show ?thesis
  proof (cases "fo_pause_flag out = Some True")
    case True
    then show ?thesis using assms by (cases "fo_was_paused out") (auto simp: VideoFrame file_send_frame_def pause_transition_def close_current_segment_def Let_def split: option.splits)
  next
    case False
    let ?o = "out\<lparr>fo_was_paused := False\<rparr>"
    obtain o1 a where r: "rotate_segment env cl k t ?o =
        (if fo_active out = None then [Opened (segment_name (cl_now_secs cl) out)]
         else if k \<and> needs_rotation cl out then [Finished, Opened (segment_name (cl_now_secs cl) out)] else [], o1)"
      "fo_active o1 = Some a" "fo_started o1" "fo_max_capacity_mb o1 = 0"
      using rotate_works [OF assms(1), of cl k t ?o] assms(2,3) by auto
    define p where "p = rv_max env (rv_sub env (rv_secs env t) (fo_segment_start_pts o1)) (rv_zero env)"
    obtain m where w: "rv_write env (as_muxer a) p ([0, 0, 0, 1] @ d) k = (Inr (), m)"
    proof -
      obtain r m where rm: "rv_write env (as_muxer a) p ([0, 0, 0, 1] @ d) k = (r, m)" by fastforce
      have "\<not> isl (fst (rv_write env (as_muxer a) p ([0, 0, 0, 1] @ d) k))" using assms(1) unfolding muxer_works_def by blast
      then show ?thesis using rm that by (cases r) auto
    qed
    have "file_send_frame env cl (VideoFrame k d t) out =
        (Inr (), fst (rotate_segment env cl k t ?o) @ [Wrote p ([0, 0, 0, 1] @ d) k], o1\<lparr>fo_active := Some (a\<lparr>as_muxer := m\<rparr>), fo_frame_count := fo_frame_count o1 + 1\<rparr>)"
      using False assms(2) r w unfolding p_def by (simp add: file_send_frame_def pause_transition_def prune_oldest_if_needed_def Let_def)
    then show ?thesis using assms(4) False r by (auto simp: VideoFrame)
  qed
qed

text \<open>The files \<open>ns\<close> in the order of their creation hold the frames \<open>fs\<close>; the one being written is the last.\<close>

definition on_disk :: "bytes list \<Rightarrow> bytes option \<times> (bytes \<rightharpoonup> (bytes \<times> bool) list) \<Rightarrow> (bytes \<times> bool) list \<Rightarrow> bool" where
  "on_disk ns st fs \<longleftrightarrow> (\<forall>n \<in> set ns. snd st n \<noteq> None) \<and> (\<forall>n. fst st = Some n \<longrightarrow> ns \<noteq> [] \<and> n = last ns)
     \<and> concat (map (\<lambda>n. the (snd st n)) ns) = fs"

lemma concat_map_upd: "n \<notin> set ns \<Longrightarrow> concat (map (\<lambda>k. the ((disk(n := v)) k)) ns) = concat (map (\<lambda>k. the (disk k)) ns)"
  by (rule arg_cong [where f = concat], rule map_cong) auto

lemma on_disk_open: "on_disk ns (cur, disk) fs \<Longrightarrow> n \<notin> set ns \<Longrightarrow> on_disk (ns @ [n]) (Some n, disk(n \<mapsto> [])) fs"
  unfolding on_disk_def snd_conv map_append concat_append by (simp add: concat_map_upd del: fun_upd_apply) simp

lemma on_disk_write:
  assumes "on_disk ns (Some n, disk) fs" "distinct ns"
  shows "on_disk ns (Some n, disk(n := map_option (\<lambda>c. c @ [x]) (disk n))) (fs @ [x])"
proof -
  obtain ms where ns: "ns = ms @ [n]" using assms(1) by (auto simp: on_disk_def) (metis append_butlast_last_id)
  then have "n \<notin> set ms" using assms(2) by simp
  obtain c where c: "disk n = Some c" using assms(1) by (auto simp: on_disk_def ns)
  show ?thesis using assms(1) unfolding on_disk_def snd_conv fst_conv ns map_append concat_append concat_map_upd [OF \<open>n \<notin> set ms\<close>] by (auto simp: c)
qed

lemma on_disk_close: "on_disk ns (cur, disk) fs \<Longrightarrow> on_disk ns (None, disk) fs"
  by (simp add: on_disk_def)

lemma send_frame_on_disk:
  assumes "muxer_works env" "fo_started out" "fo_max_capacity_mb out = 0" "file_send_frame env cl frame out = (r, evs, out')"
    and "on_disk ns (cur, disk) fs" "fo_active out = None \<longleftrightarrow> cur = None" "distinct (ns @ opened evs)"
  shows "\<exists>cur' disk'. disk_run evs (cur, disk) = (cur', disk') \<and> on_disk (ns @ opened evs) (cur', disk') (fs @ recorded [(cl, fo_pause_flag out, frame)])
    \<and> (fo_active out' = None \<longleftrightarrow> cur' = None) \<and> fo_started out' \<and> fo_max_capacity_mb out' = 0"
proof (cases frame)
  case (AudioFrame d t)
  then show ?thesis using send_frame_events [OF assms(1-4)] assms(5,6) by simp
next
  case (VideoFrame k d t)
  note ev = send_frame_events [OF assms(1-4)]
  show ?thesis
  proof (cases "fo_pause_flag out = Some True")
    case True
    then show ?thesis using ev assms(5,6) by (auto simp: VideoFrame on_disk_close)
  next
    case False
    let ?n = "segment_name (cl_now_secs cl) out" and ?x = "([0, 0, 0, 1] @ d, k)"
    obtain p where e: "evs = (if fo_active out = None then [Opened ?n] else if k \<and> needs_rotation cl out then [Finished, Opened ?n] else []) @ [Wrote p ([0, 0, 0, 1] @ d) k]"
      "fo_active out' \<noteq> None" "fo_started out'" "fo_max_capacity_mb out' = 0" using ev False by (auto simp: VideoFrame)
    show ?thesis
    proof (cases "fo_active out = None \<or> k \<and> needs_rotation cl out")
      case True
      then have o: "opened evs = [?n]" "disk_run evs (cur, disk) = (Some ?n, (disk(?n \<mapsto> []))(?n := map_option (\<lambda>c. c @ [?x]) ((disk(?n \<mapsto> [])) ?n)))"
        unfolding e(1) by auto
      have "on_disk (ns @ [?n]) (Some ?n, disk(?n \<mapsto> [])) fs" using assms(5,7) by (intro on_disk_open) (simp_all add: o(1))
      from on_disk_write [OF this, of ?x] assms(7) show ?thesis using e(2-4) False unfolding o by (simp add: VideoFrame)
    next
      case no: False
      then obtain n where c: "cur = Some n" using assms(6) by auto
      have o: "opened evs = []" "disk_run evs (cur, disk) = (Some n, disk(n := map_option (\<lambda>c. c @ [?x]) (disk n)))" using no unfolding e(1) c by auto
      show ?thesis using on_disk_write [of ns n disk fs ?x] assms(5,7) e(2-4) False unfolding c o(1) o(2) [unfolded c] by (simp add: VideoFrame)
    qed
  qed
qed

lemma rec_run_on_disk:
  assumes "muxer_works env" "fo_started out" "fo_max_capacity_mb out = 0" "rec_run env xs out = (evs, out')"
    and "on_disk ns (cur, disk) fs" "fo_active out = None \<longleftrightarrow> cur = None" "distinct (ns @ opened evs)"
  shows "on_disk (ns @ opened evs) (disk_run evs (cur, disk)) (fs @ recorded xs)"
  using assms(2-7)
proof (induction xs arbitrary: out evs ns cur disk fs)
  case (Cons x xs)
  obtain cl flag frame where x: "x = (cl, flag, frame)" by (metis surj_pair)
  obtain r ev1 o1 where s: "file_send_frame env cl frame (out\<lparr>fo_pause_flag := flag\<rparr>) = (r, ev1, o1)" by (metis surj_pair)
  obtain ev2 where r: "rec_run env xs o1 = (ev2, out')" "evs = ev1 @ ev2" using Cons.prems(3) by (auto simp: x s split: prod.splits)
  have dist: "distinct (ns @ opened ev1)" "distinct ((ns @ opened ev1) @ opened ev2)" using Cons.prems(6) by (auto simp: r opened_append)
  obtain cur' disk' where d: "disk_run ev1 (cur, disk) = (cur', disk')" "on_disk (ns @ opened ev1) (cur', disk') (fs @ recorded [(cl, flag, frame)])"
    "fo_active o1 = None \<longleftrightarrow> cur' = None" "fo_started o1" "fo_max_capacity_mb o1 = 0"
    using send_frame_on_disk [OF assms(1) _ _ s Cons.prems(4) _ dist(1)] Cons.prems(1,2,5) by auto
  from Cons.IH [OF d(4,5) r(1) d(2,3) dist(2)] show ?case by (simp add: r opened_append disk_run_append d(1) x)
qed simp


definition demo_muxer :: "(unit, int) recorder_env" where
  "demo_muxer = \<lparr>rv_create = \<lambda>_ _ _ _. Inr (), rv_write = \<lambda>m _ _ _. (Inr (), m), rv_secs = \<lambda>t. uint t, rv_sub = (-), rv_max = max, rv_zero = 0, rv_default_fps = 30\<rparr>"

definition demo_call :: "nat \<Rightarrow> call" where
  "demo_call t = \<lparr>cl_now_secs = t, cl_instant = t * 10 ^ 9, cl_listing = Inr [], cl_removable = \<lambda>_. True\<rparr>"

definition demo_recorder :: "(unit, int) file_output" where
  "demo_recorder = (file_output_new demo_muxer [114] [99] 60 0)\<lparr>fo_started := True\<rparr>"

definition demo_recording :: "(call \<times> bool option \<times> media_frame) list" where
  "demo_recording = [(demo_call 5, None, VideoFrame True [0x65] 0), (demo_call 6, None, VideoFrame False [0x41] 33), (demo_call 7, Some True, VideoFrame False [0x41] 66)]"

lemma demo_muxer_works: "muxer_works demo_muxer"
  by (simp add: muxer_works_def demo_muxer_def)

lemma demo_events:
  "fst (rec_run demo_muxer demo_recording demo_recorder) =
   [Opened (segment_name 5 demo_recorder), Wrote 0 [0, 0, 0, 1, 0x65] True, Wrote 33 [0, 0, 0, 1, 0x41] False, Finished]"
  by (simp add: demo_recording_def demo_call_def demo_recorder_def demo_muxer_def file_output_new_def file_send_frame_def pause_transition_def rotate_segment_def
      needs_rotation_def open_new_segment_def close_current_segment_def take_dimensions_def publish_segment_def segment_name_def prune_oldest_if_needed_def Let_def)


section \<open>Segments\<close>

text \<open>A segment is replaced only at a key frame, and no key frame is written into a segment that is old enough to be replaced.\<close>

lemma rotation_at_key_frame:
  assumes "muxer_works env" "fo_started out" "fo_max_capacity_mb out = 0" "fo_pause_flag out \<noteq> Some True" "fo_active out = Some a"
    and "file_send_frame env cl (VideoFrame k d t) out = (r, evs, out')"
  shows "opened evs \<noteq> [] \<longleftrightarrow> k \<and> fo_segment_duration_secs out \<le> (cl_instant cl - as_created_at a) div 10 ^ 9"
  using send_frame_events [OF assms(1-3,6)] assms(4,5) by (auto simp: needs_rotation_def split: if_splits)

text \<open>When the next segment cannot be created, the current one has been closed already: the frame is refused, though the log says that
  recording continues with the current segment.\<close>

lemma failed_rotation_refuses_frame:
  assumes "fo_started out" "fo_pause_flag out \<noteq> Some True" "fo_active out = Some a" "needs_rotation cl out" "\<forall>n w h f. isl (rv_create env n w h f)"
  shows "\<exists>out'. file_send_frame env cl (VideoFrame True d t) out = (Inl (Bail ''no active MP4 segment''), [Finished], out') \<and> fo_active out' = None"
proof -
  have c: "\<exists>e. rv_create env n w h f = Inl e" for n w h f using assms(5) unfolding isl_def by blast
  define o2 where "o2 = publish_segment (segment_name (cl_now_secs cl) out) (cl_now_secs cl) (take_dimensions (out\<lparr>fo_was_paused := False, fo_active := None\<rparr>))"
  have a: "fo_active o2 = None" by (simp add: o2_def publish_segment_def take_dimensions_def split: option.split)
  obtain e where "rv_create env (segment_name (cl_now_secs cl) out) (fo_width o2) (fo_height o2) (fo_fps o2) = Inl e" using c by blast
  then have "rotate_segment env cl True t (out\<lparr>fo_was_paused := False\<rparr>) = ([Finished], o2\<lparr>fo_segment_start_pts := rv_secs env t\<rparr>)"
    using assms(3,4) by (simp add: rotate_segment_def open_new_segment_def close_current_segment_def Let_def o2_def)
  then show ?thesis using assms(1,2) a by (simp add: file_send_frame_def pause_transition_def Let_def)
qed

text \<open>Two segments opened within a second have one name, and the second overwrites the first.\<close>

lemma same_second_overwrites:
  "snd (disk_run [Opened n, Wrote p b k, Finished, Opened n, Wrote p' b' k'] (None, Map.empty)) n = Some [(b', k')]"
  by simp

text \<open>The first segment, and the first after a pause, starts with whatever frame comes, key frame or not.\<close>

lemma segment_without_key_frame:
  assumes "muxer_works env" "fo_started out" "fo_max_capacity_mb out = 0" "fo_pause_flag out \<noteq> Some True" "fo_active out = None"
    and "file_send_frame env cl (VideoFrame False d t) out = (r, evs, out')"
  shows "\<exists>n p. evs = [Opened n, Wrote p ([0, 0, 0, 1] @ d) False]"
  using send_frame_events [OF assms(1-3,6)] assms(4,5) by auto

section \<open>Pruning\<close>

definition bytes_of :: "(bytes \<times> nat \<times> u64) list \<Rightarrow> nat" where
  "bytes_of es = (\<Sum>(_, _, s) \<leftarrow> es. unat s)"

lemma bytes_of_simps [simp]: "bytes_of [] = 0" "bytes_of ((p, t, s) # es) = unat s + bytes_of es" "bytes_of (xs @ ys) = bytes_of xs + bytes_of ys"
  by (simp_all add: bytes_of_def)

lemma total_bytes: "bytes_of es < 2 ^ 64 \<Longrightarrow> unat (sum_list (map (\<lambda>(_, _, s). s) es)) = bytes_of es"
proof (induction es)
  case (Cons e es)
  obtain p t s where e: "e = (p, t, s)" by (metis surj_pair)
  show ?case using Cons by (simp add: e unat_word_ariths)
qed simp

lemma prune_loop_takes:
  assumes "prune_loop rm mx es remaining = (removed, rest)" "bytes_of es \<le> unat remaining"
  shows "\<exists>k \<le> length (filter (\<lambda>e. rm (fst e)) es). removed = map fst (take k (filter (\<lambda>e. rm (fst e)) es))
    \<and> unat rest = unat remaining - bytes_of (take k (filter (\<lambda>e. rm (fst e)) es))
    \<and> (unat rest \<le> unat mx \<or> k = length (filter (\<lambda>e. rm (fst e)) es))
    \<and> (\<forall>j < k. unat mx < unat remaining - bytes_of (take j (filter (\<lambda>e. rm (fst e)) es)))"
  using assms
proof (induction es arbitrary: remaining removed rest)
  case (Cons e es)
  obtain path t s where e: "e = (path, t, s)" by (metis surj_pair)
  let ?rems = "filter (\<lambda>e. rm (fst e)) es"
  show ?case
  proof (cases "remaining \<le> mx")
    case True
    then have "removed = [] \<and> rest = remaining" using Cons.prems(1) by (simp add: e)
    then show ?thesis using True by (intro exI [of _ 0]) (simp add: word_le_nat_alt)
  next
    case gt: False
    show ?thesis
    proof (cases "rm path")
      case True
      obtain removed' where p: "prune_loop rm mx es (remaining - s) = (removed', rest)" "removed = path # removed'"
        using Cons.prems(1) gt True by (auto simp: e split: prod.splits)
      have s: "unat (remaining - s) = unat remaining - unat s" using Cons.prems(2) by (intro unat_sub) (simp add: e word_le_nat_alt)
      have le: "bytes_of es \<le> unat (remaining - s)" using Cons.prems(2) unfolding s by (simp add: e)
      obtain k where k: "k \<le> length ?rems" "removed' = map fst (take k ?rems)" "unat rest = unat (remaining - s) - bytes_of (take k ?rems)"
        "unat rest \<le> unat mx \<or> k = length ?rems" "\<forall>j < k. unat mx < unat (remaining - s) - bytes_of (take j ?rems)"
        using Cons.IH [OF p(1) le] by blast
      have "unat mx < unat remaining - bytes_of (take j (e # ?rems))" if "j < Suc k" for j
        using that gt k(5) by (cases j) (simp_all add: e s word_le_nat_alt)
      then show ?thesis using k p(2) True by (intro exI [of _ "Suc k"]) (simp add: e s)
    next
      case False
      then show ?thesis using Cons.IH [of remaining removed rest] Cons.prems gt by (simp add: e)
    qed
  qed
qed simp

lemma bytes_of_sort: "bytes_of (sort_key f es) = bytes_of es"
proof -
  have "sum_list (map g (sort_key f es)) = sum_list (map g es)" for g :: "_ \<Rightarrow> nat" by (metis mset_map mset_sort sum_mset_sum_list)
  then show ?thesis unfolding bytes_of_def by blast
qed

definition removable_segments :: "call \<Rightarrow> (bytes \<times> nat \<times> u64) list \<Rightarrow> (bytes \<times> nat \<times> u64) list" where
  "removable_segments cl files = filter (\<lambda>e. cl_removable cl (fst e)) (sort_key (\<lambda>(_, mtime, _). mtime) (filter (\<lambda>(path, _). ends_with (ascii ''.mp4'') path) files))"

text \<open>C27. Pruning removes the oldest segments and no more than needed: of the segment files that can be removed, ordered by age, it
  removes the first \<open>k\<close>, where before each removal the directory was over its limit and afterwards it is within the limit or
  nothing more can be removed.\<close>

theorem pruning_oldest_first:
  assumes "cl_listing cl = Inr files" "tot = bytes_of (filter (\<lambda>(path, _). ends_with (ascii ''.mp4'') path) files)" "tot < 2 ^ 64"
    and "0 < unat mb" "unat mb < 2 ^ 44" "prune_oldest_if_needed cl mb = (r, removed)"
  shows "\<exists>k \<le> length (removable_segments cl files). removed = map fst (take k (removable_segments cl files))
    \<and> (tot - bytes_of (take k (removable_segments cl files)) \<le> unat mb * 2 ^ 20 \<or> k = length (removable_segments cl files))
    \<and> (\<forall>j < k. unat mb * 2 ^ 20 < tot - bytes_of (take j (removable_segments cl files)))"
proof -
  let ?es = "filter (\<lambda>(path, _). ends_with (ascii ''.mp4'') path) files"
  let ?sorted = "sort_key (\<lambda>(_, mtime, _). mtime) ?es"
  let ?total = "sum_list (map (\<lambda>(_, _, s). s) ?es)"
  have t: "unat ?total = tot" using total_bytes [of ?es] assms(2,3) by simp
  have m: "unat (mb * 1024 * 1024) = unat mb * 2 ^ 20" using assms(5) by (simp add: unat_word_ariths)
  have nz: "mb \<noteq> 0" using assms(4) by auto
  show ?thesis
  proof (cases "?total \<le> mb * 1024 * 1024")
    case True
    then have "removed = []" using assms(1,6) nz by (simp add: prune_oldest_if_needed_def Let_def)
    then show ?thesis using True by (intro exI [of _ 0]) (simp only: word_le_nat_alt t m, simp)
  next
    case False
    obtain rest where p: "prune_loop (cl_removable cl) (mb * 1024 * 1024) ?sorted ?total = (removed, rest)"
      using assms(1,6) nz False by (auto simp: prune_oldest_if_needed_def Let_def split: prod.splits)
    have "bytes_of ?sorted \<le> unat ?total" unfolding bytes_of_sort t using assms(2) by simp
    from prune_loop_takes [OF p this] show ?thesis unfolding t m removable_segments_def by metis
  qed
qed

theorem pruning_oldest_first_witness:
  "\<exists>k \<le> length (removable_segments (demo_call 0) [(ascii ''b.mp4'', 2, 700000), (ascii ''a.mp4'', 1, 800000)]).
     snd (prune_oldest_if_needed ((demo_call 0)\<lparr>cl_listing := Inr [(ascii ''b.mp4'', 2, 700000), (ascii ''a.mp4'', 1, 800000)]\<rparr>) 1) =
       map fst (take k (removable_segments (demo_call 0) [(ascii ''b.mp4'', 2, 700000), (ascii ''a.mp4'', 1, 800000)]))"
proof -
  let ?files = "[(ascii ''b.mp4'', 2, 700000), (ascii ''a.mp4'', 1, 800000)] :: (bytes \<times> nat \<times> u64) list"
  let ?cl = "(demo_call 0)\<lparr>cl_listing := Inr ?files\<rparr>"
  have "bytes_of (filter (\<lambda>(path, _). ends_with (ascii ''.mp4'') path) ?files) < 2 ^ 64" by (simp add: ends_with_def ascii_def)
  moreover have "removable_segments ?cl ?files = removable_segments (demo_call 0) ?files" by (simp add: removable_segments_def)
  ultimately show ?thesis using pruning_oldest_first [of ?cl ?files _ 1 "fst (prune_oldest_if_needed ?cl 1)" "snd (prune_oldest_if_needed ?cl 1)"] by auto
qed

end
