(* ===== verification/Spec2Isabelle.thy ===== *)
theory Spec2Isabelle
  imports Rtp H264 Amf0 RtmpChunk RtmpClient RtspAuth RtspFraming RtspServer Rtcp RtspDelivery RateLimit Resource BufferPool
    Sentence ZoneEngine DescGate Elastic LogRing AudioCodec FrameColour GbControl BootGate StreamHub
    Alarms Away WebAuth RtspOutput RtmpOutput Recorder
begin

text \<open>
  Verification of the camera hub \<^verbatim>\<open>mibee-eye-hub\<close> (Rust sources under \<^verbatim>\<open>src/\<close>).

  \<^bold>\<open>The program.\<close> The hub reads cameras, encodes the frames as H.264 and hands the NAL units to a stream hub, which
  broadcasts them to its outputs: an RTSP server, an RTMP push client, a fragmented MP4 stream for browsers, files. Detections
  of the neural networks feed a tracker, zones, alarms and the away mode; a dialogue feeds recognised speech to a language
  model and speaks its answer sentence by sentence. A web server with logins configures all of it. At boot and at run time
  the features are fitted to the memory of the machine.

  \<^bold>\<open>Theories and sources.\<close> Paths are relative to \<^verbatim>\<open>src/\<close>; the order is the one of the data flow.

  \<^item> \<open>Prelude\<close>, \<open>Text\<close>, \<open>HashMap\<close>, \<open>Loops\<close>: machine integers, results (\<open>Inl\<close> an error, a panic being one), string
    operations on UTF-8 bytes, the standard hash map as an association list with unique keys, in-place loops over arrays.
  \<^item> \<open>Convert\<close>, \<open>FrameGeometry\<close>, \<open>FrameColour\<close>: \<^verbatim>\<open>crates/streaming/src/encoder/convert.rs\<close>. Planar frames, flips, rotation,
    downscaling, colour conversion; the loops move every sample to the position its specification names, no index is out
    of range.
  \<^item> \<open>VideoEncoder\<close>: \<^verbatim>\<open>crates/streaming/src/encoder/h264.rs\<close>. Presets and the encode call; its Annex B splitter and the
    one of the protocol crate satisfy the same contract (locale \<open>annexb_splitter\<close>).
  \<^item> \<open>CaptureSource\<close>, \<open>GbControl\<close>: \<^verbatim>\<open>crates/streaming/src/capture_source.rs\<close>, \<^verbatim>\<open>crates/capture/src/video.rs\<close> and
    \<^verbatim>\<open>crates/web/src/gb28181_control.rs\<close>. The frame loop with its queue, and the commands of a supervising platform that
    reach it through shared flags.
  \<^item> \<open>StreamHub\<close>, \<open>Resource\<close>, \<open>BufferPool\<close>: \<^verbatim>\<open>crates/streaming/src/hub.rs\<close>, \<^verbatim>\<open>resource.rs\<close>, \<^verbatim>\<open>buffer.rs\<close>. Registry,
    output and source tasks in every interleaving, memory budgets, the buffer pool.
  \<^item> \<open>RtspOutput\<close>, \<open>RtmpOutput\<close>, \<open>Recorder\<close>: \<^verbatim>\<open>crates/streaming/src/output\<close>. The consumers of a stream: the packets of an
    RTSP stream, the messages pushed to a server, and the segment files of a recording with rotation, pause and pruning, each
    shown to carry every frame.
  \<^item> \<open>H264\<close>, \<open>Rtp\<close>, \<open>Rtcp\<close>, \<open>AudioCodec\<close>: \<^verbatim>\<open>crates/protocols/src/h264.rs\<close>, \<^verbatim>\<open>rtp.rs\<close>, \<^verbatim>\<open>rtcp.rs\<close>, \<^verbatim>\<open>audio_codec.rs\<close>.
    Parsers and serialisers with their round trips.
  \<^item> \<open>RtspAuth\<close>, \<open>RtspFraming\<close>, \<open>RtspServer\<close>, \<open>RtspDelivery\<close>: \<^verbatim>\<open>crates/protocols/src/rtsp_server\<close>. MD5 and digest
    authentication, headers and interleaved frames, the request handlers with the session state machine (relation
    \<open>session_step\<close>), and the delivery loop of a playing client.
  \<^item> \<open>Amf0\<close>, \<open>RtmpChunk\<close>, \<open>RtmpClient\<close>: \<^verbatim>\<open>crates/protocols/src/rtmp\<close>. Values, the chunk stream in both directions, the
    handshake and the push client.
  \<^item> \<open>Fmp4\<close>: \<^verbatim>\<open>crates/streaming/src/fmp4.rs\<close> and \<^verbatim>\<open>crates/web/src/routes/mse.rs\<close>.
  \<^item> \<open>Tracking\<close>, \<open>ZoneEngine\<close>, \<open>Alarms\<close>, \<open>Away\<close>: \<^verbatim>\<open>crates/streaming/src/ai/tracking.rs\<close>, \<^verbatim>\<open>ai/zones.rs\<close>,
    \<^verbatim>\<open>src/runtime/zone_bridge.rs\<close>, \<^verbatim>\<open>crates/web/src/alarm.rs\<close>, \<^verbatim>\<open>audio_ai/state.rs\<close>, \<^verbatim>\<open>crates/web/src/away.rs\<close>. What the
    detections of a history of frames are reported as, told from the history and not from the latches of the code.
  \<^item> \<open>Sentence\<close>, \<open>DescGate\<close>: \<^verbatim>\<open>crates/streaming/src/sentence.rs\<close> with the speaking task of
    \<^verbatim>\<open>src/runtime/voice_bridge.rs\<close>, \<^verbatim>\<open>src/desc_gate.rs\<close>.
  \<^item> \<open>FeatureGate\<close>, \<open>BootGate\<close>, \<open>Elastic\<close>: \<^verbatim>\<open>crates/streaming/src/feature_gate.rs\<close>, \<^verbatim>\<open>src/runtime/forms.rs\<close>,
    \<^verbatim>\<open>src/runtime/full.rs\<close>, \<^verbatim>\<open>src/runtime/elastic.rs\<close>.
  \<^item> \<open>RateLimit\<close>, \<open>AuthStore\<close>, \<open>WebAuth\<close>, \<open>LogRing\<close>: \<^verbatim>\<open>crates/security/src/rate_limit.rs\<close>, \<^verbatim>\<open>auth.rs\<close>, \<^verbatim>\<open>middleware.rs\<close>,
    the handlers of \<^verbatim>\<open>crates/web/src/routes/mod.rs\<close> and the CSRF layer of \<^verbatim>\<open>crates/web/src/server.rs\<close>,
    \<^verbatim>\<open>crates/observability/src/log_ring.rs\<close>.
  \<^item> This theory: the compositions. The frames given to the RTSP output reach a client through packetisation, delivery and
    interleaving, and what a camera encodes reaches the browser.

  \<^bold>\<open>Correspondence.\<close> A struct is a record whose fields carry a short prefix, an enum a datatype, a function of the code a
  definition of the same name; an operation on \<^verbatim>\<open>&mut self\<close> returns the new state. Parts of a long function are definitions
  of their own, in the order of the code. Fixed-width integers are words where they can wrap, otherwise naturals or
  integers. State shared between tasks is the state of a step relation (\<open>gate_step\<close>, \<open>hub_step\<close>, \<open>session_step\<close>) whose
  steps are what the code does under one lock or in one atomic operation.

  \<^bold>\<open>Interfaces.\<close> \<open>prefix_codec\<close> (AMF0 values, chunk headers, interleaved frames), \<open>codec\<close> (RTP packets, NAL streams),
  \<open>inv_system\<close> (rate limiter, budgets, buffer pool, RTSP session, elastic controller), \<open>kv_store\<close> (the hash map),
  \<open>annexb_splitter\<close> (both splitters), \<open>edge_alarm\<close> (camera alarms and sound events). Each is interpreted on the definitions
  of the code, and the properties use the facts of the interpretations.

  \<^bold>\<open>Parameters.\<close> Code outside the sources is an argument: the H.264 codec and the JPEG decoders (\<open>capture_env\<close>), the MP4
  muxers (\<open>recorder_env\<close> for recordings), base64, floating-point arithmetic (\<open>f32_ops\<close>), SQLite (\<open>auth_sql\<close> with \<open>sql_documented\<close>), bcrypt (\<open>bcrypt_ops\<close>),
  the broadcast channel (a sequence of receive events), the connection of the push client. So are clock readings, random bytes, file sizes and the contents of
  files under \<^verbatim>\<open>/proc\<close>. Hypotheses about them are the documented behaviour and are satisfied by the instances of the
  witnesses.

  \<^bold>\<open>Bounds.\<close> Loops are total functions with a measure, or recursion on the input. \<open>run_chunks n\<close> reads \<open>n\<close> chunks, the
  theorems name the number that a message takes; \<open>deliver_run\<close> runs the delivery loop over a finite list of arrivals
  and the ticks of the timer up to a horizon in time; readers of a connection recurse on the bytes left.

  \<^bold>\<open>Not modelled.\<close> Capture devices, sockets, HTTP serving and the JSON bodies of the routes, TLS and encryption: operating
  system and library calls. The inference of the neural networks and their signal processing, the language model runtimes,
  the agents and tool servers: the networks and runtimes are not in the sources. The database module: SQL text run by
  SQLite. The GB28181, GB35114 and ONVIF stacks behind \<^verbatim>\<open>protocol_runtime.rs\<close>: their crates are not in the sources.
  Metrics, tracing and start-up wiring have no state that a property could be about.
\<close>

section \<open>Serving over RTSP\<close>

text \<open>A client that reads \<open>n\<close> interleaved frames off its connection.\<close>

fun read_frames :: "nat \<Rightarrow> bytes \<Rightarrow> ((u8 \<times> bytes) list \<times> bytes) option" where
  "read_frames 0 s = Some ([], s)"
| "read_frames (Suc n) s =
     (case read_frame s of
        None \<Rightarrow> None
      | Some (f, s') \<Rightarrow> map_option (\<lambda>(fs, r). (f # fs, r)) (read_frames n s'))"

lemma read_frames_bytes:
  "\<forall>(c, d) \<in> set fs. length d \<le> 65535 \<Longrightarrow>
   read_frames (length fs) (concat (map frame_bytes fs) @ rest) = Some (fs, rest)"
proof (induction fs)
  case (Cons f fs)
  obtain c d where f: "f = (c, d)" by (cases f)
  then show ?case using Cons read_frame_build [of d c] by auto
qed simp

text \<open>C1. What the hub sends to the RTSP output reaches a viewer intact: the packets the output puts on the channel, broadcast to a
  playing client less than five seconds apart, are read off the connection as one interleaved frame each on the negotiated
  channel, and parsing and reassembling them gives all NAL units in order, with the parameter sets repeated in front of every
  P slice.\<close>

theorem frames_reach_rtsp_client:
  assumes "path \<noteq> []" "\<forall>nal \<in> set (video_data frames). nal_unit_ok nal"
    and "rtsp_run frames (snd (rtsp_start (with_channel path sdp ssrc []))) = (Inr (), out)" "ro_frame_tx out = Some (map snd fs)" and "steady t fs"
    and "deliver_run wall cfg horizon (frame_arrivals fs @ [(last (t # map fst fs), FrameClosed)]) t d = (sent, d')"
  shows "\<exists>packets ps. read_frames (length fs) (concat sent) = Some (packets, []) \<and> (\<forall>f \<in> set packets. fst f = dc_channel cfg)
    \<and> parse_all (map snd packets) = Inr ps \<and> receive [] ps = Some (delivered None None 0 (video_data frames))"
proof -
  obtain ps where ps: "parse_all (map snd fs) = Inr ps" "receive [] ps = Some (delivered None None 0 (video_data frames))"
    and small: "\<forall>pkt \<in> set (map snd fs). length pkt \<le> 1412"
    using rtsp_output_stream [OF assms(1,2), of sdp ssrc] assms(3,4) by auto
  have len: "\<forall>data \<in> set (map snd fs). length data \<le> 65535" using small by auto
  then have "list_all (\<lambda>(a, data). length data \<le> 65535) fs" by (auto simp: list_all_iff)
  then have sent: "sent = map frame_bytes (map (Pair (dc_channel cfg)) (map snd fs))"
    using deliver_frames_end [OF assms(5)] assms(6) by (auto simp: comp_def split_beta)
  let ?packets = "map (Pair (dc_channel cfg)) (map snd fs)"
  have n: "length fs = length ?packets" by simp
  have "read_frames (length fs) (concat sent) = Some (?packets, [])"
    using read_frames_bytes [of ?packets "[]"] len unfolding sent n by auto
  moreover have "\<forall>f \<in> set ?packets. fst f = dc_channel cfg" by simp
  moreover have "parse_all (map snd ?packets) = Inr ps" using ps(1) by (simp add: comp_def)
  ultimately show ?thesis using ps(2) by (intro exI [of _ ?packets] exI [of _ ps] conjI)
qed

definition demo_cfg :: delivery_config where
  "demo_cfg = \<lparr>dc_session_id = [], dc_channel = 2, dc_rtcp_channel = 3, dc_ssrc = 7\<rparr>"

definition demo_frames :: "media_frame list" where
  "demo_frames = [VideoFrame True [0x67, 1] 0, VideoFrame True [0x68, 2] 0, VideoFrame True [0x65, 3] 0, VideoFrame False [0x41, 4] 33]"

theorem frames_reach_rtsp_client_witness:
  "\<exists>out fs sent d' packets ps. rtsp_run demo_frames (snd (rtsp_start (with_channel [99] [] 7 []))) = (Inr (), out) \<and> ro_frame_tx out = Some (map snd fs) \<and>
     deliver_run (\<lambda>t. (t, 0)) demo_cfg 0 (frame_arrivals fs @ [(last (0 # map fst fs), FrameClosed)]) 0 (delivery_new 0 InitState) = (sent, d') \<and>
     read_frames (length fs) (concat sent) = Some (packets, []) \<and> parse_all (map snd packets) = Inr ps \<and>
     map snd (the (receive [] ps)) = [[0x67, 1], [0x68, 2], [0x65, 3], [0x67, 1], [0x68, 2], [0x41, 4]]"
proof -
  have ok: "[99 :: u8] \<noteq> []" "\<forall>nal \<in> set (video_data demo_frames). nal_unit_ok nal" by (simp_all add: demo_frames_def nal_unit_ok_def)
  obtain out tx where o: "rtsp_run demo_frames (snd (rtsp_start (with_channel [99] [] 7 []))) = (Inr (), out)" "ro_frame_tx out = Some tx"
    using rtsp_output_stream [OF ok, of "[]" 7] by auto
  define fs where "fs = map (Pair (0 :: nat)) tx"
  have fs: "ro_frame_tx out = Some (map snd fs)" using o(2) by (simp add: fs_def comp_def)
  have st: "steady 0 fs" unfolding fs_def by (induction tx) simp_all
  obtain sent d' where r: "deliver_run (\<lambda>t. (t, 0)) demo_cfg 0 (frame_arrivals fs @ [(last (0 # map fst fs), FrameClosed)]) 0 (delivery_new 0 InitState) = (sent, d')"
    by fastforce
  obtain packets ps where got: "read_frames (length fs) (concat sent) = Some (packets, [])" "parse_all (map snd packets) = Inr ps"
    "receive [] ps = Some (delivered None None 0 (video_data demo_frames))"
    using frames_reach_rtsp_client [OF ok o(1) fs st r] by (elim exE conjE)
  have "map snd (the (receive [] ps)) = [[0x67, 1], [0x68, 2], [0x65, 3], [0x67, 1], [0x68, 2], [0x41, 4]]"
    unfolding got(3) by (simp add: demo_frames_def set_list_def)
  then show ?thesis using o(1) fs r got(1,2) by (intro exI conjI)
qed

section \<open>From the camera to the browser\<close>

text \<open>
  The camera source as the hub sees it: its frames carry the time at which they are handed out, here \<open>clock k\<close> for the
  \<open>k\<close>-th frame; opening the device is assumed to have succeeded.
\<close>

definition camera_ops :: "'e capture_env \<Rightarrow> (nat \<Rightarrow> u64) \<Rightarrow> (nat \<times> camera_frames \<times> 'e video_source) source_ops" where
  "camera_ops env clock =
     \<lparr>so_start = \<lambda>(k, frames, vs). (Inr (), (k, frames, start_source vs)),
      so_next_frame = \<lambda>(k, frames, vs).
        (case next_frame env frames vs of
           (Inl e, _, frames', vs') \<Rightarrow> (Inl e, (k, frames', vs'))
         | (Inr nal, _, frames', vs') \<Rightarrow> (Inr (VideoFrame (nu_is_keyframe nal) (nu_data nal) (clock k)), (Suc k, frames', vs'))),
      so_stop = \<lambda>(k, frames, vs). (Inr (), (k, frames, stop_source vs))\<rparr>"

definition stamped :: "(nat \<Rightarrow> u64) \<Rightarrow> nat \<Rightarrow> nal_unit list \<Rightarrow> picture list" where
  "stamped clock k units = map (\<lambda>(j, u). (nu_is_keyframe u, nu_data u, clock j)) (enumerate k units)"

lemma source_loop_camera:
  "fst (source_loop (camera_ops env clock) (replicate n False) (k, frames, vs)) =
     map (\<lambda>(key, d, t). VideoFrame key d t) (stamped clock k (pull_units env n frames vs))"
proof (induction n arbitrary: k frames vs)
  case (Suc n)
  obtain r sub frames' vs' where nf: "next_frame env frames vs = (r, sub, frames', vs')" by (metis prod_cases4)
  show ?case using Suc by (cases r) (simp_all add: nf camera_ops_def stamped_def case_prod_beta Let_def)
qed (simp add: stamped_def)

lemma received_frames: "video_frames (map Received (map (\<lambda>(key, d, t). VideoFrame key d t) ps)) = ps"
  by (induction ps) auto

text \<open>C3. From the camera to the browser: the hub starts a camera source and broadcasts whatever \<open>n\<close> calls of \<^verbatim>\<open>next_frame\<close>
  give; a browser that receives every broadcast frame gets the initialisation segment made of the first parameter sets among
  the encoded units, followed by the segments of exactly the coded pictures from there on, in order, each with the time at
  which it was handed out; without parameter sets it gets nothing.\<close>

theorem camera_to_browser:
  "mse_response mux None
     (map Received (fst (source_loop (camera_ops env clock) (replicate n False) (snd (so_start (camera_ops env clock) (0, frames, vs))))) @ [RxClosed]) =
   (let fs = stamped clock 0 (take n (encoded_units env frames (start_source vs)))
    in case (first_index (\<lambda>f. unit_type f = 7) fs, first_index (\<lambda>f. unit_type f = 8) fs) of
         (Some i, Some j) \<Rightarrow> decodable_stream mux (fst (snd (fs ! i))) (fst (snd (fs ! j))) (filter is_picture (drop (max i j) fs))
       | _ \<Rightarrow> [])"
proof -
  let ?vs = "start_source vs"
  define fs where "fs = stamped clock 0 (take n (encoded_units env frames ?vs))"
  have vs: "vs_running ?vs" "vs_pending_nals ?vs = []" by (simp_all add: start_source_def)
  have start: "snd (so_start (camera_ops env clock) (0, frames, vs)) = (0, frames, ?vs)" by (simp add: camera_ops_def)
  have loop: "fst (source_loop (camera_ops env clock) (replicate n False) (0, frames, ?vs)) = map (\<lambda>(key, d, t). VideoFrame key d t) fs"
    using pull_units_take [OF vs(1), of env n frames] by (simp add: source_loop_camera vs(2) fs_def)
  have "\<forall>p \<in> set fs. fst (snd p) \<noteq> []"
    by (auto simp: fs_def stamped_def in_set_enumerate_eq dest!: nth_mem in_set_takeD encoded_units_nonempty)
  then show ?thesis
    unfolding start loop fs_def [symmetric]
    using mse_response_units [of "map Received (map (\<lambda>(key, d, t). VideoFrame key d t) fs)" mux]
    by (simp only: received_frames) (auto simp: image_iff)
qed

end
